(* ===== verification/Coplus_Prelude.thy ===== *)
theory Coplus_Prelude
  imports Main "HOL-Library.Word" "HOL-Library.Multiset"
begin

text \<open>
  Shared vocabulary of the development: the outcome of a C++ operation whose behaviour may be
  undefined, array accesses with their bounds written out, the conversion of \<open>int\<close> to
  \<open>size_t\<close>, slices of a ring buffer, the retry loop \<open>while(--retry && !f())\<close> that the
  queue code repeats, and the interfaces (locales) that the components promise to one another.
\<close>

section \<open>Collections of rewrite rules\<close>

named_theorems outcome_simps \<open>evaluation of outcomes and array accesses\<close>
named_theorems ring_simps \<open>slices of a ring buffer\<close>

section \<open>Machine integers\<close>

type_synonym u32 = "32 word"

text \<open>The usual arithmetic conversion of an \<open>int\<close> operand compared with a \<open>size_t\<close>.\<close>

definition size_t_of_int :: "int \<Rightarrow> nat" where
  "size_t_of_int i = nat (i mod 2 ^ 64)"

lemma size_t_of_int_nonneg [simp]:
  "0 \<le> i \<Longrightarrow> i < 2 ^ 64 \<Longrightarrow> size_t_of_int i = nat i"
  by (simp add: size_t_of_int_def)

lemma size_t_of_int_neg:
  assumes "i < 0" "- (2 ^ 31) \<le> i"
  shows "size_t_of_int i = nat (2 ^ 64 + i)"
proof -
  have "i mod 2 ^ 64 = (i + 2 ^ 64) mod 2 ^ 64" by simp
  also have "\<dots> = i + 2 ^ 64" using assms by (intro mod_pos_pos_trivial) auto
  finally show ?thesis by (simp add: size_t_of_int_def add.commute)
qed

text \<open>Conversions to narrower signed types keep the low bits.\<close>

definition to_int16 :: "int \<Rightarrow> int" where
  "to_int16 i = (i + 2 ^ 15) mod 2 ^ 16 - 2 ^ 15"

definition to_int32 :: "int \<Rightarrow> int" where
  "to_int32 i = (i + 2 ^ 31) mod 2 ^ 32 - 2 ^ 31"

lemma to_int16_id: "- (2 ^ 15) \<le> i \<Longrightarrow> i < 2 ^ 15 \<Longrightarrow> to_int16 i = i"
  by (simp add: to_int16_def)

lemma to_int16_wraps: "to_int16 (i + 2 ^ 16) = to_int16 i"
  unfolding to_int16_def add.assoc add.commute [of "2 ^ 16" "2 ^ 15"] by (simp only: add.assoc [symmetric] mod_add_self2)

lemma to_int32_id: "- (2 ^ 31) \<le> i \<Longrightarrow> i < 2 ^ 31 \<Longrightarrow> to_int32 i = i"
  by (simp add: to_int32_def)

lemma to_int32_wraps: "to_int32 (i + 2 ^ 32) = to_int32 i"
  unfolding to_int32_def add.assoc add.commute [of "2 ^ 32" "2 ^ 31"] by (simp only: add.assoc [symmetric] mod_add_self2)

section \<open>Outcomes: a value, or undefined behaviour\<close>

datatype 'a outcome = Value 'a | Undefined

fun obind :: "'a outcome \<Rightarrow> ('a \<Rightarrow> 'b outcome) \<Rightarrow> 'b outcome" where
  "obind (Value x) f = f x"
| "obind Undefined f = Undefined"

lemma obind_eq_Value [simp]:
  "obind m f = Value y \<longleftrightarrow> (\<exists>x. m = Value x \<and> f x = Value y)"
  by (cases m) auto

lemma obind_cong [fundef_cong]:
  "m = m' \<Longrightarrow> (\<And>x. m' = Value x \<Longrightarrow> f x = g x) \<Longrightarrow> obind m f = obind m' g"
  by (cases m) auto

lemma obind_assoc: "obind (obind m f) g = obind m (\<lambda>x. obind (f x) g)"
  by (cases m) auto

text \<open>Reading and writing an array by an \<open>int\<close> index: out of range is undefined behaviour.\<close>

definition vec_get :: "'a list \<Rightarrow> int \<Rightarrow> 'a outcome" where
  "vec_get xs i = (if 0 \<le> i \<and> i < int (length xs) then Value (xs ! nat i) else Undefined)"

definition vec_set :: "'a list \<Rightarrow> int \<Rightarrow> 'a \<Rightarrow> 'a list outcome" where
  "vec_set xs i x = (if 0 \<le> i \<and> i < int (length xs) then Value (xs[nat i := x]) else Undefined)"

lemma vec_get_in [simp, outcome_simps]:
  "0 \<le> i \<Longrightarrow> i < int (length xs) \<Longrightarrow> vec_get xs i = Value (xs ! nat i)"
  by (simp add: vec_get_def)

lemma vec_set_in [simp, outcome_simps]:
  "0 \<le> i \<Longrightarrow> i < int (length xs) \<Longrightarrow> vec_set xs i x = Value (xs[nat i := x])"
  by (simp add: vec_set_def)

lemma vec_get_out [outcome_simps]:
  "i < 0 \<or> int (length xs) \<le> i \<Longrightarrow> vec_get xs i = Undefined"
  by (auto simp: vec_get_def)

section \<open>Slices of a ring buffer\<close>

definition ring_slice :: "'a list \<Rightarrow> nat \<Rightarrow> nat \<Rightarrow> 'a list" where
  "ring_slice r h k = map (\<lambda>i. r ! ((h + i) mod length r)) [0..<k]"

lemma length_ring_slice [simp, ring_simps]: "length (ring_slice r h k) = k"
  by (simp add: ring_slice_def)

lemma ring_slice_0 [simp, ring_simps]: "ring_slice r h 0 = []"
  by (simp add: ring_slice_def)

lemma ring_slice_mod [ring_simps]: "ring_slice r (h mod length r) k = ring_slice r h k"
  by (simp add: ring_slice_def mod_add_left_eq)

lemma ring_slice_Suc:
  "ring_slice r h (Suc k) = r ! (h mod length r) # ring_slice r (Suc h) k"
proof -
  have "[0..<Suc k] = 0 # map Suc [0..<k]"
    by (simp only: map_Suc_upt upt_conv_Cons [OF zero_less_Suc])
  then show ?thesis by (simp add: ring_slice_def del: upt_Suc)
qed

lemma ring_index_neq:
  fixes h i k n :: nat
  assumes "i < k" "k < n"
  shows "(h + i) mod n \<noteq> (h + k) mod n"
proof
  assume "(h + i) mod n = (h + k) mod n"
  then have "n dvd (h + k) - (h + i)"
    using assms by (subst (asm) eq_commute, subst (asm) mod_eq_dvd_iff_nat) auto
  then have "n dvd k - i" by simp
  moreover have "0 < k - i" "k - i < n" using assms by auto
  ultimately show False by (auto dest: dvd_imp_le)
qed

lemma ring_slice_snoc:
  assumes "k < length r"
  shows "ring_slice (r[(h + k) mod length r := x]) h (Suc k) = ring_slice r h k @ [x]"
proof -
  have "(h + k) mod length r < length r" using assms by (intro mod_less_divisor) auto
  moreover have neq: "(h + i) mod length r \<noteq> (h + k) mod length r" if "i < k" for i
    using that assms by (rule ring_index_neq)
  then have "map (\<lambda>i. r[(h + k) mod length r := x] ! ((h + i) mod length r)) [0..<k]
      = map (\<lambda>i. r ! ((h + i) mod length r)) [0..<k]"
    by (intro map_cong refl nth_list_update_neq) (metis atLeastLessThan_iff set_upt)
  ultimately show ?thesis by (simp add: ring_slice_def)
qed

lemma ring_slice_rotate1:
  "0 < length r \<Longrightarrow> ring_slice r (Suc h) (length r) = rotate1 (ring_slice r h (length r))"
proof -
  assume "0 < length r"
  then obtain k where k: "length r = Suc k" by (cases "length r") auto
  have last: "ring_slice r (Suc h) (Suc k) = ring_slice r (Suc h) k @ [r ! ((Suc h + k) mod length r)]"
    by (simp add: ring_slice_def)
  have "(Suc h + k) mod length r = h mod length r"
    by (simp only: k add_Suc add_Suc_right [symmetric] mod_add_self2)
  then show ?thesis using last by (simp add: k ring_slice_Suc)
qed

lemma mset_rotate1_eq [simp]: "mset (rotate1 xs) = mset xs"
  by (cases xs) auto

section \<open>The retry loop\<close>

text \<open>
  \<open>int retry = n; while(--retry && !f()) { }\<close>, with the value of \<open>retry\<close> at the exit: zero when
  every attempt failed. The loop is entered with \<open>n = kProducerRetry = 10\<close> only, so the counter
  never starts at zero.
\<close>

fun retry :: "('s \<Rightarrow> (bool \<times> 's) outcome) \<Rightarrow> nat \<Rightarrow> 's \<Rightarrow> (nat \<times> 's) outcome" where
  "retry f 0 s = Value (0, s)"
| "retry f (Suc n) s =
     (if n = 0 then Value (0, s)
      else obind (f s) (\<lambda>(ok, s'). if ok then Value (n, s') else retry f n s'))"

lemma retry_first:
  "f s = Value (True, s') \<Longrightarrow> 0 < n \<Longrightarrow> retry f (Suc n) s = Value (n, s')"
  by simp

lemma retry_all_fail:
  assumes "\<And>s. P s \<Longrightarrow> \<exists>s'. f s = Value (False, s') \<and> P s'" "P s"
  shows "\<exists>s'. retry f n s = Value (0, s') \<and> P s'"
  using assms(2)
proof (induction n arbitrary: s)
  case 0
  then show ?case by simp
next
  case (Suc n)
  show ?case
  proof (cases "n = 0")
    case True
    with Suc.prems show ?thesis by simp
  next
    case False
    obtain s' where "f s = Value (False, s')" "P s'" using assms(1) [OF Suc.prems] by blast
    with Suc.IH [of s'] False show ?thesis by simp
  qed
qed

text \<open>The same with a budget of attempts: what one attempt may use up is counted down.\<close>

lemma retry_all_fail_bounded:
  assumes "\<And>n s. P (Suc n) s \<Longrightarrow> \<exists>s'. f s = Value (False, s') \<and> P n s'" "P n s"
  shows "\<exists>m s'. retry f n s = Value (0, s') \<and> P m s'"
  using assms(2)
proof (induction n arbitrary: s)
  case 0
  then show ?case by auto
next
  case (Suc n)
  show ?case
  proof (cases "n = 0")
    case True
    with Suc.prems show ?thesis by auto
  next
    case False
    obtain s' where "f s = Value (False, s')" "P n s'" using assms(1) [OF Suc.prems] by blast
    with Suc.IH [of s'] False show ?thesis by simp
  qed
qed

text \<open>Whatever every attempt keeps, the loop keeps; and it never adds undefined behaviour.\<close>

lemma retry_invariant:
  assumes "\<And>s. P s \<Longrightarrow> \<exists>ok s'. f s = Value (ok, s') \<and> P s'" "P s"
  shows "\<exists>k s'. retry f n s = Value (k, s') \<and> P s'"
  using assms(2)
proof (induction n arbitrary: s)
  case 0
  then show ?case by simp
next
  case (Suc n)
  obtain ok s' where "f s = Value (ok, s')" "P s'" using assms(1) [OF Suc.prems] by blast
  with Suc.IH [of s'] Suc.prems show ?case by simp
qed

section \<open>Interfaces: bounded bags and bounded FIFO queues\<close>

text \<open>
  A client's run over a queue: each operation in turn, collecting the accepted pushes and the popped
  elements.
\<close>

datatype 'a queue_op = Enq 'a | Deq

fun run_ops :: "('q \<Rightarrow> 'a \<Rightarrow> (bool \<times> 'q) outcome) \<Rightarrow> ('q \<Rightarrow> ('a option \<times> 'q) outcome) \<Rightarrow> 'q \<Rightarrow>
    'a queue_op list \<Rightarrow> ('a list \<times> 'a list \<times> 'q) outcome" where
  "run_ops push pop q [] = Value ([], [], q)"
| "run_ops push pop q (Enq x # ops) =
     obind (push q x) (\<lambda>(ok, q'). obind (run_ops push pop q' ops) (\<lambda>(acc, out, q'').
       Value (if ok then x # acc else acc, out, q'')))"
| "run_ops push pop q (Deq # ops) =
     obind (pop q) (\<lambda>(r, q'). obind (run_ops push pop q' ops) (\<lambda>(acc, out, q'').
       Value (acc, case r of None \<Rightarrow> out | Some x \<Rightarrow> x # out, q'')))"

locale bounded_bag =
  fixes push :: "'q \<Rightarrow> 'a \<Rightarrow> (bool \<times> 'q) outcome"
    and pop :: "'q \<Rightarrow> ('a option \<times> 'q) outcome"
    and invar :: "'q \<Rightarrow> bool"
    and items :: "'q \<Rightarrow> 'a list"
    and cap :: "'q \<Rightarrow> nat"
  assumes push_room: "invar q \<Longrightarrow> length (items q) < cap q \<Longrightarrow>
      \<exists>q'. push q x = Value (True, q') \<and> invar q' \<and> cap q' = cap q
        \<and> mset (items q') = add_mset x (mset (items q))"
    and push_full: "invar q \<Longrightarrow> cap q \<le> length (items q) \<Longrightarrow>
      \<exists>q'. push q x = Value (False, q') \<and> invar q' \<and> cap q' = cap q \<and> items q' = items q"
    and pop_some: "invar q \<Longrightarrow> items q \<noteq> [] \<Longrightarrow>
      \<exists>x q'. pop q = Value (Some x, q') \<and> invar q' \<and> cap q' = cap q
        \<and> mset (items q) = add_mset x (mset (items q'))"
    and pop_empty: "invar q \<Longrightarrow> items q = [] \<Longrightarrow>
      \<exists>q'. pop q = Value (None, q') \<and> invar q' \<and> cap q' = cap q \<and> items q' = []"
begin

lemma push_cases [consumes 1, case_names room full]:
  assumes "invar q"
  obtains (room) q' where "push q x = Value (True, q')" "invar q'" "cap q' = cap q"
      "length (items q) < cap q" "mset (items q') = add_mset x (mset (items q))"
  | (full) q' where "push q x = Value (False, q')" "invar q'" "cap q' = cap q"
      "cap q \<le> length (items q)" "items q' = items q"
  using push_room [OF assms, of x] push_full [OF assms, of x] by (meson not_le)

lemma pop_cases [consumes 1, case_names some empty]:
  assumes "invar q"
  obtains (some) x q' where "pop q = Value (Some x, q')" "invar q'" "cap q' = cap q"
      "mset (items q) = add_mset x (mset (items q'))"
  | (empty) q' where "pop q = Value (None, q')" "invar q'" "cap q' = cap q"
      "items q = []" "items q' = []"
  using pop_some [OF assms] pop_empty [OF assms] by blast

text \<open>No element is lost, duplicated or made up by any run.\<close>

lemma run_conserves:
  "invar q \<Longrightarrow> \<exists>acc out q'. run_ops push pop q ops = Value (acc, out, q') \<and> invar q' \<and>
     mset acc + mset (items q) = mset out + mset (items q')"
proof (induction ops arbitrary: q)
  case Nil
  then show ?case by simp
next
  case (Cons a ops)
  show ?case
  proof (cases a)
    case (Enq x)
    from Cons.prems show ?thesis
    proof (cases rule: push_cases [where x = x])
      case (room q')
      with Cons.IH [of q'] show ?thesis by (fastforce simp: Enq)
    next
      case (full q')
      with Cons.IH [of q'] show ?thesis by (fastforce simp: Enq)
    qed
  next
    case Deq
    from Cons.prems show ?thesis
    proof (cases rule: pop_cases)
      case (some x q')
      with Cons.IH [of q'] show ?thesis by (fastforce simp: Deq)
    next
      case (empty q')
      with Cons.IH [of q'] show ?thesis by (fastforce simp: Deq)
    qed
  qed
qed

text \<open>A full queue stays full under retries; a queue with room takes the element at the first one.\<close>

lemma retry_push_room:
  assumes "invar q" "length (items q) < cap q" "0 < n"
  shows "\<exists>q'. retry (\<lambda>q. push q x) (Suc n) q = Value (n, q') \<and> invar q' \<and> cap q' = cap q
    \<and> mset (items q') = add_mset x (mset (items q))"
  using push_room [OF assms(1,2), of x] assms(3) by force

lemma retry_push_full:
  assumes "invar q" "cap q \<le> length (items q)"
  shows "\<exists>q'. retry (\<lambda>q. push q x) n q = Value (0, q') \<and> invar q' \<and> cap q' = cap q \<and> items q' = items q"
proof -
  let ?P = "\<lambda>p. invar p \<and> cap p = cap q \<and> items p = items q"
  have "\<exists>p'. push p x = Value (False, p') \<and> ?P p'" if "?P p" for p
    using that push_full [of p x] assms(2) by auto
  then show ?thesis
    using retry_all_fail [where P = ?P and f = "\<lambda>q. push q x" and s = q and n = n] assms by auto
qed

end

locale bounded_fifo =
  fixes push :: "'q \<Rightarrow> 'a \<Rightarrow> (bool \<times> 'q) outcome"
    and pop :: "'q \<Rightarrow> ('a option \<times> 'q) outcome"
    and invar :: "'q \<Rightarrow> bool"
    and items :: "'q \<Rightarrow> 'a list"
    and cap :: "'q \<Rightarrow> nat"
  assumes fifo_push_room: "invar q \<Longrightarrow> length (items q) < cap q \<Longrightarrow>
      \<exists>q'. push q x = Value (True, q') \<and> invar q' \<and> cap q' = cap q \<and> items q' = items q @ [x]"
    and fifo_push_full: "invar q \<Longrightarrow> cap q \<le> length (items q) \<Longrightarrow>
      \<exists>q'. push q x = Value (False, q') \<and> invar q' \<and> cap q' = cap q \<and> items q' = items q"
    and fifo_pop_some: "invar q \<Longrightarrow> items q = x # xs \<Longrightarrow>
      \<exists>q'. pop q = Value (Some x, q') \<and> invar q' \<and> cap q' = cap q \<and> items q' = xs"
    and fifo_pop_empty: "invar q \<Longrightarrow> items q = [] \<Longrightarrow>
      \<exists>q'. pop q = Value (None, q') \<and> invar q' \<and> cap q' = cap q \<and> items q' = []"

sublocale bounded_fifo \<subseteq> bounded_bag
proof unfold_locales
  fix q x
  assume "invar q" "length (items q) < cap q"
  from fifo_push_room [OF this, of x] show "\<exists>q'. push q x = Value (True, q') \<and> invar q' \<and>
      cap q' = cap q \<and> mset (items q') = add_mset x (mset (items q))" by auto
next
  fix q x
  assume "invar q" "cap q \<le> length (items q)"
  then show "\<exists>q'. push q x = Value (False, q') \<and> invar q' \<and> cap q' = cap q \<and> items q' = items q"
    by (rule fifo_push_full)
next
  fix q
  assume "invar q" "items q \<noteq> []"
  then obtain x xs where "items q = x # xs" by (cases "items q") auto
  from fifo_pop_some [OF \<open>invar q\<close> this] this show "\<exists>x q'. pop q = Value (Some x, q') \<and> invar q' \<and>
      cap q' = cap q \<and> mset (items q) = add_mset x (mset (items q'))" by auto
next
  fix q
  assume "invar q" "items q = []"
  then show "\<exists>q'. pop q = Value (None, q') \<and> invar q' \<and> cap q' = cap q \<and> items q' = []"
    by (rule fifo_pop_empty)
qed

context bounded_fifo
begin

text \<open>First in, first out, over any run: what came out, then what is left, is what was there, then
  what was accepted.\<close>

lemma run_fifo:
  "invar q \<Longrightarrow> \<exists>acc out q'. run_ops push pop q ops = Value (acc, out, q') \<and> invar q' \<and>
     items q @ acc = out @ items q'"
proof (induction ops arbitrary: q)
  case Nil
  then show ?case by simp
next
  case (Cons a ops)
  show ?case
  proof (cases a)
    case (Enq x)
    show ?thesis
    proof (cases "length (items q) < cap q")
      case True
      from fifo_push_room [OF Cons.prems True, of x] obtain q' where
        "push q x = Value (True, q')" "invar q'" "items q' = items q @ [x]" by blast
      with Cons.IH [of q'] show ?thesis by (fastforce simp: Enq)
    next
      case False
      from fifo_push_full [OF Cons.prems, of x] False obtain q' where
        "push q x = Value (False, q')" "invar q'" "items q' = items q" by auto
      with Cons.IH [of q'] show ?thesis by (fastforce simp: Enq)
    qed
  next
    case Deq
    show ?thesis
    proof (cases "items q = []")
      case True
      from fifo_pop_empty [OF Cons.prems True] obtain q' where
        "pop q = Value (None, q')" "invar q'" "items q' = []" by blast
      with Cons.IH [of q'] True show ?thesis by (fastforce simp: Deq)
    next
      case False
      then obtain x xs where xs: "items q = x # xs" by (cases "items q") auto
      from fifo_pop_some [OF Cons.prems xs] obtain q' where
        "pop q = Value (Some x, q')" "invar q'" "items q' = xs" by blast
      with Cons.IH [of q'] xs show ?thesis by (fastforce simp: Deq)
    qed
  qed
qed

end

section \<open>Interface: a push-only store addressed by tokens\<close>

text \<open>
  \<open>holds s xs\<close>: the store has seen the pushes \<open>xs\<close>, in this order; those beyond the capacity were
  refused. The token of an accepted push is its position.
\<close>

fun push_all :: "('s \<Rightarrow> 'a \<Rightarrow> int \<times> 's) \<Rightarrow> 's \<Rightarrow> 'a list \<Rightarrow> 's" where
  "push_all push s [] = s"
| "push_all push s (x # xs) = push_all push (snd (push s x)) xs"

locale token_store =
  fixes push :: "'s \<Rightarrow> 'a \<Rightarrow> int \<times> 's"
    and get :: "'s \<Rightarrow> int \<Rightarrow> 'a option option outcome"
    and holds :: "'s \<Rightarrow> 'a list \<Rightarrow> bool"
    and cap :: "'s \<Rightarrow> nat"
  assumes push_law: "holds s xs \<Longrightarrow> Suc (length xs) < 2 ^ 32 \<Longrightarrow>
      \<exists>s'. push s x = (if length xs < cap s then int (length xs) else -1, s') \<and>
        holds s' (xs @ [x]) \<and> cap s' = cap s"
    and get_law: "holds s xs \<Longrightarrow> i < length xs \<Longrightarrow> i < cap s \<Longrightarrow> get s (int i) = Value (Some (Some (xs ! i)))"
    and get_neg_law: "holds s xs \<Longrightarrow> get s (- 1) = Value None"
begin

lemma push_all_holds:
  assumes "holds s xs" "length xs + length ys < 2 ^ 32"
  shows "holds (push_all push s ys) (xs @ ys) \<and> cap (push_all push s ys) = cap s"
  using assms
proof (induction ys arbitrary: s xs)
  case Nil
  then show ?case by simp
next
  case (Cons y ys)
  from push_law [of s xs y] Cons.prems obtain s' where
    "snd (push s y) = s'" "holds s' (xs @ [y])" "cap s' = cap s" by fastforce
  with Cons.IH [of s' "xs @ [y]"] Cons.prems show ?case by simp
qed

text \<open>A token keeps naming its element, however many pushes follow.\<close>

lemma get_after_pushes:
  assumes "holds s xs" "length xs + length (y # ys) < 2 ^ 32" "length xs < cap s"
  shows "fst (push s y) = int (length xs) \<and>
    get (push_all push (snd (push s y)) ys) (fst (push s y)) = Value (Some (Some y))"
proof -
  from push_law [of s xs y] assms obtain s' where
    s': "push s y = (int (length xs), s')" "holds s' (xs @ [y])" "cap s' = cap s" by fastforce
  with push_all_holds [of s' "xs @ [y]" ys] assms(2)
  have "holds (push_all push s' ys) (xs @ [y] @ ys) \<and> cap (push_all push s' ys) = cap s" by simp
  with get_law [of "push_all push s' ys" "xs @ [y] @ ys" "length xs"] assms(3) s' show ?thesis
    by (simp add: nth_append)
qed

end

end
