(* ===== verification/Slow_Queue.thy ===== *)
theory Slow_Queue
  imports Coplus_Prelude
begin

text \<open>
  \<open>SlowQueue\<close> of \<open>include/coplus/fast_queue.h\<close>: a ring of \<open>max_size\<close> slots under one
  mutex. Every operation runs under the lock from its first to its last statement, so each is one
  atomic function on the state.
\<close>

record 'a slow_queue =
  sq_max_size :: int
  sq_ring :: "'a list"
  sq_head :: int
  sq_tail :: int

definition sq_new :: "'a \<Rightarrow> nat \<Rightarrow> 'a slow_queue" where
  "sq_new dflt maxSize = \<lparr>sq_max_size = int maxSize, sq_ring = replicate maxSize dflt,
     sq_head = 0, sq_tail = 0\<rparr>"

definition sq_pop :: "'a slow_queue \<Rightarrow> ('a option \<times> 'a slow_queue) outcome" where
  "sq_pop q =
     (if sq_head q = sq_tail q \<and> sq_tail q = 0 then Value (None, q)
      else
        let slot = sq_head q;
            head' = (if sq_head q = sq_max_size q - 1 then 0 else sq_head q + 1);
            q' = (if head' = sq_tail q then q\<lparr>sq_head := 0, sq_tail := 0\<rparr> else q\<lparr>sq_head := head'\<rparr>)
        in obind (vec_get (sq_ring q) slot) (\<lambda>ret. Value (Some ret, q')))"

definition sq_push :: "'a slow_queue \<Rightarrow> 'a \<Rightarrow> (bool \<times> 'a slow_queue) outcome" where
  "sq_push q item =
     (if sq_head q = sq_tail q then
        if sq_head q = 0 then
          obind (vec_set (sq_ring q) 0 item) (\<lambda>ring'.
            Value (True, q\<lparr>sq_tail := sq_tail q + 1, sq_ring := ring'\<rparr>))
        else Value (False, q)
      else
        obind (vec_set (sq_ring q) (sq_tail q) item) (\<lambda>ring'.
          let tail' = (if sq_tail q = sq_max_size q - 1 then 0 else sq_tail q + 1) in
          if sq_head q = tail' \<and> tail' = 0
          then Value (True, q\<lparr>sq_ring := ring', sq_head := 1, sq_tail := 1\<rparr>)
          else Value (True, q\<lparr>sq_ring := ring', sq_tail := tail'\<rparr>)))"

definition sq_size :: "'a slow_queue \<Rightarrow> int" where
  "sq_size q =
     (if sq_head q = sq_tail q \<and> sq_tail q = 0 then 0
      else if sq_head q = sq_tail q then sq_max_size q
      else if sq_head q > sq_tail q then sq_tail q - sq_head q + sq_max_size q
      else sq_tail q - sq_head q)"

section \<open>Abstraction: the queued elements, oldest slot first\<close>

definition sq_items :: "'a slow_queue \<Rightarrow> 'a list" where
  "sq_items q = ring_slice (sq_ring q) (nat (sq_head q)) (nat (sq_size q))"

definition sq_invar :: "'a slow_queue \<Rightarrow> bool" where
  "sq_invar q \<longleftrightarrow> 2 \<le> sq_max_size q \<and> length (sq_ring q) = nat (sq_max_size q) \<and>
     0 \<le> sq_head q \<and> sq_head q < sq_max_size q \<and> 0 \<le> sq_tail q \<and> sq_tail q < sq_max_size q"

definition sq_cap :: "'a slow_queue \<Rightarrow> nat" where
  "sq_cap q = nat (sq_max_size q)"

lemma sq_size_bounds: "sq_invar q \<Longrightarrow> 0 \<le> sq_size q \<and> sq_size q \<le> sq_max_size q"
  by (auto simp: sq_invar_def sq_size_def)

lemma length_sq_items: "length (sq_items q) = nat (sq_size q)"
  by (simp add: sq_items_def)

lemma sq_items_Nil_iff: "sq_invar q \<Longrightarrow> sq_items q = [] \<longleftrightarrow> sq_head q = 0 \<and> sq_tail q = 0"
  using length_sq_items [of q] by (auto simp: sq_invar_def sq_size_def split: if_splits)

lemma sq_full_iff: "sq_invar q \<Longrightarrow> sq_cap q \<le> length (sq_items q) \<longleftrightarrow> sq_head q = sq_tail q \<and> sq_head q \<noteq> 0"
  by (auto simp: sq_invar_def sq_size_def length_sq_items sq_cap_def)

text \<open>The slot a push writes is the one after the last queued element.\<close>

lemma sq_tail_index:
  assumes "sq_invar q" "sq_head q \<noteq> sq_tail q"
  shows "nat (sq_tail q) = (nat (sq_head q) + nat (sq_size q)) mod length (sq_ring q)"
proof (cases "sq_head q < sq_tail q")
  case True
  with assms show ?thesis by (auto simp: sq_invar_def sq_size_def nat_add_distrib [symmetric])
next
  case False
  with assms have "nat (sq_head q) + nat (sq_size q) = nat (sq_tail q) + length (sq_ring q)"
    by (auto simp: sq_invar_def sq_size_def)
  with assms show ?thesis by (auto simp: sq_invar_def)
qed

lemma sq_push_empty:
  assumes "sq_invar q" "sq_head q = 0" "sq_tail q = 0"
  shows "\<exists>q'. sq_push q x = Value (True, q') \<and> sq_invar q' \<and> sq_max_size q' = sq_max_size q \<and> sq_items q' = [x]"
proof -
  let ?q' = "q\<lparr>sq_tail := 1, sq_ring := (sq_ring q)[0 := x]\<rparr>"
  have "sq_push q x = Value (True, ?q')"
    using assms by (simp add: sq_push_def sq_invar_def)
  moreover have "sq_invar ?q'" using assms by (simp add: sq_invar_def)
  moreover have "sq_items ?q' = [x]"
    using assms by (simp add: sq_items_def sq_size_def ring_slice_def sq_invar_def)
  ultimately show ?thesis by auto
qed

lemma sq_push_wrap:
  assumes "sq_invar q" "sq_head q = 0" "sq_tail q = sq_max_size q - 1"
  shows "\<exists>q'. sq_push q x = Value (True, q') \<and> sq_invar q' \<and> sq_max_size q' = sq_max_size q \<and>
    sq_items q' = rotate1 (sq_items q @ [x])"
proof -
  let ?ring = "(sq_ring q)[nat (sq_tail q) := x]"
  let ?q' = "q\<lparr>sq_ring := ?ring, sq_head := 1, sq_tail := 1\<rparr>"
  have inv: "2 \<le> sq_max_size q" "length (sq_ring q) = nat (sq_max_size q)"
    using assms by (auto simp: sq_invar_def)
  have neq: "sq_head q \<noteq> sq_tail q" using assms inv by auto
  have push: "sq_push q x = Value (True, ?q')"
    using assms inv neq by (simp add: sq_push_def)
  have k: "nat (sq_size q) < length (sq_ring q)" "length ?ring = Suc (nat (sq_size q))"
    using assms inv by (auto simp: sq_size_def)
  have "ring_slice ?ring 0 (length ?ring) = sq_items q @ [x]"
    using ring_slice_snoc [OF k(1), of 0 x] sq_tail_index [OF assms(1) neq] k(2) assms(2)
    by (simp add: sq_items_def)
  moreover have "sq_items ?q' = ring_slice ?ring 1 (length ?ring)"
    using inv by (simp add: sq_items_def sq_size_def)
  ultimately have "sq_items ?q' = rotate1 (sq_items q @ [x])"
    using ring_slice_rotate1 [of ?ring 0] inv by simp
  with push inv show ?thesis by (auto simp: sq_invar_def)
qed

lemma sq_push_snoc:
  assumes "sq_invar q" "sq_head q \<noteq> sq_tail q" "\<not> (sq_head q = 0 \<and> sq_tail q = sq_max_size q - 1)"
  shows "\<exists>q'. sq_push q x = Value (True, q') \<and> sq_invar q' \<and> sq_max_size q' = sq_max_size q \<and>
    sq_items q' = sq_items q @ [x]"
proof -
  define tail' where "tail' = (if sq_tail q = sq_max_size q - 1 then 0 else sq_tail q + 1)"
  define q' where "q' = q\<lparr>sq_ring := (sq_ring q)[nat (sq_tail q) := x], sq_tail := tail'\<rparr>"
  have inv: "2 \<le> sq_max_size q" "length (sq_ring q) = nat (sq_max_size q)" "0 \<le> sq_head q"
    "sq_head q < sq_max_size q" "0 \<le> sq_tail q" "sq_tail q < sq_max_size q"
    using assms(1) by (auto simp: sq_invar_def)
  have set: "vec_set (sq_ring q) (sq_tail q) x = Value ((sq_ring q)[nat (sq_tail q) := x])"
    using inv by simp
  have "\<not> (sq_head q = tail' \<and> tail' = 0)" using assms(2,3) inv(5)
    by (cases "sq_tail q = sq_max_size q - 1") (simp_all add: tail'_def)
  then have push: "sq_push q x = Value (True, q')"
    unfolding sq_push_def set q'_def tail'_def [symmetric] using assms(2) by (auto simp: Let_def)
  have inv': "sq_invar q'" using inv by (auto simp: sq_invar_def q'_def tail'_def)
  have "sq_size q' = sq_size q + 1"
    using assms(2,3) inv
    by (cases "sq_tail q = sq_max_size q - 1") (auto simp: sq_size_def q'_def tail'_def)
  then have size: "nat (sq_size q') = Suc (nat (sq_size q))"
    using sq_size_bounds [OF assms(1)] by linarith
  have k: "nat (sq_size q) < length (sq_ring q)"
    using inv assms(2) by (auto simp: sq_size_def)
  have "sq_items q' = ring_slice ((sq_ring q)[nat (sq_tail q) := x]) (nat (sq_head q)) (Suc (nat (sq_size q)))"
    by (simp add: sq_items_def size) (simp add: q'_def)
  also have "\<dots> = sq_items q @ [x]"
    unfolding sq_tail_index [OF assms(1,2)] sq_items_def by (rule ring_slice_snoc [OF k])
  finally have "sq_items q' = sq_items q @ [x]" .
  with push inv' show ?thesis by (auto simp: q'_def)
qed

lemma sq_push_full:
  "sq_head q = sq_tail q \<Longrightarrow> sq_head q \<noteq> 0 \<Longrightarrow> sq_push q x = Value (False, q)"
  by (simp add: sq_push_def)

lemma sq_pop_Cons:
  assumes "sq_invar q" "sq_items q = x # xs"
  shows "\<exists>q'. sq_pop q = Value (Some x, q') \<and> sq_invar q' \<and> sq_max_size q' = sq_max_size q \<and> sq_items q' = xs"
proof -
  have inv: "2 \<le> sq_max_size q" "length (sq_ring q) = nat (sq_max_size q)" "0 \<le> sq_head q"
    "sq_head q < sq_max_size q" "0 \<le> sq_tail q" "sq_tail q < sq_max_size q"
    using assms(1) by (auto simp: sq_invar_def)
  have ne: "\<not> (sq_head q = sq_tail q \<and> sq_tail q = 0)"
    using assms by (auto simp: sq_items_def sq_size_def)
  define head' where "head' = (if sq_head q = sq_max_size q - 1 then 0 else sq_head q + 1)"
  define q' where "q' = (if head' = sq_tail q then q\<lparr>sq_head := 0, sq_tail := 0\<rparr> else q\<lparr>sq_head := head'\<rparr>)"
  have k: "nat (sq_size q) = Suc (nat (sq_size q'))"
    using inv ne by (auto simp: sq_size_def q'_def head'_def)
  have hd': "nat head' = Suc (nat (sq_head q)) mod length (sq_ring q)"
  proof (cases "sq_head q = sq_max_size q - 1")
    case True
    then have "Suc (nat (sq_head q)) = length (sq_ring q)" using inv by simp
    with True show ?thesis by (simp add: head'_def)
  next
    case False
    with inv show ?thesis by (simp add: head'_def nat_add_distrib)
  qed
  have items: "sq_items q = sq_ring q ! nat (sq_head q) # ring_slice (sq_ring q) (nat head') (nat (sq_size q'))"
    unfolding sq_items_def k ring_slice_Suc hd' ring_slice_mod using inv by simp
  have "sq_items q' = xs"
    using items assms(2) by (auto simp: sq_items_def q'_def sq_size_def)
  moreover have "sq_pop q = Value (Some x, q')"
    using ne inv items assms(2) by (simp add: sq_pop_def Let_def q'_def head'_def)
  moreover have "sq_invar q'" using inv by (auto simp: sq_invar_def q'_def head'_def)
  moreover have "sq_max_size q' = sq_max_size q" by (simp add: q'_def)
  ultimately show ?thesis by blast
qed

lemma sq_pop_Nil: "sq_head q = 0 \<Longrightarrow> sq_tail q = 0 \<Longrightarrow> sq_pop q = Value (None, q)"
  by (simp add: sq_pop_def)

lemma sq_invar_new: "2 \<le> n \<Longrightarrow> sq_invar (sq_new d n)"
  by (simp add: sq_invar_def sq_new_def)

lemma sq_items_new [simp]: "sq_items (sq_new d n) = []"
  by (simp add: sq_items_def sq_size_def sq_new_def)

lemma sq_cap_new [simp]: "sq_cap (sq_new d n) = n"
  by (simp add: sq_cap_def sq_new_def)

section \<open>The queue as a bounded bag\<close>

lemma sq_push_room:
  assumes "sq_invar q" "length (sq_items q) < sq_cap q"
  shows "\<exists>q'. sq_push q x = Value (True, q') \<and> sq_invar q' \<and> sq_max_size q' = sq_max_size q \<and>
    sq_items q' = (if sq_head q = 0 \<and> sq_tail q = sq_max_size q - 1
      then rotate1 (sq_items q @ [x]) else sq_items q @ [x])"
proof (cases "sq_head q = sq_tail q")
  case True
  with assms have "sq_head q = 0" "sq_tail q = 0" using sq_full_iff [OF assms(1)] by auto
  moreover from this have "sq_items q = []" using sq_items_Nil_iff [OF assms(1)] by simp
  ultimately show ?thesis using sq_push_empty [OF assms(1), of x] assms(1) by (auto simp: sq_invar_def)
next
  case False
  then show ?thesis using sq_push_wrap [OF assms(1), of x] sq_push_snoc [OF assms(1), of x] by auto
qed

interpretation sq: bounded_bag sq_push sq_pop sq_invar sq_items sq_cap
proof unfold_locales
  fix q :: "'a slow_queue" and x :: 'a
  assume "sq_invar q" "length (sq_items q) < sq_cap q"
  from sq_push_room [OF this, of x] show "\<exists>q'. sq_push q x = Value (True, q') \<and> sq_invar q' \<and>
      sq_cap q' = sq_cap q \<and> mset (sq_items q') = add_mset x (mset (sq_items q))"
    by (auto simp: sq_cap_def split: if_splits)
next
  fix q :: "'a slow_queue" and x :: 'a
  assume "sq_invar q" "sq_cap q \<le> length (sq_items q)"
  then show "\<exists>q'. sq_push q x = Value (False, q') \<and> sq_invar q' \<and> sq_cap q' = sq_cap q \<and> sq_items q' = sq_items q"
    using sq_full_iff [of q] by (auto simp: sq_push_full)
next
  fix q :: "'a slow_queue"
  assume inv: "sq_invar q" and "sq_items q \<noteq> []"
  then obtain x xs where "sq_items q = x # xs" by (cases "sq_items q") auto
  with sq_pop_Cons [OF inv this] show "\<exists>x q'. sq_pop q = Value (Some x, q') \<and> sq_invar q' \<and>
      sq_cap q' = sq_cap q \<and> mset (sq_items q) = add_mset x (mset (sq_items q'))"
    by (auto simp: sq_cap_def)
next
  fix q :: "'a slow_queue"
  assume "sq_invar q" "sq_items q = []"
  then show "\<exists>q'. sq_pop q = Value (None, q') \<and> sq_invar q' \<and> sq_cap q' = sq_cap q \<and> sq_items q' = []"
    using sq_items_Nil_iff [of q] by (auto simp: sq_pop_Nil)
qed

section \<open>Properties\<close>

text \<open>
  On a well-formed queue \<open>push\<close> is always defined, accepts exactly when fewer than
  \<open>max_size\<close> elements are queued, keeps the ring well-formed, and appends the element at the end,
  except that the push which fills a ring whose head is slot 0 also rotates the order by one (the code
  moves \<open>head = tail = 1\<close> there, because \<open>head = tail = 0\<close> means empty).
\<close>

lemma sq_push_spec:
  assumes "sq_invar q"
  shows "\<exists>q'. sq_push q x = Value (sq_size q < sq_max_size q, q') \<and> sq_invar q' \<and>
    sq_items q' =
      (if \<not> sq_size q < sq_max_size q then sq_items q
       else if sq_head q = 0 \<and> sq_size q = sq_max_size q - 1 then rotate1 (sq_items q @ [x])
       else sq_items q @ [x])"
proof (cases "length (sq_items q) < sq_cap q")
  case True
  with assms have lt: "sq_size q < sq_max_size q" by (simp add: length_sq_items sq_cap_def)
  have "sq_size q = sq_max_size q - 1 \<longleftrightarrow> sq_tail q = sq_max_size q - 1" if "sq_head q = 0"
    using that assms by (auto simp: sq_size_def sq_invar_def)
  with sq_push_room [OF assms True, of x] lt show ?thesis by auto
next
  case False
  then have "sq_head q = sq_tail q" "sq_head q \<noteq> 0" using sq_full_iff [OF assms] by auto
  moreover from this have "sq_size q = sq_max_size q" by (simp add: sq_size_def)
  ultimately show ?thesis using assms by (simp add: sq_push_full)
qed

text \<open>
  On a well-formed queue \<open>pop\<close> is always defined, fails exactly on the empty queue,
  and otherwise removes the element in the oldest slot.
\<close>

lemma sq_pop_spec:
  assumes "sq_invar q"
  shows "\<exists>q'. sq_pop q = Value (case sq_items q of [] \<Rightarrow> None | x # _ \<Rightarrow> Some x, q') \<and> sq_invar q' \<and>
    sq_items q' = tl (sq_items q)"
proof (cases "sq_items q")
  case Nil
  with assms show ?thesis using sq_items_Nil_iff [OF assms] by (simp add: sq_pop_Nil)
next
  case (Cons x xs)
  with sq_pop_Cons [OF assms Cons] show ?thesis by auto
qed

text \<open>
  Over any sequence of pushes and pops nothing is lost, duplicated or made up: the
  accepted elements and the initial contents are, as multisets, the popped elements and the final
  contents. No access of the ring is out of range on the way.
\<close>

lemma sq_run_conserves:
  assumes "sq_invar q"
  shows "\<exists>acc out q'. run_ops sq_push sq_pop q ops = Value (acc, out, q') \<and> sq_invar q' \<and>
    mset acc + mset (sq_items q) = mset out + mset (sq_items q')"
  using assms by (rule sq.run_conserves)

text \<open>
  The queue is not first in, first out: filled from empty with 1, 2, 3 (capacity
  3), it returns 2, 3, 1.
\<close>

lemma sq_fill_rotates:
  "\<exists>q'. run_ops sq_push sq_pop (sq_new (0::int) 3) [Enq 1, Enq 2, Enq 3, Deq, Deq, Deq]
     = Value ([1, 2, 3], [2, 3, 1], q') \<and> sq_items q' = []"
  by (simp add: sq_push_def sq_pop_def sq_new_def vec_set_def vec_get_def Let_def sq_items_def sq_size_def)

text \<open>
  A queue of capacity one is broken: the first push is accepted, the second writes
  \<open>ring[1]\<close>, outside the vector, and pops go on returning the element for ever.
\<close>

lemma sq_capacity_one:
  "\<exists>q1. sq_push (sq_new d 1) a = Value (True, q1) \<and> sq_push q1 b = Undefined \<and> sq_pop q1 = Value (Some a, q1)"
  by (simp add: sq_push_def sq_pop_def sq_new_def vec_set_def vec_get_def Let_def)

end
