(* ===== verification/Local_Queue.thy ===== *)
theory Local_Queue
  imports Coplus_Prelude
begin

text \<open>
  \<open>FastLocalQueue\<close> of \<open>include/coplus/fast_queue.h\<close>, run one operation at a time: eight
  \<open>uint32_t\<close> counters that only ever grow (and wrap), and an array of \<open>QueueSize\<close> slots.
  The interleaved executions of the same operations are in \<open>Local_Queue_Conc\<close>.
\<close>

record 'a local_queue =
  lq_enqueue_count :: u32
  lq_enqueue_revoke :: u32
  lq_dequeue_count :: u32
  lq_dequeue_revoke :: u32
  lq_head :: u32
  lq_tail :: u32
  lq_head_fast :: u32
  lq_tail_fast :: u32
  lq_data :: "'a list"

text \<open>The template parameter \<open>QueueSize\<close> is the length of the array.\<close>

definition lq_new :: "'a \<Rightarrow> nat \<Rightarrow> 'a local_queue" where
  "lq_new dflt queueSize = \<lparr>lq_enqueue_count = 0, lq_enqueue_revoke = 0, lq_dequeue_count = 0,
     lq_dequeue_revoke = 0, lq_head = 0, lq_tail = 0, lq_head_fast = 0, lq_tail_fast = 0,
     lq_data = replicate queueSize dflt\<rparr>"

definition lq_push :: "'a local_queue \<Rightarrow> 'a \<Rightarrow> bool \<times> 'a local_queue" where
  "lq_push q item =
     (let enq_revoke = lq_enqueue_revoke q;
          enq = lq_enqueue_count q + 1;
          q = q\<lparr>lq_enqueue_count := enq\<rparr>
      in if unat ((enq - enq_revoke) - lq_head q) > length (lq_data q)
         then (False, q\<lparr>lq_enqueue_revoke := lq_enqueue_revoke q + 1\<rparr>)
         else
           let slot = unat (lq_tail_fast q) mod length (lq_data q);
               q = q\<lparr>lq_tail_fast := lq_tail_fast q + 1\<rparr>;
               q = q\<lparr>lq_data := (lq_data q)[slot := item]\<rparr>
           in (True, q\<lparr>lq_tail := lq_tail q + 1\<rparr>))"

definition lq_pop :: "'a local_queue \<Rightarrow> 'a option \<times> 'a local_queue" where
  "lq_pop q =
     (let deq_revoke = lq_dequeue_revoke q;
          deq = lq_dequeue_count q + 1;
          q = q\<lparr>lq_dequeue_count := deq\<rparr>
      in if lq_tail q - (deq - deq_revoke) > 2147483647
         then (None, q\<lparr>lq_dequeue_revoke := lq_dequeue_revoke q + 1\<rparr>)
         else
           let slot = unat (lq_head_fast q) mod length (lq_data q);
               q = q\<lparr>lq_head_fast := lq_head_fast q + 1\<rparr>;
               ret = lq_data q ! slot
           in (Some ret, q\<lparr>lq_head := lq_head q + 1\<rparr>))"

definition lq_size :: "'a local_queue \<Rightarrow> nat" where
  "lq_size q = unat (lq_tail q - lq_head q)"

section \<open>Abstraction and invariant\<close>

definition lq_cap :: "'a local_queue \<Rightarrow> nat" where
  "lq_cap q = length (lq_data q)"

definition lq_items :: "'a local_queue \<Rightarrow> 'a list" where
  "lq_items q = ring_slice (lq_data q) (unat (lq_head q)) (lq_size q)"

text \<open>
  The counters are read modulo \<open>2 ^ 32\<close> throughout, so that the invariant survives their
  wrap-around; the slot of a counter value is consistent across the wrap only when the queue size
  divides \<open>2 ^ 32\<close>, as \<open>kLocalQueueSize = 32\<close> does.
\<close>

definition lq_invar :: "'a local_queue \<Rightarrow> bool" where
  "lq_invar q \<longleftrightarrow> 0 < lq_cap q \<and> lq_cap q \<le> 2 ^ 31 \<and> lq_cap q dvd 2 ^ 32 \<and> lq_size q \<le> lq_cap q \<and>
     lq_enqueue_count q - lq_enqueue_revoke q = lq_tail q \<and> lq_tail_fast q = lq_tail q \<and>
     lq_dequeue_count q - lq_dequeue_revoke q = lq_head q \<and> lq_head_fast q = lq_head q"

lemma length_lq_items [simp]: "length (lq_items q) = lq_size q"
  by (simp add: lq_items_def)

lemma lq_invar_new: "0 < n \<Longrightarrow> n \<le> 2 ^ 31 \<Longrightarrow> n dvd 2 ^ 32 \<Longrightarrow> lq_invar (lq_new d n)"
  by (simp add: lq_invar_def lq_new_def lq_cap_def lq_size_def)

lemma lq_items_new [simp]: "lq_items (lq_new d n) = []"
  by (simp add: lq_items_def lq_size_def lq_new_def)

lemma lq_cap_new [simp]: "lq_cap (lq_new d n) = n"
  by (simp add: lq_cap_def lq_new_def)

subsection \<open>Counters modulo the queue size\<close>

lemma unat_add_mod:
  assumes "n dvd 2 ^ 32"
  shows "unat (a + b :: u32) mod n = (unat a + unat b) mod n"
  using assms by (simp add: unat_word_ariths mod_mod_cancel)

lemma lq_tail_slot:
  assumes "lq_invar q"
  shows "unat (lq_tail q) mod lq_cap q = (unat (lq_head q) + lq_size q) mod lq_cap q"
  using unat_add_mod [of "lq_cap q" "lq_head q" "lq_tail q - lq_head q"] assms
  by (simp add: lq_invar_def lq_size_def)

lemma unat_succ: "unat a < 2 ^ 32 - 1 \<Longrightarrow> unat (a + 1 :: u32) = unat a + 1"
  by (simp add: unat_word_ariths)

lemma unat_pred: "0 < unat a \<Longrightarrow> unat (a - 1 :: u32) = unat a - 1"
  by (simp add: unat_minus_one unat_gt_0)

text \<open>The two admission tests, read on the number of queued elements.\<close>

lemma lq_push_test:
  assumes "lq_invar q"
  shows "unat ((lq_enqueue_count q + 1 - lq_enqueue_revoke q) - lq_head q) = lq_size q + 1"
proof -
  have "lq_enqueue_count q + 1 - lq_enqueue_revoke q - lq_head q = (lq_tail q - lq_head q) + 1"
    using assms by (simp add: lq_invar_def algebra_simps)
  moreover have "unat (lq_tail q - lq_head q) < 2 ^ 32 - 1"
    using assms by (simp add: lq_invar_def lq_size_def)
  ultimately show ?thesis by (simp only: unat_succ lq_size_def)
qed

lemma lq_pop_test:
  assumes "lq_invar q"
  shows "lq_tail q - (lq_dequeue_count q + 1 - lq_dequeue_revoke q) > 2147483647 \<longleftrightarrow> lq_size q = 0"
proof -
  have eq: "lq_tail q - (lq_dequeue_count q + 1 - lq_dequeue_revoke q) = (lq_tail q - lq_head q) - 1"
    using assms by (auto simp: lq_invar_def algebra_simps)
  show ?thesis
  proof (cases "lq_size q = 0")
    case True
    then have "lq_tail q - lq_head q = 0" by (simp add: lq_size_def unat_eq_zero)
    with True show ?thesis unfolding eq by simp
  next
    case False
    then have "unat (lq_tail q - lq_head q - 1) = lq_size q - 1"
      by (simp add: lq_size_def unat_pred)
    moreover have "lq_size q \<le> 2147483648" using assms by (simp add: lq_invar_def)
    ultimately have "unat (lq_tail q - lq_head q - 1) \<le> 2147483647" by linarith
    with False show ?thesis unfolding eq by (simp add: word_less_nat_alt)
  qed
qed

section \<open>The two operations on the queued elements\<close>

lemma lq_push_room:
  assumes "lq_invar q" "lq_size q < lq_cap q"
  shows "\<exists>q'. lq_push q x = (True, q') \<and> lq_invar q' \<and> lq_cap q' = lq_cap q \<and> lq_items q' = lq_items q @ [x]"
proof -
  define slot where "slot = unat (lq_tail_fast q) mod lq_cap q"
  define q' where "q' = q\<lparr>lq_enqueue_count := lq_enqueue_count q + 1,
    lq_tail_fast := lq_tail_fast q + 1, lq_data := (lq_data q)[slot := x], lq_tail := lq_tail q + 1\<rparr>"
  have push: "lq_push q x = (True, q')"
    using lq_push_test [OF assms(1)] assms(2) by (simp add: lq_push_def q'_def slot_def lq_cap_def)
  have cap: "lq_cap q' = lq_cap q" by (simp add: lq_cap_def q'_def)
  have "lq_tail q' - lq_head q' = (lq_tail q - lq_head q) + 1" by (simp add: q'_def)
  then have size: "lq_size q' = Suc (lq_size q)"
    using assms by (simp add: lq_size_def lq_invar_def unat_succ)
  have inv: "lq_invar q'"
    using assms size by (simp add: lq_invar_def cap) (simp add: q'_def algebra_simps)
  have slot: "slot = (unat (lq_head q) + lq_size q) mod length (lq_data q)"
    using lq_tail_slot [OF assms(1)] assms(1) by (simp add: slot_def lq_invar_def lq_cap_def)
  have "lq_items q' = ring_slice ((lq_data q)[slot := x]) (unat (lq_head q)) (Suc (lq_size q))"
    by (simp add: lq_items_def size) (simp add: q'_def)
  also have "\<dots> = lq_items q @ [x]"
    unfolding slot lq_items_def using assms(2) by (intro ring_slice_snoc) (simp add: lq_cap_def)
  finally show ?thesis using push inv cap by blast
qed

lemma lq_push_full:
  assumes "lq_invar q" "lq_cap q \<le> lq_size q"
  shows "\<exists>q'. lq_push q x = (False, q') \<and> lq_invar q' \<and> lq_cap q' = lq_cap q \<and> lq_items q' = lq_items q"
proof -
  define q' where "q' = q\<lparr>lq_enqueue_count := lq_enqueue_count q + 1,
    lq_enqueue_revoke := lq_enqueue_revoke q + 1\<rparr>"
  have "lq_push q x = (False, q')"
    using lq_push_test [OF assms(1)] assms(2) by (simp add: lq_push_def q'_def lq_cap_def)
  moreover have "lq_invar q'" "lq_cap q' = lq_cap q" "lq_items q' = lq_items q"
    using assms by (auto simp: lq_invar_def lq_items_def lq_size_def lq_cap_def q'_def)
  ultimately show ?thesis by blast
qed

lemma lq_pop_some:
  assumes "lq_invar q" "lq_items q = x # xs"
  shows "\<exists>q'. lq_pop q = (Some x, q') \<and> lq_invar q' \<and> lq_cap q' = lq_cap q \<and> lq_items q' = xs"
proof -
  define q' where "q' = q\<lparr>lq_dequeue_count := lq_dequeue_count q + 1,
    lq_head_fast := lq_head_fast q + 1, lq_head := lq_head q + 1\<rparr>"
  have ne: "0 < lq_size q" using assms(2) length_lq_items [of q] by simp
  have cap: "lq_cap q' = lq_cap q" by (simp add: lq_cap_def q'_def)
  have "lq_tail q' - lq_head q' = (lq_tail q - lq_head q) - 1" by (simp add: q'_def)
  then have size: "lq_size q = Suc (lq_size q')" using ne by (simp add: lq_size_def unat_pred)
  have inv: "lq_invar q'" using assms(1) size by (simp add: lq_invar_def cap) (simp add: q'_def algebra_simps)
  have dvd: "lq_cap q dvd 2 ^ 32" using assms(1) by (simp add: lq_invar_def)
  have "ring_slice (lq_data q) (unat (lq_head q + 1)) (lq_size q')
      = ring_slice (lq_data q) (Suc (unat (lq_head q))) (lq_size q')"
    using unat_add_mod [OF dvd, of "lq_head q" 1] ring_slice_mod [of "lq_data q" "unat (lq_head q + 1)" "lq_size q'"]
      ring_slice_mod [of "lq_data q" "Suc (unat (lq_head q))" "lq_size q'"]
    by (simp add: lq_cap_def)
  then have "lq_items q' = ring_slice (lq_data q) (Suc (unat (lq_head q))) (lq_size q')"
    by (simp add: lq_items_def) (simp add: q'_def)
  then have items: "lq_items q = lq_data q ! (unat (lq_head q) mod length (lq_data q)) # lq_items q'"
    by (simp add: lq_items_def [of q] size ring_slice_Suc)
  have "lq_pop q = (Some x, q')"
    using lq_pop_test [OF assms(1)] ne items assms by (simp add: lq_pop_def q'_def lq_invar_def)
  with inv cap items assms(2) show ?thesis by auto
qed

lemma lq_pop_empty:
  assumes "lq_invar q" "lq_items q = []"
  shows "\<exists>q'. lq_pop q = (None, q') \<and> lq_invar q' \<and> lq_cap q' = lq_cap q \<and> lq_items q' = []"
proof -
  define q' where "q' = q\<lparr>lq_dequeue_count := lq_dequeue_count q + 1,
    lq_dequeue_revoke := lq_dequeue_revoke q + 1\<rparr>"
  have "lq_size q = 0" using assms(2) length_lq_items [of q] by simp
  then have "lq_pop q = (None, q')"
    using lq_pop_test [OF assms(1)] by (simp add: lq_pop_def q'_def)
  moreover have "lq_invar q'" "lq_cap q' = lq_cap q" "lq_items q' = []"
    using assms by (auto simp: lq_invar_def lq_items_def lq_size_def lq_cap_def q'_def)
  ultimately show ?thesis by blast
qed

section \<open>The queue as a bounded FIFO queue\<close>

text \<open>Neither operation has undefined behaviour of its own: the slot is always taken modulo the size.\<close>

definition lq_push_o :: "'a local_queue \<Rightarrow> 'a \<Rightarrow> (bool \<times> 'a local_queue) outcome" where
  "lq_push_o q x = Value (lq_push q x)"

definition lq_pop_o :: "'a local_queue \<Rightarrow> ('a option \<times> 'a local_queue) outcome" where
  "lq_pop_o q = Value (lq_pop q)"

interpretation lq: bounded_fifo lq_push_o lq_pop_o lq_invar lq_items lq_cap
proof unfold_locales
qed (use lq_push_room lq_push_full lq_pop_some lq_pop_empty in \<open>auto simp: lq_push_o_def lq_pop_o_def\<close>)

section \<open>Properties\<close>

text \<open>
  Run alone, the queue is a bounded first-in-first-out queue for ever, across every
  wrap-around of its counters: over any sequence of pushes and pops, the initial elements followed by
  the accepted ones are the popped ones followed by those still queued.
\<close>

lemma lq_run_fifo:
  assumes "lq_invar q"
  shows "\<exists>acc out q'. run_ops lq_push_o lq_pop_o q ops = Value (acc, out, q') \<and> lq_invar q' \<and>
    lq_items q @ acc = out @ lq_items q'"
  using assms by (rule lq.run_fifo)

text \<open>
  \<open>push\<close> accepts exactly when \<open>size() < QueueSize\<close>; accepted or refused, it
  keeps the counters consistent, and a refusal leaves the queued elements alone.
\<close>

lemma lq_push_spec:
  assumes "lq_invar q"
  shows "\<exists>q'. lq_push q x = (lq_size q < lq_cap q, q') \<and> lq_invar q' \<and>
    lq_items q' = (if lq_size q < lq_cap q then lq_items q @ [x] else lq_items q)"
  using lq_push_room [OF assms, of x] lq_push_full [OF assms, of x]
  by (cases "lq_size q < lq_cap q") auto

text \<open>
  \<open>pop\<close> returns the oldest element, and fails exactly when \<open>size() = 0\<close>; the
  unsigned comparison with \<open>2147483647\<close> decides emptiness at every value of the counters.
\<close>

lemma lq_pop_spec:
  assumes "lq_invar q"
  shows "\<exists>q'. lq_pop q = (if lq_size q = 0 then None else Some (hd (lq_items q)), q') \<and> lq_invar q' \<and>
    lq_items q' = tl (lq_items q)"
proof (cases "lq_items q")
  case Nil
  with length_lq_items [of q] have "lq_size q = 0" by simp
  with lq_pop_empty [OF assms Nil] Nil show ?thesis by auto
next
  case (Cons x xs)
  with length_lq_items [of q] have "lq_size q \<noteq> 0" by (metis length_0_conv list.distinct(1))
  with lq_pop_some [OF assms Cons] Cons show ?thesis by auto
qed

text \<open>
  The queue size must divide \<open>2 ^ 32\<close>: with three slots and every counter about to
  wrap (at \<open>2 ^ 32 - 1\<close>), two accepted elements land in the same slot, so that the first is lost and
  the second comes out twice.
\<close>

lemma lq_wrap_needs_divisor:
  "\<exists>q'. run_ops lq_push_o lq_pop_o
      ((lq_new (0::int) 3)\<lparr>lq_enqueue_count := 4294967295, lq_dequeue_count := 4294967295,
        lq_head := 4294967295, lq_tail := 4294967295, lq_head_fast := 4294967295, lq_tail_fast := 4294967295\<rparr>) [Enq 10, Enq 20, Deq, Deq]
    = Value ([10, 20], [20, 20], q')"
  by (simp add: lq_push_o_def lq_pop_o_def lq_push_def lq_pop_def lq_new_def Let_def)

end
