(* ===== verification/Push_Stack.thy ===== *)
theory Push_Stack
  imports Coplus_Prelude
begin

text \<open>
  \<open>PushOnlyFastStack\<close> of \<open>include/coplus/fast_queue.h\<close> and its specialisation for
  \<open>std::unique_ptr\<close>, one operation at a time: an array of pointers to segments of \<open>unitSize\<close>
  elements, allocated on demand, and an atomic counter that hands out slots. A null segment pointer is
  \<open>None\<close>; an element that no push has written is \<open>None\<close> in its segment (a default-constructed
  smart pointer, in both uses the program makes of the class).
\<close>

record 'a push_stack =
  ps_stacks :: "'a option list option list"
  ps_end :: u32
  ps_max_size :: nat
  ps_unit :: nat

definition ps_new :: "nat \<Rightarrow> nat \<Rightarrow> 'a push_stack" where
  "ps_new maxSize unitSize = \<lparr>ps_stacks = replicate ((maxSize + unitSize - 1) div unitSize) None,
     ps_end = 0, ps_max_size = maxSize, ps_unit = unitSize\<rparr>"

definition ps_get :: "'a push_stack \<Rightarrow> int \<Rightarrow> 'a option option outcome" where
  "ps_get s token =
     (if size_t_of_int token > ps_max_size s then Value None
      else
        let mainSlot = size_t_of_int token div ps_unit s;
            subSlot = token - int (mainSlot * ps_unit s)
        in obind (vec_get (ps_stacks s) (int mainSlot)) (\<lambda>oldStack.
          case oldStack of
            None \<Rightarrow> Value None
          | Some cells \<Rightarrow> obind (vec_get cells subSlot) (\<lambda>ret. Value (Some ret))))"

text \<open>
  The slot comes from the atomic increment and is refused when it is beyond \<open>max_size\<close> (the
  comparison is unsigned); the compare-and-swap that installs a new segment always succeeds here.
\<close>

definition ps_push :: "'a push_stack \<Rightarrow> 'a \<Rightarrow> int \<times> 'a push_stack" where
  "ps_push s newItem =
     (let slot = sint (ps_end s);
          s = s\<lparr>ps_end := ps_end s + 1\<rparr>
      in if size_t_of_int slot \<ge> ps_max_size s then (-1, s)
         else
           let mainSlot = size_t_of_int slot div ps_unit s;
               subSlot = nat slot - mainSlot * ps_unit s;
               oldStack = (case ps_stacks s ! mainSlot of
                   None \<Rightarrow> replicate (ps_unit s) None
                 | Some cells \<Rightarrow> cells)
           in (slot, s\<lparr>ps_stacks := (ps_stacks s)[mainSlot := Some (oldStack[subSlot := Some newItem])]\<rparr>))"

definition ps_size :: "'a push_stack \<Rightarrow> int" where
  "ps_size s = sint (ps_end s)"

subsection \<open>The specialisation for owning pointers\<close>

text \<open>
  The same stack of \<open>std::unique_ptr\<close>: \<open>get\<close> hands out the raw pointer, and storing into an element
  deletes the object it owned before. The third component of a push is what it deletes; the fourth
  component of the push of an owner is what stays with the caller.
\<close>

definition up_get :: "'p push_stack \<Rightarrow> int \<Rightarrow> 'p option option outcome" where
  "up_get s token =
     (if size_t_of_int token > ps_max_size s then Value None
      else
        let mainSlot = size_t_of_int token div ps_unit s;
            subSlot = token - int (mainSlot * ps_unit s)
        in obind (vec_get (ps_stacks s) (int mainSlot)) (\<lambda>oldStack.
          case oldStack of
            None \<Rightarrow> Value None
          | Some cells \<Rightarrow> obind (vec_get cells subSlot) (\<lambda>owner. Value (Some owner))))"

definition up_push :: "'p push_stack \<Rightarrow> 'p \<Rightarrow> int \<times> 'p push_stack \<times> 'p option" where
  "up_push s newItem =
     (let slot = sint (ps_end s);
          s = s\<lparr>ps_end := ps_end s + 1\<rparr>
      in if size_t_of_int slot \<ge> ps_max_size s then (-1, s, None)
         else
           let mainSlot = size_t_of_int slot div ps_unit s;
               subSlot = nat slot - mainSlot * ps_unit s;
               oldStack = (case ps_stacks s ! mainSlot of
                   None \<Rightarrow> replicate (ps_unit s) None
                 | Some cells \<Rightarrow> cells)
           in (slot, s\<lparr>ps_stacks := (ps_stacks s)[mainSlot := Some (oldStack[subSlot := Some newItem])]\<rparr>,
               oldStack ! subSlot))"

definition up_push_owner :: "'p push_stack \<Rightarrow> 'p option \<Rightarrow> int \<times> 'p push_stack \<times> 'p option \<times> 'p option" where
  "up_push_owner s newItem =
     (let slot = sint (ps_end s);
          s = s\<lparr>ps_end := ps_end s + 1\<rparr>
      in if size_t_of_int slot \<ge> ps_max_size s then (-1, s, None, newItem)
         else
           let mainSlot = size_t_of_int slot div ps_unit s;
               subSlot = nat slot - mainSlot * ps_unit s;
               oldStack = (case ps_stacks s ! mainSlot of
                   None \<Rightarrow> replicate (ps_unit s) None
                 | Some cells \<Rightarrow> cells)
           in (slot, s\<lparr>ps_stacks := (ps_stacks s)[mainSlot := Some (oldStack[subSlot := newItem])]\<rparr>,
               oldStack ! subSlot, None))"

text \<open>The destructor: the objects deleted, in order (\<open>delete[]\<close> destroys an array from its end).\<close>

definition up_destroy :: "'p push_stack \<Rightarrow> 'p list" where
  "up_destroy s = concat (map (\<lambda>seg. case seg of None \<Rightarrow> [] | Some cells \<Rightarrow> rev (List.map_filter (\<lambda>c. c) cells))
     (ps_stacks s))"

section \<open>What the stack holds\<close>

definition ps_cell :: "'a push_stack \<Rightarrow> nat \<Rightarrow> 'a option" where
  "ps_cell s i = (case ps_stacks s ! (i div ps_unit s) of None \<Rightarrow> None | Some cells \<Rightarrow> cells ! (i mod ps_unit s))"

definition ps_shape :: "'a push_stack \<Rightarrow> bool" where
  "ps_shape s \<longleftrightarrow> 0 < ps_unit s \<and> ps_max_size s < 2 ^ 31 \<and>
     length (ps_stacks s) = (ps_max_size s + ps_unit s - 1) div ps_unit s \<and>
     (\<forall>cells. Some cells \<in> set (ps_stacks s) \<longrightarrow> length cells = ps_unit s)"

definition ps_holds :: "'a push_stack \<Rightarrow> 'a list \<Rightarrow> bool" where
  "ps_holds s xs \<longleftrightarrow> ps_shape s \<and> length xs < 2 ^ 32 \<and> ps_end s = of_nat (length xs) \<and>
     (\<forall>i < length (ps_stacks s) * ps_unit s.
        ps_cell s i = (if i < length xs \<and> i < ps_max_size s then Some (xs ! i) else None))"

lemma ps_cell_end [simp]: "ps_cell (s\<lparr>ps_end := e\<rparr>) i = ps_cell s i"
  by (simp add: ps_cell_def split: option.split)

lemma ps_shape_end [simp]: "ps_shape (s\<lparr>ps_end := e\<rparr>) = ps_shape s"
  by (simp add: ps_shape_def)

text \<open>The segment table covers exactly the slots below \<open>max_size\<close>.\<close>

lemma segment_in_range:
  assumes "0 < u" "i < (m::nat)"
  shows "i div u < (m + u - 1) div u"
proof -
  have "i div u + 1 = (i + u) div u" using assms(1) by (simp add: div_add_self2)
  also have "\<dots> \<le> (m + u - 1) div u" using assms by (intro div_le_mono) auto
  finally show ?thesis by simp
qed

lemma ps_slot_in_range:
  "ps_shape s \<Longrightarrow> i < ps_max_size s \<Longrightarrow> i div ps_unit s < length (ps_stacks s)"
  using segment_in_range [of "ps_unit s" i "ps_max_size s"] by (simp add: ps_shape_def)

lemma ps_slot_below_table:
  assumes "ps_shape s" "i < ps_max_size s"
  shows "i < length (ps_stacks s) * ps_unit s"
  using ps_slot_in_range [OF assms] assms(1) by (simp add: ps_shape_def div_less_iff_less_mult)

lemma ps_holds_new: "0 < u \<Longrightarrow> m < 2 ^ 31 \<Longrightarrow> ps_holds (ps_new m u) []"
  by (auto simp: ps_holds_def ps_shape_def ps_new_def ps_cell_def div_less_iff_less_mult split: option.splits)

subsection \<open>The counter as a signed integer\<close>

lemma sint_u32_eq: "sint (of_nat k :: u32) = (int k + 2 ^ 31) mod 2 ^ 32 - 2 ^ 31"
  using int_word_sint [where 'a = 32, of "int k"] by simp

lemma sint_u32_of_nat: "k < 2 ^ 31 \<Longrightarrow> sint (of_nat k :: u32) = int k"
  by (simp add: sint_u32_eq)

lemma sint_u32_neg:
  assumes "2 ^ 31 \<le> k" "k < 2 ^ 32"
  shows "sint (of_nat k :: u32) = int k - 2 ^ 32"
proof -
  have "(int k + 2 ^ 31) mod 2 ^ 32 = (int k + 2 ^ 31 - 2 ^ 32) mod 2 ^ 32"
    by (simp only: minus_mod_self2)
  also have "\<dots> = int k + 2 ^ 31 - 2 ^ 32" using assms by (intro mod_pos_pos_trivial) auto
  finally show ?thesis by (simp only: sint_u32_eq)
qed

lemma slot_test:
  assumes "k < 2 ^ 32" "m < 2 ^ 31"
  shows "size_t_of_int (sint (of_nat k :: u32)) \<ge> m \<longleftrightarrow> m \<le> k"
proof (cases "k < 2 ^ 31")
  case True
  then show ?thesis by (simp add: sint_u32_of_nat)
next
  case False
  with assms(1) have "sint (of_nat k :: u32) = int k - 2 ^ 32" by (simp add: sint_u32_neg)
  with False assms show ?thesis by (simp add: size_t_of_int_neg)
qed

section \<open>The two operations\<close>

lemma ps_push_refused:
  assumes "ps_holds s xs" "Suc (length xs) < 2 ^ 32" "ps_max_size s \<le> length xs"
  shows "ps_push s x = (-1, s\<lparr>ps_end := ps_end s + 1\<rparr>) \<and> ps_holds (s\<lparr>ps_end := ps_end s + 1\<rparr>) (xs @ [x])"
proof
  have "size_t_of_int (sint (ps_end s)) \<ge> ps_max_size s"
    using slot_test [of "length xs" "ps_max_size s"] assms by (simp add: ps_holds_def ps_shape_def)
  then show "ps_push s x = (-1, s\<lparr>ps_end := ps_end s + 1\<rparr>)" by (simp add: ps_push_def)
  show "ps_holds (s\<lparr>ps_end := ps_end s + 1\<rparr>) (xs @ [x])"
    using assms by (auto simp: ps_holds_def nth_append add.commute)
qed

text \<open>Writing one slot changes that slot only, whether or not its segment had to be allocated.\<close>

definition ps_write :: "'a push_stack \<Rightarrow> nat \<Rightarrow> 'a \<Rightarrow> 'a push_stack" where
  "ps_write s k x =
     (let cells = (case ps_stacks s ! (k div ps_unit s) of None \<Rightarrow> replicate (ps_unit s) None | Some cells \<Rightarrow> cells)
      in s\<lparr>ps_stacks := (ps_stacks s)[k div ps_unit s := Some (cells[k mod ps_unit s := Some x])]\<rparr>)"

lemma ps_write_shape: "ps_shape s \<Longrightarrow> k < ps_max_size s \<Longrightarrow> ps_shape (ps_write s k x)"
  using ps_slot_in_range [of s k]
  by (fastforce simp: ps_shape_def ps_write_def Let_def in_set_conv_nth nth_list_update split: option.splits if_splits)

lemma ps_write_cell:
  assumes "ps_shape s" "k < ps_max_size s"
  shows "ps_cell (ps_write s k x) i = (if i = k then Some x else ps_cell s i)"
proof -
  let ?u = "ps_unit s" and ?m = "k div ps_unit s"
  have u: "0 < ?u" "?m < length (ps_stacks s)" using assms ps_slot_in_range [of s k] by (auto simp: ps_shape_def)
  have len: "length cells = ?u" if "ps_stacks s ! ?m = Some cells" for cells
    using assms(1) u that by (metis nth_mem ps_shape_def)
  have "i = k \<longleftrightarrow> i div ?u = ?m \<and> i mod ?u = k mod ?u" by (metis div_mult_mod_eq)
  then show ?thesis using u len
    by (cases "ps_stacks s ! ?m"; cases "i div ?u = ?m") (auto simp: ps_cell_def ps_write_def Let_def nth_list_update cong: option.case_cong)
qed

lemma ps_push_accepted:
  assumes "ps_holds s xs" "length xs < ps_max_size s"
  shows "ps_push s x = (int (length xs), (ps_write s (length xs) x)\<lparr>ps_end := ps_end s + 1\<rparr>) \<and>
    ps_holds ((ps_write s (length xs) x)\<lparr>ps_end := ps_end s + 1\<rparr>) (xs @ [x])"
proof
  have m: "ps_max_size s < 2 ^ 31" "length xs < 2 ^ 31" using assms by (auto simp: ps_holds_def ps_shape_def)
  then have slot: "sint (ps_end s) = int (length xs)" "size_t_of_int (int (length xs)) = length xs"
    using assms by (auto simp: ps_holds_def sint_u32_of_nat)
  then show "ps_push s x = (int (length xs), (ps_write s (length xs) x)\<lparr>ps_end := ps_end s + 1\<rparr>)"
    using assms(2) by (simp add: ps_push_def ps_write_def Let_def minus_div_mult_eq_mod split: option.splits)
  have sh: "ps_shape s" using assms by (simp add: ps_holds_def)
  have max: "ps_max_size (ps_write s (length xs) x) = ps_max_size s"
    "length (ps_stacks (ps_write s (length xs) x)) = length (ps_stacks s)"
    "ps_unit (ps_write s (length xs) x) = ps_unit s" by (simp_all add: ps_write_def Let_def)
  show "ps_holds ((ps_write s (length xs) x)\<lparr>ps_end := ps_end s + 1\<rparr>) (xs @ [x])"
    using assms m sh ps_write_shape [OF sh assms(2), of x] ps_write_cell [OF sh assms(2), of x]
    by (auto simp: ps_holds_def max nth_append add.commute)
qed

text \<open>A token below \<open>max_size\<close> reads the slot it names.\<close>

lemma ps_get_cell:
  assumes "ps_shape s" "i < ps_max_size s"
  shows "ps_get s (int i) = Value (case ps_stacks s ! (i div ps_unit s) of None \<Rightarrow> None
      | Some cells \<Rightarrow> Some (cells ! (i mod ps_unit s)))"
proof -
  let ?u = "ps_unit s"
  have i: "size_t_of_int (int i) = i" using assms by (simp add: ps_shape_def)
  have main: "i div ?u < length (ps_stacks s)" using assms by (rule ps_slot_in_range)
  have "int i - int (i div ?u * ?u) = int (i mod ?u)"
    by (metis add_diff_cancel_left' div_mult_mod_eq of_nat_add)
  moreover have "length cells = ?u" if "ps_stacks s ! (i div ?u) = Some cells" for cells
    using assms(1) main that by (metis nth_mem ps_shape_def)
  ultimately show ?thesis using assms main i
    by (auto simp: ps_get_def Let_def ps_shape_def split: option.splits)
qed

lemma ps_get_pushed:
  assumes "ps_holds s xs" "i < length xs" "i < ps_max_size s"
  shows "ps_get s (int i) = Value (Some (Some (xs ! i)))"
proof -
  have "ps_cell s i = Some (xs ! i)"
    using assms ps_slot_below_table [of s i] by (simp add: ps_holds_def)
  with assms show ?thesis using ps_get_cell [of s i]
    by (auto simp: ps_holds_def ps_cell_def split: option.splits)
qed

lemma ps_get_minus_one: "ps_shape s \<Longrightarrow> ps_get s (- 1) = Value None"
  by (simp add: ps_get_def size_t_of_int_neg ps_shape_def)

interpretation ps: token_store ps_push ps_get ps_holds ps_max_size
proof unfold_locales
  fix s :: "'a push_stack" and xs x
  assume h: "ps_holds s xs" "Suc (length xs) < 2 ^ 32"
  show "\<exists>s'. ps_push s x = (if length xs < ps_max_size s then int (length xs) else - 1, s') \<and>
      ps_holds s' (xs @ [x]) \<and> ps_max_size s' = ps_max_size s"
    using ps_push_accepted [OF h(1), of x] ps_push_refused [OF h, of x]
    by (cases "length xs < ps_max_size s") (auto simp: ps_write_def Let_def)
qed (auto simp: ps_get_pushed ps_get_minus_one ps_holds_def)

text \<open>The token \<open>max_size\<close> passes the test of \<open>get\<close> and indexes past the segment table.\<close>

lemma ps_get_past_table:
  assumes "ps_shape s" "ps_unit s dvd ps_max_size s"
  shows "ps_get s (int (ps_max_size s)) = Undefined"
proof -
  let ?u = "ps_unit s" and ?m = "ps_max_size s"
  have u: "0 < ?u" using assms(1) by (simp add: ps_shape_def)
  from assms(2) obtain k where k: "?m = ?u * k" by (auto simp: dvd_def)
  have "(?m + ?u - 1) div ?u = k" using u by (simp add: k div_eq_dividend_iff div_nat_eqI algebra_simps)
  then have len: "length (ps_stacks s) = k" using assms(1) by (simp add: ps_shape_def)
  have tok: "size_t_of_int (int ?m) = ?m" using assms(1) by (simp add: ps_shape_def)
  have "?m div ?u = k" using u by (simp add: k)
  with len show ?thesis by (simp add: ps_get_def tok vec_get_def Let_def)
qed

lemma ps_push_unit: "ps_unit (snd (ps_push s x)) = ps_unit s"
  by (simp add: ps_push_def Let_def)

section \<open>Ownership\<close>

lemma up_get_eq: "up_get s token = ps_get s token"
  by (simp add: up_get_def ps_get_def)

text \<open>No push deletes anything as long as the 32-bit counter has not wrapped.\<close>

lemma up_push_eq:
  assumes "ps_holds s xs" "Suc (length xs) < 2 ^ 32"
  shows "up_push s x = (fst (ps_push s x), snd (ps_push s x), None)"
proof (cases "ps_max_size s \<le> length xs")
  case True
  then have "size_t_of_int (sint (ps_end s)) \<ge> ps_max_size s"
    using slot_test [of "length xs" "ps_max_size s"] assms by (simp add: ps_holds_def ps_shape_def)
  then show ?thesis by (simp add: up_push_def ps_push_def)
next
  case False
  let ?u = "ps_unit s"
  have sh: "ps_shape s" and u: "0 < ?u" "length xs < 2 ^ 31"
    using assms False by (auto simp: ps_holds_def ps_shape_def)
  have slot: "sint (ps_end s) = int (length xs)" "size_t_of_int (int (length xs)) = length xs"
    using assms u by (auto simp: ps_holds_def sint_u32_of_nat)
  have "ps_cell s (length xs) = None"
    using assms(1) False ps_slot_below_table [OF sh] by (simp add: ps_holds_def)
  then have "(case ps_stacks s ! (length xs div ?u) of None \<Rightarrow> replicate ?u None | Some cells \<Rightarrow> cells) !
      (length xs mod ?u) = None"
    using u by (auto simp: ps_cell_def split: option.splits)
  with False slot show ?thesis
    by (simp add: up_push_def ps_push_def Let_def minus_div_mult_eq_mod split: option.splits)
qed

lemma up_push_owner_eq:
  assumes "ps_holds s xs" "Suc (length xs) < 2 ^ 32"
  shows "up_push_owner s (Some x) =
    (fst (ps_push s x), snd (ps_push s x), None, if length xs < ps_max_size s then None else Some x)"
proof -
  have "size_t_of_int (sint (ps_end s)) \<ge> ps_max_size s \<longleftrightarrow> ps_max_size s \<le> length xs"
    using slot_test [of "length xs" "ps_max_size s"] assms by (simp add: ps_holds_def ps_shape_def)
  with up_push_eq [OF assms, of x] show ?thesis
    by (auto simp: up_push_owner_def up_push_def ps_push_def Let_def split: if_splits)
qed

subsection \<open>The destructor\<close>

lemma map_filter_append: "List.map_filter f (xs @ ys) = List.map_filter f xs @ List.map_filter f ys"
  by (simp add: List.map_filter_def)

lemma map_filter_below:
  "List.map_filter (\<lambda>c. c) (map (\<lambda>i. if i < k then Some (f i) else None) [0..<n]) = map f [0..<min k n]"
proof (induction n)
  case (Suc n)
  then show ?case
    by (cases "n < k") (auto simp: map_filter_append List.map_filter_simps min_def not_less le_Suc_eq)
qed (simp add: List.map_filter_simps)

lemma concat_uniform:
  assumes "\<forall>xs \<in> set xss. length xs = u" "0 < u"
  shows "concat xss = map (\<lambda>i. xss ! (i div u) ! (i mod u)) [0..<length xss * u]"
  using assms(1)
proof (induction xss rule: rev_induct)
  case Nil
  then show ?case by simp
next
  case (snoc ys xss)
  let ?n = "length xss"
  have split: "[0..<length (xss @ [ys]) * u] = [0..<?n * u] @ map (\<lambda>j. j + ?n * u) [0..<u]"
    by (simp add: map_add_upt upt_add_eq_append [of 0] add.commute [of u])
  have "ys = map (\<lambda>j. ys ! j) [0..<u]" using snoc.prems map_nth [of ys] by auto
  also have "\<dots> = map (\<lambda>i. (xss @ [ys]) ! (i div u) ! (i mod u)) (map (\<lambda>j. j + ?n * u) [0..<u])"
    using assms(2) by (simp add: nth_append)
  finally have last: "ys = map (\<lambda>i. (xss @ [ys]) ! (i div u) ! (i mod u)) (map (\<lambda>j. j + ?n * u) [0..<u])" .
  have "concat xss = map (\<lambda>i. (xss @ [ys]) ! (i div u) ! (i mod u)) [0..<?n * u]"
    using snoc by (simp add: nth_append div_less_iff_less_mult assms(2))
  with last show ?case by (simp only: split map_append concat_append concat.simps append_Nil2)
qed

lemma mset_destroy:
  "mset (up_destroy s) = mset (List.map_filter (\<lambda>c. c)
     (concat (map (\<lambda>seg. case seg of None \<Rightarrow> replicate (ps_unit s) None | Some cells \<Rightarrow> cells) (ps_stacks s))))"
proof -
  have none: "List.map_filter (\<lambda>c. c) (replicate n None) = ([] :: 'a list)" for n
    by (induction n) (auto simp: List.map_filter_def)
  have "mset (concat (map (\<lambda>seg. case seg of None \<Rightarrow> [] | Some cells \<Rightarrow> rev (List.map_filter (\<lambda>c. c) cells)) segs))
      = mset (List.map_filter (\<lambda>c. c)
          (concat (map (\<lambda>seg. case seg of None \<Rightarrow> replicate n None | Some cells \<Rightarrow> cells) segs)))"
    for segs :: "'a option list option list" and n
    by (induction segs) (auto simp: none map_filter_append List.map_filter_simps split: option.splits)
  then show ?thesis by (simp add: up_destroy_def)
qed

lemma destroy_pushed:
  assumes "ps_holds s xs"
  shows "mset (up_destroy s) = mset (take (ps_max_size s) xs)"
proof -
  let ?u = "ps_unit s" and ?m = "ps_max_size s"
  let ?segs = "map (\<lambda>seg. case seg of None \<Rightarrow> replicate ?u None | Some cells \<Rightarrow> cells) (ps_stacks s)"
  let ?k = "min (length xs) ?m" and ?N = "length (ps_stacks s) * ?u"
  have sh: "ps_shape s" and u: "0 < ?u" using assms by (auto simp: ps_holds_def ps_shape_def)
  have len: "\<forall>c \<in> set ?segs. length c = ?u" using sh by (auto simp: ps_shape_def split: option.splits)
  have "concat ?segs = map (\<lambda>i. ?segs ! (i div ?u) ! (i mod ?u)) [0..<?N]"
    using concat_uniform [OF len u] by simp
  also have "\<dots> = map (\<lambda>i. if i < ?k then Some (xs ! i) else None) [0..<?N]"
  proof (rule map_cong [OF refl])
    fix i assume i: "i \<in> set [0..<?N]"
    then have "i div ?u < length (ps_stacks s)" by (simp add: div_less_iff_less_mult u)
    then have "?segs ! (i div ?u) ! (i mod ?u) = ps_cell s i" using u by (auto simp: ps_cell_def split: option.splits)
    with i assms show "?segs ! (i div ?u) ! (i mod ?u) = (if i < ?k then Some (xs ! i) else None)"
      by (simp add: ps_holds_def)
  qed
  finally have cells: "concat ?segs = map (\<lambda>i. if i < ?k then Some (xs ! i) else None) [0..<?N]" .
  have "?k \<le> ?N"
  proof (cases "?k = 0")
    case False
    then have "?k - 1 < ?m" by auto
    from ps_slot_below_table [OF sh this] show ?thesis by linarith
  qed simp
  then have "List.map_filter (\<lambda>c. c) (concat ?segs) = map (\<lambda>i. xs ! i) [0..<?k]"
    unfolding cells map_filter_below by (simp add: min.absorb1)
  also have "\<dots> = take ?m xs" by (rule nth_equalityI) auto
  finally show ?thesis by (simp add: mset_destroy)
qed

section \<open>Properties\<close>

text \<open>
  A push into a stack that is not full returns the number of earlier pushes as the token,
  and \<open>get\<close> with that token returns the pushed element after any further pushes.
\<close>

lemma ps_get_push:
  assumes "ps_holds s xs" "length xs < ps_max_size s" "length xs + length (y # ys) < 2 ^ 32"
  shows "fst (ps_push s y) = int (length xs) \<and>
    ps_get (push_all ps_push (snd (ps_push s y)) ys) (fst (ps_push s y)) = Value (Some (Some y))"
  using ps.get_after_pushes [OF assms(1,3,2)] .

text \<open>
  A full stack refuses every push with \<open>-1\<close> and keeps its elements; still the counter
  behind \<open>size()\<close> goes up, so that it is no longer the number of elements.
\<close>

lemma ps_push_full:
  assumes "ps_holds s xs" "ps_max_size s \<le> length xs" "length xs < 2 ^ 31 - 1"
  shows "fst (ps_push s x) = -1 \<and> ps_stacks (snd (ps_push s x)) = ps_stacks s \<and>
    ps_size (snd (ps_push s x)) = ps_size s + 1"
proof -
  have "ps_push s x = (-1, s\<lparr>ps_end := ps_end s + 1\<rparr>)"
    using ps_push_refused [OF assms(1)] assms(2,3) by simp
  moreover have "ps_end s = of_nat (length xs)" using assms(1) by (simp add: ps_holds_def)
  then have "ps_size s = int (length xs)" "ps_size (s\<lparr>ps_end := ps_end s + 1\<rparr>) = int (length xs + 1)"
    using assms(3) sint_u32_of_nat [of "length xs"] sint_u32_of_nat [of "length xs + 1"]
    by (simp_all add: ps_size_def add.commute)
  ultimately show ?thesis by simp
qed

text \<open>
  \<open>get\<close> checks \<open>token > max_size\<close> where \<open>token >= max_size\<close> is needed: when the unit size
  divides the capacity (both stacks of the program), the token \<open>max_size\<close> reads past the end of the
  segment table.
\<close>

lemma ps_get_at_max_size:
  assumes "ps_shape s" "ps_unit s dvd ps_max_size s"
  shows "ps_get s (int (ps_max_size s)) = Undefined"
  using assms by (rule ps_get_past_table)

text \<open>
  The destructor of a stack of owning pointers deletes every accepted object exactly once;
  the objects of refused pushes are never deleted (the caller has given up the pointer, so they leak).
\<close>

lemma up_destroy_once:
  assumes "ps_holds s xs"
  shows "mset (up_destroy s) = mset (take (ps_max_size s) xs)"
  using assms by (rule destroy_pushed)

text \<open>
  The specialisation for owning pointers is the general stack: the same tokens and the
  same contents, and no push deletes an object that an earlier push stored (until the 32-bit counter has
  gone round once).
\<close>

lemma up_push_refines:
  assumes "ps_holds s xs" "Suc (length xs) < 2 ^ 32"
  shows "up_push s x = (fst (ps_push s x), snd (ps_push s x), None) \<and> up_get s token = ps_get s token \<and>
    up_push_owner s (Some x) = (fst (ps_push s x), snd (ps_push s x), None,
      if length xs < ps_max_size s then None else Some x)"
  using up_push_eq [OF assms] up_push_owner_eq [OF assms] up_get_eq by metis

end
