(* ===== verification/Fast_Queue.thy ===== *)
theory Fast_Queue
  imports Slow_Queue Local_Queue Push_Stack
begin

text \<open>
  \<open>FastQueue\<close> of \<open>include/coplus/fast_queue.h\<close>, one method call at a time: a push-only list of local
  queues, a free list of their tokens, and the producer handles that own a local queue each. The local
  queues live in a heap and \<open>QueueList\<close> holds their addresses; an address that is not in the heap is
  undefined behaviour when it is used.
\<close>

definition kLocalQueueSize :: nat where "kLocalQueueSize = 32"
definition kFreeListSize :: nat where "kFreeListSize = 50"
definition kQueueMaxCount :: nat where "kQueueMaxCount = 100"
definition kProducerRetry :: nat where "kProducerRetry = 10"

text \<open>\<open>unitSize\<close> of \<open>QueueList\<close> is the default of its template parameter.\<close>

definition kUnitSize :: nat where "kUnitSize = 10"

lemmas fq_constants = kLocalQueueSize_def kFreeListSize_def kQueueMaxCount_def kProducerRetry_def kUnitSize_def

record 'a fast_queue =
  fq_QueueList :: "nat push_stack"
  fq_FreeList :: "int slow_queue"
  fq_heap :: "'a local_queue list"
  fq_null :: 'a

definition fq_new :: "'a \<Rightarrow> 'a fast_queue" where
  "fq_new null = \<lparr>fq_QueueList = ps_new kQueueMaxCount kUnitSize, fq_FreeList = sq_new 0 kFreeListSize,
     fq_heap = [], fq_null = null\<rparr>"

definition fq_queue_count :: "'a fast_queue \<Rightarrow> int" where
  "fq_queue_count q = ps_size (fq_QueueList q)"

text \<open>\<open>QueueList.get(index, local)\<close> followed by the test \<open>!status || !local\<close>: \<open>None\<close> if either holds.\<close>

definition fq_lookup :: "'a fast_queue \<Rightarrow> int \<Rightarrow> nat option outcome" where
  "fq_lookup q index = obind (up_get (fq_QueueList q) index) (\<lambda>r.
     Value (case r of None \<Rightarrow> None | Some local \<Rightarrow> local))"

text \<open>Calls through a pointer to a local queue.\<close>

definition fq_local_push :: "'a fast_queue \<Rightarrow> nat \<Rightarrow> 'a \<Rightarrow> (bool \<times> 'a fast_queue) outcome" where
  "fq_local_push q local item = obind (vec_get (fq_heap q) (int local)) (\<lambda>lq.
     case lq_push lq item of (ok, lq') \<Rightarrow> Value (ok, q\<lparr>fq_heap := (fq_heap q)[local := lq']\<rparr>))"

definition fq_local_pop :: "'a fast_queue \<Rightarrow> nat \<Rightarrow> ('a option \<times> 'a fast_queue) outcome" where
  "fq_local_pop q local = obind (vec_get (fq_heap q) (int local)) (\<lambda>lq.
     case lq_pop lq of (r, lq') \<Rightarrow> Value (r, q\<lparr>fq_heap := (fq_heap q)[local := lq']\<rparr>))"

section \<open>Consumers\<close>

text \<open>The scan of \<open>element_count\<close>, which re-reads the number of queues at the last index.\<close>

function fq_count_from :: "'a fast_queue \<Rightarrow> int \<Rightarrow> int \<Rightarrow> nat \<Rightarrow> nat outcome" where
  "fq_count_from q index approximateSize totalCount =
     (if index < approximateSize then
        obind (fq_lookup q index) (\<lambda>local. case local of
            None \<Rightarrow> fq_count_from q (index + 1) approximateSize totalCount
          | Some p \<Rightarrow> obind (vec_get (fq_heap q) (int p)) (\<lambda>lq.
              fq_count_from q (index + 1)
                (if index = approximateSize - 1 then ps_size (fq_QueueList q) else approximateSize)
                (totalCount + lq_size lq)))
      else Value totalCount)"
  by pat_completeness auto
termination
  by (relation "measure (\<lambda>(q, index, approx, total). nat (max approx (ps_size (fq_QueueList q)) - index))") auto

declare fq_count_from.simps [simp del]

definition fq_element_count :: "'a fast_queue \<Rightarrow> nat outcome" where
  "fq_element_count q = fq_count_from q 0 (ps_size (fq_QueueList q)) 0"

text \<open>The two scans of \<open>pop_hard\<close>: down from the random start, then up from the slot after it.\<close>

function fq_pop_down :: "'a fast_queue \<Rightarrow> int \<Rightarrow> ('a option \<times> 'a fast_queue) outcome" where
  "fq_pop_down q index =
     (if index \<ge> 0 then
        obind (fq_lookup q index) (\<lambda>local. case local of
            None \<Rightarrow> fq_pop_down q (index - 1)
          | Some p \<Rightarrow> obind (fq_local_pop q p) (\<lambda>(r, q').
              case r of Some x \<Rightarrow> Value (Some x, q') | None \<Rightarrow> fq_pop_down q' (index - 1)))
      else Value (None, q))"
  by pat_completeness auto
termination
  by (relation "measure (\<lambda>(q, index). nat (index + 1))") auto

declare fq_pop_down.simps [simp del]

lemma fq_local_pop_list: "fq_local_pop q p = Value (r, q') \<Longrightarrow> fq_QueueList q' = fq_QueueList q"
  by (auto simp: fq_local_pop_def case_prod_beta)

function fq_pop_up :: "'a fast_queue \<Rightarrow> int \<Rightarrow> int \<Rightarrow> ('a option \<times> 'a fast_queue) outcome" where
  "fq_pop_up q index approximateSize =
     (if index < approximateSize then
        obind (fq_lookup q index) (\<lambda>local. case local of
            None \<Rightarrow> Value (None, q)
          | Some p \<Rightarrow> obind (fq_local_pop q p) (\<lambda>(r, q').
              case r of
                Some x \<Rightarrow> Value (Some x, q')
              | None \<Rightarrow> fq_pop_up q' (index + 1)
                  (if index = approximateSize - 1 then ps_size (fq_QueueList q') else approximateSize)))
      else Value (None, q))"
  by pat_completeness auto
termination
  by (relation "measure (\<lambda>(q, index, approx). nat (max approx (ps_size (fq_QueueList q)) - index))")
    (auto dest: fq_local_pop_list)

declare fq_pop_up.simps [simp del]

text \<open>\<open>middle\<close> is the value that \<open>corand.UInt(approximateSize)\<close> returned.\<close>

definition fq_pop_hard :: "'a fast_queue \<Rightarrow> nat \<Rightarrow> ('a option \<times> 'a fast_queue) outcome" where
  "fq_pop_hard q middle =
     (let approximateSize = ps_size (fq_QueueList q)
      in obind (fq_pop_down q (int middle)) (\<lambda>(r, q').
        case r of Some x \<Rightarrow> Value (Some x, q') | None \<Rightarrow> fq_pop_up q' (int middle + 1) approximateSize))"

text \<open>
  The loop of \<open>pop\<close> (the probing distance grows with \<open>i\<close>), with fuel: \<open>None\<close> is a run cut off. The
  loop compares \<open>cur\<close> with the start index before it reduces it modulo the number of queues; the
  remainder by zero and the overflow of \<open>cur\<close> are undefined behaviour.
\<close>

fun fq_probe :: "nat \<Rightarrow> 'a fast_queue \<Rightarrow> int \<Rightarrow> int \<Rightarrow> int \<Rightarrow> ('a option \<times> 'a fast_queue) outcome option" where
  "fq_probe 0 q index i cur = None"
| "fq_probe (Suc fuel) q index i cur =
     (if i = 0 \<or> cur \<noteq> index then
        if ps_size (fq_QueueList q) = 0 then Some Undefined
        else
          let cur = cur mod ps_size (fq_QueueList q);
              next = (\<lambda>q. if cur + 2 * (i + 1) + 1 \<ge> 2 ^ 31 then Some Undefined
                          else fq_probe fuel q index (i + 1) (cur + 2 * (i + 1) + 1))
          in case fq_lookup q cur of
               Undefined \<Rightarrow> Some Undefined
             | Value None \<Rightarrow> next q
             | Value (Some p) \<Rightarrow> (case fq_local_pop q p of
                   Undefined \<Rightarrow> Some Undefined
                 | Value (Some x, q') \<Rightarrow> Some (Value (Some x, q'))
                 | Value (None, q') \<Rightarrow> next q')
      else Some (Value (None, q)))"

definition fq_pop :: "nat \<Rightarrow> 'a fast_queue \<Rightarrow> nat \<Rightarrow> ('a option \<times> 'a fast_queue) outcome option" where
  "fq_pop fuel q index = fq_probe fuel q (int index) 0 (int index)"

section \<open>Producers\<close>

record handle =
  ph_token :: int
  ph_local :: "nat option"

definition fq_create_queue :: "'a fast_queue \<Rightarrow> int option \<times> 'a fast_queue" where
  "fq_create_queue q =
     (let p = length (fq_heap q);
          q = q\<lparr>fq_heap := fq_heap q @ [lq_new (fq_null q) kLocalQueueSize]\<rparr>
      in case up_push (fq_QueueList q) p of
           (token, list', _) \<Rightarrow> (if token < 0 then None else Some token, q\<lparr>fq_QueueList := list'\<rparr>))"

definition ph_apply :: "'a fast_queue \<times> handle \<Rightarrow> (bool \<times> ('a fast_queue \<times> handle)) outcome" where
  "ph_apply s = (case s of (q, h) \<Rightarrow>
     obind (sq_pop (fq_FreeList q)) (\<lambda>(r, free').
       let q = q\<lparr>fq_FreeList := free'\<rparr> in
       case r of
         None \<Rightarrow> Value (False, (q, h))
       | Some token \<Rightarrow> obind (up_get (fq_QueueList q) token) (\<lambda>g.
           case g of
             None \<Rightarrow> Value (False, (q, \<lparr>ph_token = token, ph_local = None\<rparr>))
           | Some local \<Rightarrow> Value (True, (q, \<lparr>ph_token = token, ph_local = local\<rparr>)))))"

definition ph_preempt :: "'a fast_queue \<times> handle \<Rightarrow> (bool \<times> ('a fast_queue \<times> handle)) outcome" where
  "ph_preempt s = (case s of (q, h) \<Rightarrow>
     (case fq_create_queue q of
        (None, q) \<Rightarrow> Value (False, (q, h))
      | (Some token, q) \<Rightarrow> obind (up_get (fq_QueueList q) token) (\<lambda>g.
          case g of
            None \<Rightarrow> Value (False, (q, \<lparr>ph_token = token, ph_local = None\<rparr>))
          | Some local \<Rightarrow> Value (True, (q, \<lparr>ph_token = token, ph_local = local\<rparr>)))))"

text \<open>The acquisition loop that the constructor and \<open>push_hard\<close> share.\<close>

definition ph_acquire :: "'a fast_queue \<times> handle \<Rightarrow> ('a fast_queue \<times> handle) outcome" where
  "ph_acquire s = obind (retry ph_apply kProducerRetry s) (\<lambda>(n, s).
     if n = 0 then obind (retry ph_preempt kProducerRetry s) (\<lambda>(_, s). Value s) else Value s)"

definition ph_new :: "'a fast_queue \<Rightarrow> ('a fast_queue \<times> handle) outcome" where
  "ph_new q = ph_acquire (q, \<lparr>ph_token = 0, ph_local = None\<rparr>)"

definition ph_push :: "'a \<Rightarrow> 'a fast_queue \<times> handle \<Rightarrow> (bool \<times> ('a fast_queue \<times> handle)) outcome" where
  "ph_push item s = (case s of (q, h) \<Rightarrow>
     (case ph_local h of
        None \<Rightarrow> Value (False, (q, h))
      | Some p \<Rightarrow> obind (fq_local_push q p item) (\<lambda>(ok, q'). Value (ok, (q', h)))))"

definition ph_release :: "'a fast_queue \<times> handle \<Rightarrow> ('a fast_queue \<times> handle) outcome" where
  "ph_release s = (case s of (q, h) \<Rightarrow>
     obind (sq_push (fq_FreeList q) (ph_token h)) (\<lambda>(_, free'). Value (q\<lparr>fq_FreeList := free'\<rparr>, h)))"

definition ph_push_hard :: "'a \<Rightarrow> 'a fast_queue \<times> handle \<Rightarrow> (bool \<times> ('a fast_queue \<times> handle)) outcome" where
  "ph_push_hard item s =
     obind (if ph_local (snd s) = None then ph_acquire s else Value s) (\<lambda>s.
       if ph_local (snd s) = None then Value (False, s)
       else obind (retry (ph_push item) kProducerRetry s) (\<lambda>(n, s).
         if n \<noteq> 0 then Value (True, s)
         else obind (ph_release s) (\<lambda>s.
           obind (retry ph_preempt kProducerRetry s) (\<lambda>(_, s).
             if ph_local (snd s) = None then Value (False, s)
             else obind (retry (ph_push item) kProducerRetry s) (\<lambda>(n, s). Value (n \<noteq> 0, s))))))"

text \<open>The destructor of a handle gives its token back.\<close>

definition ph_destroy :: "'a fast_queue \<times> handle \<Rightarrow> 'a fast_queue outcome" where
  "ph_destroy s = (case ph_local (snd s) of
     None \<Rightarrow> Value (fst s)
   | Some _ \<Rightarrow> obind (ph_release s) (\<lambda>s. Value (fst s)))"

end
