(* ===== verification/Fast_Queue_Props.thy ===== *)
theory Fast_Queue_Props
  imports Fast_Queue
begin

text \<open>
  Invariant and properties of \<open>FastQueue\<close>: what the consumers' scans and the producers' handles do to
  the list of local queues, seen as a list of element lists.
\<close>

section \<open>View and invariant\<close>

definition fq_view :: "'a fast_queue \<Rightarrow> 'a list list" where
  "fq_view q = map lq_items (fq_heap q)"

definition fq_wf :: "'a fast_queue \<Rightarrow> bool" where
  "fq_wf q \<longleftrightarrow> length (fq_heap q) < 2 ^ 31 \<and> ps_holds (fq_QueueList q) [0..<length (fq_heap q)] \<and>
     ps_max_size (fq_QueueList q) = kQueueMaxCount \<and> ps_unit (fq_QueueList q) = kUnitSize \<and>
     sq_invar (fq_FreeList q) \<and> sq_cap (fq_FreeList q) = kFreeListSize \<and>
     (\<forall>lq \<in> set (fq_heap q). lq_invar lq \<and> lq_cap lq = kLocalQueueSize) \<and>
     distinct (sq_items (fq_FreeList q)) \<and>
     (\<forall>t \<in> set (sq_items (fq_FreeList q)). 0 \<le> t \<and> t < int (min kQueueMaxCount (length (fq_heap q))))"

text \<open>Consumers touch the local queues only.\<close>

definition fq_frame :: "'a fast_queue \<Rightarrow> 'a fast_queue \<Rightarrow> bool" where
  "fq_frame q q' \<longleftrightarrow> fq_QueueList q' = fq_QueueList q \<and> fq_FreeList q' = fq_FreeList q \<and>
     fq_null q' = fq_null q \<and> length (fq_heap q') = length (fq_heap q)"

lemma fq_frame_refl [simp]: "fq_frame q q"
  by (simp add: fq_frame_def)

lemma fq_frame_trans: "fq_frame q r \<Longrightarrow> fq_frame r s \<Longrightarrow> fq_frame q s"
  by (auto simp: fq_frame_def)

lemma length_fq_view [simp]: "length (fq_view q) = length (fq_heap q)"
  by (simp add: fq_view_def)

lemma fq_wf_new: "fq_wf (fq_new null)"
  by (auto simp: fq_wf_def fq_new_def fq_constants intro!: sq_invar_new ps_holds_new) (simp_all add: ps_new_def)

lemma fq_view_new [simp]: "fq_view (fq_new null) = []"
  by (simp add: fq_view_def fq_new_def)

lemma fq_size: "fq_wf q \<Longrightarrow> ps_size (fq_QueueList q) = int (length (fq_heap q))"
  by (simp add: fq_wf_def ps_holds_def ps_size_def sint_u32_of_nat)

lemma fq_get:
  "fq_wf q \<Longrightarrow> i < length (fq_heap q) \<Longrightarrow> i < kQueueMaxCount \<Longrightarrow>
    up_get (fq_QueueList q) (int i) = Value (Some (Some i))"
  using ps_get_pushed [of "fq_QueueList q" "[0..<length (fq_heap q)]" i]
  by (simp add: fq_wf_def up_get_eq)

lemma fq_lookup_in:
  "fq_wf q \<Longrightarrow> i < length (fq_heap q) \<Longrightarrow> i < kQueueMaxCount \<Longrightarrow> fq_lookup q (int i) = Value (Some i)"
  by (simp add: fq_lookup_def fq_get)

lemma mset_concat_update:
  assumes "j < length v"
  shows "mset (concat (v[j := ys])) + mset (v ! j) = mset (concat v) + mset ys"
  using assms
proof (induction v arbitrary: j)
  case (Cons a v)
  then show ?case by (cases j) (auto simp: ac_simps)
qed simp

lemma fq_heap_update_wf:
  assumes "fq_wf q" "p < length (fq_heap q)" "lq_invar lq'" "lq_cap lq' = kLocalQueueSize"
  shows "fq_wf (q\<lparr>fq_heap := (fq_heap q)[p := lq']\<rparr>)"
  using assms set_update_subset_insert [of "fq_heap q" p lq'] by (auto simp: fq_wf_def)

section \<open>Operations through a pointer\<close>

lemma fq_local_pop_spec:
  assumes "fq_wf q" "p < length (fq_heap q)"
  shows "\<exists>q'. fq_local_pop q p = Value (case fq_view q ! p of [] \<Rightarrow> None | x # _ \<Rightarrow> Some x, q') \<and>
    fq_wf q' \<and> fq_frame q q' \<and> fq_view q' = (fq_view q)[p := tl (fq_view q ! p)]"
proof -
  let ?lq = "fq_heap q ! p"
  have inv: "lq_invar ?lq" "lq_cap ?lq = kLocalQueueSize" using assms by (auto simp: fq_wf_def)
  have view: "fq_view q ! p = lq_items ?lq" using assms(2) by (simp add: fq_view_def)
  have "\<exists>lq'. lq_pop ?lq = (case lq_items ?lq of [] \<Rightarrow> None | x # _ \<Rightarrow> Some x, lq') \<and> lq_invar lq' \<and>
      lq_cap lq' = kLocalQueueSize \<and> lq_items lq' = tl (lq_items ?lq)"
    using lq_pop_some [OF inv(1)] lq_pop_empty [OF inv(1)] inv(2) by (cases "lq_items ?lq") auto
  then obtain lq' where lq': "lq_pop ?lq = (case lq_items ?lq of [] \<Rightarrow> None | x # _ \<Rightarrow> Some x, lq')"
    "lq_invar lq'" "lq_cap lq' = kLocalQueueSize" "lq_items lq' = tl (lq_items ?lq)" by blast
  let ?q' = "q\<lparr>fq_heap := (fq_heap q)[p := lq']\<rparr>"
  have "fq_local_pop q p = Value (case fq_view q ! p of [] \<Rightarrow> None | x # _ \<Rightarrow> Some x, ?q')"
    using assms(2) lq'(1) by (simp add: fq_local_pop_def view)
  moreover have "fq_wf ?q'" using fq_heap_update_wf [OF assms lq'(2,3)] .
  moreover have "fq_view ?q' = (fq_view q)[p := tl (fq_view q ! p)]"
    using lq'(4) view by (simp add: fq_view_def map_update)
  ultimately show ?thesis by (auto simp: fq_frame_def)
qed

lemma fq_local_push_spec:
  assumes "fq_wf q" "p < length (fq_heap q)"
  shows "\<exists>q'. fq_local_push q p x = Value (length (fq_view q ! p) < kLocalQueueSize, q') \<and>
    fq_wf q' \<and> fq_frame q q' \<and>
    fq_view q' = (if length (fq_view q ! p) < kLocalQueueSize then (fq_view q)[p := fq_view q ! p @ [x]] else fq_view q)"
proof -
  let ?lq = "fq_heap q ! p"
  have inv: "lq_invar ?lq" "lq_cap ?lq = kLocalQueueSize" using assms by (auto simp: fq_wf_def)
  have view: "fq_view q ! p = lq_items ?lq" using assms(2) by (simp add: fq_view_def)
  define ok where "ok = (lq_size ?lq < kLocalQueueSize)"
  have "\<exists>lq'. lq_push ?lq x = (ok, lq') \<and> lq_invar lq' \<and> lq_cap lq' = kLocalQueueSize \<and>
      lq_items lq' = (if ok then lq_items ?lq @ [x] else lq_items ?lq)"
    using lq_push_room [OF inv(1), of x] lq_push_full [OF inv(1), of x] inv(2) by (cases ok) (auto simp: ok_def)
  then obtain lq' where lq': "lq_push ?lq x = (ok, lq')" "lq_invar lq'" "lq_cap lq' = kLocalQueueSize"
    "lq_items lq' = (if ok then lq_items ?lq @ [x] else lq_items ?lq)" by blast
  let ?q' = "q\<lparr>fq_heap := (fq_heap q)[p := lq']\<rparr>"
  have "fq_local_push q p x = Value (ok, ?q')"
    using assms(2) lq'(1) by (simp add: fq_local_push_def)
  moreover have "fq_wf ?q'" using fq_heap_update_wf [OF assms lq'(2,3)] .
  moreover have "fq_view ?q' = (if ok then (fq_view q)[p := fq_view q ! p @ [x]] else fq_view q)"
    using lq'(4) view list_update_id [of "fq_view q" p] by (auto simp: fq_view_def map_update)
  ultimately show ?thesis by (auto simp: fq_frame_def view ok_def)
qed

section \<open>The scans of the consumers\<close>

text \<open>What a scan over the queues \<open>J\<close> promises: nothing found and nothing changed, or the oldest
  element of one of them removed.\<close>

definition scan_result :: "nat set \<Rightarrow> 'a list list \<Rightarrow> 'a option \<Rightarrow> 'a list list \<Rightarrow> bool" where
  "scan_result J v r v' \<longleftrightarrow> (case r of
     None \<Rightarrow> v' = v \<and> (\<forall>j \<in> J. v ! j = [])
   | Some x \<Rightarrow> \<exists>j \<in> J. \<exists>xs. j < length v \<and> v ! j = x # xs \<and> v' = v[j := xs])"

lemma scan_result_mset:
  "scan_result J v (Some x) v' \<Longrightarrow> mset (concat v) = add_mset x (mset (concat v'))"
proof -
  assume "scan_result J v (Some x) v'"
  then obtain j xs where "j < length v" "v ! j = x # xs" "v' = v[j := xs]" by (auto simp: scan_result_def)
  with mset_concat_update [of j v xs] show ?thesis by simp
qed

lemma scan_result_skip:
  "v ! k = [] \<Longrightarrow> scan_result J v r v' \<Longrightarrow> scan_result (insert k J) v r v'"
  by (cases r) (auto simp: scan_result_def)

lemma fq_pop_down_spec:
  assumes "fq_wf q" "k \<le> length (fq_heap q)" "k \<le> kQueueMaxCount"
  shows "\<exists>r q'. fq_pop_down q (int k - 1) = Value (r, q') \<and> fq_wf q' \<and> fq_frame q q' \<and>
    scan_result {..<k} (fq_view q) r (fq_view q')"
  using assms
proof (induction k arbitrary: q)
  case 0
  then show ?case by (simp add: fq_pop_down.simps [of q "- 1"] scan_result_def)
next
  case (Suc k)
  from fq_local_pop_spec [of q k] Suc.prems obtain q1 where
    q1: "fq_local_pop q k = Value (case fq_view q ! k of [] \<Rightarrow> None | x # _ \<Rightarrow> Some x, q1)" "fq_wf q1"
      "fq_frame q q1" "fq_view q1 = (fq_view q)[k := tl (fq_view q ! k)]" by auto
  have look: "fq_lookup q (int k) = Value (Some k)" using Suc.prems by (intro fq_lookup_in) auto
  show ?case
  proof (cases "fq_view q ! k")
    case Nil
    then have v: "fq_view q1 = fq_view q" using q1(4) by (metis list.sel(2) list_update_id)
    from Suc.IH [OF q1(2)] q1(3) Suc.prems obtain r q2 where
      "fq_pop_down q1 (int k - 1) = Value (r, q2)" "fq_wf q2" "fq_frame q1 q2"
      "scan_result {..<k} (fq_view q1) r (fq_view q2)" by (auto simp: fq_frame_def)
    moreover from this scan_result_skip [OF Nil] v
    have "scan_result {..<Suc k} (fq_view q) r (fq_view q2)" by (simp add: lessThan_Suc)
    moreover have "fq_pop_down q (int (Suc k) - 1) = fq_pop_down q1 (int k - 1)"
      using look q1(1) Nil by (subst fq_pop_down.simps) simp
    ultimately show ?thesis using q1(3) fq_frame_trans by auto
  next
    case (Cons x xs)
    with look q1 Suc.prems show ?thesis
      by (auto simp: fq_pop_down.simps [of q "int k"] scan_result_def)
  qed
qed

lemma fq_pop_up_spec:
  assumes "fq_wf q" "n = length (fq_heap q)" "n \<le> kQueueMaxCount" "k \<le> n"
  shows "\<exists>r q'. fq_pop_up q (int k) (int n) = Value (r, q') \<and> fq_wf q' \<and> fq_frame q q' \<and>
    scan_result {k..<n} (fq_view q) r (fq_view q')"
  using assms
proof (induction "n - k" arbitrary: q k)
  case 0
  then show ?case by (subst fq_pop_up.simps) (simp add: scan_result_def)
next
  case (Suc d)
  then have k: "k < n" by simp
  from fq_local_pop_spec [of q k] Suc.prems k obtain q1 where
    q1: "fq_local_pop q k = Value (case fq_view q ! k of [] \<Rightarrow> None | x # _ \<Rightarrow> Some x, q1)" "fq_wf q1"
      "fq_frame q q1" "fq_view q1 = (fq_view q)[k := tl (fq_view q ! k)]" by auto
  have look: "fq_lookup q (int k) = Value (Some k)" using Suc.prems k by (intro fq_lookup_in) auto
  show ?case
  proof (cases "fq_view q ! k")
    case Nil
    then have v: "fq_view q1 = fq_view q" using q1(4) by (metis list.sel(2) list_update_id)
    have n1: "ps_size (fq_QueueList q1) = int n" "length (fq_heap q1) = n"
      using q1(2,3) Suc.prems by (auto simp: fq_size fq_frame_def)
    have d: "d = n - Suc k" using Suc.hyps(2) by simp
    from Suc.hyps(1) [OF d q1(2) n1(2) [symmetric] Suc.prems(3)] k obtain r q2 where
      q2: "fq_pop_up q1 (int (Suc k)) (int n) = Value (r, q2)" "fq_wf q2" "fq_frame q1 q2"
        "scan_result {Suc k..<n} (fq_view q1) r (fq_view q2)" by auto
    have "{k..<n} = insert k {Suc k..<n}" using k by auto
    with scan_result_skip [OF Nil] q2(4) v have "scan_result {k..<n} (fq_view q) r (fq_view q2)" by simp
    moreover have "fq_pop_up q (int k) (int n) = Value (r, q2)"
      using q2(1) look q1(1) Nil k n1(1)
      by (subst fq_pop_up.simps) (simp add: add.commute cong: if_cong split del: if_split)
    ultimately show ?thesis using q2(2,3) q1(3) fq_frame_trans by blast
  next
    case (Cons x xs)
    with look q1 Suc.prems k show ?thesis
      by (auto simp: fq_pop_up.simps [of q "int k"] scan_result_def)
  qed
qed

lemma fq_lookup_unset:
  assumes "fq_wf q" "fq_heap q = []"
  shows "\<exists>r. up_get (fq_QueueList q) 0 = Value r \<and> (r = None \<or> r = Some None)"
proof -
  have s: "ps_shape (fq_QueueList q)" "0 < ps_max_size (fq_QueueList q)"
    using assms by (auto simp: fq_wf_def ps_holds_def kQueueMaxCount_def)
  have "ps_cell (fq_QueueList q) 0 = None"
    using assms ps_slot_below_table [OF s] by (simp add: fq_wf_def ps_holds_def)
  with ps_get_cell [OF s] show ?thesis by (auto simp: up_get_eq ps_cell_def split: option.splits)
qed

lemma fq_pop_hard_result:
  assumes "fq_wf q" "length (fq_heap q) \<le> kQueueMaxCount" "middle < max 1 (length (fq_heap q))"
  shows "\<exists>r q'. fq_pop_hard q middle = Value (r, q') \<and> fq_wf q' \<and> fq_frame q q' \<and>
    scan_result {..<length (fq_heap q)} (fq_view q) r (fq_view q')"
proof (cases "fq_heap q = []")
  case True
  then have "middle = 0" using assms(3) by simp
  from fq_lookup_unset [OF assms(1) True] have "fq_lookup q 0 = Value None" by (auto simp: fq_lookup_def)
  then have "fq_pop_hard q middle = Value (None, q)"
    using True \<open>middle = 0\<close> assms(1)
    by (simp add: fq_pop_hard_def fq_pop_down.simps [of q 0] fq_pop_down.simps [of q "- 1"]
        fq_pop_up.simps [of q 1] fq_size)
  with True assms(1) show ?thesis by (simp add: scan_result_def)
next
  case False
  let ?n = "length (fq_heap q)"
  have m: "Suc middle \<le> ?n" using False assms(3) by (cases "fq_heap q") auto
  from fq_pop_down_spec [OF assms(1) m] assms(2) m obtain r q1 where
    q1: "fq_pop_down q (int middle) = Value (r, q1)" "fq_wf q1" "fq_frame q q1"
      "scan_result {..<Suc middle} (fq_view q) r (fq_view q1)" by auto
  show ?thesis
  proof (cases r)
    case None
    have n1: "length (fq_heap q1) = ?n" using q1(3) by (simp add: fq_frame_def)
    from fq_pop_up_spec [OF q1(2) _ assms(2) m] n1 obtain r2 q2 where
      q2: "fq_pop_up q1 (int (Suc middle)) (int ?n) = Value (r2, q2)" "fq_wf q2" "fq_frame q1 q2"
        "scan_result {Suc middle..<?n} (fq_view q1) r2 (fq_view q2)" by auto
    have set: "{..<?n} = {..<Suc middle} \<union> {Suc middle..<?n}" using m by auto
    have "scan_result {..<?n} (fq_view q) r2 (fq_view q2)"
      using None q1(4) q2(4) unfolding set by (auto simp: scan_result_def split: option.splits)
    moreover have "fq_pop_hard q middle = Value (r2, q2)"
      using None q1(1) q2(1) assms(1) by (simp add: fq_pop_hard_def fq_size add.commute)
    ultimately show ?thesis using q1(3) q2(2,3) fq_frame_trans by blast
  next
    case (Some x)
    have "{..<Suc middle} \<subseteq> {..<?n}" using m by auto
    with Some q1 have "scan_result {..<?n} (fq_view q) (Some x) (fq_view q1)"
      by (fastforce simp: scan_result_def)
    with Some q1 show ?thesis by (auto simp: fq_pop_hard_def)
  qed
qed

lemma fq_count_from_spec:
  assumes "fq_wf q" "length (fq_heap q) \<le> kQueueMaxCount" "k \<le> length (fq_heap q)"
  shows "fq_count_from q (int k) (int (length (fq_heap q))) t = Value (t + length (concat (drop k (fq_view q))))"
  using assms(3)
proof (induction "length (fq_heap q) - k" arbitrary: k t)
  case 0
  then show ?case by (subst fq_count_from.simps) simp
next
  case (Suc d)
  let ?n = "length (fq_heap q)"
  from Suc have k: "k < ?n" and d: "d = ?n - Suc k" by auto
  have look: "fq_lookup q (int k) = Value (Some k)" using assms k by (intro fq_lookup_in) auto
  have "drop k (fq_view q) = lq_items (fq_heap q ! k) # drop (Suc k) (fq_view q)"
    using k by (simp add: fq_view_def drop_map flip: Cons_nth_drop_Suc)
  with Suc.hyps(1) [OF d, of "t + lq_size (fq_heap q ! k)"] k look fq_size [OF assms(1)] show ?case
    by (subst fq_count_from.simps) (simp add: add.commute cong: if_cong split del: if_split)
qed

section \<open>Producers\<close>

text \<open>A handle that has a local queue owns its token: it is the queue's address and not on the free list.\<close>

definition ph_wf :: "'a fast_queue \<times> handle \<Rightarrow> bool" where
  "ph_wf s \<longleftrightarrow> fq_wf (fst s) \<and> (case ph_local (snd s) of None \<Rightarrow> True
     | Some p \<Rightarrow> p < length (fq_heap (fst s)) \<and> p < kQueueMaxCount \<and> ph_token (snd s) = int p \<and>
         int p \<notin> set (sq_items (fq_FreeList (fst s))))"

lemma ph_apply_empty:
  assumes "fq_wf q" "sq_items (fq_FreeList q) = []"
  shows "ph_apply (q, h) = Value (False, (q, h))"
proof -
  have "sq_pop (fq_FreeList q) = Value (None, fq_FreeList q)"
    using assms sq_items_Nil_iff [of "fq_FreeList q"] by (simp add: fq_wf_def sq_pop_Nil)
  then show ?thesis by (simp add: ph_apply_def)
qed

lemma ph_apply_free:
  assumes "fq_wf q" "sq_items (fq_FreeList q) = t # ts"
  shows "\<exists>q' p. ph_apply (q, h) = Value (True, (q', \<lparr>ph_token = t, ph_local = Some p\<rparr>)) \<and>
    ph_wf (q', \<lparr>ph_token = t, ph_local = Some p\<rparr>) \<and> fq_heap q' = fq_heap q"
proof -
  from assms have inv: "sq_invar (fq_FreeList q)" by (simp add: fq_wf_def)
  from sq_pop_Cons [OF inv assms(2)] obtain f where
    f: "sq_pop (fq_FreeList q) = Value (Some t, f)" "sq_invar f" "sq_max_size f = sq_max_size (fq_FreeList q)"
      "sq_items f = ts" by blast
  from assms have t: "0 \<le> t" "t < int (min kQueueMaxCount (length (fq_heap q)))" by (auto simp: fq_wf_def)
  define p where "p = nat t"
  with t have p: "t = int p" "p < length (fq_heap q)" "p < kQueueMaxCount" by auto
  let ?q = "q\<lparr>fq_FreeList := f\<rparr>"
  have "sq_cap f = sq_cap (fq_FreeList q)" using f(3) by (simp add: sq_cap_def)
  then have wf: "fq_wf ?q" using assms f by (simp add: fq_wf_def)
  have "up_get (fq_QueueList ?q) t = Value (Some (Some p))" using fq_get [OF assms(1) p(2,3)] p(1) by simp
  with f have "ph_apply (q, h) = Value (True, (?q, \<lparr>ph_token = t, ph_local = Some p\<rparr>))"
    by (simp add: ph_apply_def Let_def)
  moreover have "t \<notin> set ts" using assms by (auto simp: fq_wf_def)
  ultimately show ?thesis using wf p f(4) by (auto simp: ph_wf_def)
qed

lemma fq_create_queue_spec:
  assumes "fq_wf q" "Suc (length (fq_heap q)) < 2 ^ 31"
  shows "\<exists>q'. fq_create_queue q =
      (if length (fq_heap q) < kQueueMaxCount then Some (int (length (fq_heap q))) else None, q') \<and>
    fq_wf q' \<and> fq_heap q' = fq_heap q @ [lq_new (fq_null q) kLocalQueueSize] \<and>
    fq_FreeList q' = fq_FreeList q \<and> fq_null q' = fq_null q"
proof -
  let ?n = "length (fq_heap q)" and ?new = "lq_new (fq_null q) kLocalQueueSize"
  have h: "ps_holds (fq_QueueList q) [0..<?n]" "ps_max_size (fq_QueueList q) = kQueueMaxCount"
    using assms(1) by (auto simp: fq_wf_def)
  have b: "Suc (length [0..<?n]) < 2 ^ 32" using assms(2) by simp
  from ps.push_law [OF h(1) b, of ?n] h(2) obtain s' where
    s': "ps_push (fq_QueueList q) ?n = (if ?n < kQueueMaxCount then int ?n else - 1, s')"
      "ps_holds s' ([0..<?n] @ [?n])" "ps_max_size s' = kQueueMaxCount" by auto
  have unit: "ps_unit s' = kUnitSize"
    using ps_push_unit [of "fq_QueueList q" ?n] s'(1) assms(1) by (simp add: fq_wf_def)
  let ?q' = "q\<lparr>fq_heap := fq_heap q @ [?new], fq_QueueList := s'\<rparr>"
  have "fq_create_queue q = (if ?n < kQueueMaxCount then Some (int ?n) else None, ?q')"
    using s'(1) up_push_eq [OF h(1) b, of ?n] by (simp add: fq_create_queue_def Let_def)
  moreover have "lq_invar ?new" by (rule lq_invar_new) (auto simp: kLocalQueueSize_def)
  then have "\<forall>lq \<in> set (fq_heap q @ [?new]). lq_invar lq \<and> lq_cap lq = kLocalQueueSize"
    using assms(1) by (simp add: fq_wf_def)
  with assms s'(2,3) unit have "fq_wf ?q'" unfolding fq_wf_def by fastforce
  ultimately show ?thesis by (intro exI [of _ ?q']) simp
qed

lemma ph_preempt_room:
  assumes "fq_wf q" "length (fq_heap q) < kQueueMaxCount"
  shows "\<exists>q' h'. ph_preempt (q, h) = Value (True, (q', h')) \<and> ph_wf (q', h') \<and>
    ph_local h' = Some (length (fq_heap q)) \<and> fq_view q' = fq_view q @ [[]]"
proof -
  let ?n = "length (fq_heap q)" and ?h' = "\<lparr>ph_token = int (length (fq_heap q)), ph_local = Some (length (fq_heap q))\<rparr>"
  from fq_create_queue_spec [OF assms(1)] assms(2) obtain q' where
    q': "fq_create_queue q = (Some (int ?n), q')" "fq_wf q'"
      "fq_heap q' = fq_heap q @ [lq_new (fq_null q) kLocalQueueSize]" "fq_FreeList q' = fq_FreeList q"
    by (auto simp: kQueueMaxCount_def)
  have "up_get (fq_QueueList q') (int ?n) = Value (Some (Some ?n))"
    using q'(2,3) assms(2) by (intro fq_get) auto
  then have "ph_preempt (q, h) = Value (True, (q', ?h'))" using q'(1) by (simp add: ph_preempt_def)
  moreover have "int ?n \<notin> set (sq_items (fq_FreeList q))" using assms(1) by (auto simp: fq_wf_def)
  ultimately show ?thesis using q' assms(2) by (auto simp: ph_wf_def fq_view_def)
qed

text \<open>When the list is full, a failed creation leaves the handle as it was.\<close>

lemma ph_preempt_full:
  assumes "fq_wf q" "kQueueMaxCount \<le> length (fq_heap q)" "Suc (length (fq_heap q)) < 2 ^ 31"
  shows "\<exists>q'. ph_preempt (q, h) = Value (False, (q', h)) \<and> fq_wf q' \<and> fq_view q' = fq_view q @ [[]] \<and>
    fq_FreeList q' = fq_FreeList q"
  using fq_create_queue_spec [OF assms(1,3)] assms(2) by (auto simp: ph_preempt_def fq_view_def)

lemma ph_wf_frame: "ph_wf (q, h) \<Longrightarrow> fq_frame q q' \<Longrightarrow> fq_wf q' \<Longrightarrow> ph_wf (q', h)"
  by (auto simp: ph_wf_def fq_frame_def split: option.splits)

lemma ph_push_local:
  assumes "fq_wf q" "ph_local h = Some p" "p < length (fq_heap q)"
  shows "\<exists>q'. ph_push x (q, h) = Value (length (fq_view q ! p) < kLocalQueueSize, (q', h)) \<and> fq_wf q' \<and>
    fq_frame q q' \<and>
    fq_view q' = (if length (fq_view q ! p) < kLocalQueueSize then (fq_view q)[p := fq_view q ! p @ [x]] else fq_view q)"
  using fq_local_push_spec [OF assms(1,3), of x] assms(2) by (auto simp: ph_push_def)

lemma ph_push_retry_room:
  assumes "fq_wf q" "ph_local h = Some p" "p < length (fq_heap q)" "length (fq_view q ! p) < kLocalQueueSize"
  shows "\<exists>q'. retry (ph_push x) kProducerRetry (q, h) = Value (9, (q', h)) \<and> fq_wf q' \<and>
    fq_frame q q' \<and> fq_view q' = (fq_view q)[p := fq_view q ! p @ [x]]"
proof -
  from ph_push_local [OF assms(1-3), of x] assms(4) obtain q' where
    q': "ph_push x (q, h) = Value (True, (q', h))" "fq_wf q'" "fq_frame q q'"
      "fq_view q' = (fq_view q)[p := fq_view q ! p @ [x]]" by auto
  from retry_first [of "ph_push x", OF q'(1), of 9] q'(2-) show ?thesis by (simp add: kProducerRetry_def)
qed

lemma ph_push_retry_full:
  assumes "fq_wf q" "ph_local h = Some p" "p < length (fq_heap q)" "\<not> length (fq_view q ! p) < kLocalQueueSize"
  shows "\<exists>q'. retry (ph_push x) kProducerRetry (q, h) = Value (0, (q', h)) \<and> fq_wf q' \<and>
    fq_frame q q' \<and> fq_view q' = fq_view q"
proof -
  let ?P = "\<lambda>s. fq_wf (fst s) \<and> snd s = h \<and> fq_frame q (fst s) \<and> fq_view (fst s) = fq_view q"
  have "\<exists>s'. ph_push x s = Value (False, s') \<and> ?P s'" if P: "?P s" for s
  proof -
    from P assms(3) have "p < length (fq_heap (fst s))" by (simp add: fq_frame_def)
    from ph_push_local [OF _ assms(2) this, of x] P assms(4) obtain q' where
      "ph_push x (fst s, h) = Value (False, (q', h))" "fq_wf q'" "fq_frame (fst s) q'" "fq_view q' = fq_view q"
      by auto
    with P show ?thesis using fq_frame_trans by (cases s) fastforce
  qed
  with retry_all_fail [where P = ?P and f = "ph_push x" and s = "(q, h)" and n = kProducerRetry] assms(1)
  show ?thesis by fastforce
qed

lemma ph_release_spec:
  assumes "ph_wf (q, h)" "ph_local h = Some p"
  shows "\<exists>q'. ph_release (q, h) = Value (q', h) \<and> fq_wf q' \<and> fq_heap q' = fq_heap q"
proof -
  let ?f = "fq_FreeList q" and ?t = "ph_token h"
  have wf: "fq_wf q" and t: "p < length (fq_heap q)" "p < kQueueMaxCount" "?t = int p" "?t \<notin> set (sq_items ?f)"
    using assms by (auto simp: ph_wf_def)
  have "sq_invar ?f" using wf by (simp add: fq_wf_def)
  then show ?thesis
  proof (cases rule: sq.push_cases [where x = ?t])
    case (room f')
    from room(5) have "mset (sq_items f') = mset (?t # sq_items ?f)" by simp
    then have "distinct (sq_items f') = distinct (?t # sq_items ?f)" "set (sq_items f') = set (?t # sq_items ?f)"
      by (rule mset_eq_imp_distinct_iff, rule mset_eq_setD)
    with wf t room(2,3) have "fq_wf (q\<lparr>fq_FreeList := f'\<rparr>)" by (simp add: fq_wf_def)
    with room(1) show ?thesis by (simp add: ph_release_def)
  next
    case (full f')
    with wf have "fq_wf (q\<lparr>fq_FreeList := f'\<rparr>)" by (simp add: fq_wf_def)
    with full(1) show ?thesis by (simp add: ph_release_def)
  qed
qed

lemma ph_acquire_spec:
  assumes "fq_wf q" "length (fq_heap q) < kQueueMaxCount"
  shows "\<exists>q' h' p. ph_acquire (q, h) = Value (q', h') \<and> ph_wf (q', h') \<and> ph_local h' = Some p \<and>
    (fq_view q' = fq_view q \<or> fq_view q' = fq_view q @ [[]] \<and> p = length (fq_view q))"
proof (cases "sq_items (fq_FreeList q)")
  case Nil
  have "\<exists>s'. retry ph_apply kProducerRetry (q, h) = Value (0, s') \<and> s' = (q, h)"
    using ph_apply_empty [OF assms(1) Nil] by (intro retry_all_fail) auto
  moreover from ph_preempt_room [OF assms, of h] obtain q' h' where
    p: "ph_preempt (q, h) = Value (True, (q', h'))" "ph_wf (q', h')" "ph_local h' = Some (length (fq_heap q))"
      "fq_view q' = fq_view q @ [[]]" by blast
  moreover have "retry ph_preempt kProducerRetry (q, h) = Value (9, (q', h'))"
    using retry_first [of ph_preempt, OF p(1), of 9] by (simp add: kProducerRetry_def)
  ultimately show ?thesis by (auto simp: ph_acquire_def)
next
  case (Cons t ts)
  from ph_apply_free [OF assms(1) Cons, of h] obtain q' p where
    p: "ph_apply (q, h) = Value (True, (q', \<lparr>ph_token = t, ph_local = Some p\<rparr>))"
      "ph_wf (q', \<lparr>ph_token = t, ph_local = Some p\<rparr>)" "fq_heap q' = fq_heap q" by blast
  have "retry ph_apply kProducerRetry (q, h) = Value (9, (q', \<lparr>ph_token = t, ph_local = Some p\<rparr>))"
    using retry_first [of ph_apply, OF p(1), of 9] by (simp add: kProducerRetry_def)
  with p show ?thesis by (simp add: ph_acquire_def fq_view_def)
qed

lemma mset_view_push:
  assumes "p < length v"
  shows "mset (concat (v[p := v ! p @ [x]])) = add_mset x (mset (concat v))"
  using mset_concat_update [OF assms, of "v ! p @ [x]"] by simp

lemma ph_push_hard_spec:
  assumes "ph_wf (q, h)" "ph_local h = Some p" "length (fq_heap q) < kQueueMaxCount \<or> length (fq_view q ! p) < kLocalQueueSize"
  shows "\<exists>q' h' p'. ph_push_hard x (q, h) = Value (True, (q', h')) \<and> ph_wf (q', h') \<and> ph_local h' = Some p' \<and>
    length (fq_heap q') \<le> Suc (length (fq_heap q)) \<and>
    (\<exists>v. (v = fq_view q \<or> v = fq_view q @ [[]] \<and> \<not> length (fq_view q ! p) < kLocalQueueSize) \<and> p' < length v \<and> fq_view q' = v[p' := v ! p' @ [x]])"
proof -
  have wf: "fq_wf q" and p: "p < length (fq_heap q)" using assms(1,2) by (auto simp: ph_wf_def)
  show ?thesis
proof (cases "length (fq_view q ! p) < kLocalQueueSize")
  case True
  from ph_push_retry_room [OF wf assms(2) p True, of x] obtain q' where
    q': "retry (ph_push x) kProducerRetry (q, h) = Value (9, (q', h))" "fq_wf q'" "fq_frame q q'"
      "fq_view q' = (fq_view q)[p := fq_view q ! p @ [x]]" by blast
  with ph_wf_frame [OF assms(1) q'(3,2)] p show ?thesis using assms(2)
    by (intro exI [of _ q'] exI [of _ h] exI [of _ p]) (auto simp: ph_push_hard_def fq_frame_def)
next
  case False
  from ph_push_retry_full [OF wf assms(2) p False, of x] obtain q1 where
    q1: "retry (ph_push x) kProducerRetry (q, h) = Value (0, (q1, h))" "fq_wf q1" "fq_frame q q1"
      "fq_view q1 = fq_view q" by blast
  from ph_release_spec [OF ph_wf_frame [OF assms(1) q1(3,2)] assms(2)] obtain q2 where
    q2: "ph_release (q1, h) = Value (q2, h)" "fq_wf q2" "fq_heap q2 = fq_heap q1" by blast
  have len: "length (fq_heap q2) = length (fq_heap q)" using q1(3) q2(3) by (simp add: fq_frame_def)
  have v2: "fq_view q2 = fq_view q" using q1(4) q2(3) by (simp add: fq_view_def)
  from ph_preempt_room [OF q2(2), of h] len assms(3) False obtain q3 h3 where
    q3: "ph_preempt (q2, h) = Value (True, (q3, h3))" "ph_wf (q3, h3)" "ph_local h3 = Some (length (fq_heap q))"
      "fq_view q3 = fq_view q @ [[]]" by (auto simp: v2)
  have r3: "retry ph_preempt kProducerRetry (q2, h) = Value (9, (q3, h3))"
    using retry_first [of ph_preempt, OF q3(1), of 9] by (simp add: kProducerRetry_def)
  have "fq_view q3 ! length (fq_heap q) = []" using q3(4) by (simp add: nth_append)
  then have room: "length (fq_view q3 ! length (fq_heap q)) < kLocalQueueSize" by (simp add: kLocalQueueSize_def)
  have wf3: "fq_wf q3" and p3: "length (fq_heap q) < length (fq_heap q3)" using q3(2,3) by (auto simp: ph_wf_def)
  from ph_push_retry_room [OF wf3 q3(3) p3 room, of x] obtain q4 where
    q4: "retry (ph_push x) kProducerRetry (q3, h3) = Value (9, (q4, h3))" "fq_wf q4" "fq_frame q3 q4"
      "fq_view q4 = (fq_view q3)[length (fq_heap q) := fq_view q3 ! length (fq_heap q) @ [x]]" by blast
  have "ph_push_hard x (q, h) = Value (True, (q4, h3))"
    using assms(2) q1(1) q2(1) r3 q4(1) q3(3) by (simp add: ph_push_hard_def)
  moreover have "length (fq_heap q4) = Suc (length (fq_heap q))"
    using q4(3) q3(4) length_fq_view [of q3] by (simp add: fq_frame_def)
  ultimately show ?thesis using ph_wf_frame [OF q3(2) q4(3,2)] q4(4) q3(3,4) False
    by (intro exI [of _ q4] exI [of _ h3] exI [of _ "length (fq_heap q)"]) auto
qed
qed

text \<open>A temporary handle, one \<open>push_hard\<close>, and the handle's destructor.\<close>

definition fq_submit :: "'a \<Rightarrow> 'a fast_queue \<Rightarrow> (bool \<times> 'a fast_queue) outcome" where
  "fq_submit x q = obind (ph_new q) (\<lambda>s. obind (ph_push_hard x s) (\<lambda>(ok, s).
     obind (ph_destroy s) (\<lambda>q. Value (ok, q))))"

lemma fq_submit_result:
  assumes "fq_wf q" "length (fq_heap q) < kQueueMaxCount"
  shows "\<exists>q' n p. fq_submit x q = Value (True, q') \<and> fq_wf q' \<and> n \<le> 1 \<and> p < length (fq_view q) + n \<and>
    fq_view q' = (fq_view q @ replicate n [])[p := (fq_view q @ replicate n []) ! p @ [x]]"
proof -
  from ph_acquire_spec [OF assms, of "\<lparr>ph_token = 0, ph_local = None\<rparr>"] obtain q1 h1 p1 where
    q1: "ph_new q = Value (q1, h1)" "ph_wf (q1, h1)" "ph_local h1 = Some p1"
      "fq_view q1 = fq_view q \<or> fq_view q1 = fq_view q @ [[]] \<and> p1 = length (fq_view q)" by (auto simp: ph_new_def)
  have new: "length (fq_view q1 ! p1) < kLocalQueueSize" if "fq_view q1 \<noteq> fq_view q"
    using q1(4) that by (auto simp: nth_append kLocalQueueSize_def)
  then have "length (fq_heap q1) < kQueueMaxCount \<or> length (fq_view q1 ! p1) < kLocalQueueSize"
    using assms(2) length_fq_view [of q1] length_fq_view [of q] by fastforce
  from ph_push_hard_spec [OF q1(2,3) this, of x] obtain q2 h2 p2 v where
    q2: "ph_push_hard x (q1, h1) = Value (True, (q2, h2))" "ph_wf (q2, h2)" "ph_local h2 = Some p2"
      "v = fq_view q1 \<or> v = fq_view q1 @ [[]] \<and> \<not> length (fq_view q1 ! p1) < kLocalQueueSize" "p2 < length v" "fq_view q2 = v[p2 := v ! p2 @ [x]]" by blast
  have "v = fq_view q \<or> v = fq_view q @ [[]]" using q1(4) q2(4) new by auto
  then obtain n where n: "v = fq_view q @ replicate n []" "n \<le> 1"
    by (metis append_Nil2 le_numeral_extra(4) replicate_0 replicate_Suc zero_le_one One_nat_def)
  from ph_release_spec [OF q2(2,3)] obtain q3 where
    q3: "ph_release (q2, h2) = Value (q3, h2)" "fq_wf q3" "fq_heap q3 = fq_heap q2" by blast
  have "fq_submit x q = Value (True, q3)"
    using q1(1) q2(1,3) q3(1) by (simp add: fq_submit_def ph_destroy_def)
  moreover have "fq_view q3 = fq_view q2" using q3(3) by (simp add: fq_view_def)
  ultimately show ?thesis using q3(2) q2(5,6) n
    by (intro exI [of _ q3] exI [of _ n] exI [of _ p2]) simp
qed

lemma fq_heap_new [simp]: "fq_heap (fq_new null) = []"
  by (simp add: fq_new_def)

section \<open>Runs of submissions and pops\<close>

text \<open>\<open>start\<close> stands for the random start of each scan.\<close>

definition submitted :: "'a queue_op list \<Rightarrow> 'a list" where
  "submitted ops = concat (map (\<lambda>a. case a of Enq x \<Rightarrow> [x] | Deq \<Rightarrow> []) ops)"

text \<open>One operation, as long as the list of queues is not full.\<close>

lemma fq_submit_mset:
  assumes "fq_wf q" "length (fq_heap q) < kQueueMaxCount"
  obtains q' where "fq_submit x q = Value (True, q')" "fq_wf q'" "length (fq_heap q') \<le> Suc (length (fq_heap q))"
    "mset (concat (fq_view q')) = add_mset x (mset (concat (fq_view q)))"
proof -
  from fq_submit_result [OF assms, of x] obtain q' n p where
    q': "fq_submit x q = Value (True, q')" "fq_wf q'" "n \<le> 1" "p < length (fq_view q) + n"
      "fq_view q' = (fq_view q @ replicate n [])[p := (fq_view q @ replicate n []) ! p @ [x]]" by blast
  with mset_view_push [of p "fq_view q @ replicate n []" x] length_fq_view [of q'] show ?thesis by (intro that [of q']) simp_all
qed

lemma fq_pop_mset:
  assumes "fq_wf q" "length (fq_heap q) \<le> kQueueMaxCount" "middle < max 1 (length (fq_heap q))"
  obtains r q' where "fq_pop_hard q middle = Value (r, q')" "fq_wf q'" "length (fq_heap q') = length (fq_heap q)"
    "mset (concat (fq_view q)) = mset (case r of None \<Rightarrow> [] | Some x \<Rightarrow> [x]) + mset (concat (fq_view q'))"
proof -
  from fq_pop_hard_result [OF assms] obtain r q' where
    q': "fq_pop_hard q middle = Value (r, q')" "fq_wf q'" "fq_frame q q'" "scan_result {..<length (fq_heap q)} (fq_view q) r (fq_view q')" by blast
  show ?thesis
  proof (cases r)
    case None
    then show ?thesis using q' by (intro that [of r q']) (auto simp: scan_result_def fq_frame_def)
  next
    case (Some x)
    then show ?thesis using q' scan_result_mset [OF q'(4) [unfolded Some]] by (intro that [of r q']) (auto simp: fq_frame_def)
  qed
qed

lemma fq_run_result:
  assumes "\<And>q. start q < max 1 (length (fq_heap q))"
    and "fq_wf q" "length (fq_heap q) \<le> kQueueMaxCount"
  shows "\<exists>n acc out q'. n \<le> length ops \<and> run_ops (\<lambda>q x. fq_submit x q) (\<lambda>q. fq_pop_hard q (start q)) q (take n ops) = Value (acc, out, q') \<and>
    fq_wf q' \<and> mset acc + mset (concat (fq_view q)) = mset out + mset (concat (fq_view q')) \<and> acc = submitted (take n ops) \<and>
    (n = length ops \<or> length (fq_heap q') = kQueueMaxCount \<and> (\<exists>x. ops ! n = Enq x))"
  using assms(2,3)
proof (induction ops arbitrary: q)
  case (Cons a ops)
  show ?case
  proof (cases a)
    case (Enq x)
    show ?thesis
    proof (cases "length (fq_heap q) < kQueueMaxCount")
      case True
      from fq_submit_mset [OF Cons.prems(1) True, of x] obtain q1 where
        q1: "fq_submit x q = Value (True, q1)" "fq_wf q1" "length (fq_heap q1) \<le> Suc (length (fq_heap q))"
          "mset (concat (fq_view q1)) = add_mset x (mset (concat (fq_view q)))" .
      from Cons.IH [OF q1(2)] q1(3) True obtain n acc out q' where
        "n \<le> length ops" "run_ops (\<lambda>q x. fq_submit x q) (\<lambda>q. fq_pop_hard q (start q)) q1 (take n ops) = Value (acc, out, q')" "fq_wf q'"
        "mset acc + mset (concat (fq_view q1)) = mset out + mset (concat (fq_view q'))" "acc = submitted (take n ops)"
        "n = length ops \<or> length (fq_heap q') = kQueueMaxCount \<and> (\<exists>x. ops ! n = Enq x)" by auto
      with q1(1,4) Enq show ?thesis by (intro exI [of _ "Suc n"] exI [of _ "x # acc"] exI [of _ out] exI [of _ q']) (auto simp: submitted_def)
    next
      case False
      with Cons.prems Enq show ?thesis by (intro exI [of _ 0]) (auto simp: submitted_def)
    qed
  next
    case Deq
    from fq_pop_mset [OF Cons.prems assms(1)] obtain r q1 where
      q1: "fq_pop_hard q (start q) = Value (r, q1)" "fq_wf q1" "length (fq_heap q1) = length (fq_heap q)"
        "mset (concat (fq_view q)) = mset (case r of None \<Rightarrow> [] | Some x \<Rightarrow> [x]) + mset (concat (fq_view q1))" .
    from Cons.IH [OF q1(2)] q1(3) Cons.prems(2) obtain n acc out q' where
      "n \<le> length ops" "run_ops (\<lambda>q x. fq_submit x q) (\<lambda>q. fq_pop_hard q (start q)) q1 (take n ops) = Value (acc, out, q')" "fq_wf q'"
      "mset acc + mset (concat (fq_view q1)) = mset out + mset (concat (fq_view q'))" "acc = submitted (take n ops)"
      "n = length ops \<or> length (fq_heap q') = kQueueMaxCount \<and> (\<exists>x. ops ! n = Enq x)" by auto
    with q1(1,4) Deq show ?thesis
      by (intro exI [of _ "Suc n"] exI [of _ acc] exI [of _ "(case r of None \<Rightarrow> [] | Some x \<Rightarrow> [x]) @ out"] exI [of _ q'])
        (auto simp: submitted_def split: option.splits)
  qed
qed (auto simp: submitted_def)

section \<open>When the list of queues is full\<close>

lemma ph_preempt_retry_full:
  assumes "fq_wf q" "kQueueMaxCount \<le> length (fq_heap q)" "length (fq_heap q) + n < 2 ^ 31"
  shows "\<exists>q'. retry ph_preempt n (q, h) = Value (0, (q', h)) \<and> fq_wf q' \<and>
    fq_FreeList q' = fq_FreeList q \<and> length (fq_heap q) \<le> length (fq_heap q') \<and>
    (\<forall>p < length (fq_heap q). fq_view q' ! p = fq_view q ! p)"
proof -
  let ?P = "\<lambda>n s. fq_wf (fst s) \<and> snd s = h \<and> fq_FreeList (fst s) = fq_FreeList q \<and>
    length (fq_heap q) \<le> length (fq_heap (fst s)) \<and> length (fq_heap (fst s)) + n < 2 ^ 31 \<and>
    (\<forall>p < length (fq_heap q). fq_view (fst s) ! p = fq_view q ! p)"
  have "\<exists>s'. ph_preempt s = Value (False, s') \<and> ?P n s'" if P: "?P (Suc n) s" for n s
  proof -
    have "kQueueMaxCount \<le> length (fq_heap (fst s))" "Suc (length (fq_heap (fst s))) < 2 ^ 31"
      using P assms(2) by auto
    from ph_preempt_full [OF _ this, of h] P obtain q' where
      q': "ph_preempt (fst s, h) = Value (False, (q', h))" "fq_wf q'" "fq_view q' = fq_view (fst s) @ [[]]"
        "fq_FreeList q' = fq_FreeList (fst s)" by blast
    have "length (fq_heap q') = Suc (length (fq_heap (fst s)))"
      using q'(3) length_fq_view [of q'] by simp
    with P q' show ?thesis
      by (intro exI [of _ "(q', h)"]) (cases s, auto simp: nth_append)
  qed
  with retry_all_fail_bounded [where P = ?P and f = ph_preempt and n = n and s = "(q, h)"] assms
  show ?thesis by fastforce
qed

text \<open>
  A handle whose queue is full, when no queue can be created: \<open>push_hard\<close> gives the token back and keeps
  the handle on its queue, so the destructor gives the token back again.
\<close>

lemma ph_push_hard_full_list:
  assumes "ph_wf (q, h)" "ph_local h = Some p" "length (fq_view q ! p) = kLocalQueueSize"
    and "kQueueMaxCount \<le> length (fq_heap q)" "length (fq_heap q) + kProducerRetry < 2 ^ 31"
    and "length (sq_items (fq_FreeList q)) < kFreeListSize"
  shows "\<exists>q'. ph_push_hard x (q, h) = Value (False, (q', h)) \<and> fq_wf q' \<and>
    mset (sq_items (fq_FreeList q')) = add_mset (ph_token h) (mset (sq_items (fq_FreeList q)))"
proof -
  have wf: "fq_wf q" and p: "p < length (fq_heap q)" using assms(1,2) by (auto simp: ph_wf_def)
  have full: "\<not> length (fq_view q ! p) < kLocalQueueSize" using assms(3) by simp
  from ph_push_retry_full [OF wf assms(2) p full, of x] obtain q1 where
    q1: "retry (ph_push x) kProducerRetry (q, h) = Value (0, (q1, h))" "fq_wf q1" "fq_frame q q1"
      "fq_view q1 = fq_view q" by blast
  have "sq_invar (fq_FreeList q1)" "length (sq_items (fq_FreeList q1)) < sq_cap (fq_FreeList q1)"
    using q1(2,3) assms(6) by (auto simp: fq_wf_def fq_frame_def)
  from sq.push_room [OF this, of "ph_token h"] obtain f where
    f: "sq_push (fq_FreeList q1) (ph_token h) = Value (True, f)"
      "mset (sq_items f) = add_mset (ph_token h) (mset (sq_items (fq_FreeList q1)))" by blast
  from ph_release_spec [OF ph_wf_frame [OF assms(1) q1(3,2)] assms(2)] f(1) obtain q2 where
    q2: "ph_release (q1, h) = Value (q2, h)" "fq_wf q2" "fq_heap q2 = fq_heap q1" "fq_FreeList q2 = f"
    by (auto simp: ph_release_def)
  have v2: "fq_view q2 = fq_view q" "length (fq_heap q2) = length (fq_heap q)"
    using q1(3,4) q2(3) by (simp_all add: fq_view_def fq_frame_def)
  from ph_preempt_retry_full [OF q2(2), of kProducerRetry h] v2 assms(4,5) obtain q3 where
    q3: "retry ph_preempt kProducerRetry (q2, h) = Value (0, (q3, h))" "fq_wf q3" "fq_FreeList q3 = f"
      "length (fq_heap q) \<le> length (fq_heap q3)" "fq_view q3 ! p = fq_view q ! p" using p q2(4) by auto
  have p3: "p < length (fq_heap q3)" and full3: "\<not> length (fq_view q3 ! p) < kLocalQueueSize"
    using p q3(4,5) assms(3) by simp_all
  from ph_push_retry_full [OF q3(2) assms(2) p3 full3, of x] obtain q4 where
    q4: "retry (ph_push x) kProducerRetry (q3, h) = Value (0, (q4, h))" "fq_wf q4" "fq_frame q3 q4" by blast
  have "ph_push_hard x (q, h) = Value (False, (q4, h))"
    using assms(2) q1(1) q2(1) q3(1) q4(1) by (simp add: ph_push_hard_def)
  with q4 q3(3) f(2) q1(3) show ?thesis by (intro exI [of _ q4]) (simp add: fq_frame_def)
qed

text \<open>States with many queues, the last of them full.\<close>

lemma fq_many_queues:
  "n < 2 ^ 31 \<Longrightarrow> \<exists>q. fq_wf (q :: nat fast_queue) \<and> fq_view q = replicate n [] \<and> sq_items (fq_FreeList q) = []"
proof (induction n)
  case 0
  then show ?case by (intro exI [of _ "fq_new 0"]) (simp add: fq_wf_new, simp add: fq_new_def)
next
  case (Suc n)
  then obtain q :: "nat fast_queue" where
    q: "fq_wf q" "fq_view q = replicate n []" "sq_items (fq_FreeList q) = []" by auto
  moreover have "length (fq_heap q) = n" using q(2) length_fq_view [of q] by simp
  ultimately obtain q' where "fq_wf q'" "fq_heap q' = fq_heap q @ [lq_new (fq_null q) kLocalQueueSize]"
    "fq_FreeList q' = fq_FreeList q"
    using fq_create_queue_spec [OF q(1)] Suc.prems by auto
  with q show ?case by (intro exI [of _ q']) (auto simp: fq_view_def replicate_append_same)
qed

lemma fq_fill_queue:
  assumes "fq_wf q" "p < length (fq_heap q)" "fq_view q ! p = []" "n \<le> kLocalQueueSize"
  shows "\<exists>q'. fq_wf q' \<and> fq_frame q q' \<and> fq_view q' = (fq_view q)[p := replicate n x]"
  using assms(4)
proof (induction n)
  case 0
  then show ?case using assms by (intro exI [of _ q]) (metis fq_frame_refl list_update_id replicate_0)
next
  case (Suc n)
  then obtain q1 where q1: "fq_wf q1" "fq_frame q q1" "fq_view q1 = (fq_view q)[p := replicate n x]" by auto
  have p: "p < length (fq_heap q1)" "fq_view q1 ! p = replicate n x"
    using q1(2,3) assms(2) by (simp_all add: fq_frame_def)
  from fq_local_push_spec [OF q1(1) p(1), of x] Suc.prems p(2) q1 show ?case
    using fq_frame_trans by (fastforce simp: replicate_append_same)
qed

lemma fq_full_handle:
  "\<exists>(q :: nat fast_queue) h p. ph_wf (q, h) \<and> ph_local h = Some p \<and> length (fq_view q ! p) = kLocalQueueSize \<and>
     length (fq_heap q) = kQueueMaxCount \<and> sq_items (fq_FreeList q) = []"
proof -
  obtain q :: "nat fast_queue" where
    q: "fq_wf q" "fq_view q = replicate kQueueMaxCount []" "sq_items (fq_FreeList q) = []"
    using fq_many_queues [of kQueueMaxCount] by (auto simp: kQueueMaxCount_def)
  have len: "length (fq_heap q) = kQueueMaxCount" using q(2) length_fq_view [of q] by simp
  then have p: "0 < length (fq_heap q)" "fq_view q ! 0 = []" using q(2) by (auto simp: kQueueMaxCount_def)
  from fq_fill_queue [OF q(1) p order_refl, of 1] obtain q' where
    q': "fq_wf q'" "fq_frame q q'" "fq_view q' = (fq_view q)[0 := replicate kLocalQueueSize 1]" by blast
  with q(3) len p(1) show ?thesis
    by (intro exI [of _ q'] exI [of _ "\<lparr>ph_token = 0, ph_local = Some 0\<rparr>"] exI [of _ 0])
      (auto simp: ph_wf_def fq_frame_def kQueueMaxCount_def)
qed

section \<open>Properties\<close>

text \<open>
  C11 (functional). \<open>fq_submit\<close>, the way the thread pool uses the queue, a temporary handle and one
  \<open>push_hard\<close>: as long as one more local queue fits into the list, the element is accepted and exactly
  it is added, and the invariant is kept, including that no token is on the free list twice.
\<close>

theorem fq_submit_spec:
  assumes "fq_wf q" "length (fq_heap q) < kQueueMaxCount"
  shows "\<exists>q'. fq_submit x q = Value (True, q') \<and> fq_wf q' \<and> length (fq_heap q') \<le> length (fq_heap q) + 1 \<and>
    mset (concat (fq_view q')) = add_mset x (mset (concat (fq_view q)))"
  using fq_submit_mset [OF assms, of x] by (metis Suc_eq_plus1)

theorem fq_submit_spec_witness:
  "\<exists>q'. fq_submit (7::nat) (fq_new 0) = Value (True, q') \<and> mset (concat (fq_view q')) = {#7#}"
proof -
  have "length (fq_heap (fq_new (0::nat))) < kQueueMaxCount" by (simp add: kQueueMaxCount_def)
  from fq_submit_spec [OF fq_wf_new this, of 7] show ?thesis by fastforce
qed

text \<open>
  C10 (functional). \<open>pop_hard\<close>, for every random start index and up to \<open>kQueueMaxCount\<close> local queues: it
  fails only if every local queue is empty, and otherwise returns and removes the oldest element of one
  local queue, leaving the other queues and the free list as they were.
\<close>

theorem fq_pop_hard_spec:
  assumes "fq_wf q" "length (fq_heap q) \<le> kQueueMaxCount" "middle < max 1 (length (fq_heap q))"
  shows "\<exists>r q'. fq_pop_hard q middle = Value (r, q') \<and> fq_wf q' \<and> fq_FreeList q' = fq_FreeList q \<and>
    (case r of
       None \<Rightarrow> concat (fq_view q) = [] \<and> fq_view q' = fq_view q
     | Some x \<Rightarrow> \<exists>j xs. j < length (fq_view q) \<and> fq_view q ! j = x # xs \<and> fq_view q' = (fq_view q)[j := xs])"
proof -
  from fq_pop_hard_result [OF assms] obtain r q' where
    q': "fq_pop_hard q middle = Value (r, q')" "fq_wf q'" "fq_frame q q'"
      "scan_result {..<length (fq_heap q)} (fq_view q) r (fq_view q')" by blast
  moreover have "concat (fq_view q) = []" if "r = None"
    using that q'(4) by (auto simp: scan_result_def in_set_conv_nth)
  ultimately show ?thesis
    by (intro exI [of _ r] exI [of _ q']) (auto simp: scan_result_def fq_frame_def split: option.splits)
qed

theorem fq_pop_hard_spec_witness:
  "\<exists>q q'. fq_wf q \<and> concat (fq_view q) = [7::nat] \<and> fq_pop_hard q 0 = Value (Some 7, q') \<and> concat (fq_view q') = []"
proof -
  have room: "length (fq_heap (fq_new (0::nat))) < kQueueMaxCount" by (simp add: kQueueMaxCount_def)
  from fq_submit_result [OF fq_wf_new room, of 7] obtain q :: "nat fast_queue" and n p where
    q: "fq_wf q" "n \<le> 1" "p < n" "fq_view q = (replicate n [])[p := [7]]" by auto
  have c: "mset (concat (fq_view q)) = {#7#}"
    using mset_view_push [of p "replicate n []" "7::nat"] q(3,4) by simp
  have len: "length (fq_heap q) = n" using q(4) length_fq_view [of q] by simp
  then have "length (fq_heap q) \<le> kQueueMaxCount" "0 < max 1 (length (fq_heap q))"
    using q(2) by (auto simp: kQueueMaxCount_def)
  from fq_pop_hard_spec [OF q(1) this] obtain r q' where
    r: "fq_pop_hard q 0 = Value (r, q')"
      "case r of None \<Rightarrow> concat (fq_view q) = [] \<and> fq_view q' = fq_view q
       | Some x \<Rightarrow> \<exists>j xs. j < length (fq_view q) \<and> fq_view q ! j = x # xs \<and> fq_view q' = (fq_view q)[j := xs]"
    by blast
  from r(2) c obtain x j xs where
    x: "r = Some x" "j < length (fq_view q)" "fq_view q ! j = x # xs" "fq_view q' = (fq_view q)[j := xs]"
    by (cases r) (auto simp del: concat_eq_Nil_conv)
  with mset_concat_update [OF x(2), of xs] c have "add_mset x (mset (concat (fq_view q'))) = {#7#}" by simp
  then have "x = 7" "concat (fq_view q') = []" by (simp_all add: add_eq_conv_ex)
  with r(1) x(1) q(1) c show ?thesis by fastforce
qed

text \<open>
  C4 (invariant). Runs of submissions and pops of any length, from any consistent state and with any choice of
  start indices: every submission is accepted and no element is lost, duplicated or made up, so that what was
  there and what was submitted is what was popped and what is left, up to the end of the run or to the first submission that meets a full list of \<open>kQueueMaxCount\<close>
  local queues.
\<close>

theorem fq_run_conserves:
  assumes "\<And>q. start q < max 1 (length (fq_heap q))"
    and "fq_wf q" "length (fq_heap q) \<le> kQueueMaxCount"
  shows "\<exists>n acc out q'. n \<le> length ops \<and> run_ops (\<lambda>q x. fq_submit x q) (\<lambda>q. fq_pop_hard q (start q)) q (take n ops) = Value (acc, out, q') \<and>
    fq_wf q' \<and> mset acc + mset (concat (fq_view q)) = mset out + mset (concat (fq_view q')) \<and> acc = submitted (take n ops) \<and>
    (n = length ops \<or> length (fq_heap q') = kQueueMaxCount \<and> (\<exists>x. ops ! n = Enq x))"
  using assms by (rule fq_run_result)

theorem fq_run_conserves_witness:
  "\<exists>out q'. run_ops (\<lambda>q x. fq_submit x q) (\<lambda>q. fq_pop_hard q (length (fq_heap q) - 1)) (fq_new (0::nat))
      [Enq 5, Deq, Enq 6] = Value ([5, 6], out, q') \<and> {#5, 6#} = mset out + mset (concat (fq_view q'))"
proof -
  let ?run = "\<lambda>n. run_ops (\<lambda>q x. fq_submit x q) (\<lambda>q. fq_pop_hard q (length (fq_heap q) - 1)) (fq_new (0::nat)) (take n [Enq 5, Deq, Enq 6])"
  have small: "case ?run 0 of Value (_, _, q') \<Rightarrow> length (fq_heap q') < kQueueMaxCount | Undefined \<Rightarrow> True"
    "case ?run 1 of Value (_, _, q') \<Rightarrow> length (fq_heap q') < kQueueMaxCount | Undefined \<Rightarrow> True"
    "case ?run 2 of Value (_, _, q') \<Rightarrow> length (fq_heap q') < kQueueMaxCount | Undefined \<Rightarrow> True" by code_simp+
  have "length (fq_heap q) - 1 < max 1 (length (fq_heap q))" for q :: "nat fast_queue" by auto
  moreover have "length (fq_heap (fq_new (0::nat))) \<le> kQueueMaxCount" by simp
  ultimately obtain n acc out q' where n: "n \<le> 3" "?run n = Value (acc, out, q')" "mset acc = mset out + mset (concat (fq_view q'))"
    "acc = submitted (take n [Enq 5, Deq, Enq 6])" "n = 3 \<or> length (fq_heap q') = kQueueMaxCount"
    using fq_run_conserves [of "\<lambda>q. length (fq_heap q) - 1" "fq_new (0::nat)" "[Enq 5, Deq, Enq 6]"] fq_wf_new [of "0::nat"]
    by (auto simp del: run_ops.simps simp: numeral_3_eq_3)
  have "n = 0 \<or> n = 1 \<or> n = 2 \<or> n = 3" using n(1) by linarith
  then have "n = 3" using n(2,5) small by auto
  with n show ?thesis by (auto simp: submitted_def simp del: run_ops.simps)
qed

text \<open>
  \<open>element_count\<close> is the number of elements in all local queues, and the scan ends.
\<close>

lemma fq_element_count_spec:
  assumes "fq_wf q" "length (fq_heap q) \<le> kQueueMaxCount"
  shows "fq_element_count q = Value (length (concat (fq_view q)))"
  using fq_count_from_spec [OF assms, of 0 0] fq_size [OF assms(1)] by (simp add: fq_element_count_def)

text \<open>
  Once the list of queues is full, a \<open>push_hard\<close> that finds the handle's queue full fails
  but has given the token back while the handle keeps it: after the handle's destructor the token is on
  the free list twice, so that two producers can acquire the same single-producer queue.
\<close>

lemma fq_double_release:
  assumes "ph_wf (q, h)" "ph_local h = Some p" "length (fq_view q ! p) = kLocalQueueSize"
    and "kQueueMaxCount \<le> length (fq_heap q)" "length (fq_heap q) + kProducerRetry < 2 ^ 31"
    and "length (sq_items (fq_FreeList q)) + 2 \<le> kFreeListSize"
  shows "\<exists>s q'. ph_push_hard x (q, h) = Value (False, s) \<and> ph_destroy s = Value q' \<and>
    count (mset (sq_items (fq_FreeList q'))) (ph_token h) = 2"
proof -
  from assms(6) have "length (sq_items (fq_FreeList q)) < kFreeListSize" by simp
  from ph_push_hard_full_list [OF assms(1-5) this, of x] obtain q1 where
    q1: "ph_push_hard x (q, h) = Value (False, (q1, h))" "fq_wf q1"
      "mset (sq_items (fq_FreeList q1)) = add_mset (ph_token h) (mset (sq_items (fq_FreeList q)))" by blast
  have "length (sq_items (fq_FreeList q1)) = Suc (length (sq_items (fq_FreeList q)))"
    using arg_cong [OF q1(3), of size] by simp
  then have "length (sq_items (fq_FreeList q1)) < sq_cap (fq_FreeList q1)"
    using assms(6) q1(2) by (simp add: fq_wf_def)
  from sq.push_room [OF _ this, of "ph_token h"] q1(2) obtain f where
    f: "sq_push (fq_FreeList q1) (ph_token h) = Value (True, f)"
      "mset (sq_items f) = add_mset (ph_token h) (mset (sq_items (fq_FreeList q1)))" by (auto simp: fq_wf_def)
  have "ph_token h \<notin> set (sq_items (fq_FreeList q))" using assms(1,2) by (auto simp: ph_wf_def)
  then have "count (mset (sq_items f)) (ph_token h) = 2" using f(2) q1(3) by (simp add: count_eq_zero_iff)
  moreover have "ph_destroy (q1, h) = Value (q1\<lparr>fq_FreeList := f\<rparr>)"
    using f(1) assms(2) by (simp add: ph_destroy_def ph_release_def)
  ultimately show ?thesis using q1(1) by (intro exI [of _ "(q1, h)"] exI [of _ "q1\<lparr>fq_FreeList := f\<rparr>"]) simp
qed

text \<open>
  A refused creation still counts in \<open>QueueList.size()\<close>, so after the list was full once,
  \<open>pop_hard\<close> may start at index \<open>kQueueMaxCount\<close>, which reads past the end of the segment table.
\<close>

lemma fq_pop_hard_past_table:
  assumes "fq_wf q" "kQueueMaxCount < length (fq_heap q)"
  shows "int kQueueMaxCount < fq_queue_count q \<and> fq_pop_hard q kQueueMaxCount = Undefined"
proof -
  have s: "ps_shape (fq_QueueList q)" "ps_max_size (fq_QueueList q) = kQueueMaxCount"
    "ps_unit (fq_QueueList q) = kUnitSize" using assms(1) by (auto simp: fq_wf_def ps_holds_def)
  have "ps_unit (fq_QueueList q) dvd ps_max_size (fq_QueueList q)" using s(2,3) by (simp add: fq_constants)
  from ps_get_past_table [OF s(1) this] s(2) have "fq_lookup q (int kQueueMaxCount) = Undefined"
    by (simp add: fq_lookup_def up_get_eq)
  then have "fq_pop_hard q kQueueMaxCount = Undefined"
    by (simp add: fq_pop_hard_def fq_pop_down.simps [of q "int kQueueMaxCount"])
  then show ?thesis using assms fq_size [OF assms(1)] by (simp add: fq_queue_count_def)
qed

section \<open>The probing loop of pop\<close>

lemma fq_probe_one_empty:
  assumes "fq_wf q" "fq_view q = [[]]" "0 \<le> i" "i = 0 \<or> 0 < cur"
  shows "fq_probe fuel q 0 i cur \<in> {None, Some Undefined}"
  using assms
proof (induction fuel arbitrary: q i cur)
  case (Suc fuel)
  have len: "length (fq_heap q) = 1" using Suc.prems(2) length_fq_view [of q] by simp
  then have look: "fq_lookup q 0 = Value (Some 0)"
    using fq_lookup_in [OF Suc.prems(1), of 0] by (simp add: kQueueMaxCount_def)
  from fq_local_pop_spec [OF Suc.prems(1), of 0] len Suc.prems(2) obtain q' where
    q': "fq_local_pop q 0 = Value (None, q')" "fq_wf q'" "fq_view q' = [[]]" by auto
  have size: "ps_size (fq_QueueList q) = 1" using fq_size [OF Suc.prems(1)] len by simp
  have "fq_probe fuel q' 0 (i + 1) (2 * (i + 1) + 1) \<in> {None, Some Undefined}"
    using Suc.prems(3) q'(2,3) by (intro Suc.IH) auto
  with Suc.prems(4) look q'(1) size show ?case by (auto simp: Let_def)
qed simp

text \<open>
  \<open>pop\<close> is documented to fail when the queue is approximately empty. With no local
  queue it divides by zero, and with one empty local queue its probing loop never comes back to its start
  index: no number of iterations makes it return false, and the index overflows in the end.
\<close>

lemma fq_pop_never_fails:
  assumes "fq_wf q" "length (fq_heap q) \<le> 1" "concat (fq_view q) = []"
  shows "fq_pop fuel q 0 \<in> {None, Some Undefined}"
proof (cases "fq_heap q")
  case Nil
  then have "ps_size (fq_QueueList q) = 0" using fq_size [OF assms(1)] by simp
  then show ?thesis by (cases fuel) (simp_all add: fq_pop_def)
next
  case (Cons lq rest)
  with assms(2,3) have "fq_view q = [[]]" by (simp add: fq_view_def)
  with fq_probe_one_empty [OF assms(1) this] show ?thesis by (simp add: fq_pop_def)
qed

end
