(* ===== verification/Local_Queue_Conc.thy ===== *)
theory Local_Queue_Conc
  imports Local_Queue "HOL-Library.Sublist"
begin

text \<open>
  The interleaved executions of \<open>FastLocalQueue\<close>: every atomic load, every \<open>atomic_fetch_add\<close>
  and every plain access of the array is one step of one thread. A thread's program counter holds the
  locals of the operation it is in.
\<close>

datatype 'a lq_pc =
    LqIdle
  | PushLoaded u32 'a
  | PushCounted u32 u32 'a
  | PushRevoke
  | PushAdmitted 'a
  | PushSlot u32 'a
  | PushWritten 'a
  | PopLoaded u32
  | PopCounted u32 u32
  | PopRevoke
  | PopAdmitted
  | PopSlot u32
  | PopRead 'a

text \<open>What a step makes visible to the caller: an operation's return, or nothing.\<close>

datatype 'a lq_event = Tau | PushedEv 'a | PushFailedEv | PoppedEv 'a | PopFailedEv

fun lq_next :: "'a local_queue \<Rightarrow> 'a lq_pc \<Rightarrow> 'a lq_event \<times> 'a local_queue \<times> 'a lq_pc" where
  "lq_next q LqIdle = (Tau, q, LqIdle)"
| "lq_next q (PushLoaded enq_revoke item) =
     (Tau, q\<lparr>lq_enqueue_count := lq_enqueue_count q + 1\<rparr>,
      PushCounted enq_revoke (lq_enqueue_count q + 1) item)"
| "lq_next q (PushCounted enq_revoke enq item) =
     (Tau, q, if unat ((enq - enq_revoke) - lq_head q) > length (lq_data q)
              then PushRevoke else PushAdmitted item)"
| "lq_next q PushRevoke =
     (PushFailedEv, q\<lparr>lq_enqueue_revoke := lq_enqueue_revoke q + 1\<rparr>, LqIdle)"
| "lq_next q (PushAdmitted item) =
     (Tau, q\<lparr>lq_tail_fast := lq_tail_fast q + 1\<rparr>, PushSlot (lq_tail_fast q) item)"
| "lq_next q (PushSlot t item) =
     (Tau, q\<lparr>lq_data := (lq_data q)[unat t mod length (lq_data q) := item]\<rparr>, PushWritten item)"
| "lq_next q (PushWritten item) =
     (PushedEv item, q\<lparr>lq_tail := lq_tail q + 1\<rparr>, LqIdle)"
| "lq_next q (PopLoaded deq_revoke) =
     (Tau, q\<lparr>lq_dequeue_count := lq_dequeue_count q + 1\<rparr>,
      PopCounted deq_revoke (lq_dequeue_count q + 1))"
| "lq_next q (PopCounted deq_revoke deq) =
     (Tau, q, if lq_tail q - (deq - deq_revoke) > 2147483647 then PopRevoke else PopAdmitted)"
| "lq_next q PopRevoke =
     (PopFailedEv, q\<lparr>lq_dequeue_revoke := lq_dequeue_revoke q + 1\<rparr>, LqIdle)"
| "lq_next q PopAdmitted =
     (Tau, q\<lparr>lq_head_fast := lq_head_fast q + 1\<rparr>, PopSlot (lq_head_fast q))"
| "lq_next q (PopSlot h) = (Tau, q, PopRead (lq_data q ! (unat h mod length (lq_data q))))"
| "lq_next q (PopRead ret) =
     (PoppedEv ret, q\<lparr>lq_head := lq_head q + 1\<rparr>, LqIdle)"

text \<open>The first step of an operation: the load of the revoke counter.\<close>

definition lq_start_push :: "'a local_queue \<Rightarrow> 'a \<Rightarrow> 'a lq_pc" where
  "lq_start_push q item = PushLoaded (lq_enqueue_revoke q) item"

definition lq_start_pop :: "'a local_queue \<Rightarrow> 'a lq_pc" where
  "lq_start_pop q = PopLoaded (lq_dequeue_revoke q)"

record 'a lq_sys =
  lqs_queue :: "'a local_queue"
  lqs_pcs :: "nat \<Rightarrow> 'a lq_pc"

text \<open>Threads in \<open>P\<close> may push and threads in \<open>C\<close> may pop.\<close>

inductive lq_step :: "nat set \<Rightarrow> nat set \<Rightarrow> 'a lq_sys \<Rightarrow> 'a lq_event \<Rightarrow> 'a lq_sys \<Rightarrow> bool"
  for P C :: "nat set" where
  start_push: "i \<in> P \<Longrightarrow> lqs_pcs s i = LqIdle \<Longrightarrow>
    lq_step P C s Tau (s\<lparr>lqs_pcs := (lqs_pcs s)(i := lq_start_push (lqs_queue s) item)\<rparr>)"
| start_pop: "i \<in> C \<Longrightarrow> lqs_pcs s i = LqIdle \<Longrightarrow>
    lq_step P C s Tau (s\<lparr>lqs_pcs := (lqs_pcs s)(i := lq_start_pop (lqs_queue s))\<rparr>)"
| run_thread: "lqs_pcs s i \<noteq> LqIdle \<Longrightarrow> lq_next (lqs_queue s) (lqs_pcs s i) = (ev, q', pc') \<Longrightarrow>
    lq_step P C s ev (s\<lparr>lqs_queue := q', lqs_pcs := (lqs_pcs s)(i := pc')\<rparr>)"

inductive lq_run :: "nat set \<Rightarrow> nat set \<Rightarrow> 'a lq_sys \<Rightarrow> 'a lq_event list \<Rightarrow> 'a lq_sys \<Rightarrow> bool"
  for P C :: "nat set" where
  lq_run_nil: "lq_run P C s [] s"
| lq_run_snoc: "lq_run P C s evs t \<Longrightarrow> lq_step P C t ev u \<Longrightarrow> lq_run P C s (evs @ [ev]) u"

definition lq_sys_new :: "'a \<Rightarrow> nat \<Rightarrow> 'a lq_sys" where
  "lq_sys_new dflt n = \<lparr>lqs_queue = lq_new dflt n, lqs_pcs = (\<lambda>_. LqIdle)\<rparr>"

text \<open>The elements whose push, respectively pop, has returned successfully, in that order.\<close>

fun pushed_of :: "'a lq_event list \<Rightarrow> 'a list" where
  "pushed_of [] = []"
| "pushed_of (PushedEv x # evs) = x # pushed_of evs"
| "pushed_of (_ # evs) = pushed_of evs"

fun popped_of :: "'a lq_event list \<Rightarrow> 'a list" where
  "popped_of [] = []"
| "popped_of (PoppedEv x # evs) = x # popped_of evs"
| "popped_of (_ # evs) = popped_of evs"

lemma pushed_of_append [simp]: "pushed_of (xs @ ys) = pushed_of xs @ pushed_of ys"
  by (induction xs rule: pushed_of.induct) auto

lemma popped_of_append [simp]: "popped_of (xs @ ys) = popped_of xs @ popped_of ys"
  by (induction xs rule: popped_of.induct) auto

section \<open>A thread alone performs the sequential operation\<close>

text \<open>Run alone from start to return, the steps of an operation are the functions of \<open>Local_Queue\<close>.\<close>

fun lq_finish :: "nat \<Rightarrow> 'a local_queue \<Rightarrow> 'a lq_pc \<Rightarrow> 'a lq_event \<times> 'a local_queue \<times> 'a lq_pc" where
  "lq_finish 0 q pc = (Tau, q, pc)"
| "lq_finish (Suc n) q pc =
     (case lq_next q pc of (ev, q', pc') \<Rightarrow> if pc' = LqIdle then (ev, q', pc') else lq_finish n q' pc')"

lemma lq_finish_push:
  "lq_finish 5 q (lq_start_push q x) =
     (case lq_push q x of (ok, q') \<Rightarrow> (if ok then PushedEv x else PushFailedEv, q', LqIdle))"
  by (simp add: lq_start_push_def lq_push_def Let_def numeral_eq_Suc)

lemma lq_finish_pop:
  "lq_finish 5 q (lq_start_pop q) =
     (case lq_pop q of (r, q') \<Rightarrow> (case r of None \<Rightarrow> PopFailedEv | Some y \<Rightarrow> PoppedEv y, q', LqIdle))"
  by (simp add: lq_start_pop_def lq_pop_def Let_def numeral_eq_Suc)

section \<open>One producer and one consumer\<close>

text \<open>
  The shared part of the invariant: \<open>xs\<close> are the elements pushed so far and \<open>r\<close> of them have been
  popped; the counters are these two numbers modulo \<open>2 ^ 32\<close>, and the array holds the rest.
\<close>

definition ring_holds :: "'a list \<Rightarrow> nat \<Rightarrow> 'a local_queue \<Rightarrow> bool" where
  "ring_holds xs r q \<longleftrightarrow> 0 < lq_cap q \<and> lq_cap q \<le> 2 ^ 31 \<and> lq_cap q dvd 2 ^ 32 \<and>
     lq_tail q = of_nat (length xs) \<and> lq_head q = of_nat r \<and> r \<le> length xs \<and> length xs \<le> r + lq_cap q \<and>
     (\<forall>i. r \<le> i \<and> i < length xs \<longrightarrow> lq_data q ! (i mod lq_cap q) = xs ! i)"

text \<open>What the producer, at each of its program points, knows of its own counters.\<close>

definition enq_pending :: "'a local_queue \<Rightarrow> bool" where
  "enq_pending q \<longleftrightarrow> lq_enqueue_count q - lq_enqueue_revoke q = lq_tail q + 1"

fun prod_inv :: "'a list \<Rightarrow> nat \<Rightarrow> 'a local_queue \<Rightarrow> 'a lq_pc \<Rightarrow> bool" where
  "prod_inv xs r q LqIdle \<longleftrightarrow>
     lq_enqueue_count q - lq_enqueue_revoke q = lq_tail q \<and> lq_tail_fast q = lq_tail q"
| "prod_inv xs r q (PushLoaded rv x) \<longleftrightarrow> rv = lq_enqueue_revoke q \<and>
     lq_enqueue_count q - lq_enqueue_revoke q = lq_tail q \<and> lq_tail_fast q = lq_tail q"
| "prod_inv xs r q (PushCounted rv e x) \<longleftrightarrow> rv = lq_enqueue_revoke q \<and> e = lq_enqueue_count q \<and>
     enq_pending q \<and> lq_tail_fast q = lq_tail q"
| "prod_inv xs r q PushRevoke \<longleftrightarrow> enq_pending q \<and> lq_tail_fast q = lq_tail q"
| "prod_inv xs r q (PushAdmitted x) \<longleftrightarrow> enq_pending q \<and> lq_tail_fast q = lq_tail q \<and>
     length xs < r + lq_cap q"
| "prod_inv xs r q (PushSlot t x) \<longleftrightarrow> enq_pending q \<and> lq_tail_fast q = lq_tail q + 1 \<and> t = lq_tail q \<and>
     length xs < r + lq_cap q"
| "prod_inv xs r q (PushWritten x) \<longleftrightarrow> enq_pending q \<and> lq_tail_fast q = lq_tail q + 1 \<and>
     length xs < r + lq_cap q \<and> lq_data q ! (length xs mod lq_cap q) = x"
| "prod_inv xs r q _ \<longleftrightarrow> False"

definition deq_pending :: "'a local_queue \<Rightarrow> bool" where
  "deq_pending q \<longleftrightarrow> lq_dequeue_count q - lq_dequeue_revoke q = lq_head q + 1"

fun cons_inv :: "'a list \<Rightarrow> nat \<Rightarrow> 'a local_queue \<Rightarrow> 'a lq_pc \<Rightarrow> bool" where
  "cons_inv xs r q LqIdle \<longleftrightarrow>
     lq_dequeue_count q - lq_dequeue_revoke q = lq_head q \<and> lq_head_fast q = lq_head q"
| "cons_inv xs r q (PopLoaded rv) \<longleftrightarrow> rv = lq_dequeue_revoke q \<and>
     lq_dequeue_count q - lq_dequeue_revoke q = lq_head q \<and> lq_head_fast q = lq_head q"
| "cons_inv xs r q (PopCounted rv d) \<longleftrightarrow> rv = lq_dequeue_revoke q \<and> d = lq_dequeue_count q \<and>
     deq_pending q \<and> lq_head_fast q = lq_head q"
| "cons_inv xs r q PopRevoke \<longleftrightarrow> deq_pending q \<and> lq_head_fast q = lq_head q"
| "cons_inv xs r q PopAdmitted \<longleftrightarrow> deq_pending q \<and> lq_head_fast q = lq_head q \<and> r < length xs"
| "cons_inv xs r q (PopSlot h) \<longleftrightarrow> deq_pending q \<and> lq_head_fast q = lq_head q + 1 \<and> h = lq_head q \<and>
     r < length xs"
| "cons_inv xs r q (PopRead v) \<longleftrightarrow> deq_pending q \<and> lq_head_fast q = lq_head q + 1 \<and> r < length xs \<and>
     v = xs ! r"
| "cons_inv xs r q _ \<longleftrightarrow> False"

subsection \<open>The admission tests under the invariant\<close>

lemma unat_u32_of_nat: "k < 2 ^ 32 \<Longrightarrow> unat (of_nat k :: u32) = k"
  by (simp add: unat_of_nat)

lemma unat_u32_mod: "n dvd 2 ^ 32 \<Longrightarrow> unat (of_nat k :: u32) mod n = k mod n"
  by (simp add: unat_of_nat mod_mod_cancel)

lemma push_test_iff:
  assumes "ring_holds xs r q" "enq_pending q"
  shows "unat ((lq_enqueue_count q - lq_enqueue_revoke q) - lq_head q) > length (lq_data q) \<longleftrightarrow>
    \<not> length xs < r + lq_cap q"
proof -
  have "(lq_enqueue_count q - lq_enqueue_revoke q) - lq_head q = of_nat (length xs + 1) - of_nat r"
    using assms by (simp add: ring_holds_def enq_pending_def)
  also have "\<dots> = of_nat (length xs + 1 - r)"
    using assms(1) by (intro of_nat_diff [symmetric]) (auto simp: ring_holds_def)
  finally have "unat ((lq_enqueue_count q - lq_enqueue_revoke q) - lq_head q) = length xs + 1 - r"
    using assms(1) by (simp only:) (rule unat_u32_of_nat, auto simp: ring_holds_def)
  then show ?thesis using assms(1) by (auto simp: ring_holds_def lq_cap_def)
qed

lemma pop_test_iff:
  assumes "ring_holds xs r q" "deq_pending q"
  shows "lq_tail q - (lq_dequeue_count q - lq_dequeue_revoke q) > 2147483647 \<longleftrightarrow> \<not> r < length xs"
proof -
  have eq: "lq_tail q - (lq_dequeue_count q - lq_dequeue_revoke q) = of_nat (length xs) - of_nat (r + 1)"
    using assms by (simp add: ring_holds_def deq_pending_def add.commute)
  show ?thesis
  proof (cases "r < length xs")
    case True
    then have "of_nat (length xs) - of_nat (r + 1) = (of_nat (length xs - (r + 1)) :: u32)"
      by (intro of_nat_diff [symmetric]) simp
    moreover have "length xs - (r + 1) < 2 ^ 31" using assms(1) True by (auto simp: ring_holds_def)
    ultimately have "unat (lq_tail q - (lq_dequeue_count q - lq_dequeue_revoke q)) < 2 ^ 31"
      unfolding eq by (simp only:) (subst unat_u32_of_nat, auto)
    with True show ?thesis by (simp add: word_less_nat_alt)
  next
    case False
    with assms(1) have "r = length xs" by (simp add: ring_holds_def)
    then show ?thesis unfolding eq by simp
  qed
qed

lemmas spsc_defs = ring_holds_def enq_pending_def deq_pending_def lq_cap_def

subsection \<open>Each role's step keeps the invariant and leaves the other role's facts alone\<close>

definition same_enq :: "'a local_queue \<Rightarrow> 'a local_queue \<Rightarrow> bool" where
  "same_enq q q' \<longleftrightarrow> lq_enqueue_count q' = lq_enqueue_count q \<and> lq_enqueue_revoke q' = lq_enqueue_revoke q \<and>
     lq_tail q' = lq_tail q \<and> lq_tail_fast q' = lq_tail_fast q \<and> lq_data q' = lq_data q"

definition same_deq :: "'a local_queue \<Rightarrow> 'a local_queue \<Rightarrow> bool" where
  "same_deq q q' \<longleftrightarrow> lq_dequeue_count q' = lq_dequeue_count q \<and> lq_dequeue_revoke q' = lq_dequeue_revoke q \<and>
     lq_head q' = lq_head q \<and> lq_head_fast q' = lq_head_fast q"

lemma cons_inv_frame:
  "cons_inv xs r q pc \<Longrightarrow> same_deq q q' \<Longrightarrow> cons_inv (xs @ ys) r q' pc"
  by (cases "(xs, r, q, pc)" rule: cons_inv.cases) (auto simp: same_deq_def deq_pending_def nth_append)

lemma prod_inv_frame:
  "prod_inv xs r q pc \<Longrightarrow> same_enq q q' \<Longrightarrow> r \<le> r' \<Longrightarrow> prod_inv xs r' q' pc"
  by (cases "(xs, r, q, pc)" rule: prod_inv.cases) (auto simp: same_enq_def enq_pending_def lq_cap_def)

lemma ring_write_keeps:
  assumes "ring_holds xs r q" "length xs < r + lq_cap q"
  shows "ring_holds xs r (q\<lparr>lq_data := (lq_data q)[length xs mod lq_cap q := x]\<rparr>)"
proof -
  have "length xs mod lq_cap q \<noteq> i mod lq_cap q" if "r \<le> i" "i < length xs" for i
  proof -
    from that assms(2) have "i - i < length xs - i" "length xs - i < lq_cap q" by auto
    then have "(i + 0) mod lq_cap q \<noteq> (i + (length xs - i)) mod lq_cap q"
      by (intro ring_index_neq) auto
    with that show ?thesis by simp
  qed
  with assms show ?thesis by (auto simp: ring_holds_def lq_cap_def)
qed

lemma prod_next:
  assumes "ring_holds xs r q" "prod_inv xs r q pc" "pc \<noteq> LqIdle" "lq_next q pc = (ev, q', pc')"
  shows "popped_of [ev] = [] \<and> same_deq q q' \<and> ring_holds (xs @ pushed_of [ev]) r q' \<and>
    prod_inv (xs @ pushed_of [ev]) r q' pc'"
proof (cases pc)
  case (PushCounted rv e x)
  with assms push_test_iff [OF assms(1)] show ?thesis by (auto simp: same_deq_def)
next
  case (PushSlot t x)
  then have t: "unat t mod lq_cap q = length xs mod lq_cap q"
    using assms(1,2) by (simp add: ring_holds_def unat_u32_mod)
  with PushSlot assms(4) have q': "q' = q\<lparr>lq_data := (lq_data q)[length xs mod lq_cap q := x]\<rparr>"
    by (auto simp: lq_cap_def)
  with PushSlot assms(1,2) ring_write_keeps [OF assms(1), of x] show ?thesis
    using assms(4) by (auto simp: same_deq_def enq_pending_def lq_cap_def ring_holds_def)
next
  case (PushWritten x)
  then have q': "q' = q\<lparr>lq_tail := lq_tail q + 1\<rparr>" "ev = PushedEv x" "pc' = LqIdle"
    using assms(4) by auto
  have "ring_holds (xs @ [x]) r q'"
    using assms(1,2) PushWritten unfolding q' ring_holds_def
    by (auto simp: lq_cap_def nth_append less_Suc_eq add.commute)
  with q' PushWritten assms(2) show ?thesis by (auto simp: same_deq_def enq_pending_def)
qed (use assms in \<open>auto simp: same_deq_def spsc_defs algebra_simps\<close>)

lemma cons_next:
  assumes "ring_holds xs r q" "cons_inv xs r q pc" "pc \<noteq> LqIdle" "lq_next q pc = (ev, q', pc')"
  shows "pushed_of [ev] = [] \<and> same_enq q q' \<and> popped_of [ev] = take (length (popped_of [ev])) (drop r xs) \<and>
    ring_holds xs (r + length (popped_of [ev])) q' \<and> cons_inv xs (r + length (popped_of [ev])) q' pc'"
proof (cases pc)
  case (PopCounted rv d)
  with assms pop_test_iff [OF assms(1)] show ?thesis by (auto simp: same_enq_def)
next
  case (PopSlot h)
  then have "unat h mod lq_cap q = r mod lq_cap q"
    using assms(1,2) by (simp add: ring_holds_def unat_u32_mod)
  with PopSlot assms show ?thesis by (auto simp: same_enq_def ring_holds_def lq_cap_def)
next
  case (PopRead v)
  with assms show ?thesis
    by (auto simp: same_enq_def spsc_defs take_Suc hd_drop_conv_nth add.commute)
qed (use assms in \<open>auto simp: same_enq_def spsc_defs algebra_simps\<close>)

subsection \<open>Every reachable state\<close>

definition spsc_inv :: "nat \<Rightarrow> nat \<Rightarrow> 'a lq_event list \<Rightarrow> 'a lq_sys \<Rightarrow> bool" where
  "spsc_inv p c evs s \<longleftrightarrow>
     ring_holds (pushed_of evs) (length (popped_of evs)) (lqs_queue s) \<and>
     prefix (popped_of evs) (pushed_of evs) \<and>
     prod_inv (pushed_of evs) (length (popped_of evs)) (lqs_queue s) (lqs_pcs s p) \<and>
     cons_inv (pushed_of evs) (length (popped_of evs)) (lqs_queue s) (lqs_pcs s c) \<and>
     (\<forall>i. i \<noteq> p \<and> i \<noteq> c \<longrightarrow> lqs_pcs s i = LqIdle)"

lemma spsc_inv_init:
  "0 < n \<Longrightarrow> n \<le> 2 ^ 31 \<Longrightarrow> n dvd 2 ^ 32 \<Longrightarrow> spsc_inv p c [] (lq_sys_new d n)"
  by (simp add: spsc_inv_def lq_sys_new_def ring_holds_def lq_cap_def lq_new_def)

lemma prefix_extend:
  assumes "prefix ys xs" "zs = take k (drop (length ys) xs)"
  shows "prefix (ys @ zs) xs"
  using assms by (auto simp: prefix_def) (metis append_take_drop_id)

lemma spsc_inv_prod:
  assumes "p \<noteq> c" "spsc_inv p c evs s" "lqs_pcs s p \<noteq> LqIdle"
    "lq_next (lqs_queue s) (lqs_pcs s p) = (ev, q', pc')"
  shows "spsc_inv p c (evs @ [ev]) (s\<lparr>lqs_queue := q', lqs_pcs := (lqs_pcs s)(p := pc')\<rparr>)"
proof -
  let ?xs = "pushed_of evs" and ?ys = "popped_of evs"
  from assms have n: "popped_of [ev] = []" "same_deq (lqs_queue s) q'"
    "ring_holds (?xs @ pushed_of [ev]) (length ?ys) q'"
    "prod_inv (?xs @ pushed_of [ev]) (length ?ys) q' pc'"
    using prod_next [of ?xs "length ?ys" "lqs_queue s"] by (auto simp: spsc_inv_def)
  have "cons_inv (?xs @ pushed_of [ev]) (length ?ys) q' (lqs_pcs s c)"
    using assms(2) n(2) by (auto simp: spsc_inv_def intro: cons_inv_frame)
  moreover have "prefix ?ys (?xs @ pushed_of [ev])"
    using assms(2) by (auto simp: spsc_inv_def)
  ultimately show ?thesis using n assms(1,2) by (simp add: spsc_inv_def)
qed

lemma spsc_inv_cons:
  assumes "p \<noteq> c" "spsc_inv p c evs s" "lqs_pcs s c \<noteq> LqIdle"
    "lq_next (lqs_queue s) (lqs_pcs s c) = (ev, q', pc')"
  shows "spsc_inv p c (evs @ [ev]) (s\<lparr>lqs_queue := q', lqs_pcs := (lqs_pcs s)(c := pc')\<rparr>)"
proof -
  let ?xs = "pushed_of evs" and ?ys = "popped_of evs" and ?zs = "popped_of [ev]"
  from assms have n: "pushed_of [ev] = []" "same_enq (lqs_queue s) q'"
    "?zs = take (length ?zs) (drop (length ?ys) ?xs)"
    "ring_holds ?xs (length ?ys + length ?zs) q'" "cons_inv ?xs (length ?ys + length ?zs) q' pc'"
    using cons_next [of ?xs "length ?ys" "lqs_queue s"] by (auto simp: spsc_inv_def)
  have "prod_inv ?xs (length ?ys + length ?zs) q' (lqs_pcs s p)"
    using assms(2) n(2) by (auto simp: spsc_inv_def intro: prod_inv_frame)
  moreover have "prefix (?ys @ ?zs) ?xs"
    using assms(2) n(3) by (intro prefix_extend) (auto simp: spsc_inv_def)
  ultimately show ?thesis using n(1,4,5) assms(1,2) by (simp add: spsc_inv_def)
qed

lemma spsc_inv_step:
  assumes "lq_step {p} {c} s ev t" "p \<noteq> c" "spsc_inv p c evs s"
  shows "spsc_inv p c (evs @ [ev]) t"
  using assms(1)
proof cases
  case (start_push i item)
  with assms(2,3) show ?thesis by (auto simp: spsc_inv_def lq_start_push_def)
next
  case (start_pop i)
  with assms(2,3) show ?thesis by (auto simp: spsc_inv_def lq_start_pop_def)
next
  case (run_thread i q' pc')
  then have "i = p \<or> i = c" using assms(3) by (auto simp: spsc_inv_def)
  with run_thread spsc_inv_prod [OF assms(2,3)] spsc_inv_cons [OF assms(2,3)] show ?thesis by auto
qed

lemma spsc_inv_run:
  assumes "lq_run {p} {c} s evs t" "p \<noteq> c" "spsc_inv p c [] s"
  shows "spsc_inv p c evs t"
  using assms by (induction rule: lq_run.induct) (auto intro: spsc_inv_step)

section \<open>Schedules\<close>

datatype 'a lq_sched = StartPush nat 'a | StartPop nat | RunThread nat

fun lq_exec1 :: "'a lq_sys \<Rightarrow> 'a lq_sched \<Rightarrow> 'a lq_event \<times> 'a lq_sys" where
  "lq_exec1 s (StartPush i x) =
     (Tau, if lqs_pcs s i = LqIdle
           then s\<lparr>lqs_pcs := (lqs_pcs s)(i := lq_start_push (lqs_queue s) x)\<rparr> else s)"
| "lq_exec1 s (StartPop i) =
     (Tau, if lqs_pcs s i = LqIdle
           then s\<lparr>lqs_pcs := (lqs_pcs s)(i := lq_start_pop (lqs_queue s))\<rparr> else s)"
| "lq_exec1 s (RunThread i) =
     (case lq_next (lqs_queue s) (lqs_pcs s i) of
        (ev, q', pc') \<Rightarrow> (ev, s\<lparr>lqs_queue := q', lqs_pcs := (lqs_pcs s)(i := pc')\<rparr>))"

fun lq_exec :: "'a lq_sys \<Rightarrow> 'a lq_sched list \<Rightarrow> 'a lq_event list \<times> 'a lq_sys" where
  "lq_exec s [] = ([], s)"
| "lq_exec s (a # as) =
     (case lq_exec1 s a of (ev, s') \<Rightarrow> case lq_exec s' as of (evs, t) \<Rightarrow> (ev # evs, t))"

definition sched_push :: "nat \<Rightarrow> 'a \<Rightarrow> 'a lq_sched list" where
  "sched_push i x = StartPush i x # replicate 6 (RunThread i)"

definition sched_pop :: "nat \<Rightarrow> 'a lq_sched list" where
  "sched_pop i = StartPop i # replicate 6 (RunThread i)"

definition race :: "nat \<Rightarrow> nat lq_sched list" where
  "race n = concat (map (sched_push 0) [1..<n+1]) @ (StartPop 1 # replicate 3 (RunThread 1)) @ sched_pop 2 @
     sched_push 0 (n+1) @ replicate 2 (RunThread 1) @ concat (replicate (n-1) (sched_pop 2))"

text \<open>Executing a schedule is a run: starting an operation on a busy thread and running an idle one do nothing.\<close>

definition sched_ok :: "nat set \<Rightarrow> nat set \<Rightarrow> 'a lq_sched \<Rightarrow> bool" where
  "sched_ok P C a \<longleftrightarrow> (case a of StartPush i _ \<Rightarrow> i \<in> P | StartPop i \<Rightarrow> i \<in> C | RunThread _ \<Rightarrow> True)"

lemma exec1_step:
  assumes "lq_exec1 s a = (ev, t)" "sched_ok P C a"
  shows "lq_step P C s ev t \<or> (ev = Tau \<and> t = s)"
proof (cases a)
  case (RunThread i)
  show ?thesis
  proof (cases "lqs_pcs s i = LqIdle")
    case True
    moreover from True have "(lqs_pcs s)(i := LqIdle) = lqs_pcs s" by (simp add: fun_upd_idem)
    ultimately show ?thesis using assms RunThread by auto
  next
    case False
    with assms RunThread show ?thesis by (auto split: prod.splits intro: lq_step.run_thread)
  qed
qed (use assms in \<open>auto simp: sched_ok_def intro: lq_step.intros\<close>)

lemma lq_run_trans: "lq_run P C t evs' u \<Longrightarrow> lq_run P C s evs t \<Longrightarrow> lq_run P C s (evs @ evs') u"
  by (induction rule: lq_run.induct) (auto simp flip: append_assoc intro: lq_run_snoc)

lemma exec_run:
  assumes "lq_exec s as = (evs, t)" "\<forall>a \<in> set as. sched_ok P C a"
  shows "\<exists>evs'. lq_run P C s evs' t \<and> pushed_of evs' = pushed_of evs \<and> popped_of evs' = popped_of evs"
  using assms
proof (induction as arbitrary: s evs)
  case Nil
  then show ?case by (auto intro: lq_run_nil)
next
  case (Cons a as)
  obtain ev s' where 1: "lq_exec1 s a = (ev, s')" by fastforce
  with Cons.prems obtain evs1 where 2: "lq_exec s' as = (evs1, t)" "evs = ev # evs1"
    by (auto split: prod.splits)
  with Cons.IH Cons.prems(2) obtain evs2 where 3: "lq_run P C s' evs2 t"
    "pushed_of evs2 = pushed_of evs1" "popped_of evs2 = popped_of evs1" by fastforce
  from exec1_step [OF 1] Cons.prems(2) have "lq_step P C s ev s' \<or> (ev = Tau \<and> s' = s)" by simp
  then show ?case
  proof
    assume "lq_step P C s ev s'"
    then have "lq_run P C s [ev] s'" using lq_run_snoc [OF lq_run_nil] by fastforce
    from lq_run_trans [OF 3(1) this] have "lq_run P C s ([ev] @ evs2) t" .
    moreover have "pushed_of ([ev] @ evs2) = pushed_of evs" "popped_of ([ev] @ evs2) = popped_of evs"
      using 2(2) 3(2,3) by (cases ev; simp)+
    ultimately show ?thesis by blast
  qed (use 2 3 in auto)
qed

section \<open>Wait-freedom\<close>

text \<open>A thread's run against an environment that changes the queue arbitrarily before each of its steps.\<close>

fun lq_interfere :: "'a lq_pc \<Rightarrow> 'a local_queue list \<Rightarrow> 'a lq_pc" where
  "lq_interfere pc [] = pc"
| "lq_interfere pc (q # qs) = (if pc = LqIdle then LqIdle else lq_interfere (snd (snd (lq_next q pc))) qs)"

fun lq_rank :: "'a lq_pc \<Rightarrow> nat" where
  "lq_rank LqIdle = 0"
| "lq_rank (PushLoaded _ _) = 5"
| "lq_rank (PushCounted _ _ _) = 4"
| "lq_rank PushRevoke = 1"
| "lq_rank (PushAdmitted _) = 3"
| "lq_rank (PushSlot _ _) = 2"
| "lq_rank (PushWritten _) = 1"
| "lq_rank (PopLoaded _) = 5"
| "lq_rank (PopCounted _ _) = 4"
| "lq_rank PopRevoke = 1"
| "lq_rank PopAdmitted = 3"
| "lq_rank (PopSlot _) = 2"
| "lq_rank (PopRead _) = 1"

lemma lq_rank_decreases: "pc \<noteq> LqIdle \<Longrightarrow> lq_rank (snd (snd (lq_next q pc))) < lq_rank pc"
  by (cases pc) auto

lemma lq_rank_bound: "lq_rank pc \<le> 5"
  by (cases pc) auto

lemma lq_interfere_idle: "lq_rank pc \<le> length qs \<Longrightarrow> lq_interfere pc qs = LqIdle"
proof (induction qs arbitrary: pc)
  case Nil
  then show ?case by (cases pc) auto
next
  case (Cons q qs)
  show ?case
  proof (cases "pc = LqIdle")
    case False
    with lq_rank_decreases [of pc q] Cons.prems have "lq_rank (snd (snd (lq_next q pc))) \<le> length qs" by simp
    with False Cons.IH show ?thesis by simp
  qed simp
qed

section \<open>Properties\<close>

text \<open>
  C34 (safety). With one producer and one consumer, in every interleaving and across every wrap-around of
  the counters: the popped elements are a prefix of the pushed ones, so nothing is lost, duplicated,
  reordered or read before it was written, and at most \<open>QueueSize\<close> elements are in the queue.
\<close>

theorem lq_spsc_fifo:
  assumes "p \<noteq> c" "0 < n" "n \<le> 2 ^ 31" "n dvd 2 ^ 32" "lq_run {p} {c} (lq_sys_new d n) evs s"
  shows "prefix (popped_of evs) (pushed_of evs) \<and> length (pushed_of evs) \<le> length (popped_of evs) + n"
proof -
  have "lq_cap (lqs_queue s) = n" using assms(5)
  proof (induction "lq_sys_new d n" evs s rule: lq_run.induct)
    case lq_run_nil
    then show ?case by (simp add: lq_sys_new_def)
  next
    case (lq_run_snoc evs t ev u)
    from lq_run_snoc(3) have "lq_cap (lqs_queue u) = lq_cap (lqs_queue t)"
    proof cases
      case (run_thread i q' pc')
      then show ?thesis by (cases "lqs_pcs t i") (auto simp: lq_cap_def)
    qed auto
    with lq_run_snoc show ?case by simp
  qed
  moreover have "spsc_inv p c evs s"
    using assms spsc_inv_init by (intro spsc_inv_run [OF assms(5,1)]) auto
  ultimately show ?thesis by (auto simp: spsc_inv_def ring_holds_def)
qed

text \<open>A complete push by thread 0 is such a run.\<close>

theorem lq_spsc_fifo_witness:
  "\<exists>evs s. lq_run {0} {1} (lq_sys_new 0 32) evs s \<and> prefix (popped_of evs) (pushed_of evs) \<and> length (pushed_of evs) \<le> length (popped_of evs) + 32 \<and>
     pushed_of evs = [10, 20 :: nat] \<and> popped_of evs = [10]"
proof -
  let ?as = "sched_push 0 10 @ sched_pop 1 @ sched_push 0 20 :: nat lq_sched list"
  obtain evs t where e: "lq_exec (lq_sys_new 0 32) ?as = (evs, t)" by fastforce
  have ok: "\<forall>a \<in> set ?as. sched_ok {0} {1} a" by (simp add: sched_push_def sched_pop_def sched_ok_def)
  from exec_run [OF e ok] obtain evs' where r: "lq_run {0} {1} (lq_sys_new 0 32) evs' t"
    "pushed_of evs' = pushed_of evs" "popped_of evs' = popped_of evs" by blast
  have "pushed_of (fst (lq_exec (lq_sys_new 0 32) ?as)) = [10, 20]"
    "popped_of (fst (lq_exec (lq_sys_new 0 32) ?as)) = [10]" by code_simp+
  with e r(2,3) have "pushed_of evs' = [10, 20]" "popped_of evs' = [10]" by auto
  moreover have "prefix (popped_of evs') (pushed_of evs') \<and> length (pushed_of evs') \<le> length (popped_of evs') + 32"
    using r(1) by (intro lq_spsc_fifo [of 0 1 32]) auto
  ultimately show ?thesis using r(1) by blast
qed

text \<open>
  C35 (safety, violated). With one producer and two consumers the queue loses and duplicates elements:
  a consumer that has claimed slot 0 but not read it is overtaken by another that completes, \<open>head_\<close>
  counts completions and not slots, so the producer is admitted and overwrites slot 0. For the size the
  program uses (32), pushing 1 to 33 ends with 1 lost and 33 popped twice.
\<close>

theorem lq_two_consumers_race:
  "\<exists>evs s. lq_run {0} {1, 2} (lq_sys_new 0 32) evs s \<and> pushed_of evs = [1..<34] \<and>
     popped_of evs = 2 # 33 # [3..<34]"
proof -
  obtain evs t where e: "lq_exec (lq_sys_new 0 32) (race 32) = (evs, t)" by fastforce
  have ok: "\<forall>a \<in> set (race 32). sched_ok {0} {1, 2} a"
    by (auto simp: race_def sched_push_def sched_pop_def sched_ok_def)
  have "pushed_of (fst (lq_exec (lq_sys_new 0 32) (race 32))) = [1..<34]"
    "popped_of (fst (lq_exec (lq_sys_new 0 32) (race 32))) = 2 # 33 # [3..<34]" by code_simp+
  with e exec_run [OF e ok] show ?thesis by (metis fst_conv)
qed

text \<open>
  The operations are wait-free: whatever the other threads do to the queue between its
  steps, a thread in the middle of a push or a pop returns after at most five more steps of its own.
\<close>

lemma lq_wait_free:
  assumes "5 \<le> length qs"
  shows "lq_interfere pc qs = LqIdle"
  using assms lq_rank_bound [of pc] by (intro lq_interfere_idle) simp

text \<open>
  Without interference, the steps of an operation amount to the sequential function:
  same answer, same final state, for every queue whatsoever.
\<close>

lemma lq_steps_sequential:
  "lq_finish 5 q (lq_start_push q x) =
     (case lq_push q x of (ok, q') \<Rightarrow> (if ok then PushedEv x else PushFailedEv, q', LqIdle)) \<and>
   lq_finish 5 q (lq_start_pop q) =
     (case lq_pop q of (r, q') \<Rightarrow> (case r of None \<Rightarrow> PopFailedEv | Some y \<Rightarrow> PoppedEv y, q', LqIdle))"
  by (simp only: lq_finish_push lq_finish_pop simp_thms)

end
