(* ===== verification/Fast_Queue_Conc.thy ===== *)
theory Fast_Queue_Conc
  imports Fast_Queue_Props Local_Queue_Conc
begin

text \<open>
  \<open>FastQueue\<close> in interleaving: any number of producer handles, each used by a thread of its own, and one consumer that calls \<open>pop_hard\<close>. A step is one
  call of the free list (it holds a mutex), one atomic access to the list of queues or the storing of a ring in its slot, one read of a
  slot (\<open>get\<close>), or one access inside a ring (\<open>lq_next\<close>). Finding the segment of a slot and creating it are one step: the compare-and-swap decides,
  and \<open>Push_Stack_Conc\<close> shows that its outcome does not depend on who wins.
\<close>

section \<open>Producers\<close>

text \<open>What a handle goes on to do once it has, or has not, found a ring: return from the constructor, begin the first or the second loop of \<open>push_hard\<close>.\<close>

datatype 'a fc_goal = Construct | First 'a | Second 'a

text \<open>
  The program points of a handle. The number is the counter \<open>retry\<close> of the loop that the thread is in; \<open>Installing\<close> and \<open>Storing\<close> carry the slot that
  was claimed and the address of the new ring; \<open>Trying\<close> and \<open>Pushing\<close> (\<open>True\<close> for the second loop) the program point inside the
  ring, where \<open>LqIdle\<close> stands before the call.
\<close>

datatype 'a fc_pc =
    Absent
  | Ready
  | Trying 'a "'a lq_pc"
  | Applying nat "'a fc_goal"
  | Applied nat "'a fc_goal"
  | Claiming nat "'a fc_goal"
  | Installing int nat nat "'a fc_goal"
  | Storing int nat nat "'a fc_goal"
  | Preempted nat "'a fc_goal"
  | Pushing nat bool 'a "'a lq_pc"
  | Releasing 'a
  | Destroying

type_synonym 'a producer = "'a fc_pc \<times> handle"

text \<open>The beginning of \<open>PushOnlyFastStack::push\<close>: the new ring, the slot that was claimed, and whether it is within the list.\<close>

definition fc_claim :: "'a fast_queue \<Rightarrow> bool \<times> int \<times> nat \<times> 'a fast_queue" where
  "fc_claim q = (let slot = sint (ps_end (fq_QueueList q)) in
     (size_t_of_int slot < ps_max_size (fq_QueueList q), slot, length (fq_heap q),
      q\<lparr>fq_QueueList := (fq_QueueList q)\<lparr>ps_end := ps_end (fq_QueueList q) + 1\<rparr>,
        fq_heap := fq_heap q @ [lq_new (fq_null q) kLocalQueueSize]\<rparr>))"

definition fc_install :: "int \<Rightarrow> 'a fast_queue \<Rightarrow> 'a fast_queue outcome" where
  "fc_install slot q = (let L = fq_QueueList q; mainSlot = size_t_of_int slot div ps_unit L in
     obind (vec_get (ps_stacks L) (int mainSlot)) (\<lambda>oldStack.
       Value (q\<lparr>fq_QueueList := L\<lparr>ps_stacks := (ps_stacks L)[mainSlot :=
         Some (case oldStack of None \<Rightarrow> replicate (ps_unit L) None | Some cells \<Rightarrow> cells)]\<rparr>\<rparr>)))"

definition fc_store :: "int \<Rightarrow> nat \<Rightarrow> 'a fast_queue \<Rightarrow> 'a fast_queue outcome" where
  "fc_store slot p q = (let L = fq_QueueList q; mainSlot = size_t_of_int slot div ps_unit L;
       subSlot = slot - int (mainSlot * ps_unit L) in
     obind (vec_get (ps_stacks L) (int mainSlot)) (\<lambda>oldStack.
       case oldStack of None \<Rightarrow> Undefined
       | Some cells \<Rightarrow> obind (vec_set cells subSlot (Some p)) (\<lambda>cells.
           Value (q\<lparr>fq_QueueList := L\<lparr>ps_stacks := (ps_stacks L)[mainSlot := Some cells]\<rparr>\<rparr>))))"

text \<open>After the loops of \<open>apply\<close> and \<open>preempt\<close>.\<close>

definition fc_settle :: "'a fc_goal \<Rightarrow> handle \<Rightarrow> 'a producer" where
  "fc_settle g h = ((case g of
       Construct \<Rightarrow> Ready
     | First x \<Rightarrow> if ph_local h = None then Ready else Pushing (kProducerRetry - 1) False x LqIdle
     | Second x \<Rightarrow> if ph_local h = None then Ready else Pushing (kProducerRetry - 1) True x LqIdle), h)"

text \<open>A failed attempt of \<open>apply\<close>, of \<open>preempt\<close> and of a push.\<close>

definition apply_failed :: "nat \<Rightarrow> 'a fc_goal \<Rightarrow> handle \<Rightarrow> 'a producer" where
  "apply_failed r g h = (if r \<le> 1 then Claiming (kProducerRetry - 1) g else Applying (r - 1) g, h)"

definition preempt_failed :: "nat \<Rightarrow> 'a fc_goal \<Rightarrow> handle \<Rightarrow> 'a producer" where
  "preempt_failed r g h = (if r \<le> 1 then fc_settle g h else (Claiming (r - 1) g, h))"

definition push_failed :: "nat \<Rightarrow> bool \<Rightarrow> 'a \<Rightarrow> 'a fc_pc" where
  "push_failed r again x = (if r \<le> 1 then if again then Ready else Releasing x else Pushing (r - 1) again x LqIdle)"

text \<open>One access inside the ring that the handle points to, or the first one.\<close>

definition ring_access ::
  "('a local_queue \<Rightarrow> 'a lq_pc) \<Rightarrow> nat option \<Rightarrow> 'a lq_pc \<Rightarrow> 'a fast_queue \<Rightarrow> ((nat \<times> 'a lq_event) \<times> 'a fast_queue \<times> 'a lq_pc) outcome" where
  "ring_access start local pc q = (case local of
     None \<Rightarrow> Undefined
   | Some p \<Rightarrow> obind (vec_get (fq_heap q) (int p)) (\<lambda>lq.
       if pc = LqIdle then Value ((p, Tau), q, start lq)
       else (case lq_next lq pc of (ev, lq', pc') \<Rightarrow> Value ((p, ev), q\<lparr>fq_heap := (fq_heap q)[p := lq']\<rparr>, pc'))))"

definition fc_silent :: "nat \<times> 'a lq_event" where "fc_silent = (0, Tau)"

fun fc_prod :: "'a fast_queue \<Rightarrow> 'a producer \<Rightarrow> ((nat \<times> 'a lq_event) \<times> 'a fast_queue \<times> 'a producer) outcome" where
  "fc_prod q (Absent, h) = Value (fc_silent, q, (Absent, h))"
| "fc_prod q (Ready, h) = Value (fc_silent, q, (Ready, h))"
| "fc_prod q (Trying x pc, h) =
     obind (ring_access (\<lambda>lq. lq_start_push lq x) (ph_local h) pc q) (\<lambda>(ev, q, pc').
       Value (ev, q, (if pc' = LqIdle then Ready else Trying x pc', h)))"
| "fc_prod q (Applying r g, h) =
     obind (sq_pop (fq_FreeList q)) (\<lambda>(t, free).
       Value (fc_silent, q\<lparr>fq_FreeList := free\<rparr>,
         (case t of None \<Rightarrow> apply_failed r g h | Some t \<Rightarrow> (Applied r g, h\<lparr>ph_token := t\<rparr>))))"
| "fc_prod q (Applied r g, h) =
     obind (up_get (fq_QueueList q) (ph_token h)) (\<lambda>s.
       Value (fc_silent, q, (case s of None \<Rightarrow> apply_failed r g (h\<lparr>ph_local := None\<rparr>) | Some local \<Rightarrow> fc_settle g (h\<lparr>ph_local := local\<rparr>))))"
| "fc_prod q (Claiming r g, h) =
     (case fc_claim q of (ok, slot, p, q) \<Rightarrow>
        Value (fc_silent, q, if ok then (Installing slot p r g, h) else preempt_failed r g h))"
| "fc_prod q (Installing slot p r g, h) = obind (fc_install slot q) (\<lambda>q. Value (fc_silent, q, (Storing slot p r g, h)))"
| "fc_prod q (Storing slot p r g, h) =
     obind (fc_store slot p q) (\<lambda>q. Value (fc_silent, q, (Preempted r g, h\<lparr>ph_token := slot\<rparr>)))"
| "fc_prod q (Preempted r g, h) =
     obind (up_get (fq_QueueList q) (ph_token h)) (\<lambda>s.
       Value (fc_silent, q, (case s of None \<Rightarrow> preempt_failed r g (h\<lparr>ph_local := None\<rparr>) | Some local \<Rightarrow> fc_settle g (h\<lparr>ph_local := local\<rparr>))))"
| "fc_prod q (Pushing r again x pc, h) =
     obind (ring_access (\<lambda>lq. lq_start_push lq x) (ph_local h) pc q) (\<lambda>(ev, q, pc').
       Value (ev, q, (if pc' \<noteq> LqIdle then Pushing r again x pc'
                      else if snd ev = PushFailedEv then push_failed r again x else Ready, h)))"
| "fc_prod q (Releasing x, h) =
     obind (sq_push (fq_FreeList q) (ph_token h)) (\<lambda>(_, free).
       Value (fc_silent, q\<lparr>fq_FreeList := free\<rparr>, (Claiming (kProducerRetry - 1) (Second x), h)))"
| "fc_prod q (Destroying, h) =
     obind (sq_push (fq_FreeList q) (ph_token h)) (\<lambda>(_, free). Value (fc_silent, q\<lparr>fq_FreeList := free\<rparr>, (Absent, h)))"

text \<open>The calls of a program on its handle: construction, \<open>push\<close>, \<open>push_hard\<close> and destruction.\<close>

datatype 'a fc_call = Make | Push 'a | Push_hard 'a | Destroy

fun fc_begin :: "'a fc_call \<Rightarrow> 'a producer \<Rightarrow> 'a producer option" where
  "fc_begin Make (Absent, h) = Some (Applying (kProducerRetry - 1) Construct, \<lparr>ph_token = 0, ph_local = None\<rparr>)"
| "fc_begin (Push x) (Ready, h) = Some (if ph_local h = None then Ready else Trying x LqIdle, h)"
| "fc_begin (Push_hard x) (Ready, h) =
     Some (if ph_local h = None then Applying (kProducerRetry - 1) (First x) else Pushing (kProducerRetry - 1) False x LqIdle, h)"
| "fc_begin Destroy (Ready, h) = Some (if ph_local h = None then Absent else Destroying, h)"
| "fc_begin _ _ = None"

section \<open>The consumer\<close>

text \<open>
  The program points of \<open>pop_hard\<close>: before \<open>get\<close> in the loop down (index, middle, approximate size) and in the loop up (index,
  approximate size), inside a ring in either loop, and before the size is read again.
\<close>

datatype 'a fc_scan =
    Resting
  | Down int int int
  | DownPop int int int nat "'a lq_pc"
  | Up int int
  | UpPop int int nat "'a lq_pc"
  | Resize int

fun fc_cons :: "'a fast_queue \<Rightarrow> 'a fc_scan \<Rightarrow> ((nat \<times> 'a lq_event) \<times> 'a fast_queue \<times> 'a fc_scan) outcome" where
  "fc_cons q Resting = Value (fc_silent, q, Resting)"
| "fc_cons q (Down i middle approx) =
     (if i < 0 then Value (fc_silent, q, Up (middle + 1) approx)
      else obind (fq_lookup q i) (\<lambda>local. Value (fc_silent, q,
        (case local of None \<Rightarrow> Down (i - 1) middle approx | Some p \<Rightarrow> DownPop i middle approx p LqIdle))))"
| "fc_cons q (DownPop i middle approx p pc) =
     obind (ring_access lq_start_pop (Some p) pc q) (\<lambda>(ev, q, pc').
       Value (ev, q, if pc' \<noteq> LqIdle then DownPop i middle approx p pc'
                     else if snd ev = PopFailedEv then Down (i - 1) middle approx else Resting))"
| "fc_cons q (Up i approx) =
     (if i < approx then obind (fq_lookup q i) (\<lambda>local. Value (fc_silent, q,
        (case local of None \<Rightarrow> Resting | Some p \<Rightarrow> UpPop i approx p LqIdle)))
      else Value (fc_silent, q, Resting))"
| "fc_cons q (UpPop i approx p pc) =
     obind (ring_access lq_start_pop (Some p) pc q) (\<lambda>(ev, q, pc').
       Value (ev, q, if pc' \<noteq> LqIdle then UpPop i approx p pc'
                     else if snd ev = PopFailedEv then if i = approx - 1 then Resize i else Up (i + 1) approx
                     else Resting))"
| "fc_cons q (Resize i) = Value (fc_silent, q, Up (i + 1) (ps_size (fq_QueueList q)))"

text \<open>The first step of \<open>pop_hard\<close> reads the size and draws the start index.\<close>

definition fc_scan_from :: "nat \<Rightarrow> 'a fast_queue \<Rightarrow> 'a fc_scan" where
  "fc_scan_from middle q = Down (int middle) (int middle) (ps_size (fq_QueueList q))"

section \<open>The system\<close>

record 'a fc_sys =
  fcs_queue :: "'a fast_queue"
  fcs_prods :: "nat \<Rightarrow> 'a producer"
  fcs_cons :: "'a fc_scan"

definition fc_sys_new :: "'a \<Rightarrow> 'a fc_sys" where
  "fc_sys_new null = \<lparr>fcs_queue = fq_new null, fcs_prods = (\<lambda>_. (Absent, \<lparr>ph_token = 0, ph_local = None\<rparr>)), fcs_cons = Resting\<rparr>"

inductive fc_step :: "'a fc_sys \<Rightarrow> nat \<times> 'a lq_event \<Rightarrow> 'a fc_sys \<Rightarrow> bool" where
  begin_call: "fc_begin c (fcs_prods s i) = Some th \<Longrightarrow> fc_step s fc_silent (s\<lparr>fcs_prods := (fcs_prods s)(i := th)\<rparr>)"
| run_prod: "fc_prod (fcs_queue s) (fcs_prods s i) = Value (ev, q, th) \<Longrightarrow>
    fc_step s ev (s\<lparr>fcs_queue := q, fcs_prods := (fcs_prods s)(i := th)\<rparr>)"
| begin_scan: "fcs_cons s = Resting \<Longrightarrow> int middle < max 1 (ps_size (fq_QueueList (fcs_queue s))) \<Longrightarrow>
    fc_step s fc_silent (s\<lparr>fcs_cons := fc_scan_from middle (fcs_queue s)\<rparr>)"
| run_cons: "fc_cons (fcs_queue s) (fcs_cons s) = Value (ev, q, sc) \<Longrightarrow>
    fc_step s ev (s\<lparr>fcs_queue := q, fcs_cons := sc\<rparr>)"

inductive fc_run :: "'a fc_sys \<Rightarrow> (nat \<times> 'a lq_event) list \<Rightarrow> 'a fc_sys \<Rightarrow> bool" where
  fc_run_nil: "fc_run s [] s"
| fc_run_snoc: "fc_run s evs t \<Longrightarrow> fc_step t ev u \<Longrightarrow> fc_run s (evs @ [ev]) u"

text \<open>The events of one ring.\<close>

definition on_ring :: "nat \<Rightarrow> (nat \<times> 'a lq_event) list \<Rightarrow> 'a lq_event list" where
  "on_ring p evs = map snd (filter (\<lambda>e. fst e = p) evs)"

section \<open>The invariant\<close>

text \<open>As long as no claim has been refused, the ring of a slot has the number of the slot as its address.\<close>

definition list_ok :: "'a fast_queue \<Rightarrow> bool" where
  "list_ok q \<longleftrightarrow> (let L = fq_QueueList q; n = length (fq_heap q) in
     ps_max_size L = kQueueMaxCount \<and> ps_unit L = kUnitSize \<and> length (ps_stacks L) = 10 \<and>
     (\<forall>m < 10. \<forall>cells. ps_stacks L ! m = Some cells \<longrightarrow> length cells = 10) \<and>
     ps_end L = of_nat n \<and> n \<le> kQueueMaxCount \<and>
     (\<forall>t < kQueueMaxCount. ps_cell L t = None \<or> ps_cell L t = Some t \<and> t < n))"

text \<open>The ring that a thread has to itself, and its program point in there.\<close>

fun owns :: "'a producer \<Rightarrow> nat option" where
  "owns (Absent, h) = None"
| "owns (Applying r g, h) = None"
| "owns (Claiming r g, h) = None"
| "owns (Applied r g, h) = Some (nat (ph_token h))"
| "owns (Preempted r g, h) = Some (nat (ph_token h))"
| "owns (Installing slot p r g, h) = Some p"
| "owns (Storing slot p r g, h) = Some p"
| "owns (_, h) = ph_local h"

fun inner :: "'a producer \<Rightarrow> 'a lq_pc" where
  "inner (Trying x pc, h) = pc"
| "inner (Pushing r again x pc, h) = pc"
| "inner _ = LqIdle"

fun cons_pc :: "'a fc_scan \<Rightarrow> nat \<Rightarrow> 'a lq_pc" where
  "cons_pc (DownPop i middle approx p pc) p' = (if p' = p then pc else LqIdle)"
| "cons_pc (UpPop i approx p pc) p' = (if p' = p then pc else LqIdle)"
| "cons_pc _ p' = LqIdle"

definition published :: "'a fast_queue \<Rightarrow> nat \<Rightarrow> bool" where
  "published q p \<longleftrightarrow> p < length (fq_heap q) \<and> ps_cell (fq_QueueList q) p = Some p"

text \<open>A handle whose pointer is set points to the ring of its token.\<close>

definition holds_local :: "'a fast_queue \<Rightarrow> handle \<Rightarrow> bool" where
  "holds_local q h \<longleftrightarrow> (case ph_local h of None \<Rightarrow> False | Some p \<Rightarrow> ph_token h = int p \<and> published q p)"

fun prod_ok :: "'a fast_queue \<Rightarrow> 'a producer \<Rightarrow> bool" where
  "prod_ok q (Absent, h) \<longleftrightarrow> True"
| "prod_ok q (Applying r g, h) \<longleftrightarrow> True"
| "prod_ok q (Claiming r g, h) \<longleftrightarrow> True"
| "prod_ok q (Applied r g, h) \<longleftrightarrow> (\<exists>p. ph_token h = int p \<and> published q p)"
| "prod_ok q (Preempted r g, h) \<longleftrightarrow> (\<exists>p. ph_token h = int p \<and> published q p)"
| "prod_ok q (Installing slot p r g, h) \<longleftrightarrow> slot = int p \<and> p < length (fq_heap q)"
| "prod_ok q (Storing slot p r g, h) \<longleftrightarrow> slot = int p \<and> p < length (fq_heap q) \<and> ps_stacks (fq_QueueList q) ! (p div kUnitSize) \<noteq> None"
| "prod_ok q (Ready, h) \<longleftrightarrow> ph_local h = None \<or> holds_local q h"
| "prod_ok q (_, h) \<longleftrightarrow> holds_local q h"

fun scan_ok :: "'a fast_queue \<Rightarrow> 'a fc_scan \<Rightarrow> bool" where
  "scan_ok q Resting \<longleftrightarrow> True"
| "scan_ok q (Down i middle approx) \<longleftrightarrow> i < int kQueueMaxCount \<and> 0 \<le> middle \<and> approx \<le> int (length (fq_heap q))"
| "scan_ok q (DownPop i middle approx p pc) \<longleftrightarrow>
     i < int kQueueMaxCount \<and> 0 \<le> middle \<and> approx \<le> int (length (fq_heap q)) \<and> p < length (fq_heap q)"
| "scan_ok q (Up i approx) \<longleftrightarrow> 0 \<le> i \<and> approx \<le> int (length (fq_heap q))"
| "scan_ok q (UpPop i approx p pc) \<longleftrightarrow> 0 \<le> i \<and> approx \<le> int (length (fq_heap q)) \<and> p < length (fq_heap q)"
| "scan_ok q (Resize i) \<longleftrightarrow> 0 \<le> i"

definition free_ok :: "'a fast_queue \<Rightarrow> (nat \<Rightarrow> 'a producer) \<Rightarrow> bool" where
  "free_ok q prods \<longleftrightarrow> sq_invar (fq_FreeList q) \<and> distinct (sq_items (fq_FreeList q)) \<and>
     (\<forall>t \<in> set (sq_items (fq_FreeList q)). \<exists>p. t = int p \<and> published q p \<and> (\<forall>i. owns (prods i) \<noteq> Some p))"

definition sole_owners :: "(nat \<Rightarrow> 'a producer) \<Rightarrow> bool" where
  "sole_owners prods \<longleftrightarrow> (\<forall>i j p. owns (prods i) = Some p \<and> owns (prods j) = Some p \<longrightarrow> i = j)"

text \<open>The program point of whoever pushes into a ring.\<close>

definition owner_pc :: "(nat \<Rightarrow> 'a producer) \<Rightarrow> nat \<Rightarrow> 'a lq_pc \<Rightarrow> bool" where
  "owner_pc prods p pc \<longleftrightarrow> (\<forall>i. owns (prods i) = Some p \<longrightarrow> inner (prods i) = pc) \<and> ((\<forall>i. owns (prods i) \<noteq> Some p) \<longrightarrow> pc = LqIdle)"

text \<open>A ring into which \<open>X\<close> was pushed and from which \<open>Y\<close> was popped.\<close>

definition ring_inv :: "'a list \<Rightarrow> 'a list \<Rightarrow> 'a local_queue \<Rightarrow> 'a lq_pc \<Rightarrow> 'a lq_pc \<Rightarrow> bool" where
  "ring_inv X Y lq ppc cpc \<longleftrightarrow> ring_holds X (length Y) lq \<and> lq_cap lq = kLocalQueueSize \<and> prefix Y X \<and>
     prod_inv X (length Y) lq ppc \<and> cons_inv X (length Y) lq cpc"

definition pushed_at :: "nat \<Rightarrow> (nat \<times> 'a lq_event) list \<Rightarrow> 'a list" where
  "pushed_at p evs = pushed_of (on_ring p evs)"

definition popped_at :: "nat \<Rightarrow> (nat \<times> 'a lq_event) list \<Rightarrow> 'a list" where
  "popped_at p evs = popped_of (on_ring p evs)"

definition rings_ok :: "(nat \<times> 'a lq_event) list \<Rightarrow> 'a local_queue list \<Rightarrow> (nat \<Rightarrow> 'a producer) \<Rightarrow> 'a fc_scan \<Rightarrow> bool" where
  "rings_ok evs heap prods sc \<longleftrightarrow>
     (\<forall>p < length heap. \<exists>pc. owner_pc prods p pc \<and> ring_inv (pushed_at p evs) (popped_at p evs) (heap ! p) pc (cons_pc sc p)) \<and>
     (\<forall>p \<ge> length heap. pushed_at p evs = [] \<and> popped_at p evs = [])"

definition fc_inv :: "(nat \<times> 'a lq_event) list \<Rightarrow> 'a fc_sys \<Rightarrow> bool" where
  "fc_inv evs s \<longleftrightarrow> list_ok (fcs_queue s) \<and> free_ok (fcs_queue s) (fcs_prods s) \<and> (\<forall>i. prod_ok (fcs_queue s) (fcs_prods s i)) \<and>
     sole_owners (fcs_prods s) \<and> scan_ok (fcs_queue s) (fcs_cons s) \<and> rings_ok evs (fq_heap (fcs_queue s)) (fcs_prods s) (fcs_cons s)"

subsection \<open>Events\<close>

lemma at_snoc:
  "pushed_at p (evs @ [(p', ev)]) = pushed_at p evs @ (if p' = p then pushed_of [ev] else [])"
  "popped_at p (evs @ [(p', ev)]) = popped_at p evs @ (if p' = p then popped_of [ev] else [])"
  by (simp_all add: pushed_at_def popped_at_def on_ring_def)

lemma at_silent [simp]: "pushed_at p (evs @ [fc_silent]) = pushed_at p evs" "popped_at p (evs @ [fc_silent]) = popped_at p evs"
  by (simp_all add: fc_silent_def at_snoc)

lemma at_Nil [simp]: "pushed_at p [] = []" "popped_at p [] = []"
  by (simp_all add: pushed_at_def popped_at_def on_ring_def)

subsection \<open>The list of queues\<close>

lemma up_get_slot:
  assumes "list_ok q" "t < kQueueMaxCount"
  shows "up_get (fq_QueueList q) (int t) =
    Value (case ps_stacks (fq_QueueList q) ! (t div kUnitSize) of None \<Rightarrow> None | Some _ \<Rightarrow> Some (ps_cell (fq_QueueList q) t))"
proof -
  let ?L = "fq_QueueList q"
  have L: "ps_max_size ?L = 100" "ps_unit ?L = 10" "length (ps_stacks ?L) = 10"
    "\<And>m cells. m < 10 \<Longrightarrow> ps_stacks ?L ! m = Some cells \<Longrightarrow> length cells = 10"
    using assms(1) by (simp_all add: list_ok_def Let_def fq_constants)
  have t: "t < 100" "t div 10 < 10" using assms(2) by (simp_all add: kQueueMaxCount_def)
  have sub: "int t - int (t div 10 * 10) = int (t mod 10)" by (simp add: minus_div_mult_eq_mod zmod_int zdiv_int)
  show ?thesis
  proof (cases "ps_stacks ?L ! (t div 10)")
    case None
    then show ?thesis using L t by (simp add: up_get_def vec_get_def Let_def kUnitSize_def)
  next
    case (Some cells)
    then have "length cells = 10" using L(4) [OF t(2)] by simp
    then show ?thesis using L(1-3) t Some sub
      by (simp add: up_get_def vec_get_def Let_def kUnitSize_def ps_cell_def)
  qed
qed

lemma get_published:
  assumes "list_ok q" "published q p"
  shows "up_get (fq_QueueList q) (int p) = Value (Some (Some p))"
proof -
  have p: "p < kQueueMaxCount" using assms by (simp add: list_ok_def published_def Let_def)
  have "ps_cell (fq_QueueList q) p = Some p" using assms(2) by (simp add: published_def)
  moreover have "ps_unit (fq_QueueList q) = kUnitSize" using assms(1) by (simp add: list_ok_def Let_def)
  ultimately show ?thesis using up_get_slot [OF assms(1) p] by (auto simp: ps_cell_def split: option.splits)
qed

lemma lookup_slot:
  assumes "list_ok q" "0 \<le> i" "i < int kQueueMaxCount"
  shows "fq_lookup q i = Value (ps_cell (fq_QueueList q) (nat i))"
    "ps_cell (fq_QueueList q) (nat i) = Some p \<Longrightarrow> p < length (fq_heap q)"
proof -
  have t: "nat i < kQueueMaxCount" "int (nat i) = i" using assms(2,3) by auto
  have "ps_unit (fq_QueueList q) = kUnitSize" using assms(1) by (simp add: list_ok_def Let_def)
  then show "fq_lookup q i = Value (ps_cell (fq_QueueList q) (nat i))"
    using up_get_slot [OF assms(1) t(1)] t(2) by (auto simp: fq_lookup_def ps_cell_def split: option.splits)
  show "p < length (fq_heap q)" if "ps_cell (fq_QueueList q) (nat i) = Some p"
    using assms(1) t(1) that by (auto simp: list_ok_def Let_def)
qed

text \<open>The list only grows: what a thread knows of published slots and of segments stays true.\<close>

definition list_grows :: "'a fast_queue \<Rightarrow> 'a fast_queue \<Rightarrow> bool" where
  "list_grows q q' \<longleftrightarrow> length (fq_heap q) \<le> length (fq_heap q') \<and> (\<forall>p. published q p \<longrightarrow> published q' p) \<and>
     (\<forall>m < 10. ps_stacks (fq_QueueList q) ! m \<noteq> None \<longrightarrow> ps_stacks (fq_QueueList q') ! m \<noteq> None)"

lemma grows_same: "fq_QueueList q' = fq_QueueList q \<Longrightarrow> length (fq_heap q') = length (fq_heap q) \<Longrightarrow> list_grows q q'"
  by (simp add: list_grows_def published_def)

lemma list_ok_same: "list_ok q \<Longrightarrow> fq_QueueList q' = fq_QueueList q \<Longrightarrow> length (fq_heap q') = length (fq_heap q) \<Longrightarrow> list_ok q'"
  by (simp add: list_ok_def)

lemma list_ok_bounds: "list_ok q \<Longrightarrow> length (fq_heap q) \<le> kQueueMaxCount" "list_ok q \<Longrightarrow> p < length (fq_heap q) \<Longrightarrow> p div kUnitSize < 10"
  by (auto simp: list_ok_def Let_def fq_constants)

lemma holds_local_mono: "holds_local q h \<Longrightarrow> list_grows q q' \<Longrightarrow> holds_local q' h"
  by (auto simp: holds_local_def list_grows_def split: option.splits)

lemma prod_ok_mono:
  assumes "prod_ok q th" "list_grows q q'" "list_ok q"
  shows "prod_ok q' th"
proof -
  have "p < length (fq_heap q) \<Longrightarrow> p div kUnitSize < 10" for p by (rule list_ok_bounds(2) [OF assms(3)])
  then show ?thesis
    using assms(1,2) holds_local_mono [OF _ assms(2)]
    by (cases "(q, th)" rule: prod_ok.cases) (auto simp: list_grows_def)
qed

lemma scan_ok_mono: "scan_ok q sc \<Longrightarrow> list_grows q q' \<Longrightarrow> scan_ok q' sc"
  by (cases "(q, sc)" rule: scan_ok.cases) (auto simp: list_grows_def)

lemma owns_in: "prod_ok q th \<Longrightarrow> owns th = Some p \<Longrightarrow> p < length (fq_heap q)"
  by (cases th rule: owns.cases) (auto simp: holds_local_def published_def split: option.split_asm)

lemma claim_room:
  assumes "list_ok q" "fc_claim q = (ok, slot, p, q')" "length (fq_heap q') \<le> kQueueMaxCount"
  shows "ok" "slot = int p" "p = length (fq_heap q)" "list_ok q'" "list_grows q q'" "fq_heap q' = fq_heap q @ [lq_new (fq_null q) kLocalQueueSize]"
    "fq_FreeList q' = fq_FreeList q"
proof -
  let ?L = "fq_QueueList q" and ?n = "length (fq_heap q)"
  have L: "ps_max_size ?L = 100" "ps_end ?L = of_nat ?n" using assms(1) by (simp_all add: list_ok_def Let_def kQueueMaxCount_def)
  have q': "q' = q\<lparr>fq_QueueList := ?L\<lparr>ps_end := ps_end ?L + 1\<rparr>, fq_heap := fq_heap q @ [lq_new (fq_null q) kLocalQueueSize]\<rparr>"
    "p = ?n" "slot = sint (ps_end ?L)" "ok \<longleftrightarrow> size_t_of_int slot < 100" using assms(2) L by (auto simp: fc_claim_def Let_def)
  have n: "?n < 100" using assms(3) q'(1) by (simp add: kQueueMaxCount_def)
  then have "slot = int ?n" using q'(3) L(2) by (simp add: sint_u32_of_nat)
  then show "slot = int p" "p = ?n" "ok" using q'(2,4) n by simp_all
  have sl: "ps_cell (?L\<lparr>ps_end := x\<rparr>) t = ps_cell ?L t" for x t by (simp add: ps_cell_def split: option.split)
  show "list_grows q q'" unfolding q'(1) by (auto simp: list_grows_def published_def sl)
  show "list_ok q'" using assms(1) n unfolding q'(1) list_ok_def Let_def by (auto simp: sl kQueueMaxCount_def less_Suc_eq add.commute)
  show "fq_heap q' = fq_heap q @ [lq_new (fq_null q) kLocalQueueSize]" "fq_FreeList q' = fq_FreeList q" unfolding q'(1) by simp_all
qed

lemma claim_grows: "fc_claim q = (ok, slot, p, q') \<Longrightarrow> length (fq_heap q') = Suc (length (fq_heap q))"
  by (auto simp: fc_claim_def Let_def)

lemma div_mod_10: "p div 10 = t div 10 \<Longrightarrow> p mod 10 = t mod (10 :: nat) \<Longrightarrow> p = t"
  by (metis div_mult_mod_eq)

lemma install_ok:
  assumes "list_ok q" "p < length (fq_heap q)"
  shows "\<exists>q'. fc_install (int p) q = Value q' \<and> list_ok q' \<and> list_grows q q' \<and> fq_heap q' = fq_heap q \<and> fq_FreeList q' = fq_FreeList q \<and>
    ps_stacks (fq_QueueList q') ! (p div kUnitSize) \<noteq> None"
proof -
  let ?L = "fq_QueueList q" and ?m = "p div 10"
  have L: "ps_unit ?L = 10" "length (ps_stacks ?L) = 10" using assms(1) by (simp_all add: list_ok_def Let_def kUnitSize_def)
  have p: "p < 100" "?m < 10" using assms list_ok_bounds [OF assms(1)] by (auto simp: fq_constants)
  define cells where "cells = (case ps_stacks ?L ! ?m of None \<Rightarrow> replicate 10 None | Some cells \<Rightarrow> cells)"
  define q' where "q' = q\<lparr>fq_QueueList := ?L\<lparr>ps_stacks := (ps_stacks ?L)[?m := Some cells]\<rparr>\<rparr>"
  have eq: "fc_install (int p) q = Value q'" using L p by (simp add: fc_install_def Let_def q'_def cells_def cong: option.case_cong)
  have len: "length cells = 10" using assms(1) p(2) by (auto simp: cells_def list_ok_def Let_def split: option.splits)
  have sl: "ps_cell (fq_QueueList q') t = ps_cell ?L t" for t
    using L p(2) by (auto simp: ps_cell_def q'_def cells_def nth_list_update split: option.splits)
  have "list_ok q'" using assms(1) len L p(2) sl unfolding list_ok_def Let_def by (auto simp: q'_def nth_list_update)
  moreover have "list_grows q q'" using p(2) L(2) by (auto simp: list_grows_def published_def sl) (auto simp: q'_def nth_list_update)
  ultimately show ?thesis using eq L(2) p(2) by (auto simp: q'_def kUnitSize_def)
qed

lemma slot_store_ok:
  assumes "list_ok q" "p < length (fq_heap q)" "ps_stacks (fq_QueueList q) ! (p div kUnitSize) \<noteq> None"
  shows "\<exists>q'. fc_store (int p) p q = Value q' \<and> list_ok q' \<and> list_grows q q' \<and> fq_heap q' = fq_heap q \<and> fq_FreeList q' = fq_FreeList q \<and> published q' p"
proof -
  let ?L = "fq_QueueList q" and ?m = "p div 10"
  have L: "ps_unit ?L = 10" "length (ps_stacks ?L) = 10" using assms(1) by (simp_all add: list_ok_def Let_def kUnitSize_def)
  have p: "p < 100" "?m < 10" using assms(1,2) list_ok_bounds [OF assms(1)] by (auto simp: fq_constants)
  obtain cells where c: "ps_stacks ?L ! ?m = Some cells" using assms(3) by (auto simp: kUnitSize_def)
  then have len: "length cells = 10" using assms(1) p(2) by (auto simp: list_ok_def Let_def)
  define q' where "q' = q\<lparr>fq_QueueList := ?L\<lparr>ps_stacks := (ps_stacks ?L)[?m := Some (cells[p mod 10 := Some p])]\<rparr>\<rparr>"
  have sub: "int p - int (p div 10 * 10) = int (p mod 10)" by (simp add: minus_div_mult_eq_mod zmod_int zdiv_int)
  have eq: "fc_store (int p) p q = Value q'" using L p c len sub by (simp add: fc_store_def Let_def q'_def)
  have sl: "ps_cell (fq_QueueList q') t = (if t = p then Some p else ps_cell ?L t)" for t
    using L p(2) c len by (auto simp: ps_cell_def q'_def nth_list_update dest: div_mod_10 cong: option.case_cong)
  have "list_ok q'" using assms(1,2) len L p(2) sl unfolding list_ok_def Let_def by (auto simp: q'_def nth_list_update)
  moreover have "list_grows q q'" using p(2) L(2) by (auto simp: list_grows_def published_def sl) (auto simp: q'_def nth_list_update)
  moreover have "published q' p" using assms(2) by (simp add: published_def sl) (simp add: q'_def)
  ultimately show ?thesis using eq by (auto simp: q'_def)
qed

subsection \<open>Who pushes into a ring\<close>

lemma owner_pc_idle:
  assumes "owner_pc prods p pc" "inner (prods i) = LqIdle" "inner th = LqIdle"
    and "owns th = Some p \<Longrightarrow> \<forall>j. j \<noteq> i \<longrightarrow> owns (prods j) \<noteq> Some p"
  shows "owner_pc (prods(i := th)) p pc"
  using assms unfolding owner_pc_def by (metis fun_upd_apply)

lemma owner_pc_inside:
  assumes "sole_owners prods" "owns (prods i) = Some p" "owns th = Some p" "owner_pc prods p' pc"
  shows "owner_pc (prods(i := th)) p' (if p' = p then inner th else pc)"
  using assms unfolding owner_pc_def sole_owners_def by (auto split: if_split_asm) (metis option.inject)+

lemma alone_upd:
  assumes "sole_owners prods" "\<And>p j. owns th = Some p \<Longrightarrow> j \<noteq> i \<Longrightarrow> owns (prods j) \<noteq> Some p"
  shows "sole_owners (prods(i := th))"
  using assms unfolding sole_owners_def by (metis fun_upd_apply)

lemma free_ok_owned:
  assumes "free_ok q prods" "fq_FreeList q' = fq_FreeList q" "\<And>p. published q p \<Longrightarrow> published q' p"
    "\<And>p. owns th = Some p \<Longrightarrow> owns (prods i) = Some p \<or> \<not> published q p"
  shows "free_ok q' (prods(i := th))"
  using assms unfolding free_ok_def by (metis fun_upd_apply)

subsection \<open>Steps outside and inside the rings\<close>

lemma ring_inv_new: "ring_inv [] [] (lq_new d kLocalQueueSize) LqIdle LqIdle"
  by (simp add: ring_inv_def ring_holds_def lq_cap_def lq_new_def kLocalQueueSize_def)

lemma inv_outside:
  assumes "fc_inv evs s" "list_ok q" "list_grows (fcs_queue s) q" "free_ok q ((fcs_prods s)(i := th))" "prod_ok q th"
    and "inner (fcs_prods s i) = LqIdle" "inner th = LqIdle"
    and "\<And>p j. owns th = Some p \<Longrightarrow> j \<noteq> i \<Longrightarrow> owns (fcs_prods s j) \<noteq> Some p"
    and "fq_heap q = fq_heap (fcs_queue s) \<or> (\<exists>d. fq_heap q = fq_heap (fcs_queue s) @ [lq_new d kLocalQueueSize])"
  shows "fc_inv (evs @ [fc_silent]) (s\<lparr>fcs_queue := q, fcs_prods := (fcs_prods s)(i := th)\<rparr>)"
proof -
  let ?P = "fcs_prods s" and ?H = "fq_heap (fcs_queue s)" and ?c = "fcs_cons s"
  have inv: "list_ok (fcs_queue s)" "\<And>j. prod_ok (fcs_queue s) (?P j)" "sole_owners ?P" "scan_ok (fcs_queue s) ?c" "rings_ok evs ?H ?P ?c"
    using assms(1) by (simp_all add: fc_inv_def)
  have old: "\<exists>pc. owner_pc (?P(i := th)) p pc \<and> ring_inv (pushed_at p evs) (popped_at p evs) (?H ! p) pc (cons_pc ?c p)" if "p < length ?H" for p
  proof -
    from inv(5) that obtain pc where "owner_pc ?P p pc" "ring_inv (pushed_at p evs) (popped_at p evs) (?H ! p) pc (cons_pc ?c p)"
      unfolding rings_ok_def by blast
    then show ?thesis using owner_pc_idle [of ?P p pc i th] assms(6-8) by blast
  qed
  have "rings_ok (evs @ [fc_silent]) (fq_heap q) (?P(i := th)) ?c"
    using assms(9)
  proof (elim disjE exE)
    assume "fq_heap q = ?H"
    then show ?thesis using old inv(5) by (simp add: rings_ok_def)
  next
    fix d assume h: "fq_heap q = ?H @ [lq_new d kLocalQueueSize]"
    let ?n = "length ?H"
    have "owns (?P j) \<noteq> Some ?n" for j using owns_in [OF inv(2)] by blast
    then have "owner_pc (?P(i := th)) ?n LqIdle" using assms(7) by (simp add: owner_pc_def)
    moreover have "cons_pc ?c ?n = LqIdle" using inv(4) by (cases ?c) auto
    ultimately have "\<exists>pc. owner_pc (?P(i := th)) ?n pc \<and> ring_inv (pushed_at ?n evs) (popped_at ?n evs) (lq_new d kLocalQueueSize) pc (cons_pc ?c ?n)"
      using inv(5) ring_inv_new [of d] by (auto simp: rings_ok_def)
    then show ?thesis using old inv(5) unfolding rings_ok_def h by (auto simp: nth_append less_Suc_eq)
  qed
  moreover have "prod_ok q ((?P(i := th)) j)" for j using assms(5) prod_ok_mono [OF inv(2) assms(3) inv(1)] by simp
  ultimately show ?thesis
    using assms(2,4) alone_upd [OF inv(3) assms(8)] scan_ok_mono [OF inv(4) assms(3)] by (simp add: fc_inv_def)
qed

text \<open>An access of the producer inside its ring.\<close>

lemma inv_inside:
  assumes "fc_inv evs s" "owns (fcs_prods s i) = Some p" "ph_local (snd (fcs_prods s i)) = Some p" "holds_local (fcs_queue s) (snd (fcs_prods s i))"
  shows "\<exists>ev q pc. ring_access (\<lambda>lq. lq_start_push lq x) (Some p) (inner (fcs_prods s i)) (fcs_queue s) = Value ((p, ev), q, pc) \<and>
    (\<forall>th. owns th = Some p \<and> inner th = pc \<and> prod_ok (fcs_queue s) th \<longrightarrow>
       fc_inv (evs @ [(p, ev)]) (s\<lparr>fcs_queue := q, fcs_prods := (fcs_prods s)(i := th)\<rparr>))"
proof -
  let ?P = "fcs_prods s" and ?H = "fq_heap (fcs_queue s)" and ?c = "fcs_cons s" and ?q = "fcs_queue s"
  let ?lq = "?H ! p" and ?X = "pushed_at p evs" and ?Y = "popped_at p evs"
  have inv: "list_ok ?q" "\<And>j. prod_ok ?q (?P j)" "sole_owners ?P" "scan_ok ?q ?c" "rings_ok evs ?H ?P ?c" "free_ok ?q ?P"
    using assms(1) by (simp_all add: fc_inv_def)
  have p: "p < length ?H" using assms(3,4) by (simp add: holds_local_def published_def)
  from inv(5) p assms(2) have r: "ring_inv ?X ?Y ?lq (inner (?P i)) (cons_pc ?c p)" by (auto simp: rings_ok_def owner_pc_def)
  obtain ev lq' pc where n: "(if inner (?P i) = LqIdle then (Tau, ?lq, lq_start_push ?lq x) else lq_next ?lq (inner (?P i))) = (ev, lq', pc)"
    by (metis surj_pair)
  let ?q' = "?q\<lparr>fq_heap := ?H[p := lq']\<rparr>"
  have eq: "ring_access (\<lambda>lq. lq_start_push lq x) (Some p) (inner (?P i)) ?q = Value ((p, ev), ?q', pc)"
    using n p by (auto simp: ring_access_def split: if_split_asm prod.split)
  have new: "popped_of [ev] = []" "ring_inv (?X @ pushed_of [ev]) ?Y lq' pc (cons_pc ?c p)"
  proof -
    have "popped_of [ev] = [] \<and> same_deq ?lq lq' \<and> ring_holds (?X @ pushed_of [ev]) (length ?Y) lq' \<and> prod_inv (?X @ pushed_of [ev]) (length ?Y) lq' pc \<and> lq_cap lq' = lq_cap ?lq"
    proof (cases "inner (?P i) = LqIdle")
      case True
      then show ?thesis using n r by (auto simp: ring_inv_def lq_start_push_def same_deq_def)
    next
      case False
      then have l: "lq_next ?lq (inner (?P i)) = (ev, lq', pc)" using n by simp
      have "lq_cap lq' = lq_cap ?lq" using l by (cases "inner (?P i)") (auto simp: lq_cap_def)
      then show ?thesis using prod_next [of ?X "length ?Y", OF _ _ False l] r by (simp add: ring_inv_def)
    qed
    then show "popped_of [ev] = []" "ring_inv (?X @ pushed_of [ev]) ?Y lq' pc (cons_pc ?c p)"
      using r by (auto simp: ring_inv_def intro: cons_inv_frame)
  qed
  have "fc_inv (evs @ [(p, ev)]) (s\<lparr>fcs_queue := ?q', fcs_prods := ?P(i := th)\<rparr>)"
    if th: "owns th = Some p" "inner th = pc" "prod_ok ?q th" for th
  proof -
    have g: "list_grows ?q ?q'" by (rule grows_same) simp_all
    have "free_ok ?q' (?P(i := th))" using inv(6) th(1) assms(2) by (intro free_ok_owned [where q = ?q]) (auto simp: published_def)
    moreover have "sole_owners (?P(i := th))" using inv(3) th(1) assms(2) by (intro alone_upd) (auto simp: sole_owners_def)
    moreover have "prod_ok ?q' ((?P(i := th)) j)" for j using prod_ok_mono [OF _ g inv(1)] inv(2) th(3) by simp
    moreover have "rings_ok (evs @ [(p, ev)]) (?H[p := lq']) (?P(i := th)) ?c" unfolding rings_ok_def
    proof (intro conjI allI impI)
      fix p' assume p': "p' < length (?H[p := lq'])"
      then obtain pc' where o: "owner_pc ?P p' pc'" "ring_inv (pushed_at p' evs) (popped_at p' evs) (?H ! p') pc' (cons_pc ?c p')"
        using inv(5) by (auto simp: rings_ok_def)
      show "\<exists>pc. owner_pc (?P(i := th)) p' pc \<and>
          ring_inv (pushed_at p' (evs @ [(p, ev)])) (popped_at p' (evs @ [(p, ev)])) (?H[p := lq'] ! p') pc (cons_pc ?c p')"
        using owner_pc_inside [OF inv(3) assms(2) th(1) o(1)] o(2) new th(2) p
        by (intro exI [of _ "if p' = p then inner th else pc'"]) (auto simp: at_snoc)
    qed (use inv(5) p in \<open>auto simp: rings_ok_def at_snoc\<close>)
    ultimately show ?thesis
      using list_ok_same [OF inv(1), of ?q'] scan_ok_mono [OF inv(4) g] by (simp add: fc_inv_def)
  qed
  then show ?thesis using eq by blast
qed

lemma settle_ok:
  assumes "ph_token h = int p" "published q p"
  shows "prod_ok q (fc_settle g (h\<lparr>ph_local := Some p\<rparr>))" "owns (fc_settle g (h\<lparr>ph_local := Some p\<rparr>)) = Some p"
    "inner (fc_settle g (h\<lparr>ph_local := Some p\<rparr>)) = LqIdle"
  using assms by (cases g; simp add: fc_settle_def holds_local_def)+

text \<open>What a step of a handle owes: it is defined, and it keeps the invariant unless it is refused a slot.\<close>

definition prod_promise :: "(nat \<times> 'a lq_event) list \<Rightarrow> 'a fc_sys \<Rightarrow> nat \<Rightarrow> bool" where
  "prod_promise evs s i \<longleftrightarrow> (\<exists>ev q th. fc_prod (fcs_queue s) (fcs_prods s i) = Value (ev, q, th) \<and>
     (length (fq_heap q) \<le> kQueueMaxCount \<longrightarrow> fc_inv (evs @ [ev]) (s\<lparr>fcs_queue := q, fcs_prods := (fcs_prods s)(i := th)\<rparr>)))"

lemma promise_outside:
  assumes "fc_inv evs s" "fc_prod (fcs_queue s) (fcs_prods s i) = Value (fc_silent, q, th)"
    and "list_ok q" "list_grows (fcs_queue s) q" "free_ok q ((fcs_prods s)(i := th))" "prod_ok q th"
    and "inner (fcs_prods s i) = LqIdle" "inner th = LqIdle"
    and "\<And>p j. owns th = Some p \<Longrightarrow> j \<noteq> i \<Longrightarrow> owns (fcs_prods s j) \<noteq> Some p"
    and "fq_heap q = fq_heap (fcs_queue s)"
  shows "prod_promise evs s i"
  using assms(2) inv_outside [OF assms(1,3-9)] assms(10) by (auto simp: prod_promise_def)

lemma step_get:
  assumes inv: "fc_inv evs s" and P: "fcs_prods s i = (Applied r g, h) \<or> fcs_prods s i = (Preempted r g, h)"
  shows "prod_promise evs s i"
proof -
  let ?q = "fcs_queue s" and ?P = "fcs_prods s"
  have q: "list_ok ?q" "free_ok ?q ?P" "sole_owners ?P" "prod_ok ?q (?P i)" using inv by (simp_all add: fc_inv_def)
  obtain p where p: "ph_token h = int p" "published ?q p" using q(4) P by auto
  let ?th = "fc_settle g (h\<lparr>ph_local := Some p\<rparr>)"
  have own: "owns (?P i) = Some p" "inner (?P i) = LqIdle" using P p(1) by auto
  note ok = settle_ok [OF p, of g]
  have "fc_prod ?q (?P i) = Value (fc_silent, ?q, ?th)" using P get_published [OF q(1) p(2)] p(1) by auto
  then show ?thesis
  proof (rule promise_outside [OF inv _ q(1)])
    show "free_ok ?q (?P(i := ?th))" using own(1) ok(2) by (intro free_ok_owned [OF q(2)]) auto
    show "owns (?P j) \<noteq> Some p'" if "owns ?th = Some p'" "j \<noteq> i" for p' j using that ok(2) own(1) q(3) by (auto simp: sole_owners_def)
  qed (use ok own in \<open>simp_all add: grows_same\<close>)
qed

lemma step_applying:
  assumes inv: "fc_inv evs s" and P: "fcs_prods s i = (Applying r g, h)"
  shows "prod_promise evs s i"
proof -
  let ?q = "fcs_queue s" and ?P = "fcs_prods s" and ?F = "fq_FreeList (fcs_queue s)"
  have q: "list_ok ?q" "free_ok ?q ?P" using inv by (simp_all add: fc_inv_def)
  then have F: "sq_invar ?F" "distinct (sq_items ?F)" by (simp_all add: free_ok_def)
  from sq_pop_spec [OF F(1)] obtain f where
    f: "sq_pop ?F = Value (case sq_items ?F of [] \<Rightarrow> None | x # _ \<Rightarrow> Some x, f)" "sq_invar f" "sq_items f = tl (sq_items ?F)" by blast
  let ?q' = "?q\<lparr>fq_FreeList := f\<rparr>"
  have pub: "published ?q' = published ?q" by (simp add: published_def fun_eq_iff)
  have lo: "list_ok ?q'" "list_grows ?q ?q'" by (rule list_ok_same [OF q(1)]; simp) (simp add: grows_same)
  show ?thesis
  proof (cases "sq_items ?F")
    case Nil
    let ?th = "apply_failed r g h"
    have "fc_prod ?q (?P i) = Value (fc_silent, ?q', ?th)" using P f(1) Nil by simp
    then show ?thesis
    proof (rule promise_outside [OF inv])
      show "free_ok ?q' (?P(i := ?th))" using f Nil by (simp add: free_ok_def)
    qed (use P lo in \<open>auto simp: apply_failed_def split: if_split_asm\<close>)
  next
    case (Cons t ts)
    then obtain p where p: "t = int p" "published ?q p" "\<And>j. owns (?P j) \<noteq> Some p" using q(2) by (auto simp: free_ok_def)
    let ?th = "(Applied r g, h\<lparr>ph_token := t\<rparr>)"
    have "fc_prod ?q (?P i) = Value (fc_silent, ?q', ?th)" using P f(1) Cons by simp
    then show ?thesis
    proof (rule promise_outside [OF inv])
      have "\<exists>p'. t' = int p' \<and> published ?q p' \<and> (\<forall>j. owns ((?P(i := ?th)) j) \<noteq> Some p')" if "t' \<in> set ts" for t'
        using q(2) that Cons p(1) F(2) unfolding free_ok_def by (metis (no_types, lifting) distinct.simps(2) fun_upd_apply
            handle.select_convs(1) handle.surjective handle.update_convs(1) list.set_intros(2) nat_int option.inject owns.simps(4))
      then show "free_ok ?q' (?P(i := ?th))" using f F(2) Cons by (simp add: free_ok_def pub)
    qed (use P p lo in \<open>auto simp: pub\<close>)
  qed
qed

lemma step_claiming:
  assumes inv: "fc_inv evs s" and P: "fcs_prods s i = (Claiming r g, h)"
  shows "prod_promise evs s i"
proof -
  let ?q = "fcs_queue s" and ?P = "fcs_prods s"
  have q: "list_ok ?q" "free_ok ?q ?P" "\<And>j. prod_ok ?q (?P j)" using inv by (simp_all add: fc_inv_def)
  obtain ok slot p q' where c: "fc_claim ?q = (ok, slot, p, q')" by (metis surj_pair)
  let ?th = "if ok then (Installing slot p r g, h) else preempt_failed r g h"
  have "fc_inv (evs @ [fc_silent]) (s\<lparr>fcs_queue := q', fcs_prods := ?P(i := ?th)\<rparr>)" if "length (fq_heap q') \<le> kQueueMaxCount"
  proof -
    note r = claim_room [OF q(1) c that]
    have o: "owns ?th = Some p" "inner ?th = LqIdle" "inner (?P i) = LqIdle" "prod_ok q' ?th" using r(1,2,3,6) P by auto
    have others: "owns (?P j) \<noteq> Some p" for j using owns_in [OF q(3)] r(3) by blast
    have "free_ok q' (?P(i := ?th))"
    proof (rule free_ok_owned [OF q(2) r(7)])
      show "published q' p'" if "published ?q p'" for p' using that r(5) by (simp add: list_grows_def)
      show "owns (?P i) = Some p' \<or> \<not> published ?q p'" if "owns ?th = Some p'" for p' using that o(1) r(3) by (simp add: published_def)
    qed
    then show ?thesis using o others r(6) by (intro inv_outside [OF inv r(4,5)]) auto
  qed
  then show ?thesis using P c by (auto simp: prod_promise_def)
qed

lemma step_installing:
  assumes inv: "fc_inv evs s" and P: "fcs_prods s i = (Installing slot p r g, h)"
  shows "prod_promise evs s i"
proof -
  let ?q = "fcs_queue s" and ?P = "fcs_prods s" and ?th = "(Storing slot p r g, h)"
  have q: "list_ok ?q" "free_ok ?q ?P" "sole_owners ?P" "prod_ok ?q (?P i)" using inv by (simp_all add: fc_inv_def)
  then have p: "slot = int p" "p < length (fq_heap ?q)" using P by simp_all
  from install_ok [OF q(1) p(2)] obtain q' where
    q': "fc_install (int p) ?q = Value q'" "list_ok q'" "list_grows ?q q'" "fq_heap q' = fq_heap ?q" "fq_FreeList q' = fq_FreeList ?q"
      "ps_stacks (fq_QueueList q') ! (p div kUnitSize) \<noteq> None" by blast
  have "fc_prod ?q (?P i) = Value (fc_silent, q', ?th)" using P q'(1) p(1) by simp
  then show ?thesis
  proof (rule promise_outside [OF inv _ q'(2,3)])
    show "free_ok q' (?P(i := ?th))" using q'(3) P by (intro free_ok_owned [OF q(2) q'(5)]) (auto simp: list_grows_def)
    show "owns (?P j) \<noteq> Some p'" if "owns ?th = Some p'" "j \<noteq> i" for p' j using that P q(3) unfolding sole_owners_def by (metis owns.simps(6,7))
  qed (use P p q' in simp_all)
qed

lemma step_storing:
  assumes inv: "fc_inv evs s" and P: "fcs_prods s i = (Storing slot p r g, h)"
  shows "prod_promise evs s i"
proof -
  let ?q = "fcs_queue s" and ?P = "fcs_prods s" and ?th = "(Preempted r g, h\<lparr>ph_token := slot\<rparr>)"
  have q: "list_ok ?q" "free_ok ?q ?P" "sole_owners ?P" "prod_ok ?q (?P i)" using inv by (simp_all add: fc_inv_def)
  then have p: "slot = int p" "p < length (fq_heap ?q)" "ps_stacks (fq_QueueList ?q) ! (p div kUnitSize) \<noteq> None" using P by simp_all
  from slot_store_ok [OF q(1) p(2,3)] obtain q' where
    q': "fc_store (int p) p ?q = Value q'" "list_ok q'" "list_grows ?q q'" "fq_heap q' = fq_heap ?q" "fq_FreeList q' = fq_FreeList ?q" "published q' p"
    by blast
  have "fc_prod ?q (?P i) = Value (fc_silent, q', ?th)" using P q'(1) p(1) by simp
  then show ?thesis
  proof (rule promise_outside [OF inv _ q'(2,3)])
    show "free_ok q' (?P(i := ?th))" using q'(3) P p(1) by (intro free_ok_owned [OF q(2) q'(5)]) (auto simp: list_grows_def)
    show "owns (?P j) \<noteq> Some p'" if "owns ?th = Some p'" "j \<noteq> i" for p' j
      using that P p(1) q(3) unfolding sole_owners_def by (metis handle.select_convs(1) handle.surjective handle.update_convs(1) nat_int owns.simps(5,7))
  qed (use P p q' in simp_all)
qed

lemma free_push:
  assumes "list_ok q" "free_ok q prods" "sole_owners prods" "owns (prods i) = Some p" "published q p" "owns th = None"
  shows "\<exists>b f. sq_push (fq_FreeList q) (int p) = Value (b, f) \<and> free_ok (q\<lparr>fq_FreeList := f\<rparr>) (prods(i := th))"
proof -
  let ?F = "fq_FreeList q"
  have F: "sq_invar ?F" "distinct (sq_items ?F)" using assms(2) by (simp_all add: free_ok_def)
  have new: "int p \<notin> set (sq_items ?F)" using assms(2,4) by (auto simp: free_ok_def)
  from sq_push_spec [OF F(1), of "int p"] obtain f where f: "sq_push ?F (int p) = Value (sq_size ?F < sq_max_size ?F, f)" "sq_invar f"
    "set (sq_items f) \<subseteq> insert (int p) (set (sq_items ?F))" "distinct (sq_items f)"
    using F(2) new by (fastforce split: if_split_asm)
  have pub: "published (q\<lparr>fq_FreeList := f\<rparr>) = published q" by (simp add: published_def fun_eq_iff)
  have "\<exists>p'. t = int p' \<and> published q p' \<and> (\<forall>j. owns ((prods(i := th)) j) \<noteq> Some p')" if "t \<in> set (sq_items f)" for t
  proof (cases "t = int p")
    case True
    then show ?thesis using assms(3-6) by (auto simp: sole_owners_def)
  next
    case False
    then have "t \<in> set (sq_items ?F)" using that f(3) by blast
    then obtain p' where "t = int p'" "published q p'" "\<forall>j. owns (prods j) \<noteq> Some p'" using assms(2) by (auto simp: free_ok_def)
    then show ?thesis using assms(6) by auto
  qed
  then show ?thesis using f(1,2,4) by (auto simp: free_ok_def pub)
qed

lemma step_release:
  assumes inv: "fc_inv evs s" and P: "fcs_prods s i = (Releasing x, h) \<or> fcs_prods s i = (Destroying, h)"
  shows "prod_promise evs s i"
proof -
  let ?q = "fcs_queue s" and ?P = "fcs_prods s"
  have q: "list_ok ?q" "free_ok ?q ?P" "sole_owners ?P" "prod_ok ?q (?P i)" using inv by (simp_all add: fc_inv_def)
  obtain p where p: "ph_local h = Some p" "ph_token h = int p" "published ?q p"
    using q(4) P by (auto simp: holds_local_def split: option.split_asm)
  let ?th = "if ?P i = (Destroying, h) then (Absent, h) else (Claiming (kProducerRetry - 1) (Second x), h)"
  have o: "owns (?P i) = Some p" "owns ?th = None" "inner ?th = LqIdle" "inner (?P i) = LqIdle" using P p(1) by auto
  from free_push [OF q(1-3) o(1) p(3) o(2)] obtain b f where f: "sq_push (fq_FreeList ?q) (int p) = Value (b, f)"
    "free_ok (?q\<lparr>fq_FreeList := f\<rparr>) (?P(i := ?th))" by blast
  let ?q' = "?q\<lparr>fq_FreeList := f\<rparr>"
  have lo: "list_ok ?q'" "list_grows ?q ?q'" by (rule list_ok_same [OF q(1)]; simp) (simp add: grows_same)
  have "fc_prod ?q (?P i) = Value (fc_silent, ?q', ?th)" using P f(1) p(2) by auto
  then show ?thesis by (rule promise_outside [OF inv _ lo f(2)]) (use P o in auto)
qed

lemma step_inside:
  assumes inv: "fc_inv evs s" and P: "fcs_prods s i = (Pushing r again x pc, h) \<or> fcs_prods s i = (Trying x pc, h)"
  shows "prod_promise evs s i"
proof -
  let ?q = "fcs_queue s" and ?P = "fcs_prods s"
  have q: "prod_ok ?q (?P i)" using inv by (simp add: fc_inv_def)
  obtain p where p: "ph_local h = Some p" "holds_local ?q h" using q P by (auto simp: holds_local_def split: option.split_asm)
  have o: "owns (?P i) = Some p" "inner (?P i) = pc" "snd (?P i) = h" using P p(1) by auto
  from inv_inside [OF inv o(1), of x] p o obtain ev q' pc' where
    a: "ring_access (\<lambda>lq. lq_start_push lq x) (Some p) pc ?q = Value ((p, ev), q', pc')"
      "\<And>th. owns th = Some p \<Longrightarrow> inner th = pc' \<Longrightarrow> prod_ok ?q th \<Longrightarrow>
         fc_inv (evs @ [(p, ev)]) (s\<lparr>fcs_queue := q', fcs_prods := ?P(i := th)\<rparr>)" by auto
  have ok: "prod_ok ?q (pc1, h) \<and> owns (pc1, h) = Some p" if "pc1 \<in> {Ready, Trying x l, Pushing r' again x l, Releasing x}" for pc1 l r'
    using that p by auto
  obtain th where th: "fc_prod ?q (?P i) = Value ((p, ev), q', th)" "owns th = Some p" "inner th = pc'" "prod_ok ?q th"
    using P
  proof (elim disjE, goal_cases)
    case 1
    let ?pc = "if pc' \<noteq> LqIdle then Pushing r again x pc' else if ev = PushFailedEv then push_failed r again x else Ready"
    have "owns (?pc, h) = Some p" "inner (?pc, h) = pc'" "prod_ok ?q (?pc, h)" using p by (simp_all add: push_failed_def)
    then show ?case using 1(1) [of "(?pc, h)"] 1(2) a(1) p(1) by simp
  next
    case 2
    let ?pc = "if pc' = LqIdle then Ready else Trying x pc'"
    have "owns (?pc, h) = Some p" "inner (?pc, h) = pc'" "prod_ok ?q (?pc, h)" using p by simp_all
    then show ?case using 2(1) [of "(?pc, h)"] 2(2) a(1) p(1) by simp
  qed
  then show ?thesis using a(2) by (auto simp: prod_promise_def)
qed

lemma prod_keeps:
  assumes "fc_inv evs s"
  shows "prod_promise evs s i"
proof -
  obtain pc h where P: "fcs_prods s i = (pc, h)" by fastforce
  have nop: "prod_promise evs s i" if "fc_prod (fcs_queue s) (fcs_prods s i) = Value (fc_silent, fcs_queue s, fcs_prods s i)" "inner (fcs_prods s i) = LqIdle"
    using that assms
    by (intro promise_outside [OF assms that(1)]) (auto simp: fc_inv_def grows_same sole_owners_def)
  show ?thesis
  proof (cases pc)
    case (Applied r g)
    then show ?thesis using step_get [OF assms] P by blast
  next
    case (Preempted r g)
    then show ?thesis using step_get [OF assms] P by blast
  next
    case (Pushing r again x l)
    then show ?thesis using step_inside [OF assms] P by blast
  next
    case (Trying x l)
    then show ?thesis using step_inside [OF assms] P by blast
  next
    case (Releasing x)
    then show ?thesis using step_release [OF assms] P by blast
  next
    case Destroying
    then show ?thesis using step_release [OF assms] P by blast
  qed (use P nop step_applying [OF assms] step_claiming [OF assms] step_installing [OF assms] step_storing [OF assms] in auto)
qed

lemma begin_ok:
  assumes "fc_begin c (pc, h) = Some th" "prod_ok q (pc, h)"
  shows "prod_ok q th \<and> (owns th = owns (pc, h) \<or> owns th = None) \<and> inner th = LqIdle \<and> inner (pc, h) = LqIdle"
  using assms by (cases c; cases pc; simp) (auto split: if_split_asm)

lemma begin_keeps:
  assumes inv: "fc_inv evs s" and b: "fc_begin c (fcs_prods s i) = Some th"
  shows "fc_inv (evs @ [fc_silent]) (s\<lparr>fcs_prods := (fcs_prods s)(i := th)\<rparr>)"
proof -
  let ?q = "fcs_queue s" and ?P = "fcs_prods s"
  have q: "list_ok ?q" "free_ok ?q ?P" "sole_owners ?P" "prod_ok ?q (?P i)" using inv by (simp_all add: fc_inv_def)
  have th: "prod_ok ?q th" "owns th = owns (?P i) \<or> owns th = None" "inner th = LqIdle" "inner (?P i) = LqIdle"
    using begin_ok [of c "fst (?P i)" "snd (?P i)" th ?q] b q(4) by simp_all
  have "fc_inv (evs @ [fc_silent]) (s\<lparr>fcs_queue := ?q, fcs_prods := ?P(i := th)\<rparr>)"
  proof (rule inv_outside [OF inv q(1)])
    show "free_ok ?q (?P(i := th))" using th(2) by (intro free_ok_owned [OF q(2)]) auto
    show "owns (?P j) \<noteq> Some p" if "owns th = Some p" "j \<noteq> i" for p j
      using that th(2) q(3) unfolding sole_owners_def by (metis option.distinct(1))
  qed (use th in \<open>simp_all add: grows_same\<close>)
  then show ?thesis by simp
qed

section \<open>The consumer keeps the invariant\<close>

lemma cons_outside:
  assumes "fc_inv evs s" "scan_ok (fcs_queue s) sc" "\<And>p. cons_pc (fcs_cons s) p = LqIdle" "\<And>p. cons_pc sc p = LqIdle"
  shows "fc_inv (evs @ [fc_silent]) (s\<lparr>fcs_cons := sc\<rparr>)"
  using assms by (simp add: fc_inv_def rings_ok_def)

text \<open>An access of the consumer inside a ring.\<close>

lemma cons_inside:
  assumes "fc_inv evs s" "p < length (fq_heap (fcs_queue s))" "\<And>p'. cons_pc (fcs_cons s) p' = (if p' = p then pc else LqIdle)"
  shows "\<exists>ev q pc'. ring_access lq_start_pop (Some p) pc (fcs_queue s) = Value ((p, ev), q, pc') \<and> length (fq_heap q) = length (fq_heap (fcs_queue s)) \<and>
    (\<forall>sc. scan_ok (fcs_queue s) sc \<and> (\<forall>p'. cons_pc sc p' = (if p' = p then pc' else LqIdle)) \<longrightarrow>
       fc_inv (evs @ [(p, ev)]) (s\<lparr>fcs_queue := q, fcs_cons := sc\<rparr>))"
proof -
  let ?P = "fcs_prods s" and ?H = "fq_heap (fcs_queue s)" and ?q = "fcs_queue s"
  let ?lq = "?H ! p" and ?X = "pushed_at p evs" and ?Y = "popped_at p evs"
  have inv: "list_ok ?q" "\<And>j. prod_ok ?q (?P j)" "sole_owners ?P" "rings_ok evs ?H ?P (fcs_cons s)" "free_ok ?q ?P"
    using assms(1) by (simp_all add: fc_inv_def)
  from inv(4) assms(2) obtain ppc where "owner_pc ?P p ppc" "ring_inv ?X ?Y ?lq ppc (cons_pc (fcs_cons s) p)" by (auto simp: rings_ok_def)
  then have r: "owner_pc ?P p ppc" "ring_inv ?X ?Y ?lq ppc pc" using assms(3) [of p] by simp_all
  obtain ev lq' pc' where n: "(if pc = LqIdle then (Tau, ?lq, lq_start_pop ?lq) else lq_next ?lq pc) = (ev, lq', pc')" by (metis surj_pair)
  let ?q' = "?q\<lparr>fq_heap := ?H[p := lq']\<rparr>"
  have eq: "ring_access lq_start_pop (Some p) pc ?q = Value ((p, ev), ?q', pc')"
    using n assms(2) by (auto simp: ring_access_def split: if_split_asm prod.split)
  have new: "pushed_of [ev] = []" "ring_inv ?X (?Y @ popped_of [ev]) lq' ppc pc'"
  proof -
    have "pushed_of [ev] = [] \<and> same_enq ?lq lq' \<and> popped_of [ev] = take (length (popped_of [ev])) (drop (length ?Y) ?X) \<and>
      ring_holds ?X (length ?Y + length (popped_of [ev])) lq' \<and> cons_inv ?X (length ?Y + length (popped_of [ev])) lq' pc' \<and> lq_cap lq' = lq_cap ?lq"
    proof (cases "pc = LqIdle")
      case True
      then show ?thesis using n r(2) by (auto simp: ring_inv_def lq_start_pop_def same_enq_def)
    next
      case False
      then have l: "lq_next ?lq pc = (ev, lq', pc')" using n by simp
      have "lq_cap lq' = lq_cap ?lq" using l by (cases pc) (auto simp: lq_cap_def)
      then show ?thesis using cons_next [of ?X "length ?Y", OF _ _ False l] r(2) by (simp add: ring_inv_def)
    qed
    then show "pushed_of [ev] = []" "ring_inv ?X (?Y @ popped_of [ev]) lq' ppc pc'"
      using r(2) by (auto simp: ring_inv_def intro: prod_inv_frame prefix_extend)
  qed
  have "fc_inv (evs @ [(p, ev)]) (s\<lparr>fcs_queue := ?q', fcs_cons := sc\<rparr>)"
    if sc: "scan_ok ?q sc" "\<And>p'. cons_pc sc p' = (if p' = p then pc' else LqIdle)" for sc
  proof -
    have g: "list_grows ?q ?q'" by (rule grows_same) simp_all
    have "free_ok ?q' ?P" using inv(5) by (simp add: free_ok_def published_def)
    moreover have "prod_ok ?q' (?P j)" for j using prod_ok_mono [OF inv(2) g inv(1)] .
    moreover have "rings_ok (evs @ [(p, ev)]) (?H[p := lq']) ?P sc" unfolding rings_ok_def
    proof (intro conjI allI impI)
      fix p' assume p': "p' < length (?H[p := lq'])"
      then obtain pc2 where o: "owner_pc ?P p' pc2" "ring_inv (pushed_at p' evs) (popped_at p' evs) (?H ! p') pc2 (cons_pc (fcs_cons s) p')"
        using inv(4) by (auto simp: rings_ok_def)
      show "\<exists>pc. owner_pc ?P p' pc \<and>
          ring_inv (pushed_at p' (evs @ [(p, ev)])) (popped_at p' (evs @ [(p, ev)])) (?H[p := lq'] ! p') pc (cons_pc sc p')"
        using o r(1) new sc(2) assms(2,3) by (intro exI [of _ "if p' = p then ppc else pc2"]) (auto simp: at_snoc)
    qed (use inv(4) assms(2) in \<open>auto simp: rings_ok_def at_snoc\<close>)
    ultimately show ?thesis
      using list_ok_same [OF inv(1), of ?q'] scan_ok_mono [OF sc(1) g] inv(3) by (simp add: fc_inv_def)
  qed
  then show ?thesis using eq by auto
qed

lemma cons_keeps:
  assumes inv: "fc_inv evs s"
  shows "\<exists>ev q sc. fc_cons (fcs_queue s) (fcs_cons s) = Value (ev, q, sc) \<and> length (fq_heap q) = length (fq_heap (fcs_queue s)) \<and>
    fc_inv (evs @ [ev]) (s\<lparr>fcs_queue := q, fcs_cons := sc\<rparr>)"
proof -
  let ?q = "fcs_queue s"
  have q: "list_ok ?q" "scan_ok ?q (fcs_cons s)" using inv by (simp_all add: fc_inv_def)
  have out: ?thesis if "fc_cons ?q (fcs_cons s) = Value (fc_silent, ?q, sc)" "scan_ok ?q sc" "\<And>p. cons_pc (fcs_cons s) p = LqIdle" "\<And>p. cons_pc sc p = LqIdle" for sc
    using that cons_outside [OF inv that(2-4)] by auto
  have n: "length (fq_heap ?q) \<le> kQueueMaxCount" "ps_size (fq_QueueList ?q) = int (length (fq_heap ?q))"
    using q(1) by (simp_all add: list_ok_def Let_def ps_size_def sint_u32_of_nat kQueueMaxCount_def)
  show ?thesis
  proof (cases "fcs_cons s")
    case Resting
    then show ?thesis using q by (intro out [of Resting]) auto
  next
    case (Down i middle approx)
    show ?thesis
    proof (cases "i < 0")
      case True
      then show ?thesis using Down q(2) by (intro out [of "Up (middle + 1) approx"]) auto
    next
      case False
      then show ?thesis using Down q(2) lookup_slot [OF q(1), of i]
        by (intro out [of "case ps_cell (fq_QueueList ?q) (nat i) of None \<Rightarrow> Down (i - 1) middle approx | Some p \<Rightarrow> DownPop i middle approx p LqIdle"])
          (auto split: option.split)
    qed
  next
    case (DownPop i middle approx p pc)
    then have "p < length (fq_heap ?q)" "\<And>p'. cons_pc (fcs_cons s) p' = (if p' = p then pc else LqIdle)" using q(2) by simp_all
    from cons_inside [OF inv this] obtain ev q' pc' where
      a: "ring_access lq_start_pop (Some p) pc ?q = Value ((p, ev), q', pc')" "length (fq_heap q') = length (fq_heap ?q)"
        "\<And>sc. scan_ok ?q sc \<Longrightarrow> \<forall>p'. cons_pc sc p' = (if p' = p then pc' else LqIdle) \<Longrightarrow>
          fc_inv (evs @ [(p, ev)]) (s\<lparr>fcs_queue := q', fcs_cons := sc\<rparr>)" by blast
    then show ?thesis using DownPop q(2) by (auto intro!: a(3))
  next
    case (Up i approx)
    show ?thesis
    proof (cases "i < approx")
      case True
      then show ?thesis using Up q(2) n(1) lookup_slot [OF q(1), of i]
        by (intro out [of "case ps_cell (fq_QueueList ?q) (nat i) of None \<Rightarrow> Resting | Some p \<Rightarrow> UpPop i approx p LqIdle"])
          (auto split: option.split)
    next
      case False
      then show ?thesis using Up by (intro out [of Resting]) auto
    qed
  next
    case (UpPop i approx p pc)
    then have "p < length (fq_heap ?q)" "\<And>p'. cons_pc (fcs_cons s) p' = (if p' = p then pc else LqIdle)" using q(2) by simp_all
    from cons_inside [OF inv this] obtain ev q' pc' where
      a: "ring_access lq_start_pop (Some p) pc ?q = Value ((p, ev), q', pc')" "length (fq_heap q') = length (fq_heap ?q)"
        "\<And>sc. scan_ok ?q sc \<Longrightarrow> \<forall>p'. cons_pc sc p' = (if p' = p then pc' else LqIdle) \<Longrightarrow>
          fc_inv (evs @ [(p, ev)]) (s\<lparr>fcs_queue := q', fcs_cons := sc\<rparr>)" by blast
    then show ?thesis using UpPop q(2) by (auto intro!: a(3))
  next
    case (Resize i)
    then show ?thesis using q(2) n(2) by (intro out [of "Up (i + 1) (ps_size (fq_QueueList ?q))"]) auto
  qed
qed

end
