(* ===== verification/Fast_Queue_Conc_Props.thy ===== *)
theory Fast_Queue_Conc_Props
  imports Fast_Queue_Conc
begin

text \<open>
  Properties of \<open>FastQueue\<close> in interleaving: the invariant of \<open>Fast_Queue_Conc\<close> over runs, what is in the rings, the states in which no call is under way, the
  number of steps that a call takes, and executable schedules.
\<close>

section \<open>Runs\<close>

lemma fc_inv_new: "fc_inv [] (fc_sys_new null)"
proof -
  have "ps_cell (ps_new kQueueMaxCount kUnitSize) t = None" if "t < kQueueMaxCount" for t
    using that by (simp add: ps_cell_def ps_new_def fq_constants)
  then have "list_ok (fq_new null)" unfolding list_ok_def Let_def by (auto simp: fq_new_def) (simp_all add: ps_new_def fq_constants)
  then show ?thesis
    by (simp add: fc_inv_def fc_sys_new_def rings_ok_def free_ok_def sole_owners_def)
      (simp add: fq_new_def sq_invar_new kFreeListSize_def)
qed

lemma ring_access_frame:
  assumes "ring_access start local pc q = Value (ev, q', pc')"
  shows "fq_QueueList q' = fq_QueueList q" "fq_FreeList q' = fq_FreeList q" "length (fq_heap q') = length (fq_heap q)"
proof -
  obtain p lq where p: "local = Some p" "vec_get (fq_heap q) (int p) = Value lq"
    using assms by (cases local; cases "vec_get (fq_heap q) (int (the local))") (auto simp: ring_access_def)
  obtain ev' lq' pc2 where n: "lq_next lq pc = (ev', lq', pc2)" by (metis surj_pair)
  have "q' = q \<or> q' = q\<lparr>fq_heap := (fq_heap q)[p := lq']\<rparr>" using assms p n by (simp add: ring_access_def split: if_split_asm)
  then show "fq_QueueList q' = fq_QueueList q" "fq_FreeList q' = fq_FreeList q" "length (fq_heap q') = length (fq_heap q)" by auto
qed

lemma cons_frame:
  assumes "fc_cons q sc = Value (ev, q', sc')"
  shows "fq_QueueList q' = fq_QueueList q \<and> fq_FreeList q' = fq_FreeList q \<and> length (fq_heap q') = length (fq_heap q)"
  using assms
  by (cases "(q, sc)" rule: fc_cons.cases) (auto split: prod.split_asm if_split_asm dest: ring_access_frame)

text \<open>The number of rings never goes down, so a bound at the end was one all along.\<close>

lemma prod_heap_grows:
  assumes "fc_prod q th = Value (ev, q', th')"
  shows "length (fq_heap q) \<le> length (fq_heap q')"
  using assms
  by (cases "(q, th)" rule: fc_prod.cases)
    (auto simp: fc_install_def fc_store_def Let_def split: prod.split_asm option.split_asm dest: claim_grows ring_access_frame(3))

lemma fc_step_heap:
  assumes "fc_step s ev t"
  shows "length (fq_heap (fcs_queue s)) \<le> length (fq_heap (fcs_queue t))"
  using assms
proof cases
  case (run_cons q sc)
  then show ?thesis using cons_frame [OF run_cons(2)] by simp
qed (auto dest: prod_heap_grows)

lemma fc_step_keeps:
  assumes "fc_step s ev t" "fc_inv evs s" "length (fq_heap (fcs_queue t)) \<le> kQueueMaxCount"
  shows "fc_inv (evs @ [ev]) t"
  using assms(1)
proof cases
  case (begin_call c i th)
  then show ?thesis using begin_keeps [OF assms(2)] by simp
next
  case (run_prod i q th)
  then show ?thesis using prod_keeps [OF assms(2), of i] assms(3) by (auto simp: prod_promise_def)
next
  case (begin_scan middle)
  let ?q = "fcs_queue s"
  have "list_ok ?q" using assms(2) by (simp add: fc_inv_def)
  then have "length (fq_heap ?q) \<le> kQueueMaxCount" "ps_size (fq_QueueList ?q) = int (length (fq_heap ?q))"
    by (simp_all add: list_ok_def Let_def ps_size_def sint_u32_of_nat kQueueMaxCount_def)
  then have "scan_ok ?q (fc_scan_from middle ?q)" using begin_scan(4) by (auto simp: fc_scan_from_def kQueueMaxCount_def)
  then have "fc_inv (evs @ [fc_silent]) (s\<lparr>fcs_cons := fc_scan_from middle ?q\<rparr>)"
    using begin_scan by (intro cons_outside [OF assms(2)]) (simp_all add: fc_scan_from_def)
  then show ?thesis using begin_scan by simp
next
  case (run_cons q sc)
  then show ?thesis using cons_keeps [OF assms(2)] by auto
qed

lemma fc_run_keeps:
  "fc_run s evs t \<Longrightarrow> fc_inv [] s \<Longrightarrow> length (fq_heap (fcs_queue t)) \<le> kQueueMaxCount \<Longrightarrow> fc_inv evs t"
proof (induction rule: fc_run.induct)
  case (fc_run_snoc s evs t ev u)
  then show ?case using fc_step_keeps [OF fc_run_snoc(2)] fc_step_heap [OF fc_run_snoc(2)] by simp
qed simp

subsection \<open>What is in the rings\<close>

lemma ring_holds_items:
  assumes "ring_holds X r q"
  shows "lq_items q = drop r X"
proof -
  have h: "lq_tail q = of_nat (length X)" "lq_head q = of_nat r" "r \<le> length X" "length X \<le> r + lq_cap q" "lq_cap q \<le> 2 ^ 31" "lq_cap q dvd 2 ^ 32"
    "\<And>i. r \<le> i \<Longrightarrow> i < length X \<Longrightarrow> lq_data q ! (i mod lq_cap q) = X ! i" using assms by (auto simp: ring_holds_def)
  have "lq_tail q - lq_head q = of_nat (length X - r)" using h(1-3) by (simp add: of_nat_diff)
  moreover have "length X - r < 2 ^ 32" using h(3-5) by simp
  ultimately have size: "lq_size q = length X - r" unfolding lq_size_def by (simp only: unat_u32_of_nat)
  have "lq_data q ! ((unat (lq_head q) + i) mod lq_cap q) = X ! (r + i)" if "i < length X - r" for i
  proof -
    have "(unat (lq_head q) + i) mod lq_cap q = (r + i) mod lq_cap q"
      using unat_u32_mod [OF h(6), of r] h(2) by (metis mod_add_left_eq)
    then show ?thesis using h(7) [of "r + i"] that by simp
  qed
  then show ?thesis by (intro nth_equalityI) (auto simp: lq_items_def ring_slice_def size lq_cap_def)
qed

lemma inv_contents:
  assumes "fc_inv evs s"
  shows "p < length (fq_heap (fcs_queue s)) \<Longrightarrow> pushed_at p evs = popped_at p evs @ fq_view (fcs_queue s) ! p \<and> length (fq_view (fcs_queue s) ! p) \<le> kLocalQueueSize"
    "p \<ge> length (fq_heap (fcs_queue s)) \<Longrightarrow> pushed_at p evs = [] \<and> popped_at p evs = []"
proof -
  have r: "rings_ok evs (fq_heap (fcs_queue s)) (fcs_prods s) (fcs_cons s)" using assms by (simp add: fc_inv_def)
  then show "pushed_at p evs = [] \<and> popped_at p evs = []" if "p \<ge> length (fq_heap (fcs_queue s))" using that by (simp add: rings_ok_def)
  assume p: "p < length (fq_heap (fcs_queue s))"
  with r obtain pc where i: "ring_inv (pushed_at p evs) (popped_at p evs) (fq_heap (fcs_queue s) ! p) pc (cons_pc (fcs_cons s) p)"
    by (auto simp: rings_ok_def)
  then have h: "ring_holds (pushed_at p evs) (length (popped_at p evs)) (fq_heap (fcs_queue s) ! p)" "prefix (popped_at p evs) (pushed_at p evs)"
    "lq_cap (fq_heap (fcs_queue s) ! p) = kLocalQueueSize" by (simp_all add: ring_inv_def)
  have v: "fq_view (fcs_queue s) ! p = drop (length (popped_at p evs)) (pushed_at p evs)"
    using ring_holds_items [OF h(1)] p by (simp add: fq_view_def)
  have "length (pushed_at p evs) \<le> length (popped_at p evs) + kLocalQueueSize" using h(1,3) by (simp add: ring_holds_def)
  then show "pushed_at p evs = popped_at p evs @ fq_view (fcs_queue s) ! p \<and> length (fq_view (fcs_queue s) ! p) \<le> kLocalQueueSize"
    unfolding v using h(2) by (auto simp: prefix_def)
qed

text \<open>All rings together.\<close>

lemma mset_at:
  assumes "\<And>p. p \<ge> n \<Longrightarrow> f (on_ring p evs) = []" "f [] = []" "\<And>e es. f (e # es) = f [e] @ f es"
  shows "mset (f (map snd evs)) = (\<Sum>p < n. mset (f (on_ring p evs)))"
  using assms(1)
proof (induction evs)
  case Nil
  then show ?case using assms(2) by (simp add: on_ring_def)
next
  case (Cons e evs)
  have c: "on_ring p (e # evs) = (if fst e = p then snd e # on_ring p evs else on_ring p evs)" for p by (simp add: on_ring_def)
  have a: "mset (f (on_ring p (e # evs))) = (if p = fst e then mset (f [snd e]) else {#}) + mset (f (on_ring p evs))" for p
    unfolding c using assms(3) [of "snd e" "on_ring p evs"] by auto
  have e: "f (on_ring p evs) = []" if "p \<ge> n" for p using Cons.prems [OF that] assms(3) [of "snd e" "on_ring p evs"] unfolding c by (auto split: if_split_asm)
  have "f [snd e] = []" if "fst e \<ge> n" using Cons.prems [OF that] assms(3) [of "snd e" "on_ring (fst e) evs"] unfolding c by simp
  then have "(\<Sum>p < n. if p = fst e then mset (f [snd e]) else {#}) = mset (f [snd e])" by (cases "fst e < n") auto
  then show ?case using Cons.IH [OF e] assms(3) [of "snd e" "map snd evs"] unfolding a sum.distrib by simp
qed

lemma pushed_of_Cons: "pushed_of (e # es) = pushed_of [e] @ pushed_of es" "popped_of (e # es) = popped_of [e] @ popped_of es"
  by (cases e; simp)+

lemma inv_conserves:
  assumes "fc_inv evs s"
  shows "mset (pushed_of (map snd evs)) = mset (popped_of (map snd evs)) + mset (concat (fq_view (fcs_queue s)))"
proof -
  let ?n = "length (fq_heap (fcs_queue s))" and ?v = "fq_view (fcs_queue s)"
  have n: "length ?v = ?n" by simp
  have "mset (pushed_of (map snd evs)) = (\<Sum>p < ?n. mset (pushed_at p evs))"
    unfolding pushed_at_def using inv_contents(2) [OF assms] pushed_of_Cons(1) by (intro mset_at) (auto simp: pushed_at_def)
  also have "\<dots> = (\<Sum>p < ?n. mset (popped_at p evs) + mset (?v ! p))" using inv_contents(1) [OF assms] by (intro sum.cong) auto
  also have "\<dots> = (\<Sum>p < ?n. mset (popped_at p evs)) + (\<Sum>p < ?n. mset (?v ! p))" by (rule sum.distrib)
  also have "(\<Sum>p < ?n. mset (popped_at p evs)) = mset (popped_of (map snd evs))"
    unfolding popped_at_def using inv_contents(2) [OF assms] pushed_of_Cons(2) by (intro mset_at [symmetric]) (auto simp: popped_at_def)
  also have "(\<Sum>p < ?n. mset (?v ! p)) = mset (concat ?v)"
    using n by (simp add: mset_concat sum_list_sum_nth atLeast0LessThan)
  finally show ?thesis .
qed

section \<open>At rest\<close>

text \<open>A slot that is claimed and not yet published is being written by a thread, and the free list keeps its capacity.\<close>

fun writing :: "'a producer \<Rightarrow> nat option" where
  "writing (Installing slot p r g, h) = Some p"
| "writing (Storing slot p r g, h) = Some p"
| "writing _ = None"

definition claimed_ok :: "'a fc_sys \<Rightarrow> bool" where
  "claimed_ok s \<longleftrightarrow> sq_max_size (fq_FreeList (fcs_queue s)) = int kFreeListSize \<and>
     (\<forall>t < length (fq_heap (fcs_queue s)). published (fcs_queue s) t \<or> (\<exists>i. writing (fcs_prods s i) = Some t))"

lemma sq_capacity_kept:
  "sq_push f x = Value (b, f') \<Longrightarrow> sq_max_size f' = sq_max_size f"
  "sq_pop f = Value (r, f') \<Longrightarrow> sq_max_size f' = sq_max_size f"
  by (auto simp: sq_push_def sq_pop_def Let_def split: if_split_asm)

lemma writing_settle [simp]: "writing (fc_settle g h) = None" "writing (apply_failed r g h) = None" "writing (preempt_failed r g h) = None"
  by (auto simp: fc_settle_def apply_failed_def preempt_failed_def split: fc_goal.split)

text \<open>What a step of a handle does to the slots.\<close>

lemma prod_slots:
  assumes "list_ok q" "prod_ok q th" "fc_prod q th = Value (ev, q', th')" "length (fq_heap q') \<le> kQueueMaxCount"
  shows "(\<forall>t. published q t \<longrightarrow> published q' t) \<and> sq_max_size (fq_FreeList q') = sq_max_size (fq_FreeList q) \<and>
    (\<forall>t. writing th = Some t \<longrightarrow> writing th' = Some t \<or> published q' t) \<and>
    (\<forall>t. length (fq_heap q) \<le> t \<and> t < length (fq_heap q') \<longrightarrow> writing th' = Some t)"
proof -
  obtain pc h where th: "th = (pc, h)" by fastforce
  have inside: ?thesis if "ring_access start l lpc q = Value (ev, q', pc')" "writing th = None" for start l lpc pc'
    using ring_access_frame [OF that(1)] that(2) by (auto simp: published_def)
  show ?thesis
  proof (cases pc)
    case (Claiming r g)
    obtain ok slot p q1 where c: "fc_claim q = (ok, slot, p, q1)" by (metis surj_pair)
    then have "q1 = q'" "th' = (if ok then (Installing slot p r g, h) else preempt_failed r g h)" using assms(3) th Claiming by auto
    then show ?thesis using claim_room [OF assms(1)] c assms(4) th Claiming by (auto simp: list_grows_def)
  next
    case (Installing slot p r g)
    then have "slot = int p" "p < length (fq_heap q)" using assms(2) th by simp_all
    then show ?thesis using install_ok [OF assms(1), of p] assms(3) th Installing by (auto simp: list_grows_def)
  next
    case (Storing slot p r g)
    then have "slot = int p" "p < length (fq_heap q)" "ps_stacks (fq_QueueList q) ! (p div kUnitSize) \<noteq> None" using assms(2) th by simp_all
    then show ?thesis using slot_store_ok [OF assms(1), of p] assms(3) th Storing by (auto simp: list_grows_def)
  next
    case (Trying x l)
    then show ?thesis using assms(3) th inside by (auto split: prod.split_asm)
  next
    case (Pushing r again x l)
    then show ?thesis using assms(3) th inside by (auto split: prod.split_asm)
  next
    case (Applying r g)
    then obtain t f where "sq_pop (fq_FreeList q) = Value (t, f)" "q' = q\<lparr>fq_FreeList := f\<rparr>" using assms(3) th by auto
    then show ?thesis using sq_capacity_kept(2) [of "fq_FreeList q" t f] Applying th by (auto simp: published_def)
  next
    case (Releasing x)
    then obtain b f where "sq_push (fq_FreeList q) (ph_token h) = Value (b, f)" "q' = q\<lparr>fq_FreeList := f\<rparr>" using assms(3) th by auto
    then show ?thesis using sq_capacity_kept(1) [of "fq_FreeList q" "ph_token h" b f] Releasing th by (auto simp: published_def)
  next
    case Destroying
    then obtain b f where "sq_push (fq_FreeList q) (ph_token h) = Value (b, f)" "q' = q\<lparr>fq_FreeList := f\<rparr>" using assms(3) th by auto
    then show ?thesis using sq_capacity_kept(1) [of "fq_FreeList q" "ph_token h" b f] Destroying th by (auto simp: published_def)
  qed (use assms(3) th in \<open>auto split: option.split_asm\<close>)
qed

lemma claimed_step:
  assumes "fc_step s ev t" "fc_inv evs s" "claimed_ok s" "length (fq_heap (fcs_queue t)) \<le> kQueueMaxCount"
  shows "claimed_ok t"
  using assms(1)
proof cases
  case (begin_call c i th)
  have "writing (fcs_prods s i) = None" using begin_call(3) by (cases c; cases "fcs_prods s i"; cases "fst (fcs_prods s i)"; simp)
  then show ?thesis using begin_call assms(3) unfolding claimed_ok_def by (simp, metis option.distinct(1))
next
  case (run_prod i q th)
  have "list_ok (fcs_queue s)" "prod_ok (fcs_queue s) (fcs_prods s i)" using assms(2) by (simp_all add: fc_inv_def)
  note r = prod_slots [OF this run_prod(2)]
  show ?thesis unfolding claimed_ok_def
  proof (intro conjI allI impI)
    show "sq_max_size (fq_FreeList (fcs_queue t)) = int kFreeListSize" using r assms(3,4) run_prod(1) by (simp add: claimed_ok_def)
    fix k assume k: "k < length (fq_heap (fcs_queue t))"
    show "published (fcs_queue t) k \<or> (\<exists>j. writing (fcs_prods t j) = Some k)"
    proof (cases "k < length (fq_heap (fcs_queue s))")
      case True
      then consider "published (fcs_queue s) k" | j where "writing (fcs_prods s j) = Some k" using assms(3) by (auto simp: claimed_ok_def)
      then show ?thesis
      proof cases
        case 2
        then show ?thesis using r assms(4) run_prod(1) by (cases "j = i") (auto intro: exI [of _ i] exI [of _ j])
      qed (use r assms(4) run_prod(1) in simp)
    next
      case False
      then show ?thesis using r assms(4) run_prod(1) k by (auto intro: exI [of _ i])
    qed
  qed
next
  case (begin_scan middle)
  then show ?thesis using assms(3) by (simp add: claimed_ok_def)
next
  case (run_cons q sc)
  then show ?thesis using assms(3) cons_frame [OF run_cons(2)] by (simp add: claimed_ok_def published_def)
qed

lemma claimed_run:
  "fc_run s evs t \<Longrightarrow> fc_inv [] s \<Longrightarrow> claimed_ok s \<Longrightarrow> length (fq_heap (fcs_queue t)) \<le> kQueueMaxCount \<Longrightarrow> claimed_ok t"
proof (induction rule: fc_run.induct)
  case (fc_run_snoc s evs t ev u)
  then have "length (fq_heap (fcs_queue t)) \<le> kQueueMaxCount" using fc_step_heap [OF fc_run_snoc(2)] by simp
  then show ?case using claimed_step [OF fc_run_snoc(2)] fc_run_keeps [OF fc_run_snoc(1)] fc_run_snoc by simp
qed simp

definition at_rest :: "'a fc_sys \<Rightarrow> bool" where
  "at_rest s \<longleftrightarrow> (\<forall>i. fst (fcs_prods s i) = Absent \<or> fst (fcs_prods s i) = Ready) \<and> fcs_cons s = Resting"

lemma at_rest_idle: "at_rest s \<Longrightarrow> inner (fcs_prods s i) = LqIdle" "at_rest s \<Longrightarrow> writing (fcs_prods s i) = None" "at_rest s \<Longrightarrow> cons_pc (fcs_cons s) p = LqIdle"
  by (cases "fcs_prods s i"; auto simp: at_rest_def dest: spec [of _ i])+

lemma ring_inv_idle:
  assumes "ring_inv X Y lq LqIdle LqIdle"
  shows "lq_invar lq \<and> lq_cap lq = kLocalQueueSize"
proof -
  have h: "ring_holds X (length Y) lq" "lq_cap lq = kLocalQueueSize" using assms by (simp_all add: ring_inv_def)
  have "lq_size lq = length X - length Y" using ring_holds_items [OF h(1)] length_lq_items [of lq] by simp
  then show ?thesis using assms by (auto simp: ring_inv_def lq_invar_def ring_holds_def)
qed

text \<open>When no call is under way, the state is one of the states of the sequential model.\<close>

lemma at_rest_wf:
  assumes inv: "fc_inv evs s" and c: "claimed_ok s" and r: "at_rest s"
  shows "fq_wf (fcs_queue s)"
proof -
  let ?q = "fcs_queue s" and ?n = "length (fq_heap (fcs_queue s))" and ?L = "fq_QueueList (fcs_queue s)"
  have i: "list_ok ?q" "free_ok ?q (fcs_prods s)" "rings_ok evs (fq_heap ?q) (fcs_prods s) (fcs_cons s)" using inv by (simp_all add: fc_inv_def)
  then have L: "ps_max_size ?L = kQueueMaxCount" "ps_unit ?L = kUnitSize" "length (ps_stacks ?L) = 10" "ps_end ?L = of_nat ?n" "?n \<le> kQueueMaxCount"
    "\<And>t. t < kQueueMaxCount \<Longrightarrow> ps_cell ?L t = None \<or> ps_cell ?L t = Some t \<and> t < ?n"
    "\<And>m cells. m < 10 \<Longrightarrow> ps_stacks ?L ! m = Some cells \<Longrightarrow> length cells = 10"
    by (auto simp: list_ok_def Let_def)
  have pub: "published ?q t" if "t < ?n" for t using c that at_rest_idle(2) [OF r] by (auto simp: claimed_ok_def)
  have "ps_cell ?L t = (if t < ?n then Some t else None)" if "t < 100" for t
    using L(6) [of t] pub [of t] that by (auto simp: published_def kQueueMaxCount_def)
  moreover have "ps_shape ?L" using L(1-3,7) by (auto simp: ps_shape_def fq_constants in_set_conv_nth)
  ultimately have "ps_holds ?L [0..<?n]" using L(1-5) by (simp add: ps_holds_def fq_constants)
  moreover have "lq_invar lq \<and> lq_cap lq = kLocalQueueSize" if lq: "lq \<in> set (fq_heap ?q)" for lq
  proof -
    from lq obtain p where p: "p < ?n" "lq = fq_heap ?q ! p" by (auto simp: in_set_conv_nth)
    with i(3) obtain pc where o: "owner_pc (fcs_prods s) p pc" "ring_inv (pushed_at p evs) (popped_at p evs) lq pc (cons_pc (fcs_cons s) p)"
      by (auto simp: rings_ok_def)
    then have "pc = LqIdle" using at_rest_idle(1) [OF r] unfolding owner_pc_def by metis
    then show ?thesis using o(2) at_rest_idle(3) [OF r] ring_inv_idle by metis
  qed
  moreover have "sq_cap (fq_FreeList ?q) = kFreeListSize" using c by (simp add: claimed_ok_def sq_cap_def)
  ultimately show ?thesis using i(2) L(1,2,5) unfolding fq_wf_def free_ok_def published_def by (auto simp: kQueueMaxCount_def)
qed

section \<open>Wait-freedom of the handles\<close>

text \<open>A bound on the steps that a call of a handle still needs, whatever the other threads do.\<close>

definition ring_left :: "'a lq_pc \<Rightarrow> nat" where
  "ring_left pc = (if pc = LqIdle then 6 else lq_rank pc)"

fun goal_left :: "'a fc_goal \<Rightarrow> nat" where
  "goal_left Construct = 0"
| "goal_left (Second x) = 54"
| "goal_left (First x) = 145"

fun fc_left :: "'a producer \<Rightarrow> nat" where
  "fc_left (Absent, h) = 0"
| "fc_left (Ready, h) = 0"
| "fc_left (Trying x pc, h) = ring_left pc"
| "fc_left (Applying r g, h) = goal_left g + 4 * 9 + 2 * max 1 r"
| "fc_left (Applied r g, h) = goal_left g + 4 * 9 + 2 * max 1 r - 1"
| "fc_left (Claiming r g, h) = goal_left g + 4 * max 1 r"
| "fc_left (Installing slot p r g, h) = goal_left g + 4 * max 1 r - 1"
| "fc_left (Storing slot p r g, h) = goal_left g + 4 * max 1 r - 2"
| "fc_left (Preempted r g, h) = goal_left g + 4 * max 1 r - 3"
| "fc_left (Pushing r again x pc, h) = ring_left pc + 6 * (max 1 r - 1) + (if again then 0 else 91)"
| "fc_left (Releasing x, h) = 91"
| "fc_left (Destroying, h) = 1"

lemma settle_left: "fc_left (fc_settle g h) \<le> goal_left g"
  by (cases g) (simp_all add: fc_settle_def ring_left_def kProducerRetry_def)

lemma failed_left:
  "fc_left (apply_failed r g h) < fc_left (Applied r g, h')" "fc_left (preempt_failed r g h) < fc_left (Preempted r g, h')"
  using settle_left [of g h] by (auto simp: apply_failed_def preempt_failed_def kProducerRetry_def max_def)

lemma ring_access_left:
  assumes "ring_access (\<lambda>lq. lq_start_push lq x) local pc q = Value (ev, q', pc')"
  shows "if pc' = LqIdle then 0 < ring_left pc else ring_left pc' < ring_left pc"
proof -
  obtain p lq where p: "local = Some p" "vec_get (fq_heap q) (int p) = Value lq"
    using assms by (cases local; cases "vec_get (fq_heap q) (int (the local))") (auto simp: ring_access_def)
  show ?thesis
  proof (cases "pc = LqIdle")
    case True
    then have "pc' = lq_start_push lq x" using assms p by (simp add: ring_access_def)
    then show ?thesis using True by (simp add: ring_left_def lq_start_push_def)
  next
    case False
    then have "pc' = snd (snd (lq_next lq pc))" using assms p by (auto simp: ring_access_def split: prod.split_asm)
    then have "lq_rank pc' < lq_rank pc" using lq_rank_decreases [OF False, of lq] by simp
    then show ?thesis using False by (simp add: ring_left_def)
  qed
qed

text \<open>Every step of a call brings it nearer to its return.\<close>

lemma fc_left_decreases:
  assumes "fc_prod q (pc, h) = Value (ev, q', th)" "pc \<noteq> Absent" "pc \<noteq> Ready"
  shows "fc_left th < fc_left (pc, h)"
proof (cases pc)
  case (Trying x l)
  then obtain q1 pc' where a: "ring_access (\<lambda>lq. lq_start_push lq x) (ph_local h) l q = Value (ev, q1, pc')"
    "th = (if pc' = LqIdle then Ready else Trying x pc', h)" using assms(1) by auto
  then show ?thesis using ring_access_left [OF a(1)] Trying by (auto split: if_split_asm)
next
  case (Pushing r again x l)
  then obtain q1 pc' where a: "ring_access (\<lambda>lq. lq_start_push lq x) (ph_local h) l q = Value (ev, q1, pc')"
    "th = (if pc' \<noteq> LqIdle then Pushing r again x pc' else if snd ev = PushFailedEv then push_failed r again x else Ready, h)"
    using assms(1) by auto
  show ?thesis
  proof (cases "pc' = LqIdle")
    case True
    then show ?thesis using ring_access_left [OF a(1)] a(2) Pushing
      by (auto simp: push_failed_def ring_left_def max_def)
  next
    case False
    then show ?thesis using ring_access_left [OF a(1)] a(2) Pushing by simp
  qed
next
  case (Applied r g)
  then obtain res where "th = (case res of None \<Rightarrow> apply_failed r g (h\<lparr>ph_local := None\<rparr>) | Some local \<Rightarrow> fc_settle g (h\<lparr>ph_local := local\<rparr>))"
    using assms(1) by auto
  then show ?thesis using failed_left(1) [of r g "h\<lparr>ph_local := None\<rparr>" h] Applied
    by (cases res) (auto simp: max_def intro: le_less_trans [OF settle_left])
next
  case (Preempted r g)
  then obtain res where "th = (case res of None \<Rightarrow> preempt_failed r g (h\<lparr>ph_local := None\<rparr>) | Some local \<Rightarrow> fc_settle g (h\<lparr>ph_local := local\<rparr>))"
    using assms(1) by auto
  then show ?thesis using failed_left(2) [of r g "h\<lparr>ph_local := None\<rparr>" h] Preempted
    by (cases res) (auto simp: max_def intro: le_less_trans [OF settle_left])
next
  case (Applying r g)
  then obtain res where "th = (case res of None \<Rightarrow> apply_failed r g h | Some t \<Rightarrow> (Applied r g, h\<lparr>ph_token := t\<rparr>))" using assms(1) by auto
  then show ?thesis using failed_left(1) [of r g h h] Applying by (cases res) (auto simp: max_def split: if_split_asm)
next
  case (Claiming r g)
  then obtain ok slot p where "th = (if ok then (Installing slot p r g, h) else preempt_failed r g h)" using assms(1) by (auto split: prod.split_asm)
  then show ?thesis using failed_left(2) [of r g h h] Claiming by (cases ok) (auto simp: max_def split: if_split_asm)
qed (use assms in \<open>auto simp: kProducerRetry_def max_def\<close>)

lemma begin_left: "fc_begin c (pc, h) = Some th \<Longrightarrow> fc_left th \<le> 199"
  by (cases c; cases pc) (auto simp: ring_left_def kProducerRetry_def)

text \<open>Runs in which one call of handle \<open>i\<close> takes \<open>n\<close> steps, with any steps of the others in between.\<close>

inductive own_steps :: "nat \<Rightarrow> nat \<Rightarrow> 'a fc_sys \<Rightarrow> 'a fc_sys \<Rightarrow> bool" for i where
  own_nil: "own_steps i 0 s s"
| own_mine: "own_steps i n s t \<Longrightarrow> fst (fcs_prods t i) \<noteq> Absent \<Longrightarrow> fst (fcs_prods t i) \<noteq> Ready \<Longrightarrow>
    fc_prod (fcs_queue t) (fcs_prods t i) = Value (ev, q, th) \<Longrightarrow>
    own_steps i (Suc n) s (t\<lparr>fcs_queue := q, fcs_prods := (fcs_prods t)(i := th)\<rparr>)"
| own_other: "own_steps i n s t \<Longrightarrow> fc_step t ev u \<Longrightarrow> fcs_prods u i = fcs_prods t i \<Longrightarrow> own_steps i n s u"

lemma own_steps_run: "own_steps i n s t \<Longrightarrow> fc_run s0 evs s \<Longrightarrow> \<exists>evs'. fc_run s0 evs' t"
proof (induction rule: own_steps.induct)
  case (own_mine n s t ev q th)
  then show ?case using fc_run_snoc run_prod by metis
next
  case (own_other n s t ev u)
  then show ?case using fc_run_snoc by metis
qed blast

lemma own_steps_left: "own_steps i n s t \<Longrightarrow> n + fc_left (fcs_prods t i) \<le> fc_left (fcs_prods s i)"
proof (induction rule: own_steps.induct)
  case (own_mine n s t ev q th)
  then show ?case using fc_left_decreases [of "fcs_queue t" "fst (fcs_prods t i)" "snd (fcs_prods t i)" ev q th] by simp
qed simp_all

lemma ring_left_pos: "ring_left pc \<noteq> 0"
  by (cases pc) (simp_all add: ring_left_def)

lemma fc_left_0: "fc_left th = 0 \<Longrightarrow> fst th = Absent \<or> fst th = Ready"
  by (cases th rule: fc_left.cases) (auto simp: ring_left_pos max_def split: if_split_asm)

section \<open>Schedules\<close>

datatype 'a fc_sched = Call nat "'a fc_call" | RunP nat | Scan nat | RunC

fun fc_exec1 :: "'a fc_sys \<Rightarrow> 'a fc_sched \<Rightarrow> ((nat \<times> 'a lq_event) \<times> 'a fc_sys) option" where
  "fc_exec1 s (Call i c) = map_option (\<lambda>th. (fc_silent, s\<lparr>fcs_prods := (fcs_prods s)(i := th)\<rparr>)) (fc_begin c (fcs_prods s i))"
| "fc_exec1 s (RunP i) = (case fc_prod (fcs_queue s) (fcs_prods s i) of
     Undefined \<Rightarrow> None | Value (ev, q, th) \<Rightarrow> Some (ev, s\<lparr>fcs_queue := q, fcs_prods := (fcs_prods s)(i := th)\<rparr>))"
| "fc_exec1 s (Scan middle) = (case fcs_cons s of
     Resting \<Rightarrow> if int middle < max 1 (ps_size (fq_QueueList (fcs_queue s))) then Some (fc_silent, s\<lparr>fcs_cons := fc_scan_from middle (fcs_queue s)\<rparr>) else None
   | _ \<Rightarrow> None)"
| "fc_exec1 s RunC = (case fc_cons (fcs_queue s) (fcs_cons s) of
     Undefined \<Rightarrow> None | Value (ev, q, sc) \<Rightarrow> Some (ev, s\<lparr>fcs_queue := q, fcs_cons := sc\<rparr>))"

fun fc_exec :: "'a fc_sys \<Rightarrow> (nat \<times> 'a lq_event) list \<Rightarrow> 'a fc_sched list \<Rightarrow> ((nat \<times> 'a lq_event) list \<times> 'a fc_sys) option" where
  "fc_exec s evs [] = Some (evs, s)"
| "fc_exec s evs (a # as) = (case fc_exec1 s a of None \<Rightarrow> None | Some (ev, s) \<Rightarrow> fc_exec s (evs @ [ev]) as)"

lemma fc_exec1_step: "fc_exec1 s a = Some (ev, t) \<Longrightarrow> fc_step s ev t"
  by (cases a) (auto intro: fc_step.intros split: outcome.split_asm fc_scan.split_asm if_split_asm)

lemma fc_exec_run: "fc_exec s evs as = Some (evs', t) \<Longrightarrow> fc_run s0 evs s \<Longrightarrow> fc_run s0 evs' t"
  by (induction as arbitrary: s evs) (auto split: option.split_asm intro: fc_exec1_step fc_run_snoc)

text \<open>A schedule leaves the handles that do not occur in it alone.\<close>

fun handle_of :: "'a fc_sched \<Rightarrow> nat option" where
  "handle_of (Call i c) = Some i"
| "handle_of (RunP i) = Some i"
| "handle_of _ = None"

lemma fc_exec_untouched:
  "fc_exec s evs as = Some (evs', t) \<Longrightarrow> \<forall>a \<in> set as. handle_of a \<noteq> Some i \<Longrightarrow> fcs_prods t i = fcs_prods s i"
proof (induction as arbitrary: s evs)
  case (Cons a as)
  then obtain ev s1 where 1: "fc_exec1 s a = Some (ev, s1)" "fc_exec s1 (evs @ [ev]) as = Some (evs', t)" by (auto split: option.split_asm)
  then have "fcs_prods s1 i = fcs_prods s i"
    using Cons.prems(2) by (cases a) (auto split: outcome.split_asm fc_scan.split_asm if_split_asm)
  then show ?case using Cons.IH [OF 1(2)] Cons.prems(2) by simp
qed simp

text \<open>
  Two handles are made at the same time, each pushes one element, and the consumer takes one while the second push is under way.
\<close>

definition two_handles :: "nat fc_sched list" where
  "two_handles = [Call 0 Make, Call 1 Make] @ concat (replicate 13 [RunP 0, RunP 1]) @ [Call 0 (Push_hard 7), Call 1 (Push_hard 8)] @
     replicate 6 (RunP 0) @ replicate 3 (RunP 1) @ [Scan 1] @ replicate 12 RunC @ replicate 3 (RunP 1)"

definition two_handles_check :: "((nat \<times> nat lq_event) list \<times> nat fc_sys) option \<Rightarrow> bool" where
  "two_handles_check r = (case r of None \<Rightarrow> False | Some (evs, s) \<Rightarrow>
     pushed_of (map snd evs) = [7, 8] \<and> popped_of (map snd evs) = [7] \<and> length (fq_heap (fcs_queue s)) = 2 \<and>
     fst (fcs_prods s 0) = Ready \<and> fst (fcs_prods s 1) = Ready \<and> fcs_cons s = Resting)"

lemma two_handles_result: "two_handles_check (fc_exec (fc_sys_new 0) [] two_handles)"
  by code_simp

lemma two_handles_run:
  obtains evs s where "fc_run (fc_sys_new (0 :: nat)) evs s" "pushed_of (map snd evs) = [7, 8]" "popped_of (map snd evs) = [7]"
    "length (fq_heap (fcs_queue s)) \<le> kQueueMaxCount" "at_rest s"
proof -
  obtain evs s where e: "fc_exec (fc_sys_new 0) [] two_handles = Some (evs, s)" "pushed_of (map snd evs) = [7, 8]" "popped_of (map snd evs) = [7]"
    "length (fq_heap (fcs_queue s)) = 2" "fst (fcs_prods s 0) = Ready" "fst (fcs_prods s 1) = Ready" "fcs_cons s = Resting"
    using two_handles_result by (auto simp: two_handles_check_def split: option.split_asm)
  have "fst (fcs_prods s i) = Absent" if "i \<noteq> 0" "i \<noteq> 1" for i
    using that fc_exec_untouched [OF e(1), of i] by (simp add: two_handles_def fc_sys_new_def)
  then have "at_rest s" using e(5-7) unfolding at_rest_def by metis
  then show thesis using that fc_exec_run [OF e(1) fc_run_nil] e by (simp add: kQueueMaxCount_def)
qed

section \<open>Properties\<close>

text \<open>
  C6 (safety). Any number of producer threads with a handle each and one consumer, in every interleaving of their accesses, as long as at most
  \<open>kQueueMaxCount\<close> rings have been created: every step is defined (no null or dangling pointer, no index out of range); no two handles ever own the same
  ring; at every moment the elements whose push into a ring has returned are those whose pop from it has returned followed by what the ring holds,
  at most 32; so over all rings nothing is lost, duplicated or made up, and each ring is FIFO.
\<close>

theorem fc_safe:
  assumes "fc_run (fc_sys_new null) evs s" "length (fq_heap (fcs_queue s)) \<le> kQueueMaxCount"
  shows "(\<forall>i. fc_prod (fcs_queue s) (fcs_prods s i) \<noteq> Undefined) \<and> fc_cons (fcs_queue s) (fcs_cons s) \<noteq> Undefined \<and>
    (\<forall>i j p. owns (fcs_prods s i) = Some p \<and> owns (fcs_prods s j) = Some p \<longrightarrow> i = j) \<and>
    (\<forall>p < length (fq_heap (fcs_queue s)). pushed_at p evs = popped_at p evs @ fq_view (fcs_queue s) ! p \<and>
       length (fq_view (fcs_queue s) ! p) \<le> kLocalQueueSize) \<and>
    mset (pushed_of (map snd evs)) = mset (popped_of (map snd evs)) + mset (concat (fq_view (fcs_queue s)))"
proof -
  have inv: "fc_inv evs s" using fc_run_keeps [OF assms(1) fc_inv_new assms(2)] .
  have "fc_prod (fcs_queue s) (fcs_prods s i) \<noteq> Undefined" for i using prod_keeps [OF inv, of i] by (auto simp: prod_promise_def)
  moreover have "fc_cons (fcs_queue s) (fcs_cons s) \<noteq> Undefined" using cons_keeps [OF inv] by auto
  moreover have "sole_owners (fcs_prods s)" using inv by (simp add: fc_inv_def)
  ultimately show ?thesis using inv_contents(1) [OF inv] inv_conserves [OF inv] unfolding sole_owners_def by blast
qed

theorem fc_safe_witness:
  "\<exists>evs s. fc_run (fc_sys_new (0 :: nat)) evs s \<and> {#7, 8#} = {#7#} + mset (concat (fq_view (fcs_queue s)))"
proof -
  obtain evs s where r: "fc_run (fc_sys_new (0 :: nat)) evs s" "pushed_of (map snd evs) = [7, 8]" "popped_of (map snd evs) = [7]"
    "length (fq_heap (fcs_queue s)) \<le> kQueueMaxCount" by (rule two_handles_run)
  from fc_safe [OF r(1,4)] have "mset (pushed_of (map snd evs)) = mset (popped_of (map snd evs)) + mset (concat (fq_view (fcs_queue s)))" by blast
  then show ?thesis using r(1-3) by auto
qed

text \<open>
  C7 (refinement). Whenever no call is under way, however the calls before have interleaved, the queue is in a state of the sequential
  model with its invariant: a \<open>pop_hard\<close> from any start index then fails only if every element whose push has returned has been popped too.
\<close>

theorem fc_at_rest:
  assumes "fc_run (fc_sys_new null) evs s" "length (fq_heap (fcs_queue s)) \<le> kQueueMaxCount" "at_rest s"
    and "middle < max 1 (length (fq_heap (fcs_queue s)))"
  shows "fq_wf (fcs_queue s) \<and> (\<exists>r q'. fq_pop_hard (fcs_queue s) middle = Value (r, q') \<and>
    (r = None \<longleftrightarrow> mset (pushed_of (map snd evs)) = mset (popped_of (map snd evs))))"
proof -
  have inv: "fc_inv evs s" using fc_run_keeps [OF assms(1) fc_inv_new assms(2)] .
  have "claimed_ok (fc_sys_new null)" by (simp add: claimed_ok_def fc_sys_new_def fq_new_def sq_new_def)
  then have wf: "fq_wf (fcs_queue s)" using at_rest_wf [OF inv claimed_run [OF assms(1) fc_inv_new _ assms(2)] assms(3)] by blast
  from fq_pop_hard_result [OF wf assms(2,4)] obtain r q' where
    q': "fq_pop_hard (fcs_queue s) middle = Value (r, q')" "scan_result {..<length (fq_heap (fcs_queue s))} (fq_view (fcs_queue s)) r (fq_view q')"
    by blast
  have "r = None \<longleftrightarrow> mset (concat (fq_view (fcs_queue s))) = {#}"
    using q'(2) scan_result_mset by (cases r) (force simp: scan_result_def in_set_conv_nth)+
  then show ?thesis using wf q'(1) inv_conserves [OF inv] by simp
qed

theorem fc_at_rest_witness:
  "\<exists>evs s. fc_run (fc_sys_new (0 :: nat)) evs s \<and> (\<exists>x q'. fq_pop_hard (fcs_queue s) 0 = Value (Some x, q'))"
proof -
  obtain evs s where r: "fc_run (fc_sys_new (0 :: nat)) evs s" "pushed_of (map snd evs) = [7, 8]" "popped_of (map snd evs) = [7]"
    "length (fq_heap (fcs_queue s)) \<le> kQueueMaxCount" "at_rest s" by (rule two_handles_run)
  have "0 < max 1 (length (fq_heap (fcs_queue s)))" by simp
  from fc_at_rest [OF r(1,4,5) this] r(2,3) obtain x q' where "fq_pop_hard (fcs_queue s) 0 = Value (Some x, q')" by (force simp: add_mset_eq_single)
  then show ?thesis using r(1) by blast
qed

text \<open>
  C8 (liveness). The handles are wait-free: every call of the constructor, of \<open>push\<close>, of \<open>push_hard\<close> and of the destructor returns after at most 199 steps of its
  thread, whatever the other threads do in between, and it is never stuck before.
\<close>

theorem fc_wait_free:
  assumes "fc_run (fc_sys_new null) evs s" "fc_begin c (fcs_prods s i) = Some th"
    "own_steps i n (s\<lparr>fcs_prods := (fcs_prods s)(i := th)\<rparr>) t" "length (fq_heap (fcs_queue t)) \<le> kQueueMaxCount"
  shows "n \<le> 199 \<and> (n = 199 \<longrightarrow> fst (fcs_prods t i) = Absent \<or> fst (fcs_prods t i) = Ready) \<and>
    (\<exists>ev q th'. fc_prod (fcs_queue t) (fcs_prods t i) = Value (ev, q, th'))"
proof -
  have "fc_left th \<le> 199" using begin_left assms(2) by (metis surj_pair)
  then have l: "n + fc_left (fcs_prods t i) \<le> 199" using own_steps_left [OF assms(3)] by simp
  from own_steps_run [OF assms(3) fc_run_snoc [OF assms(1) begin_call [OF assms(2)]]] obtain evs' where
    r: "fc_run (fc_sys_new null) evs' t" by blast
  have "fc_inv evs' t" using fc_run_keeps [OF r fc_inv_new assms(4)] .
  then have "\<exists>ev q th'. fc_prod (fcs_queue t) (fcs_prods t i) = Value (ev, q, th')" using prod_keeps [of evs' t i] unfolding prod_promise_def by blast
  moreover have "n \<le> 199" "n = 199 \<Longrightarrow> fc_left (fcs_prods t i) = 0" using l by simp_all
  ultimately show ?thesis using fc_left_0 [of "fcs_prods t i"] by blast
qed

theorem fc_wait_free_witness:
  "\<exists>t :: nat fc_sys. own_steps 0 1 ((fc_sys_new 0)\<lparr>fcs_prods := (fcs_prods (fc_sys_new 0))(0 := (Applying 9 Construct, \<lparr>ph_token = 0, ph_local = None\<rparr>))\<rparr>) t \<and>
    (\<exists>ev q th'. fc_prod (fcs_queue t) (fcs_prods t 0) = Value (ev, q, th'))"
proof -
  let ?th = "(Applying 9 Construct, \<lparr>ph_token = 0, ph_local = None\<rparr>) :: nat producer"
  let ?s = "(fc_sys_new 0)\<lparr>fcs_prods := (fcs_prods (fc_sys_new 0))(0 := ?th)\<rparr> :: nat fc_sys"
  have b: "fc_begin Make (fcs_prods (fc_sys_new 0) 0) = Some ?th" by (simp add: fc_sys_new_def kProducerRetry_def)
  have p: "fc_prod (fcs_queue ?s) (fcs_prods ?s 0) = Value (fc_silent, fcs_queue ?s, (Applying 8 Construct, \<lparr>ph_token = 0, ph_local = None\<rparr>))"
    by (simp add: fc_sys_new_def fq_new_def sq_pop_def sq_new_def apply_failed_def)
  let ?t = "?s\<lparr>fcs_queue := fcs_queue ?s, fcs_prods := (fcs_prods ?s)(0 := (Applying 8 Construct, \<lparr>ph_token = 0, ph_local = None\<rparr>))\<rparr>"
  have o: "own_steps 0 1 ?s ?t" using own_mine [OF own_nil, of ?s 0, OF _ _ p] by simp
  have "length (fq_heap (fcs_queue ?t)) \<le> kQueueMaxCount" by (simp add: fc_sys_new_def)
  from fc_wait_free [OF fc_run_nil b o this] have "\<exists>ev q th'. fc_prod (fcs_queue ?t) (fcs_prods ?t 0) = Value (ev, q, th')" by blast
  with o show ?thesis by blast
qed

end
