(* ===== verification/Fast_Queue_Alone.thy ===== *)
theory Fast_Queue_Alone
  imports Fast_Queue_Conc
begin

text \<open>
  The steps of \<open>Fast_Queue_Conc\<close> that one handle takes without interference amount to the operations of \<open>Fast_Queue\<close>: the same
  answer, the same queue and the same handle.
\<close>

section \<open>Undisturbed steps\<close>

inductive fc_alone :: "'a fast_queue \<Rightarrow> 'a producer \<Rightarrow> (nat \<times> 'a lq_event) list \<Rightarrow> 'a fast_queue \<Rightarrow> 'a producer \<Rightarrow> bool" where
  alone_nil: "fc_alone q th [] q th"
| alone_step: "fc_prod q th = Value (ev, q1, th1) \<Longrightarrow> fc_alone q1 th1 evs q' th' \<Longrightarrow> fc_alone q th (ev # evs) q' th'"

lemma alone_trans: "fc_alone q th evs q1 th1 \<Longrightarrow> fc_alone q1 th1 evs' q2 th2 \<Longrightarrow> fc_alone q th (evs @ evs') q2 th2"
  by (induction rule: fc_alone.induct) (auto intro: alone_step)

text \<open>Steps whose events push the elements \<open>xs\<close>.\<close>

definition quiet_run :: "'a list \<Rightarrow> 'a fast_queue \<Rightarrow> 'a producer \<Rightarrow> 'a fast_queue \<Rightarrow> 'a producer \<Rightarrow> bool" where
  "quiet_run xs q th q' th' \<longleftrightarrow> (\<exists>evs. fc_alone q th evs q' th' \<and> pushed_of (map snd evs) = xs)"

lemma quiet_nil: "quiet_run [] q th q th"
  using alone_nil by (fastforce simp: quiet_run_def)

lemma quiet_trans: "quiet_run xs q th q1 th1 \<Longrightarrow> quiet_run ys q1 th1 q2 th2 \<Longrightarrow> quiet_run (xs @ ys) q th q2 th2"
  unfolding quiet_run_def using alone_trans by (metis map_append pushed_of_append)

lemma quiet_silent: "fc_prod q th = Value (fc_silent, q1, th1) \<Longrightarrow> quiet_run xs q1 th1 q2 th2 \<Longrightarrow> quiet_run xs q th q2 th2"
  unfolding quiet_run_def by (metis alone_step list.simps(9) prod.sel(2) pushed_of.simps(3) fc_silent_def)

lemma quiet_one: "fc_prod q th = Value (fc_silent, q1, th1) \<Longrightarrow> quiet_run [] q th q1 th1"
  using quiet_silent quiet_nil by metis

section \<open>The list of queues\<close>

lemma create_steps:
  assumes "ps_shape (fq_QueueList q)" "fq_create_queue q = (r, q')"
  shows "ps_shape (fq_QueueList q')"
    "case r of None \<Rightarrow> \<exists>slot p. fc_claim q = (False, slot, p, q')
     | Some t \<Rightarrow> \<exists>p q1 q2. fc_claim q = (True, t, p, q1) \<and> fc_install t q1 = Value q2 \<and> fc_store t p q2 = Value q'"
proof -
  let ?L = "fq_QueueList q" and ?n = "length (fq_heap q)"
  define slot where "slot = sint (ps_end ?L)"
  define q1 where "q1 = q\<lparr>fq_QueueList := ?L\<lparr>ps_end := ps_end ?L + 1\<rparr>, fq_heap := fq_heap q @ [lq_new (fq_null q) kLocalQueueSize]\<rparr>"
  have sh: "0 < ps_unit ?L" "ps_max_size ?L < 2 ^ 31" using assms(1) by (simp_all add: ps_shape_def)
  have c: "fc_claim q = (size_t_of_int slot < ps_max_size ?L, slot, ?n, q1)" by (simp add: fc_claim_def Let_def slot_def q1_def)
  have "ps_shape (fq_QueueList q') \<and> (case r of None \<Rightarrow> \<exists>slot p. fc_claim q = (False, slot, p, q')
     | Some t \<Rightarrow> \<exists>p q1 q2. fc_claim q = (True, t, p, q1) \<and> fc_install t q1 = Value q2 \<and> fc_store t p q2 = Value q')"
  proof (cases "size_t_of_int slot < ps_max_size ?L")
    case False
    then have "r = None" "q' = q1" using assms(2) by (auto simp: fq_create_queue_def up_push_def Let_def slot_def q1_def)
    then show ?thesis using c False assms(1) by (simp add: q1_def)
  next
    case True
    have "0 \<le> slot"
    proof (rule ccontr)
      assume "\<not> 0 \<le> slot"
      moreover have "- (2 ^ 31) \<le> slot" using sint_ge [of "ps_end ?L"] by (simp add: slot_def)
      ultimately have "2 ^ 63 \<le> slot mod 2 ^ 64" using mod_pos_pos_trivial [of "slot + 2 ^ 64" "2 ^ 64"] by simp
      then show False using True sh(2) by (simp add: size_t_of_int_def)
    qed
    moreover have "slot < 2 ^ 31" using sint_less [of "ps_end ?L"] by (simp add: slot_def)
    ultimately have st: "size_t_of_int slot = nat slot" by simp
    let ?m = "nat slot div ps_unit ?L"
    define k where "k = nat slot - ?m * ps_unit ?L"
    have m: "?m < length (ps_stacks ?L)" using ps_slot_in_range [OF assms(1), of "nat slot"] True st by simp
    define cells where "cells = (case ps_stacks ?L ! ?m of None \<Rightarrow> replicate (ps_unit ?L) None | Some cells \<Rightarrow> cells)"
    have len: "length cells = ps_unit ?L" using assms(1) m by (auto simp: cells_def ps_shape_def split: option.split) (metis nth_mem)
    have k: "k < ps_unit ?L" using sh(1) by (simp add: k_def minus_div_mult_eq_mod)
    have "int (nat slot) - int (?m * ps_unit ?L) = int k" unfolding k_def by (rule of_nat_diff [symmetric]) simp
    then have sub: "slot - int ?m * int (ps_unit ?L) = int k" using \<open>0 \<le> slot\<close> by simp
    let ?L' = "?L\<lparr>ps_end := ps_end ?L + 1, ps_stacks := (ps_stacks ?L)[?m := Some (cells[k := Some ?n])]\<rparr>"
    have q': "r = Some slot" "q' = q1\<lparr>fq_QueueList := ?L'\<rparr>"
      using assms(2) True st \<open>0 \<le> slot\<close> by (auto simp: fq_create_queue_def up_push_def Let_def slot_def [symmetric] q1_def cells_def k_def cong: option.case_cong)
    define q2 where "q2 = q1\<lparr>fq_QueueList := (fq_QueueList q1)\<lparr>ps_stacks := (ps_stacks ?L)[?m := Some cells]\<rparr>\<rparr>"
    have i: "fc_install slot q1 = Value q2" using st m by (simp add: fc_install_def Let_def q2_def q1_def cells_def cong: option.case_cong)
    have "fc_store slot ?n q2 = Value q'" using st m k len sub unfolding q'(2) by (simp add: fc_store_def Let_def q2_def q1_def)
    moreover have "length c = ps_unit ?L" if "Some c \<in> set ((ps_stacks ?L)[?m := Some (cells[k := Some ?n])])" for c
      using set_update_subset_insert [THEN subsetD, OF that] assms(1) len by (auto simp: ps_shape_def)
    then have "ps_shape (fq_QueueList q')" using assms(1) unfolding q'(2) ps_shape_def by simp
    ultimately show ?thesis using c True q'(1) i by auto
  qed
  then show "ps_shape (fq_QueueList q')"
    "case r of None \<Rightarrow> \<exists>slot p. fc_claim q = (False, slot, p, q')
     | Some t \<Rightarrow> \<exists>p q1 q2. fc_claim q = (True, t, p, q1) \<and> fc_install t q1 = Value q2 \<and> fc_store t p q2 = Value q'" by blast+
qed

section \<open>Acquiring a ring\<close>

lemma apply_attempt:
  assumes "ph_apply (q, h) = Value (ok, (q', h'))"
  shows "quiet_run [] q (Applying r g, h) q' (if ok then fc_settle g h' else apply_failed r g h')" "fq_QueueList q' = fq_QueueList q"
proof -
  obtain t f where f: "sq_pop (fq_FreeList q) = Value (t, f)" using assms by (cases "sq_pop (fq_FreeList q)") (auto simp: ph_apply_def)
  let ?q = "q\<lparr>fq_FreeList := f\<rparr>"
  have "quiet_run [] q (Applying r g, h) q' (if ok then fc_settle g h' else apply_failed r g h') \<and> fq_QueueList q' = fq_QueueList q"
  proof (cases t)
    case None
    then show ?thesis using f assms by (auto simp: ph_apply_def intro: quiet_one)
  next
    case (Some t)
    let ?h = "h\<lparr>ph_token := t\<rparr>"
    obtain o' where g: "up_get (fq_QueueList q) t = Value o'" using assms f Some by (cases "up_get (fq_QueueList q) t") (auto simp: ph_apply_def Let_def)
    have h: "?h\<lparr>ph_local := l\<rparr> = \<lparr>ph_token = t, ph_local = l\<rparr>" for l by (cases h) simp
    have 1: "fc_prod q (Applying r g, h) = Value (fc_silent, ?q, (Applied r g, ?h))" using f Some by simp
    define th where "th = (case o' of None \<Rightarrow> apply_failed r g (?h\<lparr>ph_local := None\<rparr>) | Some local \<Rightarrow> fc_settle g (?h\<lparr>ph_local := local\<rparr>))"
    have 2: "fc_prod ?q (Applied r g, ?h) = Value (fc_silent, ?q, th)" using g by (simp add: th_def)
    have "q' = ?q" "th = (if ok then fc_settle g h' else apply_failed r g h')"
      using assms f Some g unfolding th_def h by (cases o'; auto simp: ph_apply_def Let_def)+
    then show ?thesis using quiet_silent [OF 1 quiet_one [OF 2]] by simp
  qed
  then show "quiet_run [] q (Applying r g, h) q' (if ok then fc_settle g h' else apply_failed r g h')" "fq_QueueList q' = fq_QueueList q" by blast+
qed

lemma preempt_attempt:
  assumes "ps_shape (fq_QueueList q)" "ph_preempt (q, h) = Value (ok, (q', h'))"
  shows "quiet_run [] q (Claiming r g, h) q' (if ok then fc_settle g h' else preempt_failed r g h')" "ps_shape (fq_QueueList q')"
proof -
  obtain t q1 where c: "fq_create_queue q = (t, q1)" by fastforce
  note s = create_steps [OF assms(1) c]
  have "quiet_run [] q (Claiming r g, h) q' (if ok then fc_settle g h' else preempt_failed r g h') \<and> ps_shape (fq_QueueList q')"
  proof (cases t)
    case None
    then obtain slot p where "fc_claim q = (False, slot, p, q1)" using s(2) by auto
    then show ?thesis using None c assms(2) s(1) by (auto simp: ph_preempt_def intro: quiet_one)
  next
    case (Some t)
    then obtain p q2 q3 where a: "fc_claim q = (True, t, p, q2)" "fc_install t q2 = Value q3" "fc_store t p q3 = Value q1" using s(2) by auto
    let ?h = "h\<lparr>ph_token := t\<rparr>"
    obtain o' where g: "up_get (fq_QueueList q1) t = Value o'" using assms(2) c Some by (cases "up_get (fq_QueueList q1) t") (auto simp: ph_preempt_def)
    have h: "?h\<lparr>ph_local := l\<rparr> = \<lparr>ph_token = t, ph_local = l\<rparr>" for l by (cases h) simp
    have 1: "fc_prod q (Claiming r g, h) = Value (fc_silent, q2, (Installing t p r g, h))" using a(1) by simp
    have 2: "fc_prod q2 (Installing t p r g, h) = Value (fc_silent, q3, (Storing t p r g, h))" using a(2) by simp
    have 3: "fc_prod q3 (Storing t p r g, h) = Value (fc_silent, q1, (Preempted r g, ?h))" using a(3) by simp
    define th where "th = (case o' of None \<Rightarrow> preempt_failed r g (?h\<lparr>ph_local := None\<rparr>) | Some local \<Rightarrow> fc_settle g (?h\<lparr>ph_local := local\<rparr>))"
    have 4: "fc_prod q1 (Preempted r g, ?h) = Value (fc_silent, q1, th)" using g by (simp add: th_def)
    have "q' = q1" "th = (if ok then fc_settle g h' else preempt_failed r g h')"
      using assms(2) c Some g unfolding th_def h by (cases o'; auto simp: ph_preempt_def)+
    then show ?thesis using quiet_silent [OF 1 quiet_silent [OF 2 quiet_silent [OF 3 quiet_one [OF 4]]]] s(1) by simp
  qed
  then show "quiet_run [] q (Claiming r g, h) q' (if ok then fc_settle g h' else preempt_failed r g h')" "ps_shape (fq_QueueList q')" by blast+
qed

lemma apply_loop:
  "retry ph_apply (Suc (Suc n)) (q, h) = Value (k, (q', h')) \<Longrightarrow>
    quiet_run [] q (Applying (Suc n) g, h) q' (if k = 0 then (Claiming (kProducerRetry - 1) g, h') else fc_settle g h') \<and> fq_QueueList q' = fq_QueueList q"
proof (induction n arbitrary: q h)
  case 0
  then obtain ok q1 h1 where a: "ph_apply (q, h) = Value (ok, (q1, h1))" by (cases "ph_apply (q, h)") auto
  note s = apply_attempt(1) [OF a, where r = "Suc 0" and g = g] apply_attempt(2) [OF a]
  show ?case using s 0 a by (cases ok) (auto simp: apply_failed_def)
next
  case (Suc n)
  obtain ok q1 h1 where a: "ph_apply (q, h) = Value (ok, (q1, h1))" using Suc.prems by (cases "ph_apply (q, h)") auto
  note s = apply_attempt(1) [OF a, where r = "Suc (Suc n)" and g = g] apply_attempt(2) [OF a]
  show ?case
  proof (cases ok)
    case True
    then show ?thesis using s Suc.prems a by auto
  next
    case False
    then have "retry ph_apply (Suc (Suc n)) (q1, h1) = Value (k, (q', h'))" using Suc.prems a by simp
    note IH = Suc.IH [OF this]
    have "quiet_run [] q (Applying (Suc (Suc n)) g, h) q1 (Applying (Suc n) g, h1)" using s(1) False by (simp add: apply_failed_def)
    from quiet_trans [OF this conjunct1 [OF IH]] show ?thesis using IH s(2) by simp
  qed
qed

lemma preempt_loop:
  "ps_shape (fq_QueueList q) \<Longrightarrow> retry ph_preempt (Suc (Suc n)) (q, h) = Value (k, (q', h')) \<Longrightarrow>
    quiet_run [] q (Claiming (Suc n) g, h) q' (fc_settle g h') \<and> ps_shape (fq_QueueList q')"
proof (induction n arbitrary: q h)
  case 0
  then obtain ok q1 h1 where a: "ph_preempt (q, h) = Value (ok, (q1, h1))" by (cases "ph_preempt (q, h)") auto
  note s = preempt_attempt(1) [OF 0(1) a, where r = "Suc 0" and g = g] preempt_attempt(2) [OF 0(1) a]
  show ?case using s 0 a by (cases ok) (auto simp: preempt_failed_def)
next
  case (Suc n)
  obtain ok q1 h1 where a: "ph_preempt (q, h) = Value (ok, (q1, h1))" using Suc.prems by (cases "ph_preempt (q, h)") auto
  note s = preempt_attempt(1) [OF Suc.prems(1) a, where r = "Suc (Suc n)" and g = g] preempt_attempt(2) [OF Suc.prems(1) a]
  show ?case
  proof (cases ok)
    case True
    then show ?thesis using s Suc.prems a by auto
  next
    case False
    then have "retry ph_preempt (Suc (Suc n)) (q1, h1) = Value (k, (q', h'))" using Suc.prems a by simp
    note IH = Suc.IH [OF s(2) this]
    have "quiet_run [] q (Claiming (Suc (Suc n)) g, h) q1 (Claiming (Suc n) g, h1)" using s(1) False by (simp add: preempt_failed_def)
    from quiet_trans [OF this conjunct1 [OF IH]] show ?thesis using IH by simp
  qed
qed

lemma acquire_steps:
  assumes "ps_shape (fq_QueueList q)" "ph_acquire (q, h) = Value (q', h')"
  shows "quiet_run [] q (Applying (kProducerRetry - 1) g, h) q' (fc_settle g h') \<and> ps_shape (fq_QueueList q')"
proof -
  have K: "kProducerRetry = Suc (Suc 8)" by (simp add: kProducerRetry_def)
  obtain k q1 h1 where a: "retry ph_apply kProducerRetry (q, h) = Value (k, (q1, h1))"
    using assms(2) by (cases "retry ph_apply kProducerRetry (q, h)") (auto simp: ph_acquire_def)
  note s = apply_loop [OF a [unfolded K], of g]
  show ?thesis
  proof (cases "k = 0")
    case True
    then obtain k' where "retry ph_preempt kProducerRetry (q1, h1) = Value (k', (q', h'))"
      using assms(2) a by (cases "retry ph_preempt kProducerRetry (q1, h1)") (auto simp: ph_acquire_def)
    then have "quiet_run [] q1 (Claiming (kProducerRetry - 1) g, h1) q' (fc_settle g h') \<and> ps_shape (fq_QueueList q')"
      using preempt_loop [of q1 8 h1 k' q' h' g] s assms(1) by (simp add: K)
    moreover have "quiet_run [] q (Applying (kProducerRetry - 1) g, h) q1 (Claiming (kProducerRetry - 1) g, h1)" using s True by (simp add: K)
    ultimately show ?thesis using quiet_trans [of "[]" q _ q1 _ "[]"] by auto
  next
    case False
    then have "q1 = q'" "h1 = h'" using assms(2) a by (auto simp: ph_acquire_def)
    then show ?thesis using s False assms(1) by (simp add: K)
  qed
qed

section \<open>Pushing\<close>

lemma lq_next_inside: "lq_next lq pc = (ev, lq', pc') \<Longrightarrow> pc \<noteq> LqIdle \<Longrightarrow> pc' \<noteq> LqIdle \<Longrightarrow> pushed_of [ev] = []"
  by (cases pc) auto

lemma ring_alone:
  "lq_finish n lq pc = (ev, lq', LqIdle) \<Longrightarrow> pc \<noteq> LqIdle \<Longrightarrow> ph_local h = Some p \<Longrightarrow> p < length (fq_heap q) \<Longrightarrow> fq_heap q ! p = lq \<Longrightarrow>
    quiet_run (pushed_of [ev]) q (Pushing r again x pc, h) (q\<lparr>fq_heap := (fq_heap q)[p := lq']\<rparr>)
      (if ev = PushFailedEv then push_failed r again x else Ready, h)"
proof (induction n arbitrary: lq pc q)
  case (Suc n)
  obtain ev1 lq1 pc1 where n: "lq_next lq pc = (ev1, lq1, pc1)" by (metis surj_pair)
  let ?q = "q\<lparr>fq_heap := (fq_heap q)[p := lq1]\<rparr>"
  have a: "ring_access (\<lambda>lq. lq_start_push lq x) (ph_local h) pc q = Value ((p, ev1), ?q, pc1)"
    using Suc.prems n by (simp add: ring_access_def)
  show ?case
  proof (cases "pc1 = LqIdle")
    case True
    then have "ev1 = ev" "lq1 = lq'" using Suc.prems(1) n by auto
    then have "fc_prod q (Pushing r again x pc, h) =
      Value ((p, ev), q\<lparr>fq_heap := (fq_heap q)[p := lq']\<rparr>, (if ev = PushFailedEv then push_failed r again x else Ready, h))"
      using a True by simp
    then show ?thesis unfolding quiet_run_def using alone_step [OF _ alone_nil] by (metis list.simps(8,9) prod.sel(2))
  next
    case False
    then have p: "fc_prod q (Pushing r again x pc, h) = Value ((p, ev1), ?q, (Pushing r again x pc1, h))" using a by simp
    have "quiet_run (pushed_of [ev]) ?q (Pushing r again x pc1, h) (?q\<lparr>fq_heap := (fq_heap ?q)[p := lq']\<rparr>)
      (if ev = PushFailedEv then push_failed r again x else Ready, h)"
      using Suc.prems False n by (intro Suc.IH [of lq1]) auto
    then obtain evs where "fc_alone ?q (Pushing r again x pc1, h) evs (q\<lparr>fq_heap := (fq_heap q)[p := lq']\<rparr>)
      (if ev = PushFailedEv then push_failed r again x else Ready, h)" "pushed_of (map snd evs) = pushed_of [ev]" by (auto simp: quiet_run_def)
    then show ?thesis using alone_step [OF p] lq_next_inside [OF n Suc.prems(2) False] pushed_of_append [of "[ev1]" "map snd evs"]
      unfolding quiet_run_def by (intro exI [of _ "(p, ev1) # evs"]) simp
  qed
qed simp

lemma push_attempt:
  assumes "ph_push x (q, h) = Value (ok, (q', h'))" "ph_local h = Some p"
  shows "quiet_run (if ok then [x] else []) q (Pushing r again x LqIdle, h) q' (if ok then Ready else push_failed r again x, h)" "h' = h"
    "fq_QueueList q' = fq_QueueList q"
proof -
  obtain lq where lq: "vec_get (fq_heap q) (int p) = Value lq" using assms by (cases "vec_get (fq_heap q) (int p)") (auto simp: ph_push_def fq_local_push_def)
  then have p: "p < length (fq_heap q)" "lq = fq_heap q ! p" by (auto simp: vec_get_def split: if_split_asm)
  obtain lq' where l: "lq_push lq x = (ok, lq')" "q' = q\<lparr>fq_heap := (fq_heap q)[p := lq']\<rparr>" "h' = h"
    using assms lq by (cases "lq_push lq x") (auto simp: ph_push_def fq_local_push_def)
  then show "h' = h" "fq_QueueList q' = fq_QueueList q" by simp_all
  have f: "lq_finish 5 lq (lq_start_push lq x) = (if ok then PushedEv x else PushFailedEv, lq', LqIdle)" using lq_finish_push [of lq x] l(1) by simp
  have ne: "lq_start_push lq x \<noteq> LqIdle" by (simp add: lq_start_push_def)
  have first: "fc_prod q (Pushing r again x LqIdle, h) = Value ((p, Tau), q, (Pushing r again x (lq_start_push lq x), h))"
    using assms(2) lq ne by (simp add: ring_access_def)
  from ring_alone [OF f ne assms(2) p(1) p(2) [symmetric], of r again x] obtain evs where
    e: "fc_alone q (Pushing r again x (lq_start_push lq x), h) evs q' (if ok then Ready else push_failed r again x, h)"
      "pushed_of (map snd evs) = (if ok then [x] else [])" by (auto simp: quiet_run_def l(2) split: if_split_asm)
  show "quiet_run (if ok then [x] else []) q (Pushing r again x LqIdle, h) q' (if ok then Ready else push_failed r again x, h)"
    unfolding quiet_run_def using alone_step [OF first e(1)] e(2) by (intro exI [of _ "(p, Tau) # evs"]) simp
qed

lemma push_loop:
  "retry (ph_push x) (Suc (Suc n)) (q, h) = Value (k, (q', h')) \<Longrightarrow> ph_local h = Some p \<Longrightarrow>
    quiet_run (if k = 0 then [] else [x]) q (Pushing (Suc n) again x LqIdle, h) q' (if k \<noteq> 0 \<or> again then Ready else Releasing x, h) \<and>
    h' = h \<and> fq_QueueList q' = fq_QueueList q"
proof (induction n arbitrary: q)
  case 0
  then obtain ok q1 h1 where a: "ph_push x (q, h) = Value (ok, (q1, h1))" by (cases "ph_push x (q, h)") auto
  note s = push_attempt(1) [OF a 0(2), where r = "Suc 0" and again = again] push_attempt(2,3) [OF a 0(2)]
  show ?case using s 0 a by (cases ok) (auto simp: push_failed_def)
next
  case (Suc n)
  obtain ok q1 h1 where a: "ph_push x (q, h) = Value (ok, (q1, h1))" using Suc.prems by (cases "ph_push x (q, h)") auto
  note s = push_attempt(1) [OF a Suc.prems(2), where r = "Suc (Suc n)" and again = again] push_attempt(2,3) [OF a Suc.prems(2)]
  show ?case
  proof (cases ok)
    case True
    then show ?thesis using s Suc.prems a by auto
  next
    case False
    then have "retry (ph_push x) (Suc (Suc n)) (q1, h) = Value (k, (q', h'))" using Suc.prems a s(2) by simp
    note IH = Suc.IH [OF this Suc.prems(2)]
    have "quiet_run [] q (Pushing (Suc (Suc n)) again x LqIdle, h) q1 (Pushing (Suc n) again x LqIdle, h)" using s(1) False by (simp add: push_failed_def)
    from quiet_trans [OF this conjunct1 [OF IH]] show ?thesis using IH s(3) by simp
  qed
qed

section \<open>The operations\<close>

lemma release_step:
  assumes "ph_release (q, h) = Value (q', h')"
  shows "quiet_run [] q (Releasing x, h) q' (Claiming (kProducerRetry - 1) (Second x), h)" "h' = h" "fq_QueueList q' = fq_QueueList q"
proof -
  obtain b f where f: "sq_push (fq_FreeList q) (ph_token h) = Value (b, f)" using assms by (cases "sq_push (fq_FreeList q) (ph_token h)") (auto simp: ph_release_def)
  then have "q' = q\<lparr>fq_FreeList := f\<rparr>" "h' = h" using assms by (auto simp: ph_release_def)
  then show "quiet_run [] q (Releasing x, h) q' (Claiming (kProducerRetry - 1) (Second x), h)" "h' = h" "fq_QueueList q' = fq_QueueList q"
    using f by (auto intro: quiet_one)
qed

text \<open>The part of \<open>push_hard\<close> after the ring has been acquired.\<close>

lemma push_hard_steps:
  assumes "ps_shape (fq_QueueList q)" "ph_local h = Some p" "ph_push_hard x (q, h) = Value (ok, (q', h'))"
  shows "quiet_run (if ok then [x] else []) q (Pushing (kProducerRetry - 1) False x LqIdle, h) q' (Ready, h')"
proof -
  have K: "kProducerRetry = Suc (Suc 8)" "kProducerRetry - 1 = Suc 8" by (simp_all add: kProducerRetry_def)
  obtain k q1 h1 where a: "retry (ph_push x) kProducerRetry (q, h) = Value (k, (q1, h1))"
    using assms(2,3) by (cases "retry (ph_push x) kProducerRetry (q, h)") (auto simp: ph_push_hard_def)
  note s = push_loop [OF a [unfolded K] assms(2), of False]
  then have h1: "h1 = h" by blast
  show ?thesis
  proof (cases "k = 0")
    case False
    then have "ok" "q' = q1" "h' = h" using assms(2,3) a h1 by (auto simp: ph_push_hard_def)
    then show ?thesis using s False by (simp add: K)
  next
    case True
    obtain q2 h2 where r: "ph_release (q1, h) = Value (q2, h2)"
      using assms(2,3) a True h1 by (cases "ph_release (q1, h)") (auto simp: ph_push_hard_def)
    note t = release_step [OF r]
    obtain k2 q3 h3 where b: "retry ph_preempt kProducerRetry (q2, h) = Value (k2, (q3, h3))"
      using assms(2,3) a True h1 r t(2) by (cases "retry ph_preempt kProducerRetry (q2, h)") (auto simp: ph_push_hard_def)
    have "ps_shape (fq_QueueList q2)" using assms(1) s t(3) by simp
    note u = preempt_loop [OF this b [unfolded K], of "Second x"]
    have 1: "quiet_run [] q (Pushing (Suc 8) False x LqIdle, h) q1 (Releasing x, h)" using s True by simp
    have 2: "quiet_run [] q (Pushing (Suc 8) False x LqIdle, h) q3 (fc_settle (Second x) h3)"
      using quiet_trans [OF 1 quiet_trans [OF t(1) [of x, unfolded K(2)] conjunct1 [OF u]]] by simp
    show ?thesis
    proof (cases "ph_local h3")
      case None
      then have "\<not> ok" "q' = q3" "h' = h3" using assms(2,3) a True h1 r t(2) b by (auto simp: ph_push_hard_def)
      then show ?thesis using 2 None by (simp add: K fc_settle_def)
    next
      case (Some p3)
      obtain k4 q4 h4 where d: "retry (ph_push x) kProducerRetry (q3, h3) = Value (k4, (q4, h4))"
        using assms(2,3) a True h1 r t(2) b Some by (cases "retry (ph_push x) kProducerRetry (q3, h3)") (auto simp: ph_push_hard_def)
      note v = push_loop [OF d [unfolded K] Some, of True]
      have "ok \<longleftrightarrow> k4 \<noteq> 0" "q' = q4" "h' = h3" using assms(2,3) a True h1 r t(2) b Some d v by (auto simp: ph_push_hard_def)
      moreover have "quiet_run [] q (Pushing (Suc 8) False x LqIdle, h) q3 (Pushing (Suc 8) True x LqIdle, h3)" using 2 Some by (simp add: K fc_settle_def)
      from quiet_trans [OF this conjunct1 [OF v]] have "quiet_run (if k4 = 0 then [] else [x]) q (Pushing (Suc 8) False x LqIdle, h) q4 (Ready, h3)" by simp
      ultimately show ?thesis by (cases ok) (simp_all add: K)
    qed
  qed
qed

section \<open>The consumer\<close>

inductive scan_alone :: "'a fast_queue \<Rightarrow> 'a fc_scan \<Rightarrow> (nat \<times> 'a lq_event) list \<Rightarrow> 'a fast_queue \<Rightarrow> 'a fc_scan \<Rightarrow> bool" where
  scan_nil: "scan_alone q sc [] q sc"
| scan_step: "fc_cons q sc = Value (ev, q1, sc1) \<Longrightarrow> scan_alone q1 sc1 evs q' sc' \<Longrightarrow> scan_alone q sc (ev # evs) q' sc'"

lemma scan_trans: "scan_alone q sc evs q1 sc1 \<Longrightarrow> scan_alone q1 sc1 evs' q2 sc2 \<Longrightarrow> scan_alone q sc (evs @ evs') q2 sc2"
  by (induction rule: scan_alone.induct) (auto intro: scan_step)

text \<open>Steps whose events pop what \<open>r\<close> says.\<close>

definition scan_run :: "'a option \<Rightarrow> 'a fast_queue \<Rightarrow> 'a fc_scan \<Rightarrow> 'a fast_queue \<Rightarrow> 'a fc_scan \<Rightarrow> bool" where
  "scan_run r q sc q' sc' \<longleftrightarrow> (\<exists>evs. scan_alone q sc evs q' sc' \<and> popped_of (map snd evs) = (case r of None \<Rightarrow> [] | Some x \<Rightarrow> [x]))"

lemma scan_run_nil: "scan_run None q sc q sc"
  using scan_nil by (fastforce simp: scan_run_def)

lemma scan_run_trans: "scan_run None q sc q1 sc1 \<Longrightarrow> scan_run r q1 sc1 q2 sc2 \<Longrightarrow> scan_run r q sc q2 sc2"
  unfolding scan_run_def using scan_trans by (metis append_Nil map_append option.simps(4) popped_of_append)

lemma scan_run_step:
  assumes "fc_cons q sc = Value ((p, ev), q1, sc1)" "popped_of [ev] = []" "scan_run r q1 sc1 q2 sc2"
  shows "scan_run r q sc q2 sc2"
proof -
  from assms(3) obtain evs where e: "scan_alone q1 sc1 evs q2 sc2" "popped_of (map snd evs) = (case r of None \<Rightarrow> [] | Some x \<Rightarrow> [x])"
    by (auto simp: scan_run_def)
  then show ?thesis using scan_step [OF assms(1) e(1)] popped_of_append [of "[ev]" "map snd evs"] assms(2)
    unfolding scan_run_def by (intro exI [of _ "(p, ev) # evs"]) simp
qed

lemma scan_run_silent: "fc_cons q sc = Value (fc_silent, q1, sc1) \<Longrightarrow> scan_run r q1 sc1 q2 sc2 \<Longrightarrow> scan_run r q sc q2 sc2"
  using scan_run_step [of q sc 0 Tau] by (simp add: fc_silent_def)

text \<open>A pop from a ring, in either loop: \<open>K\<close> are the program points inside the ring and \<open>F\<close> the one after a failure.\<close>

definition inside_ring :: "nat \<Rightarrow> ('a lq_pc \<Rightarrow> 'a fc_scan) \<Rightarrow> 'a fc_scan \<Rightarrow> bool" where
  "inside_ring p K F \<longleftrightarrow> (\<forall>q pc. fc_cons q (K pc) = obind (ring_access lq_start_pop (Some p) pc q) (\<lambda>(ev, q, pc').
     Value (ev, q, if pc' \<noteq> LqIdle then K pc' else if snd ev = PopFailedEv then F else Resting)))"

lemma inside_loops:
  "inside_ring p (DownPop i middle approx p) (Down (i - 1) middle approx)"
  "inside_ring p (UpPop i approx p) (if i = approx - 1 then Resize i else Up (i + 1) approx)"
  by (simp_all add: inside_ring_def)

lemma lq_next_pop_inside: "lq_next lq pc = (ev, lq', pc') \<Longrightarrow> pc' \<noteq> LqIdle \<Longrightarrow> popped_of [ev] = []"
  by (cases pc) auto

lemma ring_scan:
  "inside_ring p K F \<Longrightarrow> lq_finish n lq pc = (case r of None \<Rightarrow> PopFailedEv | Some y \<Rightarrow> PoppedEv y, lq', LqIdle) \<Longrightarrow> pc \<noteq> LqIdle \<Longrightarrow>
    p < length (fq_heap q) \<Longrightarrow> fq_heap q ! p = lq \<Longrightarrow>
    scan_run r q (K pc) (q\<lparr>fq_heap := (fq_heap q)[p := lq']\<rparr>) (case r of None \<Rightarrow> F | Some _ \<Rightarrow> Resting)"
proof (induction n arbitrary: lq pc q)
  case (Suc n)
  let ?ev = "case r of None \<Rightarrow> PopFailedEv | Some y \<Rightarrow> PoppedEv y"
  obtain ev1 lq1 pc1 where n: "lq_next lq pc = (ev1, lq1, pc1)" by (metis surj_pair)
  let ?q = "q\<lparr>fq_heap := (fq_heap q)[p := lq1]\<rparr>"
  have a: "ring_access lq_start_pop (Some p) pc q = Value ((p, ev1), ?q, pc1)" using Suc.prems n by (simp add: ring_access_def)
  show ?case
  proof (cases "pc1 = LqIdle")
    case True
    then have "ev1 = ?ev" "lq1 = lq'" using Suc.prems(2) n by auto
    then have "fc_cons q (K pc) = Value ((p, ?ev), q\<lparr>fq_heap := (fq_heap q)[p := lq']\<rparr>, case r of None \<Rightarrow> F | Some _ \<Rightarrow> Resting)"
      using a True Suc.prems(1) by (simp add: inside_ring_def split: option.split)
    from scan_step [OF this scan_nil] show ?thesis unfolding scan_run_def by (intro exI [of _ "[(p, ?ev)]"]) (simp split: option.split)
  next
    case False
    then have p: "fc_cons q (K pc) = Value ((p, ev1), ?q, K pc1)" using a Suc.prems(1) by (simp add: inside_ring_def)
    have "scan_run r ?q (K pc1) (?q\<lparr>fq_heap := (fq_heap ?q)[p := lq']\<rparr>) (case r of None \<Rightarrow> F | Some _ \<Rightarrow> Resting)"
      using Suc.prems False n by (intro Suc.IH [of lq1]) auto
    then show ?thesis using scan_run_step [OF p lq_next_pop_inside [OF n False]] by simp
  qed
qed simp

lemma pop_attempt:
  assumes "inside_ring p K F" "fq_local_pop q p = Value (r, q')"
  shows "scan_run r q (K LqIdle) q' (case r of None \<Rightarrow> F | Some _ \<Rightarrow> Resting)"
proof -
  obtain lq where lq: "vec_get (fq_heap q) (int p) = Value lq" using assms(2) by (cases "vec_get (fq_heap q) (int p)") (auto simp: fq_local_pop_def)
  then have p: "p < length (fq_heap q)" "lq = fq_heap q ! p" by (auto simp: vec_get_def split: if_split_asm)
  obtain lq' where l: "lq_pop lq = (r, lq')" "q' = q\<lparr>fq_heap := (fq_heap q)[p := lq']\<rparr>"
    using assms(2) lq by (cases "lq_pop lq") (auto simp: fq_local_pop_def)
  have f: "lq_finish 5 lq (lq_start_pop lq) = (case r of None \<Rightarrow> PopFailedEv | Some y \<Rightarrow> PoppedEv y, lq', LqIdle)" using lq_finish_pop [of lq] l(1) by simp
  have ne: "lq_start_pop lq \<noteq> LqIdle" by (simp add: lq_start_pop_def)
  have first: "fc_cons q (K LqIdle) = Value ((p, Tau), q, K (lq_start_pop lq))" using assms(1) lq ne by (simp add: inside_ring_def ring_access_def)
  from ring_scan [OF assms(1) f ne p(1) p(2) [symmetric]] show ?thesis using scan_run_step [OF first] l(2) by simp
qed

lemma down_steps:
  "fq_pop_down q i = Value (r, q') \<Longrightarrow> scan_run r q (Down i middle approx) q' (case r of None \<Rightarrow> Up (middle + 1) approx | Some _ \<Rightarrow> Resting)"
proof (induction q i rule: fq_pop_down.induct)
  case (1 q i)
  show ?case
  proof (cases "0 \<le> i")
    case False
    then have "fc_cons q (Down i middle approx) = Value (fc_silent, q, Up (middle + 1) approx)" "r = None" "q' = q"
      using 1(3) by (auto simp: fq_pop_down.simps [of q i])
    then show ?thesis using scan_run_silent scan_run_nil by fastforce
  next
    case True
    obtain l where l: "fq_lookup q i = Value l" using 1(3) True by (cases "fq_lookup q i") (auto simp: fq_pop_down.simps [of q i])
    show ?thesis
    proof (cases l)
      case None
      then have "fq_pop_down q (i - 1) = Value (r, q')" using 1(3) True l by (simp add: fq_pop_down.simps [of q i])
      moreover have "fc_cons q (Down i middle approx) = Value (fc_silent, q, Down (i - 1) middle approx)" using True l None by simp
      ultimately show ?thesis using 1(1) [OF True l None] scan_run_silent by blast
    next
      case (Some p)
      obtain r1 q1 where a: "fq_local_pop q p = Value (r1, q1)" using 1(3) True l Some by (cases "fq_local_pop q p") (auto simp: fq_pop_down.simps [of q i])
      have s: "fc_cons q (Down i middle approx) = Value (fc_silent, q, DownPop i middle approx p LqIdle)" using True l Some by simp
      note b = scan_run_silent [OF s pop_attempt [OF inside_loops(1) a]]
      show ?thesis
      proof (cases r1)
        case None
        then have "fq_pop_down q1 (i - 1) = Value (r, q')" using 1(3) True l Some a by (simp add: fq_pop_down.simps [of q i])
        from 1(2) [OF True l Some a refl None this] b None show ?thesis using scan_run_trans by fastforce
      next
        case (Some x)
        then have "r = Some x" "q' = q1" using 1(3) True l \<open>l = Some p\<close> a by (simp_all add: fq_pop_down.simps [of q i])
        then show ?thesis using b Some by simp
      qed
    qed
  qed
qed

lemma up_steps: "fq_pop_up q i approx = Value (r, q') \<Longrightarrow> scan_run r q (Up i approx) q' Resting"
proof (induction q i approx rule: fq_pop_up.induct)
  case (1 q i approx)
  show ?case
  proof (cases "i < approx")
    case False
    then have "fc_cons q (Up i approx) = Value (fc_silent, q, Resting)" "r = None" "q' = q" using 1(2) by (auto simp: fq_pop_up.simps [of q i])
    then show ?thesis using scan_run_silent scan_run_nil by fastforce
  next
    case True
    obtain l where l: "fq_lookup q i = Value l" using 1(2) True by (cases "fq_lookup q i") (auto simp: fq_pop_up.simps [of q i])
    show ?thesis
    proof (cases l)
      case None
      then have "fc_cons q (Up i approx) = Value (fc_silent, q, Resting)" "r = None" "q' = q" using 1(2) True l by (auto simp: fq_pop_up.simps [of q i])
      then show ?thesis using scan_run_silent scan_run_nil by fastforce
    next
      case (Some p)
      obtain r1 q1 where a: "fq_local_pop q p = Value (r1, q1)" using 1(2) True l Some by (cases "fq_local_pop q p") (auto simp: fq_pop_up.simps [of q i])
      have s: "fc_cons q (Up i approx) = Value (fc_silent, q, UpPop i approx p LqIdle)" using True l Some by simp
      note b = scan_run_silent [OF s pop_attempt [OF inside_loops(2) a]]
      show ?thesis
      proof (cases r1)
        case None
        let ?n = "if i = approx - 1 then ps_size (fq_QueueList q1) else approx"
        have u: "fq_pop_up q1 (i + 1) ?n = Value (r, q')" using 1(2) True l Some a None by (simp add: fq_pop_up.simps [of q i])
        have 2: "scan_run r q1 (Up (i + 1) ?n) q' Resting" by (rule 1(1) [OF True l Some a refl None u])
        have 3: "scan_run None q1 (if i = approx - 1 then Resize i else Up (i + 1) approx) q1 (Up (i + 1) ?n)"
          using scan_run_silent [OF _ scan_run_nil, of q1 "Resize i" q1 "Up (i + 1) (ps_size (fq_QueueList q1))"]
            scan_run_nil [of q1 "Up (i + 1) approx"] by (cases "i = approx - 1") simp_all
        show ?thesis by (rule scan_run_trans [OF b [unfolded None option.simps] scan_run_trans [OF 3 2]])
      next
        case (Some x)
        then have "r = Some x" "q' = q1" using 1(2) True l \<open>l = Some p\<close> a by (simp_all add: fq_pop_up.simps [of q i])
        then show ?thesis using b Some by simp
      qed
    qed
  qed
qed

lemma pop_hard_steps:
  assumes "fq_pop_hard q middle = Value (r, q')"
  shows "scan_run r q (fc_scan_from middle q) q' Resting"
proof -
  let ?n = "ps_size (fq_QueueList q)"
  obtain r1 q1 where d: "fq_pop_down q (int middle) = Value (r1, q1)" using assms by (cases "fq_pop_down q (int middle)") (auto simp: fq_pop_hard_def Let_def)
  note s = down_steps [OF d, of "int middle" ?n]
  show ?thesis
  proof (cases r1)
    case None
    then have "fq_pop_up q1 (int middle + 1) ?n = Value (r, q')" using assms d by (simp add: fq_pop_hard_def Let_def)
    from scan_run_trans [OF s [unfolded None option.simps] up_steps [OF this]] show ?thesis by (simp add: fc_scan_from_def)
  next
    case (Some x)
    then have "r = Some x" "q' = q1" using assms d by (simp_all add: fq_pop_hard_def Let_def)
    then show ?thesis using s Some by (simp add: fc_scan_from_def)
  qed
qed

section \<open>The property\<close>

text \<open>
  C9 (equivalence). The steps of a handle that nobody disturbs are the sequential operations, for every queue with a well-shaped list, also when the
  list is full: from the beginning of \<open>push_hard\<close> they reach the queue, the handle and the answer of \<open>ph_push_hard\<close>, and from the beginning of the
  constructor those of \<open>ph_new\<close>. Likewise the steps of the consumer alone reach the queue and the answer of \<open>fq_pop_hard\<close>.
\<close>

theorem fc_alone_sequential:
  assumes "ps_shape (fq_QueueList q)"
  shows "(ph_push_hard x (q, h) = Value (ok, (q', h')) \<longrightarrow>
      (\<exists>th evs. fc_begin (Push_hard x) (Ready, h) = Some th \<and> fc_alone q th evs q' (Ready, h') \<and> pushed_of (map snd evs) = (if ok then [x] else []))) \<and>
    (ph_new q = Value (q', h') \<longrightarrow>
      (\<exists>th evs. fc_begin Make (Absent, h) = Some th \<and> fc_alone q th evs q' (Ready, h') \<and> pushed_of (map snd evs) = [])) \<and>
    (fq_pop_hard q middle = Value (r, q') \<longrightarrow>
      (\<exists>evs. scan_alone q (fc_scan_from middle q) evs q' Resting \<and> popped_of (map snd evs) = (case r of None \<Rightarrow> [] | Some y \<Rightarrow> [y])))"
proof (intro conjI impI)
  assume "fq_pop_hard q middle = Value (r, q')"
  then show "\<exists>evs. scan_alone q (fc_scan_from middle q) evs q' Resting \<and> popped_of (map snd evs) = (case r of None \<Rightarrow> [] | Some y \<Rightarrow> [y])"
    using pop_hard_steps by (simp add: scan_run_def)
next
  assume n: "ph_new q = Value (q', h')"
  have "quiet_run [] q (Applying (kProducerRetry - 1) Construct, \<lparr>ph_token = 0, ph_local = None\<rparr>) q' (Ready, h')"
    using acquire_steps [OF assms, of "\<lparr>ph_token = 0, ph_local = None\<rparr>" q' h' Construct] n by (simp add: ph_new_def fc_settle_def)
  then show "\<exists>th evs. fc_begin Make (Absent, h) = Some th \<and> fc_alone q th evs q' (Ready, h') \<and> pushed_of (map snd evs) = []"
    by (auto simp: quiet_run_def)
next
  assume p: "ph_push_hard x (q, h) = Value (ok, (q', h'))"
  obtain th where th: "fc_begin (Push_hard x) (Ready, h) = Some th" by simp
  have "quiet_run (if ok then [x] else []) q th q' (Ready, h')"
  proof (cases "ph_local h")
    case (Some l)
    then show ?thesis using push_hard_steps [OF assms Some p] th by simp
  next
    case None
    then obtain q1 h1 where a: "ph_acquire (q, h) = Value (q1, h1)" using p by (cases "ph_acquire (q, h)") (auto simp: ph_push_hard_def)
    note s = acquire_steps [OF assms a, of "First x"]
    have th1: "th = (Applying (kProducerRetry - 1) (First x), h)" using th None by simp
    show ?thesis
    proof (cases "ph_local h1")
      case None1: None
      then have "\<not> ok" "q' = q1" "h' = h1" using p a None by (auto simp: ph_push_hard_def)
      then show ?thesis using s None1 th1 by (simp add: fc_settle_def)
    next
      case (Some l)
      then have "ph_push_hard x (q1, h1) = Value (ok, (q', h'))" using p a None by (simp add: ph_push_hard_def)
      from push_hard_steps [OF conjunct2 [OF s] Some this] have
        "quiet_run (if ok then [x] else []) q1 (fc_settle (First x) h1) q' (Ready, h')" using Some by (simp add: fc_settle_def)
      from quiet_trans [OF conjunct1 [OF s] this] show ?thesis using th1 by simp
    qed
  qed
  then show "\<exists>th evs. fc_begin (Push_hard x) (Ready, h) = Some th \<and> fc_alone q th evs q' (Ready, h') \<and>
      pushed_of (map snd evs) = (if ok then [x] else [])" using th by (auto simp: quiet_run_def)
qed

theorem fc_alone_sequential_witness:
  "\<exists>q' h' evs. ph_new (fq_new (0 :: nat)) = Value (q', h') \<and>
    fc_alone (fq_new 0) (Applying 9 Construct, \<lparr>ph_token = 0, ph_local = None\<rparr>) evs q' (Ready, h') \<and> pushed_of (map snd evs) = []"
proof -
  have sh: "ps_shape (fq_QueueList (fq_new (0 :: nat)))" using fq_wf_new [of "0 :: nat"] by (simp add: fq_wf_def ps_holds_def)
  obtain q' :: "nat fast_queue" and h' where n: "ph_new (fq_new 0) = Value (q', h')"
    using ph_acquire_spec [OF fq_wf_new, of "0 :: nat" "\<lparr>ph_token = 0, ph_local = None\<rparr>"] by (auto simp: ph_new_def kQueueMaxCount_def)
  from fc_alone_sequential [OF sh, of 0 "\<lparr>ph_token = 0, ph_local = None\<rparr>" True q' h' 0 None] n show ?thesis by (auto simp: kProducerRetry_def)
qed

end
