(* ===== verification/Push_Stack_Conc.thy ===== *)
theory Push_Stack_Conc
  imports Push_Stack
begin

text \<open>
  The interleaved executions of \<open>PushOnlyFastStack\<close>: every \<open>atomic_fetch_add\<close>, atomic load and compare-and-swap and
  every access of an element is one step of one thread. The segments are in a heap, by address, since a thread that loses
  the race to install a segment deletes its own. The specialisation for owning pointers has the same steps.
\<close>

record 'a ps_shared =
  psh_stacks :: "nat option list"
  psh_heap :: "nat \<Rightarrow> 'a option list option"
  psh_next :: nat
  psh_end :: u32
  psh_max_size :: nat
  psh_unit :: nat

datatype 'a ps_pc =
    PsIdle
  | PushClaim 'a
  | PushLoad 'a nat
  | PushSwap 'a nat nat
  | PushStore 'a nat nat
  | GetLoad int
  | GetRead int nat

text \<open>What a step shows: a slot is claimed or refused, a push has returned its token, a \<open>get\<close> its result.\<close>

datatype 'a ps_event = Ps_tau | Ps_claimed 'a | Ps_refused 'a | Ps_pushed 'a nat | Ps_got int "'a option option"

fun ps_next :: "'a ps_shared \<Rightarrow> 'a ps_pc \<Rightarrow> ('a ps_event \<times> 'a ps_shared \<times> 'a ps_pc) outcome" where
  "ps_next s PsIdle = Value (Ps_tau, s, PsIdle)"
| "ps_next s (PushClaim newItem) =
     (let slot = sint (psh_end s); s = s\<lparr>psh_end := psh_end s + 1\<rparr>
      in if size_t_of_int slot \<ge> psh_max_size s then Value (Ps_refused newItem, s, PsIdle)
         else Value (Ps_claimed newItem, s, PushLoad newItem (nat slot)))"
| "ps_next s (PushLoad newItem slot) =
     obind (vec_get (psh_stacks s) (int (slot div psh_unit s))) (\<lambda>oldStack. case oldStack of
       None \<Rightarrow> Value (Ps_tau, s\<lparr>psh_heap := (psh_heap s)(psh_next s \<mapsto> replicate (psh_unit s) None), psh_next := psh_next s + 1\<rparr>,
         PushSwap newItem slot (psh_next s))
     | Some seg \<Rightarrow> Value (Ps_tau, s, PushStore newItem slot seg))"
| "ps_next s (PushSwap newItem slot newStack) =
     obind (vec_get (psh_stacks s) (int (slot div psh_unit s))) (\<lambda>oldStack. case oldStack of
       None \<Rightarrow> Value (Ps_tau, s\<lparr>psh_stacks := (psh_stacks s)[slot div psh_unit s := Some newStack]\<rparr>, PushStore newItem slot newStack)
     | Some seg \<Rightarrow> Value (Ps_tau, s\<lparr>psh_heap := (psh_heap s)(newStack := None)\<rparr>, PushStore newItem slot seg))"
| "ps_next s (PushStore newItem slot seg) =
     (case psh_heap s seg of
       None \<Rightarrow> Undefined
     | Some cells \<Rightarrow> obind (vec_get cells (int (slot - slot div psh_unit s * psh_unit s))) (\<lambda>_.
         Value (Ps_pushed newItem slot,
           s\<lparr>psh_heap := (psh_heap s)(seg \<mapsto> cells[slot - slot div psh_unit s * psh_unit s := Some newItem])\<rparr>, PsIdle)))"
| "ps_next s (GetLoad token) =
     (if size_t_of_int token > psh_max_size s then Value (Ps_got token None, s, PsIdle)
      else obind (vec_get (psh_stacks s) (int (size_t_of_int token div psh_unit s))) (\<lambda>oldStack. case oldStack of
        None \<Rightarrow> Value (Ps_got token None, s, PsIdle)
      | Some seg \<Rightarrow> Value (Ps_tau, s, GetRead token seg)))"
| "ps_next s (GetRead token seg) =
     (case psh_heap s seg of
       None \<Rightarrow> Undefined
     | Some cells \<Rightarrow> obind (vec_get cells (token - int (size_t_of_int token div psh_unit s * psh_unit s))) (\<lambda>ret.
         Value (Ps_got token (Some ret), s, PsIdle)))"

record 'a ps_sys =
  pss_stack :: "'a ps_shared"
  pss_pcs :: "nat \<Rightarrow> 'a ps_pc"

text \<open>An action of the schedule: a thread that is idle calls an operation, or a thread takes a step.\<close>

datatype 'a ps_action = Call_push nat 'a | Call_get nat int | Run nat

definition ps_call :: "nat \<Rightarrow> 'a ps_pc \<Rightarrow> 'a ps_sys \<Rightarrow> 'a ps_sys" where
  "ps_call t pc s = (if pss_pcs s t = PsIdle then s\<lparr>pss_pcs := (pss_pcs s)(t := pc)\<rparr> else s)"

definition ps_run :: "nat \<Rightarrow> 'a ps_sys \<Rightarrow> ('a ps_event \<times> 'a ps_sys) outcome" where
  "ps_run t s = obind (ps_next (pss_stack s) (pss_pcs s t)) (\<lambda>(ev, sh, pc).
     Value (ev, s\<lparr>pss_stack := sh, pss_pcs := (pss_pcs s)(t := pc)\<rparr>))"

fun ps_exec :: "'a ps_action list \<Rightarrow> 'a ps_sys \<Rightarrow> ('a ps_event list \<times> 'a ps_sys) outcome" where
  "ps_exec [] s = Value ([], s)"
| "ps_exec (Call_push t x # acts) s = ps_exec acts (ps_call t (PushClaim x) s)"
| "ps_exec (Call_get t token # acts) s = ps_exec acts (ps_call t (GetLoad token) s)"
| "ps_exec (Run t # acts) s = obind (ps_run t s) (\<lambda>(ev, s). obind (ps_exec acts s) (\<lambda>(evs, s). Value (ev # evs, s)))"

definition ps_sys_new :: "nat \<Rightarrow> nat \<Rightarrow> 'a ps_sys" where
  "ps_sys_new maxSize unitSize = \<lparr>pss_stack = \<lparr>psh_stacks = replicate ((maxSize + unitSize - 1) div unitSize) None,
     psh_heap = (\<lambda>_. None), psh_next = 0, psh_end = 0, psh_max_size = maxSize, psh_unit = unitSize\<rparr>, pss_pcs = (\<lambda>_. PsIdle)\<rparr>"

text \<open>The destructor deletes every segment of the table; deleting one twice is undefined, a null pointer is skipped.\<close>

fun delete_segments :: "nat option list \<Rightarrow> (nat \<Rightarrow> 'a option list option) \<Rightarrow> (nat \<Rightarrow> 'a option list option) outcome" where
  "delete_segments [] heap = Value heap"
| "delete_segments (None # stacks) heap = delete_segments stacks heap"
| "delete_segments (Some seg # stacks) heap =
     (case heap seg of None \<Rightarrow> Undefined | Some _ \<Rightarrow> delete_segments stacks (heap(seg := None)))"

definition ps_destroy :: "'a ps_shared \<Rightarrow> (nat \<Rightarrow> 'a option list option) outcome" where
  "ps_destroy s = delete_segments (psh_stacks s) (psh_heap s)"

text \<open>The items in the order in which they got their slots, and the tokens that pushes returned.\<close>

fun claims_of :: "'a ps_event list \<Rightarrow> 'a list" where
  "claims_of [] = []"
| "claims_of (Ps_claimed x # evs) = x # claims_of evs"
| "claims_of (Ps_refused x # evs) = x # claims_of evs"
| "claims_of (_ # evs) = claims_of evs"

fun tokens_of :: "'a ps_event list \<Rightarrow> nat list" where
  "tokens_of [] = []"
| "tokens_of (Ps_pushed x k # evs) = k # tokens_of evs"
| "tokens_of (_ # evs) = tokens_of evs"

section \<open>The stack as one value\<close>

text \<open>What the table and the heap stand for: the state of the sequential model.\<close>

definition ps_abs :: "'a ps_shared \<Rightarrow> 'a push_stack" where
  "ps_abs s = \<lparr>ps_stacks = map (\<lambda>p. Option.bind p (psh_heap s)) (psh_stacks s), ps_end = psh_end s,
     ps_max_size = psh_max_size s, ps_unit = psh_unit s\<rparr>"

definition installed :: "'a ps_shared \<Rightarrow> nat \<Rightarrow> bool" where
  "installed s seg \<longleftrightarrow> Some seg \<in> set (psh_stacks s)"

definition table_ok :: "'a ps_shared \<Rightarrow> bool" where
  "table_ok s \<longleftrightarrow> ps_shape (ps_abs s) \<and> (\<forall>seg. installed s seg \<longrightarrow> psh_heap s seg \<noteq> None) \<and>
     (\<forall>i j seg. i < length (psh_stacks s) \<and> j < length (psh_stacks s) \<and> psh_stacks s ! i = Some seg \<and> psh_stacks s ! j = Some seg \<longrightarrow> i = j) \<and>
     (\<forall>seg. psh_heap s seg \<noteq> None \<longrightarrow> seg < psh_next s)"

lemma ps_abs_simps [simp]:
  "ps_end (ps_abs s) = psh_end s" "ps_max_size (ps_abs s) = psh_max_size s" "ps_unit (ps_abs s) = psh_unit s"
  "length (ps_stacks (ps_abs s)) = length (psh_stacks s)"
  "i < length (psh_stacks s) \<Longrightarrow> ps_stacks (ps_abs s) ! i = Option.bind (psh_stacks s ! i) (psh_heap s)"
  by (simp_all add: ps_abs_def)

lemma installedI: "i < length (psh_stacks s) \<Longrightarrow> psh_stacks s ! i = Some seg \<Longrightarrow> installed s seg"
  unfolding installed_def by (metis nth_mem)

lemma table_okD:
  assumes "table_ok s"
  shows "ps_shape (ps_abs s)" "0 < psh_unit s" "psh_max_size s < 2 ^ 31" "k < psh_max_size s \<Longrightarrow> k div psh_unit s < length (psh_stacks s)"
    "installed s seg \<Longrightarrow> \<exists>cells. psh_heap s seg = Some cells \<and> length cells = psh_unit s" "psh_heap s seg \<noteq> None \<Longrightarrow> seg < psh_next s"
proof -
  show sh: "ps_shape (ps_abs s)" using assms by (simp add: table_ok_def)
  then show "0 < psh_unit s" "psh_max_size s < 2 ^ 31" by (simp_all add: ps_shape_def)
  show "k div psh_unit s < length (psh_stacks s)" if "k < psh_max_size s" using ps_slot_in_range [OF sh, of k] that by simp
  show "seg < psh_next s" if "psh_heap s seg \<noteq> None" using assms that by (simp add: table_ok_def)
  show "\<exists>cells. psh_heap s seg = Some cells \<and> length cells = psh_unit s" if i: "installed s seg"
  proof -
    obtain cells where c: "psh_heap s seg = Some cells" using assms i by (auto simp: table_ok_def)
    have "Some cells \<in> set (ps_stacks (ps_abs s))" using i c by (force simp: ps_abs_def installed_def image_iff)
    then show ?thesis using sh c by (simp add: ps_shape_def)
  qed
qed


text \<open>The effect of each write on the abstract stack.\<close>

lemma abs_other: "\<not> installed s seg \<Longrightarrow> ps_abs (s\<lparr>psh_heap := (psh_heap s)(seg := v)\<rparr>) = ps_abs s"
  by (auto simp: ps_abs_def installed_def split: Option.bind_splits)

lemma abs_store:
  assumes "table_ok s" "k < psh_max_size s" "psh_stacks s ! (k div psh_unit s) = Some seg" "psh_heap s seg = Some cells"
  shows "ps_abs (s\<lparr>psh_heap := (psh_heap s)(seg \<mapsto> cells[k mod psh_unit s := Some x])\<rparr>) = ps_write (ps_abs s) k x"
proof -
  have m: "k div psh_unit s < length (psh_stacks s)" using table_okD(4) [OF assms(1,2)] .
  have "psh_stacks s ! i \<noteq> Some seg" if "i < length (psh_stacks s)" "i \<noteq> k div psh_unit s" for i
    using assms(1,3) m that unfolding table_ok_def by metis
  then have "map (\<lambda>p. Option.bind p ((psh_heap s)(seg \<mapsto> cells[k mod psh_unit s := Some x]))) (psh_stacks s) =
      (map (\<lambda>p. Option.bind p (psh_heap s)) (psh_stacks s))[k div psh_unit s := Some (cells[k mod psh_unit s := Some x])]"
    using m assms(3) by (intro nth_equalityI) (auto simp: nth_list_update split: Option.bind_splits)
  then show ?thesis using m assms(3,4) by (simp add: ps_abs_def ps_write_def Let_def)
qed

lemma abs_install:
  assumes "table_ok s" "i < length (psh_stacks s)" "psh_stacks s ! i = None" "psh_heap s seg = Some (replicate (psh_unit s) None)"
  shows "ps_shape (ps_abs (s\<lparr>psh_stacks := (psh_stacks s)[i := Some seg]\<rparr>))"
    "ps_cell (ps_abs (s\<lparr>psh_stacks := (psh_stacks s)[i := Some seg]\<rparr>)) j = ps_cell (ps_abs s) j"
proof -
  let ?s = "s\<lparr>psh_stacks := (psh_stacks s)[i := Some seg]\<rparr>"
  have st: "ps_stacks (ps_abs ?s) = (ps_stacks (ps_abs s))[i := Some (replicate (psh_unit s) None)]"
    using assms(4) by (simp add: ps_abs_def map_update)
  have none: "ps_stacks (ps_abs s) ! i = None" using assms(2,3) by simp
  show "ps_shape (ps_abs ?s)"
    using table_okD(1) [OF assms(1)] set_update_subset_insert [of "ps_stacks (ps_abs s)" i "Some (replicate (psh_unit s) None)"]
    unfolding ps_shape_def st by (auto simp: st)
  have "0 < psh_unit s" by (rule table_okD(2) [OF assms(1)])
  then show "ps_cell (ps_abs ?s) j = ps_cell (ps_abs s) j"
    using none assms(2) by (cases "j div psh_unit s = i") (simp_all add: ps_cell_def st cong: option.case_cong)
qed

section \<open>The invariant\<close>

text \<open>The slot that a thread has claimed and not yet filled, and the segment that it has allocated and not installed.\<close>

fun slot_of :: "'a ps_pc \<Rightarrow> nat option" where
  "slot_of (PushLoad x k) = Some k"
| "slot_of (PushSwap x k seg) = Some k"
| "slot_of (PushStore x k seg) = Some k"
| "slot_of _ = None"

fun spare_of :: "'a ps_pc \<Rightarrow> nat option" where
  "spare_of (PushSwap x k seg) = Some seg"
| "spare_of _ = None"

fun pc_ok :: "'a ps_shared \<Rightarrow> 'a list \<Rightarrow> 'a ps_pc \<Rightarrow> bool" where
  "pc_ok s xs (PushLoad x k) \<longleftrightarrow> k < psh_max_size s \<and> k < length xs \<and> xs ! k = x"
| "pc_ok s xs (PushSwap x k seg) \<longleftrightarrow> k < psh_max_size s \<and> k < length xs \<and> xs ! k = x \<and>
     psh_heap s seg = Some (replicate (psh_unit s) None) \<and> \<not> installed s seg"
| "pc_ok s xs (PushStore x k seg) \<longleftrightarrow> k < psh_max_size s \<and> k < length xs \<and> xs ! k = x \<and> psh_stacks s ! (k div psh_unit s) = Some seg"
| "pc_ok s xs (GetLoad token) \<longleftrightarrow> 0 \<le> token \<and> token < int (psh_max_size s)"
| "pc_ok s xs (GetRead token seg) \<longleftrightarrow> 0 \<le> token \<and> token < int (psh_max_size s) \<and> psh_stacks s ! (nat token div psh_unit s) = Some seg"
| "pc_ok s xs _ \<longleftrightarrow> True"

definition pending :: "(nat \<Rightarrow> 'a ps_pc) \<Rightarrow> nat \<Rightarrow> bool" where
  "pending pcs k \<longleftrightarrow> (\<exists>t. slot_of (pcs t) = Some k)"

definition exclusive :: "(nat \<Rightarrow> 'b option) \<Rightarrow> bool" where
  "exclusive f \<longleftrightarrow> (\<forall>t t' v. f t = Some v \<and> f t' = Some v \<longrightarrow> t = t')"

definition cells_ok :: "'a ps_shared \<Rightarrow> (nat \<Rightarrow> 'a ps_pc) \<Rightarrow> 'a list \<Rightarrow> bool" where
  "cells_ok s pcs xs \<longleftrightarrow> (\<forall>i < length (psh_stacks s) * psh_unit s.
     ps_cell (ps_abs s) i = (if i < length xs \<and> i < psh_max_size s \<and> \<not> pending pcs i then Some (xs ! i) else None))"

definition no_leak :: "'a ps_shared \<Rightarrow> (nat \<Rightarrow> 'a ps_pc) \<Rightarrow> bool" where
  "no_leak s pcs \<longleftrightarrow> (\<forall>seg. psh_heap s seg \<noteq> None \<longrightarrow> installed s seg \<or> (\<exists>t. spare_of (pcs t) = Some seg))"

definition ps_inv :: "'a ps_sys \<Rightarrow> 'a list \<Rightarrow> bool" where
  "ps_inv S xs \<longleftrightarrow> table_ok (pss_stack S) \<and> psh_end (pss_stack S) = of_nat (length xs) \<and> (\<forall>t. pc_ok (pss_stack S) xs (pss_pcs S t)) \<and>
     exclusive (slot_of \<circ> pss_pcs S) \<and> exclusive (spare_of \<circ> pss_pcs S) \<and> cells_ok (pss_stack S) (pss_pcs S) xs \<and> no_leak (pss_stack S) (pss_pcs S)"

lemma ps_invD:
  assumes "ps_inv S xs"
  shows "table_ok (pss_stack S)" "psh_end (pss_stack S) = of_nat (length xs)" "pc_ok (pss_stack S) xs (pss_pcs S t)"
    "exclusive (slot_of \<circ> pss_pcs S)" "exclusive (spare_of \<circ> pss_pcs S)" "cells_ok (pss_stack S) (pss_pcs S) xs" "no_leak (pss_stack S) (pss_pcs S)"
  using assms by (simp_all add: ps_inv_def)

lemma ps_inv_new: "0 < u \<Longrightarrow> m < 2 ^ 31 \<Longrightarrow> ps_inv (ps_sys_new m u) []"
  by (auto simp: ps_inv_def ps_sys_new_def table_ok_def ps_shape_def ps_abs_def installed_def exclusive_def cells_ok_def no_leak_def ps_cell_def
      div_less_iff_less_mult split: option.splits)

text \<open>Changing the program counter of one thread.\<close>

lemma exclusive_upd:
  assumes "exclusive (f \<circ> pcs)" "\<And>t' v. f pc = Some v \<Longrightarrow> t' \<noteq> t \<Longrightarrow> f (pcs t') \<noteq> Some v"
  shows "exclusive (f \<circ> pcs(t := pc))"
  using assms unfolding exclusive_def by (auto split: if_splits)

lemma pending_upd:
  assumes "exclusive (slot_of \<circ> pcs)"
  shows "pending (pcs(t := pc)) k \<longleftrightarrow> slot_of pc = Some k \<or> pending pcs k \<and> slot_of (pcs t) \<noteq> Some k"
  using assms unfolding pending_def exclusive_def by (auto split: if_splits)


lemma no_leak_upd:
  assumes "no_leak s pcs" "\<And>seg. installed s seg \<Longrightarrow> installed s' seg"
    and "\<And>seg. psh_heap s' seg \<noteq> None \<Longrightarrow> psh_heap s seg \<noteq> None \<or> spare_of pc = Some seg"
    and "\<And>seg. spare_of (pcs t) = Some seg \<Longrightarrow> psh_heap s' seg = None \<or> installed s' seg \<or> spare_of pc = Some seg"
  shows "no_leak s' (pcs(t := pc))"
  unfolding no_leak_def
proof (intro allI impI)
  fix seg assume h: "psh_heap s' seg \<noteq> None"
  show "installed s' seg \<or> (\<exists>i. spare_of ((pcs(t := pc)) i) = Some seg)"
  proof (cases "spare_of pc = Some seg")
    case True
    then show ?thesis by (metis fun_upd_same)
  next
    case False
    then obtain i where "installed s seg \<or> spare_of (pcs i) = Some seg" using assms(1,3) h unfolding no_leak_def by blast
    then show ?thesis using assms(2,4) h False by (cases "i = t") (auto simp del: not_None_eq)
  qed
qed

lemma inv_pc:
  assumes "ps_inv S xs" "slot_of pc = slot_of (pss_pcs S t)" "spare_of pc = spare_of (pss_pcs S t)" "pc_ok (pss_stack S) xs pc"
  shows "ps_inv (S\<lparr>pss_pcs := (pss_pcs S)(t := pc)\<rparr>) xs"
proof -
  note d = ps_invD [OF assms(1)]
  let ?pcs = "(pss_pcs S)(t := pc)"
  have eq: "slot_of (?pcs i) = slot_of (pss_pcs S i)" "spare_of (?pcs i) = spare_of (pss_pcs S i)" for i using assms(2,3) by auto
  have "slot_of \<circ> ?pcs = slot_of \<circ> pss_pcs S" "spare_of \<circ> ?pcs = spare_of \<circ> pss_pcs S" by (simp_all only: comp_def eq)
  moreover have "pending ?pcs = pending (pss_pcs S)" unfolding pending_def eq ..
  ultimately show ?thesis using d assms(4) by (simp add: ps_inv_def cells_ok_def no_leak_def eq del: fun_upd_apply) simp
qed

text \<open>What the other threads rely on.\<close>

lemma pc_ok_mono:
  assumes "pc_ok s xs pc" "psh_max_size s' = psh_max_size s" "psh_unit s' = psh_unit s" "table_ok s"
    and "\<And>k. k < length xs \<Longrightarrow> k < length xs' \<and> xs' ! k = xs ! k"
    and "\<And>i seg. i < length (psh_stacks s) \<Longrightarrow> psh_stacks s ! i = Some seg \<Longrightarrow> psh_stacks s' ! i = Some seg"
    and "\<And>seg. spare_of pc = Some seg \<Longrightarrow> \<not> installed s seg \<Longrightarrow> psh_heap s' seg = psh_heap s seg \<and> \<not> installed s' seg"
  shows "pc_ok s' xs' pc"
proof -
  have r: "k < psh_max_size s \<Longrightarrow> k div psh_unit s < length (psh_stacks s)" for k using table_okD(4) [OF assms(4)] .
  show ?thesis
  proof (cases pc)
    case (GetRead token seg)
    then have "nat token < psh_max_size s" using assms(1) by auto
    then show ?thesis using GetRead assms(1-3,6) r by simp
  qed (use assms r in auto)
qed

text \<open>A cell that is filled stays as it is.\<close>

definition cells_kept :: "'a ps_sys \<Rightarrow> 'a ps_sys \<Rightarrow> bool" where
  "cells_kept S S' \<longleftrightarrow> (\<forall>k x. ps_cell (ps_abs (pss_stack S)) k = Some x \<longrightarrow> ps_cell (ps_abs (pss_stack S')) k = Some x)"

lemma cells_kept_same: "(\<And>k. ps_cell (ps_abs (pss_stack S')) k = ps_cell (ps_abs (pss_stack S)) k) \<Longrightarrow> cells_kept S S'"
  by (simp add: cells_kept_def)

lemma claim_ok:
  assumes "ps_inv S xs" "Suc (length xs) < 2 ^ 32" "pss_pcs S t = PushClaim x"
  shows "\<exists>ev S'. ps_run t S = Value (ev, S') \<and> ps_inv S' (xs @ [x]) \<and> cells_kept S S' \<and> (ev = Ps_claimed x \<or> ev = Ps_refused x)"
proof -
  note d = ps_invD [OF assms(1)]
  let ?sh = "pss_stack S" and ?n = "length xs"
  let ?sh' = "?sh\<lparr>psh_end := psh_end ?sh + 1\<rparr>"
  have test: "size_t_of_int (sint (psh_end ?sh)) \<ge> psh_max_size ?sh \<longleftrightarrow> psh_max_size ?sh \<le> ?n"
    using slot_test [of ?n "psh_max_size ?sh"] assms(2) d(2) table_okD(3) [OF d(1)] by simp
  have abs: "ps_abs ?sh' = (ps_abs ?sh)\<lparr>ps_end := psh_end ?sh + 1\<rparr>" by (simp add: ps_abs_def)
  have tab: "table_ok ?sh'" using d(1) unfolding table_ok_def abs by (simp add: installed_def)
  have ok: "pc_ok ?sh' (xs @ [x]) (pss_pcs S i)" for i by (rule pc_ok_mono [OF d(3) _ _ d(1)]) (auto simp: nth_append installed_def)
  have free: "\<not> pending (pss_pcs S) k" if "?n \<le> k" for k
  proof
    assume "pending (pss_pcs S) k"
    then obtain i where "slot_of (pss_pcs S i) = Some k" by (auto simp: pending_def)
    then show False using d(3) [of i] that by (cases "pss_pcs S i") auto
  qed
  define pc where "pc = (if psh_max_size ?sh \<le> ?n then PsIdle else PushLoad x ?n)"
  let ?S = "S\<lparr>pss_stack := ?sh', pss_pcs := (pss_pcs S)(t := pc)\<rparr>"
  have t0: "slot_of (pss_pcs S t) = None" "spare_of (pss_pcs S t) = None" "spare_of pc = None" by (simp_all add: assms(3) pc_def)
  have pend: "pending ((pss_pcs S)(t := pc)) k \<longleftrightarrow> pending (pss_pcs S) k \<or> k = ?n \<and> ?n < psh_max_size ?sh" for k
    unfolding pending_upd [OF d(4)] t0(1) by (auto simp: pc_def)
  have "cells_ok ?sh' ((pss_pcs S)(t := pc)) (xs @ [x])"
    using d(6) free unfolding cells_ok_def pend abs by (auto simp: nth_append less_Suc_eq)
  moreover have "no_leak ?sh' ((pss_pcs S)(t := pc))"
    by (rule no_leak_upd [OF d(7)]) (use t0(2) in \<open>auto simp: installed_def\<close>)
  moreover have "exclusive (slot_of \<circ> (pss_pcs S)(t := pc))"
    using free [of ?n] by (intro exclusive_upd [OF d(4)]) (auto simp: pc_def pending_def split: if_splits)
  moreover have "exclusive (spare_of \<circ> (pss_pcs S)(t := pc))" using t0(3) by (intro exclusive_upd [OF d(5)]) simp
  moreover have "pc_ok ?sh' (xs @ [x]) (((pss_pcs S)(t := pc)) i)" for i using ok by (auto simp: pc_def)
  ultimately have "ps_inv ?S (xs @ [x])" using tab d(2) by (simp add: ps_inv_def add.commute)
  moreover have "ps_run t S = Value (if psh_max_size ?sh \<le> ?n then Ps_refused x else Ps_claimed x, ?S)"
    using test d(2) assms(3) table_okD(3) [OF d(1)] by (auto simp: ps_run_def Let_def pc_def sint_u32_of_nat)
  moreover have "cells_kept S ?S" by (rule cells_kept_same) (simp add: abs)
  ultimately show ?thesis by auto
qed


text \<open>A step that changes the heap or the table but neither slots nor cells.\<close>

lemma inv_shared:
  assumes "ps_inv S xs" "slot_of pc = slot_of (pss_pcs S t)"
    and "psh_end s' = psh_end (pss_stack S)" "psh_max_size s' = psh_max_size (pss_stack S)" "psh_unit s' = psh_unit (pss_stack S)"
    and "length (psh_stacks s') = length (psh_stacks (pss_stack S))"
    and "table_ok s'" "\<And>j. ps_cell (ps_abs s') j = ps_cell (ps_abs (pss_stack S)) j" "pc_ok s' xs pc"
    and "\<And>i. i \<noteq> t \<Longrightarrow> pc_ok s' xs (pss_pcs S i)" "\<And>i seg. spare_of pc = Some seg \<Longrightarrow> i \<noteq> t \<Longrightarrow> spare_of (pss_pcs S i) \<noteq> Some seg"
    and "no_leak s' ((pss_pcs S)(t := pc))"
  shows "ps_inv (S\<lparr>pss_stack := s', pss_pcs := (pss_pcs S)(t := pc)\<rparr>) xs"
proof -
  note d = ps_invD [OF assms(1)]
  have eq: "slot_of (((pss_pcs S)(t := pc)) i) = slot_of (pss_pcs S i)" for i using assms(2) by auto
  have "slot_of \<circ> (pss_pcs S)(t := pc) = slot_of \<circ> pss_pcs S" by (simp only: comp_def eq)
  moreover have pend: "pending ((pss_pcs S)(t := pc)) = pending (pss_pcs S)" unfolding pending_def eq ..
  moreover have "exclusive (spare_of \<circ> (pss_pcs S)(t := pc))" using assms(11) by (intro exclusive_upd [OF d(5)])
  moreover have "cells_ok s' ((pss_pcs S)(t := pc)) xs" using d(6) unfolding cells_ok_def pend assms(4-6,8) .
  moreover have "pc_ok s' xs (((pss_pcs S)(t := pc)) i)" for i using assms(9,10) by simp
  ultimately show ?thesis using d(2,4) assms(3,7,12) by (simp add: ps_inv_def del: fun_upd_apply)
qed

lemma load_ok:
  assumes "ps_inv S xs" "pss_pcs S t = PushLoad x k"
  shows "\<exists>S'. ps_run t S = Value (Ps_tau, S') \<and> ps_inv S' xs \<and> cells_kept S S'"
proof -
  note d = ps_invD [OF assms(1)] and td = table_okD [OF ps_invD(1) [OF assms(1)]]
  let ?sh = "pss_stack S"
  have k: "k < psh_max_size ?sh" "k < length xs" "xs ! k = x" using d(3) [of t] assms(2) by simp_all
  have m: "k div psh_unit ?sh < length (psh_stacks ?sh)" by (rule td(4) [OF k(1)])
  show ?thesis
  proof (cases "psh_stacks ?sh ! (k div psh_unit ?sh)")
    case (Some seg)
    have "ps_inv (S\<lparr>pss_pcs := (pss_pcs S)(t := PushStore x k seg)\<rparr>) xs"
      by (rule inv_pc [OF assms(1)]) (use assms(2) k Some in simp_all)
    then show ?thesis using m Some assms(2) by (simp add: ps_run_def cells_kept_def)
  next
    case None
    let ?a = "psh_next ?sh" and ?pc = "PushSwap x k (psh_next ?sh)"
    let ?sh' = "?sh\<lparr>psh_heap := (psh_heap ?sh)(?a \<mapsto> replicate (psh_unit ?sh) None), psh_next := Suc ?a\<rparr>"
    have fresh: "psh_heap ?sh ?a = None" "\<not> installed ?sh ?a" using td(5,6) [of ?a] by (cases "psh_heap ?sh ?a"; auto)+
    have "ps_abs ?sh' = ps_abs (?sh\<lparr>psh_heap := (psh_heap ?sh)(?a \<mapsto> replicate (psh_unit ?sh) None)\<rparr>)" by (simp add: ps_abs_def)
    then have abs: "ps_abs ?sh' = ps_abs ?sh" using abs_other [OF fresh(2)] by simp
    have inst: "installed ?sh' = installed ?sh" by (simp add: installed_def fun_eq_iff)
    have spare: "psh_heap ?sh seg = Some (replicate (psh_unit ?sh) None)" if "spare_of (pss_pcs S i) = Some seg" for i seg
      using that d(3) [of i] by (cases "pss_pcs S i") auto
    have "table_ok ?sh'" using d(1) unfolding table_ok_def abs inst by (auto simp: less_Suc_eq)
    moreover have "pc_ok ?sh' xs (pss_pcs S i)" if "i \<noteq> t" for i
      by (rule pc_ok_mono [OF d(3) _ _ d(1)]) (use spare fresh(1) inst in auto)
    moreover have "no_leak ?sh' ((pss_pcs S)(t := ?pc))"
      by (rule no_leak_upd [OF d(7)]) (use inst assms(2) in \<open>auto split: if_splits\<close>)
    ultimately have "ps_inv (S\<lparr>pss_stack := ?sh', pss_pcs := (pss_pcs S)(t := ?pc)\<rparr>) xs"
      using assms(2) k fresh spare inst by (intro inv_shared [OF assms(1)]) (auto simp: abs)
    then show ?thesis using m None assms(2) by (simp add: ps_run_def cells_kept_def abs)
  qed
qed

lemma set_install:
  assumes "i < length ps" "ps ! i = None"
  shows "Some seg \<in> set (ps[i := Some a]) \<longleftrightarrow> Some seg \<in> set ps \<or> seg = a"
proof
  show "Some seg \<in> set ps \<or> seg = a" if "Some seg \<in> set (ps[i := Some a])"
    using that set_update_subset_insert [of ps i "Some a"] by auto
  show "Some seg \<in> set (ps[i := Some a])" if s: "Some seg \<in> set ps \<or> seg = a"
  proof (cases "seg = a")
    case True
    then show ?thesis using set_update_memI [OF assms(1)] by simp
  next
    case False
    then obtain j where "j < length ps" "ps ! j = Some seg" using s by (auto simp: in_set_conv_nth)
    then have "ps[i := Some a] ! j = Some seg" "j < length (ps[i := Some a])" using assms(2) by (cases "i = j"; simp)+
    then show ?thesis by (metis nth_mem)
  qed
qed

lemma install_unique:
  assumes "\<And>l. l < length ps \<Longrightarrow> ps ! l \<noteq> Some a"
    and "\<And>i j seg. i < length ps \<Longrightarrow> j < length ps \<Longrightarrow> ps ! i = Some seg \<Longrightarrow> ps ! j = Some seg \<Longrightarrow> i = j"
    and "i < length ps" "j < length ps" "ps[m := Some a] ! i = Some seg" "ps[m := Some a] ! j = Some seg"
  shows "i = j"
  using assms(3-6) assms(1) [of i] assms(1) [of j] assms(2) [of i j seg] by (cases "i = m"; cases "j = m") auto

lemma swap_ok:
  assumes "ps_inv S xs" "pss_pcs S t = PushSwap x k a"
  shows "\<exists>S'. ps_run t S = Value (Ps_tau, S') \<and> ps_inv S' xs \<and> cells_kept S S'"
proof -
  note d = ps_invD [OF assms(1)] and td = table_okD [OF ps_invD(1) [OF assms(1)]]
  let ?sh = "pss_stack S"
  let ?m = "k div psh_unit ?sh"
  have k: "k < psh_max_size ?sh" "k < length xs" "xs ! k = x" "psh_heap ?sh a = Some (replicate (psh_unit ?sh) None)" "\<not> installed ?sh a"
    using d(3) [of t] assms(2) by simp_all
  have m: "?m < length (psh_stacks ?sh)" by (rule td(4) [OF k(1)])
  have mine: "spare_of (pss_pcs S i) \<noteq> Some a" if "i \<noteq> t" for i
    using d(5) assms(2) that unfolding exclusive_def by fastforce
  show ?thesis
  proof (cases "psh_stacks ?sh ! ?m")
    case (Some seg)
    let ?sh' = "?sh\<lparr>psh_heap := (psh_heap ?sh)(a := None)\<rparr>"
    have abs: "ps_abs ?sh' = ps_abs ?sh" by (rule abs_other [OF k(5)])
    have inst: "installed ?sh' = installed ?sh" by (simp add: installed_def fun_eq_iff)
    have "table_ok ?sh'" using d(1) k(5) unfolding table_ok_def abs inst by auto
    moreover have "pc_ok ?sh' xs (pss_pcs S i)" if "i \<noteq> t" for i
      by (rule pc_ok_mono [OF d(3) _ _ d(1)]) (use mine [OF that] inst in auto)
    moreover have "no_leak ?sh' ((pss_pcs S)(t := PushStore x k seg))"
      by (rule no_leak_upd [OF d(7)]) (use inst assms(2) in \<open>auto split: if_splits\<close>)
    ultimately have "ps_inv (S\<lparr>pss_stack := ?sh', pss_pcs := (pss_pcs S)(t := PushStore x k seg)\<rparr>) xs"
      using assms(2) k Some by (intro inv_shared [OF assms(1)]) (auto simp: abs)
    then show ?thesis using m Some assms(2) by (simp add: ps_run_def cells_kept_def abs)
  next
    case None
    let ?sh' = "?sh\<lparr>psh_stacks := (psh_stacks ?sh)[?m := Some a]\<rparr>"
    have inst: "installed ?sh' seg \<longleftrightarrow> installed ?sh seg \<or> seg = a" for seg
      unfolding installed_def using m None by (auto simp: set_install)
    note ai = abs_install [OF d(1) m None k(4)]
    have inj: "i = j" if "i < length (psh_stacks ?sh)" "j < length (psh_stacks ?sh)" "(psh_stacks ?sh)[?m := Some a] ! i = Some seg"
      "(psh_stacks ?sh)[?m := Some a] ! j = Some seg" for i j seg
    proof (rule install_unique [OF _ _ that])
      show "psh_stacks ?sh ! l \<noteq> Some a" if "l < length (psh_stacks ?sh)" for l using k(5) installedI [OF that] by blast
    qed (use d(1) in \<open>unfold table_ok_def, blast\<close>)
    have "table_ok ?sh'" using d(1) ai(1) inj k(4) inst unfolding table_ok_def by auto
    moreover have "pc_ok ?sh' xs (pss_pcs S i)" if "i \<noteq> t" for i
      by (rule pc_ok_mono [OF d(3) _ _ d(1)]) (use mine [OF that] inst m None in \<open>auto simp: nth_list_update\<close>)
    moreover have "no_leak ?sh' ((pss_pcs S)(t := PushStore x k a))"
      by (rule no_leak_upd [OF d(7)]) (use inst assms(2) in auto)
    ultimately have "ps_inv (S\<lparr>pss_stack := ?sh', pss_pcs := (pss_pcs S)(t := PushStore x k a)\<rparr>) xs"
      using assms(2) k m ai(2) by (intro inv_shared [OF assms(1)]) auto
    moreover have "cells_kept S (S\<lparr>pss_stack := ?sh', pss_pcs := (pss_pcs S)(t := PushStore x k a)\<rparr>)"
      by (rule cells_kept_same) (simp add: ai(2))
    ultimately show ?thesis using m None assms(2) by (simp add: ps_run_def)
  qed
qed


lemma store_ok:
  assumes "ps_inv S xs" "pss_pcs S t = PushStore x k seg"
  shows "\<exists>S'. ps_run t S = Value (Ps_pushed x k, S') \<and> ps_inv S' xs \<and> cells_kept S S' \<and>
    ps_cell (ps_abs (pss_stack S)) k = None \<and> ps_cell (ps_abs (pss_stack S')) k = Some x"
proof -
  note d = ps_invD [OF assms(1)] and td = table_okD [OF ps_invD(1) [OF assms(1)]]
  let ?sh = "pss_stack S"
  have k: "k < psh_max_size ?sh" "k < length xs" "xs ! k = x" "psh_stacks ?sh ! (k div psh_unit ?sh) = Some seg" using d(3) [of t] assms(2) by simp_all
  have m: "k div psh_unit ?sh < length (psh_stacks ?sh)" by (rule td(4) [OF k(1)])
  have inst: "installed ?sh seg" by (rule installedI [OF m k(4)])
  obtain cells where c: "psh_heap ?sh seg = Some cells" "length cells = psh_unit ?sh" using td(5) [OF inst] by blast
  let ?sh' = "?sh\<lparr>psh_heap := (psh_heap ?sh)(seg \<mapsto> cells[k mod psh_unit ?sh := Some x])\<rparr>" and ?pcs = "(pss_pcs S)(t := PsIdle)"
  have abs: "ps_abs ?sh' = ps_write (ps_abs ?sh) k x" by (rule abs_store [OF d(1) k(1,4) c(1)])
  have km: "k < ps_max_size (ps_abs ?sh)" using k(1) by simp
  have "pending (pss_pcs S) k" unfolding pending_def using assms(2) by (intro exI [of _ t]) simp
  then have empty: "ps_cell (ps_abs ?sh) k = None" using d(6) ps_slot_below_table [OF td(1) km] by (simp add: cells_ok_def)
  have inst': "installed ?sh' = installed ?sh" by (simp add: installed_def fun_eq_iff)
  have spare: "spare_of (pss_pcs S i) \<noteq> Some seg" for i using d(3) [of i] inst by (cases "pss_pcs S i") auto
  have "ps_shape (ps_abs ?sh')" unfolding abs by (rule ps_write_shape [OF td(1) km])
  then have "table_ok ?sh'" using d(1) c(1) unfolding table_ok_def inst' by auto
  moreover have "pc_ok ?sh' xs (pss_pcs S i)" for i by (rule pc_ok_mono [OF d(3) _ _ d(1)]) (use spare [of i] inst' in auto)
  moreover have "exclusive (slot_of \<circ> ?pcs)" "exclusive (spare_of \<circ> ?pcs)" using d(4,5) by (intro exclusive_upd; simp)+
  moreover have "no_leak ?sh' ?pcs" by (rule no_leak_upd [OF d(7)]) (use inst' inst c(1) assms(2) in \<open>auto split: if_splits\<close>)
  moreover have "cells_ok ?sh' ?pcs xs"
  proof -
    have pend: "pending ?pcs i \<longleftrightarrow> pending (pss_pcs S) i \<and> i \<noteq> k" for i unfolding pending_upd [OF d(4)] by (auto simp: assms(2))
    show ?thesis using d(6) k(1-3) unfolding cells_ok_def pend abs ps_write_cell [OF td(1) km] by simp
  qed
  ultimately have "ps_inv (S\<lparr>pss_stack := ?sh', pss_pcs := ?pcs\<rparr>) xs" using d(2) by (simp add: ps_inv_def)
  moreover have "cells_kept S (S\<lparr>pss_stack := ?sh', pss_pcs := ?pcs\<rparr>)" "ps_cell (ps_abs ?sh') k = Some x"
    using empty by (auto simp: cells_kept_def abs ps_write_cell [OF td(1) km])
  moreover have "ps_run t S = Value (Ps_pushed x k, S\<lparr>pss_stack := ?sh', pss_pcs := ?pcs\<rparr>)"
    using assms(2) c td(2) by (simp add: ps_run_def minus_div_mult_eq_mod)
  ultimately show ?thesis using empty by force
qed

lemma get_ok:
  assumes "ps_inv S xs" "pss_pcs S t = GetLoad token \<or> pss_pcs S t = GetRead token seg"
  shows "\<exists>ev S'. ps_run t S = Value (ev, S') \<and> ps_inv S' xs \<and> cells_kept S S' \<and>
    (ev = Ps_tau \<or> (\<exists>r. ev = Ps_got token r \<and> (\<forall>x. r = Some (Some x) \<longrightarrow> nat token < length xs \<and> x = xs ! nat token)))"
proof -
  note d = ps_invD [OF assms(1)] and td = table_okD [OF ps_invD(1) [OF assms(1)]]
  let ?sh = "pss_stack S"
  let ?u = "psh_unit ?sh"
  have tok: "0 \<le> token" "token < int (psh_max_size ?sh)" using d(3) [of t] assms(2) by auto
  then have n: "nat token < psh_max_size ?sh" "size_t_of_int token = nat token" using td(3) by auto
  have m: "nat token div ?u < length (psh_stacks ?sh)" by (rule td(4) [OF n(1)])
  have idle: "ps_inv (S\<lparr>pss_pcs := (pss_pcs S)(t := PsIdle)\<rparr>) xs" by (rule inv_pc [OF assms(1)]) (use assms(2) in auto)
  from assms(2) show ?thesis
  proof
    assume pc: "pss_pcs S t = GetLoad token"
    show ?thesis
    proof (cases "psh_stacks ?sh ! (nat token div ?u)")
      case None
      then show ?thesis using pc n m idle by (simp add: ps_run_def cells_kept_def)
    next
      case (Some g)
      have "ps_inv (S\<lparr>pss_pcs := (pss_pcs S)(t := GetRead token g)\<rparr>) xs" by (rule inv_pc [OF assms(1)]) (use pc tok Some in simp_all)
      then show ?thesis using pc n m Some by (simp add: ps_run_def cells_kept_def)
    qed
  next
    assume pc: "pss_pcs S t = GetRead token seg"
    then have g: "psh_stacks ?sh ! (nat token div ?u) = Some seg" using d(3) [of t] by simp
    obtain cells where c: "psh_heap ?sh seg = Some cells" "length cells = ?u" using td(5) [OF installedI [OF m g]] by blast
    have sub: "token - int (nat token div ?u * ?u) = int (nat token mod ?u)"
      using tok(1) by (metis add_diff_cancel_left' div_mult_mod_eq int_nat_eq of_nat_add)
    have r: "ps_run t S = Value (Ps_got token (Some (cells ! (nat token mod ?u))), S\<lparr>pss_pcs := (pss_pcs S)(t := PsIdle)\<rparr>)"
      using pc n c sub td(2) by (simp add: ps_run_def)
    have "ps_cell (ps_abs ?sh) (nat token) = cells ! (nat token mod ?u)" using m g c(1) by (simp add: ps_cell_def)
    moreover have "nat token < length (psh_stacks ?sh) * ?u" using ps_slot_below_table [OF td(1), of "nat token"] n(1) by simp
    ultimately have "cells ! (nat token mod ?u) = Some x \<Longrightarrow> nat token < length xs \<and> x = xs ! nat token" for x
      using d(6) unfolding cells_ok_def by (metis option.distinct(1) option.inject)
    moreover have "cells_kept S (S\<lparr>pss_pcs := (pss_pcs S)(t := PsIdle)\<rparr>)" by (simp add: cells_kept_def)
    ultimately show ?thesis using r idle by blast
  qed
qed


section \<open>Executions\<close>

fun event_ok :: "'a list \<Rightarrow> 'a ps_event \<Rightarrow> bool" where
  "event_ok xs (Ps_pushed x k) \<longleftrightarrow> k < length xs \<and> xs ! k = x"
| "event_ok xs (Ps_got token (Some (Some x))) \<longleftrightarrow> nat token < length xs \<and> xs ! nat token = x"
| "event_ok xs _ \<longleftrightarrow> True"

lemma event_ok_append: "event_ok xs ev \<Longrightarrow> event_ok (xs @ ys) ev"
  by (induction xs ev rule: event_ok.induct) (auto simp: nth_append)

lemma event_ok_got: "event_ok xs (Ps_got token r) \<longleftrightarrow> (\<forall>x. r = Some (Some x) \<longrightarrow> nat token < length xs \<and> x = xs ! nat token)"
proof (cases r)
  case (Some v)
  then show ?thesis by (cases v) auto
qed simp

lemma run_ok:
  assumes "ps_inv S xs" "Suc (length xs) < 2 ^ 32"
  shows "\<exists>ev S'. ps_run t S = Value (ev, S') \<and> ps_inv S' (xs @ claims_of [ev]) \<and> event_ok xs ev \<and> cells_kept S S' \<and>
    (\<forall>x k. ev = Ps_pushed x k \<longrightarrow> ps_cell (ps_abs (pss_stack S)) k = None \<and> ps_cell (ps_abs (pss_stack S')) k = Some x \<and> k < psh_max_size (pss_stack S))"
proof (cases "pss_pcs S t")
  case PsIdle
  then have "ps_run t S = Value (Ps_tau, S)" by (simp add: ps_run_def fun_upd_idem)
  then show ?thesis using assms(1) by (simp add: cells_kept_def)
next
  case (PushClaim x)
  from claim_ok [OF assms this] obtain ev S' where "ps_run t S = Value (ev, S')" "ps_inv S' (xs @ [x])" "cells_kept S S'"
    "ev = Ps_claimed x \<or> ev = Ps_refused x" by blast
  then show ?thesis by (intro exI [of _ ev] exI [of _ S']) auto
next
  case (PushLoad x k)
  from load_ok [OF assms(1) this] show ?thesis by auto
next
  case (PushSwap x k a)
  from swap_ok [OF assms(1) this] show ?thesis by auto
next
  case (PushStore x k seg)
  moreover have "k < length xs \<and> xs ! k = x \<and> k < psh_max_size (pss_stack S)" using ps_invD(3) [OF assms(1), of t] PushStore by simp
  ultimately show ?thesis using store_ok [OF assms(1) PushStore] by auto
next
  case (GetLoad token)
  then show ?thesis using get_ok [OF assms(1), of t token] by (auto simp: event_ok_got)
next
  case (GetRead token seg)
  then show ?thesis using get_ok [OF assms(1), of t token seg] by (auto simp: event_ok_got)
qed

lemma ps_next_max: "ps_next s pc = Value (ev, s', pc') \<Longrightarrow> psh_max_size s' = psh_max_size s"
proof (cases pc)
  case (PushClaim x)
  then show "ps_next s pc = Value (ev, s', pc') \<Longrightarrow> psh_max_size s' = psh_max_size s"
    by (simp only: ps_next.simps Let_def split: if_split_asm) auto
next
  case (GetLoad token)
  then show "ps_next s pc = Value (ev, s', pc') \<Longrightarrow> psh_max_size s' = psh_max_size s"
    by (simp only: ps_next.simps split: if_split_asm) (auto split: option.split_asm)
qed (auto split: option.split_asm)

lemma ps_run_max: "ps_run t S = Value (ev, S') \<Longrightarrow> psh_max_size (pss_stack S') = psh_max_size (pss_stack S)"
  unfolding ps_run_def obind_eq_Value using ps_next_max by fastforce

lemma call_ok:
  assumes "ps_inv S xs" "slot_of pc = None" "spare_of pc = None" "pc_ok (pss_stack S) xs pc"
  shows "ps_inv (ps_call t pc S) xs" "cells_kept S (ps_call t pc S)" "psh_max_size (pss_stack (ps_call t pc S)) = psh_max_size (pss_stack S)"
  using inv_pc [OF assms(1), of pc t] assms(1,2-4) by (auto simp: ps_call_def cells_kept_def)


lemma exec_ok:
  assumes "ps_inv S xs" "length xs + length acts < 2 ^ 32" "\<And>t token. Call_get t token \<in> set acts \<Longrightarrow> 0 \<le> token \<and> token < int (psh_max_size (pss_stack S))"
  shows "\<exists>evs S'. ps_exec acts S = Value (evs, S') \<and> ps_inv S' (xs @ claims_of evs) \<and> (\<forall>ev \<in> set evs. event_ok (xs @ claims_of evs) ev) \<and>
    cells_kept S S' \<and> distinct (tokens_of evs) \<and> (\<forall>k \<in> set (tokens_of evs). ps_cell (ps_abs (pss_stack S)) k = None) \<and>
    (\<forall>x k. Ps_pushed x k \<in> set evs \<longrightarrow> ps_cell (ps_abs (pss_stack S')) k = Some x \<and> k < psh_max_size (pss_stack S)) \<and>
    psh_max_size (pss_stack S') = psh_max_size (pss_stack S)"
  using assms
proof (induction acts arbitrary: S xs)
  case Nil
  then show ?case by (simp add: cells_kept_def)
next
  case (Cons act acts)
  have IH: "\<exists>evs S'. ps_exec acts T = Value (evs, S') \<and> ps_inv S' (ys @ claims_of evs) \<and> (\<forall>ev \<in> set evs. event_ok (ys @ claims_of evs) ev) \<and>
    cells_kept T S' \<and> distinct (tokens_of evs) \<and> (\<forall>k \<in> set (tokens_of evs). ps_cell (ps_abs (pss_stack T)) k = None) \<and>
    (\<forall>x k. Ps_pushed x k \<in> set evs \<longrightarrow> ps_cell (ps_abs (pss_stack S')) k = Some x \<and> k < psh_max_size (pss_stack S)) \<and>
    psh_max_size (pss_stack S') = psh_max_size (pss_stack S)"
    if "ps_inv T ys" "length ys \<le> Suc (length xs)" "psh_max_size (pss_stack T) = psh_max_size (pss_stack S)" for T ys
    unfolding that(3) [symmetric] by (rule Cons.IH [OF that(1)]) (use that(2,3) Cons.prems(2,3) in auto)
  have same: "ps_cell (ps_abs (pss_stack (ps_call t pc S))) k = ps_cell (ps_abs (pss_stack S)) k" for t pc k by (simp add: ps_call_def)
  show ?case
  proof (cases act)
    case (Call_push t x)
    note c = call_ok [OF Cons.prems(1), of "PushClaim x" t]
    from IH [OF c(1)] c(3) show ?thesis unfolding Call_push ps_exec.simps cells_kept_def same by simp
  next
    case (Call_get t token)
    note c = call_ok [OF Cons.prems(1), of "GetLoad token" t]
    have "pc_ok (pss_stack S) xs (GetLoad token)" using Cons.prems(3) [of t token] Call_get by simp
    then show ?thesis using IH [OF c(1)] c(3) unfolding Call_get ps_exec.simps cells_kept_def same by simp
  next
    case (Run t)
    have "Suc (length xs) < 2 ^ 32" using Cons.prems(2) by simp
    from run_ok [OF Cons.prems(1) this, of t] obtain ev T where r: "ps_run t S = Value (ev, T)" "ps_inv T (xs @ claims_of [ev])" "event_ok xs ev"
      "cells_kept S T" "\<And>x k. ev = Ps_pushed x k \<Longrightarrow> ps_cell (ps_abs (pss_stack S)) k = None \<and> ps_cell (ps_abs (pss_stack T)) k = Some x \<and> k < psh_max_size (pss_stack S)" by blast
    have "length (xs @ claims_of [ev]) \<le> Suc (length xs)" by (cases ev) simp_all
    from IH [OF r(2) this ps_run_max [OF r(1)]] obtain evs U where
      u: "ps_exec acts T = Value (evs, U)" "ps_inv U ((xs @ claims_of [ev]) @ claims_of evs)"
        "\<forall>e \<in> set evs. event_ok ((xs @ claims_of [ev]) @ claims_of evs) e" "cells_kept T U" "distinct (tokens_of evs)"
        "\<forall>k \<in> set (tokens_of evs). ps_cell (ps_abs (pss_stack T)) k = None"
        "\<forall>x k. Ps_pushed x k \<in> set evs \<longrightarrow> ps_cell (ps_abs (pss_stack U)) k = Some x \<and> k < psh_max_size (pss_stack S)"
        "psh_max_size (pss_stack U) = psh_max_size (pss_stack S)" by blast
    have eq: "xs @ claims_of (ev # evs) = (xs @ claims_of [ev]) @ claims_of evs" by (cases ev) simp_all
    have none: "ps_cell (ps_abs (pss_stack S)) k = None" if "k \<in> set (tokens_of evs)" for k
      using u(6) that r(4) unfolding cells_kept_def by (metis not_None_eq)
    have "event_ok (xs @ claims_of (ev # evs)) e" if "e \<in> set (ev # evs)" for e
      using that u(3) event_ok_append [OF event_ok_append [OF r(3)], of "claims_of [ev]" "claims_of evs"] unfolding eq by auto
    moreover have "cells_kept S U" using r(4) u(4) by (simp add: cells_kept_def)
    moreover have "distinct (tokens_of (ev # evs)) \<and> (\<forall>k \<in> set (tokens_of (ev # evs)). ps_cell (ps_abs (pss_stack S)) k = None)"
      using r(5) u(5,6) none by (cases ev) auto
    moreover have "ps_cell (ps_abs (pss_stack U)) k = Some x \<and> k < psh_max_size (pss_stack S)" if "Ps_pushed x k \<in> set (ev # evs)" for x k
      using that u(4,7) r(5) by (auto simp: cells_kept_def)
    moreover have "ps_exec (act # acts) S = Value (ev # evs, U)" using r(1) u(1) Run by simp
    ultimately show ?thesis using u(2,8) unfolding eq [symmetric] by blast
  qed
qed


lemma claims_length: "ps_exec acts S = Value (evs, S') \<Longrightarrow> length (claims_of evs) \<le> length acts"
proof (induction acts arbitrary: S evs)
  case (Cons act acts)
  have one: "length (claims_of (ev # es)) \<le> Suc (length (claims_of es))" for ev :: "'a ps_event" and es by (cases ev) simp_all
  show ?case
  proof (cases act)
    case (Run t)
    then show ?thesis using Cons.prems Cons.IH one by (fastforce simp: split_def intro: le_trans)
  qed (use Cons in \<open>fastforce+\<close>)
qed simp

text \<open>A thread that the schedule does not mention stays as it is.\<close>

lemma exec_pcs:
  assumes "ps_exec acts S = Value (evs, S')" "\<And>x. Call_push t x \<notin> set acts" "\<And>x. Call_get t x \<notin> set acts"  "Run t \<notin> set acts"
  shows "pss_pcs S' t = pss_pcs S t"
  using assms
proof (induction acts arbitrary: S evs)
  case (Cons act acts)
  have call: "pss_pcs (ps_call i pc S) t = pss_pcs S t" if "i \<noteq> t" for i pc using that by (simp add: ps_call_def)
  show ?case
  proof (cases act)
    case (Run i)
    then have "i \<noteq> t" using Cons.prems(4) by auto
    with Run show ?thesis using Cons.prems Cons.IH by (fastforce simp: ps_run_def split_def)
  next
    case (Call_push i x)
    then have "i \<noteq> t" using Cons.prems(2) by auto
    with Call_push show ?thesis using Cons.IH [of "ps_call i (PushClaim x) S" evs] Cons.prems call by auto
  next
    case (Call_get i x)
    then have "i \<noteq> t" using Cons.prems(3) by auto
    with Call_get show ?thesis using Cons.IH [of "ps_call i (GetLoad x) S" evs] Cons.prems call by auto
  qed
qed simp

section \<open>Properties\<close>

text \<open>No segment is in the table twice, so the destructor is defined and frees what the table has.\<close>

lemma delete_segments_spec:
  assumes "\<And>i j seg. i < length stacks \<Longrightarrow> j < length stacks \<Longrightarrow> stacks ! i = Some seg \<Longrightarrow> stacks ! j = Some seg \<Longrightarrow> i = j"
    and "\<And>seg. Some seg \<in> set stacks \<Longrightarrow> heap seg \<noteq> None"
  shows "delete_segments stacks heap = Value (\<lambda>seg. if Some seg \<in> set stacks then None else heap seg)"
  using assms
proof (induction stacks heap rule: delete_segments.induct)
  case (2 stacks heap)
  have "i = j" if "i < length stacks" "j < length stacks" "stacks ! i = Some seg" "stacks ! j = Some seg" for i j seg
    using "2.prems"(1) [of "Suc i" "Suc j" seg] that by simp
  then show ?case using 2 by (auto intro!: ext)
next
  case (3 seg stacks heap)
  have d: "i = j" if "i < length stacks" "j < length stacks" "stacks ! i = Some s" "stacks ! j = Some s" for i j s
    using "3.prems"(1) [of "Suc i" "Suc j" s] that by simp
  have n: "Some seg \<notin> set stacks" using "3.prems"(1) [of 0 _ seg] by (fastforce simp: in_set_conv_nth)
  obtain cells where c: "heap seg = Some cells" using "3.prems"(2) [of seg] by auto
  have h: "(heap(seg := None)) s \<noteq> None" if "Some s \<in> set stacks" for s using "3.prems"(2) [of s] n that by auto
  have "delete_segments stacks (heap(seg := None)) = Value (\<lambda>s. if Some s \<in> set stacks then None else (heap(seg := None)) s)"
    by (rule "3.IH" [OF c]) (use d h in blast)+
  then show ?case using c by (auto intro!: ext)
qed simp

lemma ps_destroy_spec:
  assumes "table_ok s"
  shows "ps_destroy s = Value (\<lambda>seg. if installed s seg then None else psh_heap s seg)"
proof -
  have "i = j" if "i < length (psh_stacks s)" "j < length (psh_stacks s)" "psh_stacks s ! i = Some seg" "psh_stacks s ! j = Some seg" for i j seg
    using assms that unfolding table_ok_def by blast
  moreover have "psh_heap s seg \<noteq> None" if "Some seg \<in> set (psh_stacks s)" for seg
    using assms that unfolding table_ok_def installed_def by blast
  ultimately show ?thesis unfolding ps_destroy_def installed_def by (rule delete_segments_spec)
qed

lemma cell_get:
  assumes "ps_inv S xs" "ps_cell (ps_abs (pss_stack S)) k = Some x" "k < psh_max_size (pss_stack S)"
  shows "ps_get (ps_abs (pss_stack S)) (int k) = Value (Some (Some x))"
  using ps_get_cell [OF table_okD(1) [OF ps_invD(1) [OF assms(1)]], of k] assms(2,3) by (auto simp: ps_cell_def split: option.splits)

lemma new_exec_ok:
  assumes "0 < u" "m < 2 ^ 31" "length acts < 2 ^ 32" "\<And>t token. Call_get t token \<in> set acts \<Longrightarrow> 0 \<le> token \<and> token < int m"
  obtains evs S where "ps_exec acts (ps_sys_new m u) = Value (evs, S)" "ps_inv S (claims_of evs)" "\<forall>ev \<in> set evs. event_ok (claims_of evs) ev"
    "distinct (tokens_of evs)" "\<forall>x k. Ps_pushed x k \<in> set evs \<longrightarrow> ps_cell (ps_abs (pss_stack S)) k = Some x \<and> k < psh_max_size (pss_stack S)"
  using exec_ok [OF ps_inv_new [OF assms(1,2)], of acts] assms(3,4) that by (force simp: ps_sys_new_def)

text \<open>
  C36 (safety). Any number of threads that push and read in any interleaving: no step touches a segment that was deleted or is not there, the
  tokens that the pushes return are different, each token leads for ever after to the item that was pushed for it, and a read never gives
  an item but the one that claimed that slot.
\<close>

theorem ps_conc_safe:
  assumes "0 < u" "m < 2 ^ 31" "length acts < 2 ^ 32" "\<And>t token. Call_get t token \<in> set acts \<Longrightarrow> 0 \<le> token \<and> token < int m"
  shows "\<exists>evs S. ps_exec acts (ps_sys_new m u) = Value (evs, S) \<and> distinct (tokens_of evs) \<and>
    (\<forall>x k. Ps_pushed x k \<in> set evs \<longrightarrow> claims_of evs ! k = x \<and> ps_get (ps_abs (pss_stack S)) (int k) = Value (Some (Some x))) \<and>
    (\<forall>token x. Ps_got token (Some (Some x)) \<in> set evs \<longrightarrow> nat token < length (claims_of evs) \<and> claims_of evs ! nat token = x)"
proof -
  obtain evs S where e: "ps_exec acts (ps_sys_new m u) = Value (evs, S)" "ps_inv S (claims_of evs)" "\<forall>ev \<in> set evs. event_ok (claims_of evs) ev"
    "distinct (tokens_of evs)" "\<forall>x k. Ps_pushed x k \<in> set evs \<longrightarrow> ps_cell (ps_abs (pss_stack S)) k = Some x \<and> k < psh_max_size (pss_stack S)"
    by (rule new_exec_ok [OF assms])
  have "ps_get (ps_abs (pss_stack S)) (int k) = Value (Some (Some x))" if k: "Ps_pushed x k \<in> set evs" for x k
    using cell_get [OF e(2)] e(5) k by blast
  moreover have "claims_of evs ! k = x" if "Ps_pushed x k \<in> set evs" for x k using e(3) that by fastforce
  moreover have "nat token < length (claims_of evs) \<and> claims_of evs ! nat token = x" if "Ps_got token (Some (Some x)) \<in> set evs" for token x
    using e(3) that by fastforce
  ultimately show ?thesis using e(1,4) by blast
qed


lemma value_pairE:
  assumes "case r of Value (x, y) \<Rightarrow> P x y | Undefined \<Rightarrow> False"
  obtains x y where "r = Value (x, y)" "P x y"
  using assms by (cases r) auto

theorem ps_conc_safe_witness:
  "\<exists>evs S. ps_exec [Call_push 0 (7::nat), Run 0, Call_push 1 8, Run 1, Run 1, Run 1, Run 1, Call_get 2 1, Run 2, Run 2, Run 0, Run 0] (ps_sys_new 20 10) =
      Value (evs, S) \<and> Ps_pushed 8 1 \<in> set evs \<and> Ps_pushed 7 0 \<in> set evs \<and> Ps_got 1 (Some (Some 8)) \<in> set evs \<and>
      ps_get (ps_abs (pss_stack S)) 1 = Value (Some (Some 8)) \<and> distinct (tokens_of evs)"
proof -
  let ?acts = "[Call_push 0 (7::nat), Run 0, Call_push 1 8, Run 1, Run 1, Run 1, Run 1, Call_get 2 1, Run 2, Run 2, Run 0, Run 0]"
  have "case ps_exec ?acts (ps_sys_new 20 10) of Value (evs, S) \<Rightarrow> Ps_pushed 8 1 \<in> set evs \<and> Ps_pushed 7 0 \<in> set evs \<and> Ps_got 1 (Some (Some 8)) \<in> set evs
    | Undefined \<Rightarrow> False" by code_simp
  then obtain evs S where e: "ps_exec ?acts (ps_sys_new 20 10) = Value (evs, S)"
    "Ps_pushed 8 1 \<in> set evs \<and> Ps_pushed 7 0 \<in> set evs \<and> Ps_got 1 (Some (Some 8)) \<in> set evs" by (rule value_pairE)
  have g: "0 \<le> token \<and> token < int 20" if "Call_get t token \<in> set ?acts" for t token using that by auto
  have p: "0 < (10::nat)" "(20::nat) < 2 ^ 31" "length ?acts < 2 ^ 32" by simp_all
  obtain evs' S' where w: "ps_exec ?acts (ps_sys_new 20 10) = Value (evs', S')" "distinct (tokens_of evs')"
    "\<forall>x k. Ps_pushed x k \<in> set evs' \<longrightarrow> claims_of evs' ! k = x \<and> ps_get (ps_abs (pss_stack S')) (int k) = Value (Some (Some x))"
    using ps_conc_safe [OF p] g by blast
  have eq: "evs' = evs" "S' = S" using w(1) [unfolded e(1)] by (simp_all only: outcome.inject prod.inject)
  have "ps_get (ps_abs (pss_stack S)) (int 1) = Value (Some (Some 8))" using w(3) e(2) unfolding eq by blast
  then show ?thesis using e w(2) unfolding eq of_nat_1 by blast
qed

text \<open>
  C37 (refinement). When all threads are idle again, the stack is one that the sequential pushes give in the order in which the slots were claimed,
  every segment that was allocated is either in the table or deleted, and the destructor deletes the others, each once.
\<close>

theorem ps_conc_refines:
  assumes "0 < u" "m < 2 ^ 31" "length acts < 2 ^ 32" "\<And>t token. Call_get t token \<in> set acts \<Longrightarrow> 0 \<le> token \<and> token < int m"
    and "ps_exec acts (ps_sys_new m u) = Value (evs, S)" "\<And>t. pss_pcs S t = PsIdle"
  shows "ps_holds (ps_abs (pss_stack S)) (claims_of evs) \<and> {seg. psh_heap (pss_stack S) seg \<noteq> None} = {seg. Some seg \<in> set (psh_stacks (pss_stack S))} \<and>
    ps_destroy (pss_stack S) = Value (\<lambda>_. None)"
proof -
  obtain evs' S' where e: "ps_exec acts (ps_sys_new m u) = Value (evs', S')" "ps_inv S' (claims_of evs')" by (rule new_exec_ok [OF assms(1-4)])
  then have inv: "ps_inv S (claims_of evs)" "length (claims_of evs) \<le> length acts" using assms(5) claims_length [OF assms(5)] by simp_all
  note d = ps_invD [OF inv(1)]
  have "\<not> pending (pss_pcs S) k" for k by (simp add: pending_def assms(6))
  then have "ps_holds (ps_abs (pss_stack S)) (claims_of evs)"
    using d(2,6) table_okD(1) [OF d(1)] inv(2) assms(3) by (simp add: ps_holds_def cells_ok_def)
  moreover have seg: "psh_heap (pss_stack S) seg \<noteq> None \<longleftrightarrow> Some seg \<in> set (psh_stacks (pss_stack S))" for seg
    using d(7) table_okD(5) [OF d(1), of seg] assms(6) by (auto simp: no_leak_def installed_def)
  moreover have "ps_destroy (pss_stack S) = Value (\<lambda>_. None)"
    unfolding ps_destroy_spec [OF d(1)] installed_def using seg by metis
  ultimately show ?thesis by blast
qed

theorem ps_conc_refines_witness:
  "\<exists>evs S. ps_exec [Call_push 0 (7::nat), Run 0, Call_push 1 8, Run 1, Run 1, Run 0, Run 0, Run 0, Run 1, Run 1] (ps_sys_new 20 10) = Value (evs, S) \<and>
     ps_holds (ps_abs (pss_stack S)) [7, 8] \<and> ps_destroy (pss_stack S) = Value (\<lambda>_. None)"
proof -
  let ?acts = "[Call_push 0 (7::nat), Run 0, Call_push 1 8, Run 1, Run 1, Run 0, Run 0, Run 0, Run 1, Run 1]"
  have "case ps_exec ?acts (ps_sys_new 20 10) of Value (evs, S) \<Rightarrow> claims_of evs = [7, 8] \<and> pss_pcs S 0 = PsIdle \<and> pss_pcs S 1 = PsIdle
    | Undefined \<Rightarrow> False" by code_simp
  then obtain evs S where e: "ps_exec ?acts (ps_sys_new 20 10) = Value (evs, S)" "claims_of evs = [7, 8]" "pss_pcs S 0 = PsIdle" "pss_pcs S 1 = PsIdle"
    by (elim value_pairE conjE)
  have idle: "pss_pcs S t = PsIdle" for t
  proof (cases "t = 0 \<or> t = 1")
    case False
    then have "pss_pcs S t = pss_pcs (ps_sys_new 20 10 :: nat ps_sys) t" by (intro exec_pcs [OF e(1)]) auto
    then show ?thesis by (simp add: ps_sys_new_def)
  qed (use e(3,4) in auto)
  have "0 \<le> token \<and> token < int 20" if "Call_get t token \<in> set ?acts" for t token using that by auto
  from ps_conc_refines [OF _ _ _ this e(1) idle] e(2) have "ps_holds (ps_abs (pss_stack S)) [7, 8]" "ps_destroy (pss_stack S) = Value (\<lambda>_. None)" by simp_all
  with e(1) show ?thesis by blast
qed

text \<open>
  A slot counts from the moment it is claimed: here \<open>get(0)\<close> succeeds and gives the null pointer, although the stack has two elements and
  the push for slot 1 has returned.
\<close>

lemma get_unpublished:
  "case ps_exec [Call_push 0 (7::nat), Run 0, Call_push 1 8, Run 1, Run 1, Run 1, Run 1, Call_get 2 0, Run 2, Run 2] (ps_sys_new 20 10) of
     Value (evs, S) \<Rightarrow> Ps_pushed 8 1 \<in> set evs \<and> Ps_got 0 (Some None) \<in> set evs \<and> ps_size (ps_abs (pss_stack S)) = 2 | Undefined \<Rightarrow> False"
  by code_simp

end
