(* ===== verification/Ready_Queue.thy ===== *)
theory Ready_Queue
  imports Fast_Queue_Props
begin

text \<open>
  What the scheduler relies on: \<open>FastQueue\<close> used through handles that are opened, used for some
  pushes and closed again. While at most \<open>kLocalQueueSize\<close> elements are queued one local queue serves
  every handle, and the whole structure is one FIFO queue, however many handles come and go.
\<close>

primrec pop_times :: "('q \<Rightarrow> nat \<Rightarrow> ('a option \<times> 'q) outcome) \<Rightarrow> nat \<Rightarrow> 'q \<Rightarrow> ('a option list \<times> 'q) outcome" where
  "pop_times pop 0 q = Value ([], q)"
| "pop_times pop (Suc n) q = obind (pop q 0) (\<lambda>(r, q). obind (pop_times pop n q) (\<lambda>(rs, q). Value (r # rs, q)))"

section \<open>Interface: a queue fed through handles\<close>

text \<open>\<open>rep\<close> relates the queue at rest to its elements, \<open>use\<close> the queue with one open handle.\<close>

locale handle_queue =
  fixes acquire :: "'q \<Rightarrow> 's outcome"
    and push :: "'a \<Rightarrow> 's \<Rightarrow> (bool \<times> 's) outcome"
    and release :: "'s \<Rightarrow> 'q outcome"
    and pop :: "'q \<Rightarrow> nat \<Rightarrow> ('a option \<times> 'q) outcome"
    and rep :: "'q \<Rightarrow> 'a list \<Rightarrow> bool"
    and inuse :: "'s \<Rightarrow> 'a list \<Rightarrow> bool"
    and cap :: nat
  assumes acquire_law: "rep q xs \<Longrightarrow> \<exists>s. acquire q = Value s \<and> inuse s xs"
    and push_law: "inuse s xs \<Longrightarrow> length xs < cap \<Longrightarrow> \<exists>s'. push x s = Value (True, s') \<and> inuse s' (xs @ [x])"
    and release_law: "inuse s xs \<Longrightarrow> \<exists>q. release s = Value q \<and> rep q xs"
    and pop_law: "rep q xs \<Longrightarrow> \<exists>q'. pop q 0 = Value (case xs of [] \<Rightarrow> None | x # _ \<Rightarrow> Some x, q') \<and> rep q' (tl xs)"
begin

text \<open>A temporary handle for one element appends it.\<close>

lemma submit_fifo:
  assumes "rep q xs" "length xs < cap"
  shows "\<exists>q'. obind (acquire q) (\<lambda>s. obind (push x s) (\<lambda>(ok, s). obind (release s) (\<lambda>q. Value (ok, q)))) =
    Value (True, q') \<and> rep q' (xs @ [x])"
proof -
  from acquire_law [OF assms(1)] obtain s where s: "acquire q = Value s" "inuse s xs" by blast
  from push_law [OF s(2) assms(2), of x] obtain s' where s': "push x s = Value (True, s')" "inuse s' (xs @ [x])"
    by blast
  from release_law [OF s'(2)] s s' show ?thesis by auto
qed

text \<open>Popping as often as there are elements returns them in order.\<close>

lemma pops_drain: "rep q xs \<Longrightarrow> \<exists>q'. pop_times pop (length xs) q = Value (map Some xs, q') \<and> rep q' []"
proof (induction xs arbitrary: q)
  case (Cons x xs)
  from pop_law [OF Cons.prems] obtain q1 where "pop q 0 = Value (Some x, q1)" "rep q1 xs" by auto
  with Cons.IH [of q1] show ?case by auto
qed simp

end

section \<open>One local queue serves all\<close>

definition rq_rep :: "'a fast_queue \<Rightarrow> 'a list \<Rightarrow> bool" where
  "rq_rep q xs \<longleftrightarrow> fq_wf q \<and>
     (if fq_heap q = [] then xs = [] \<and> sq_items (fq_FreeList q) = []
      else fq_view q = [xs] \<and> sq_items (fq_FreeList q) = [0])"

definition rq_use :: "'a fast_queue \<times> handle \<Rightarrow> 'a list \<Rightarrow> bool" where
  "rq_use s xs \<longleftrightarrow> ph_wf s \<and> fq_view (fst s) = [xs] \<and> sq_items (fq_FreeList (fst s)) = [] \<and>
     snd s = \<lparr>ph_token = 0, ph_local = Some 0\<rparr>"

lemma rq_rep_new: "rq_rep (fq_new null) []"
  by (simp add: rq_rep_def fq_wf_new) (simp add: fq_new_def)

lemma rq_acquire:
  assumes "rq_rep q xs"
  shows "\<exists>s. ph_new q = Value s \<and> rq_use s xs"
proof (cases "fq_heap q = []")
  case True
  with assms have q: "fq_wf q" "xs = []" "sq_items (fq_FreeList q) = []" by (auto simp: rq_rep_def)
  let ?h = "\<lparr>ph_token = 0, ph_local = None\<rparr>"
  have "length (fq_heap q) < kQueueMaxCount" using True by (simp add: kQueueMaxCount_def)
  from fq_create_queue_spec [OF q(1)] this True obtain q' where
    q': "fq_create_queue q = (Some 0, q')" "fq_wf q'" "fq_heap q' = [lq_new (fq_null q) kLocalQueueSize]"
      "fq_FreeList q' = fq_FreeList q" by auto
  have "up_get (fq_QueueList q') 0 = Value (Some (Some 0))"
    using fq_get [OF q'(2), of 0] q'(3) by (simp add: kQueueMaxCount_def)
  then have p: "ph_preempt (q, ?h) = Value (True, (q', \<lparr>ph_token = 0, ph_local = Some 0\<rparr>))"
    using q'(1) by (simp add: ph_preempt_def)
  have "\<exists>s'. retry ph_apply kProducerRetry (q, ?h) = Value (0, s') \<and> s' = (q, ?h)"
    using ph_apply_empty [OF q(1,3)] by (intro retry_all_fail) auto
  moreover have "retry ph_preempt kProducerRetry (q, ?h) = Value (9, (q', \<lparr>ph_token = 0, ph_local = Some 0\<rparr>))"
    using retry_first [of ph_preempt, OF p, of 9] by (simp add: kProducerRetry_def)
  ultimately have "ph_new q = Value (q', \<lparr>ph_token = 0, ph_local = Some 0\<rparr>)"
    by (auto simp: ph_new_def ph_acquire_def)
  moreover have "rq_use (q', \<lparr>ph_token = 0, ph_local = Some 0\<rparr>) xs"
    using q q' by (simp add: rq_use_def ph_wf_def fq_view_def kQueueMaxCount_def)
  ultimately show ?thesis by blast
next
  case False
  with assms have q: "fq_wf q" "fq_view q = [xs]" "sq_items (fq_FreeList q) = [0]" by (auto simp: rq_rep_def)
  from ph_apply_free [OF q(1,3), of "\<lparr>ph_token = 0, ph_local = None\<rparr>"] obtain q' p where
    p: "ph_apply (q, \<lparr>ph_token = 0, ph_local = None\<rparr>) = Value (True, (q', \<lparr>ph_token = 0, ph_local = Some p\<rparr>))"
      "ph_wf (q', \<lparr>ph_token = 0, ph_local = Some p\<rparr>)" "fq_heap q' = fq_heap q" by blast
  have "retry ph_apply kProducerRetry (q, \<lparr>ph_token = 0, ph_local = None\<rparr>) = Value (9, (q', \<lparr>ph_token = 0, ph_local = Some p\<rparr>))"
    using retry_first [of ph_apply, OF p(1), of 9] by (simp add: kProducerRetry_def)
  then have "ph_new q = Value (q', \<lparr>ph_token = 0, ph_local = Some p\<rparr>)" by (simp add: ph_new_def ph_acquire_def)
  moreover have "p = 0" using p(2) by (simp add: ph_wf_def)
  moreover have "sq_items (fq_FreeList q') = []"
  proof -
    from p(2) have i: "set (sq_items (fq_FreeList q')) \<subseteq> {0..<1} - {0}"
      using q(2) p(3) length_fq_view [of q] by (auto simp: ph_wf_def fq_wf_def \<open>p = 0\<close>)
    moreover have "{0..<1} - {0} = ({} :: int set)" by auto
    ultimately show ?thesis by simp
  qed
  ultimately show ?thesis using p(2,3) q(2) by (simp add: rq_use_def fq_view_def)
qed

lemma rq_push:
  assumes "rq_use s xs" "length xs < kLocalQueueSize"
  shows "\<exists>s'. ph_push_hard x s = Value (True, s') \<and> rq_use s' (xs @ [x])"
proof -
  obtain q h where s: "s = (q, h)" by (cases s)
  with assms(1) have q: "ph_wf (q, h)" "fq_wf q" "fq_view q = [xs]" "sq_items (fq_FreeList q) = []"
    "h = \<lparr>ph_token = 0, ph_local = Some 0\<rparr>" by (auto simp: rq_use_def ph_wf_def)
  have "ph_local h = Some 0" "0 < length (fq_heap q)" "length (fq_view q ! 0) < kLocalQueueSize"
    using q assms(2) length_fq_view [of q] by auto
  from ph_push_retry_room [OF q(2) this, of x] obtain q' where
    q': "retry (ph_push x) kProducerRetry (q, h) = Value (9, (q', h))" "fq_wf q'" "fq_frame q q'"
      "fq_view q' = [xs @ [x]]" using q(3) by auto
  have "ph_push_hard x s = Value (True, (q', h))" using q'(1) q(5) by (simp add: ph_push_hard_def s)
  moreover have "sq_items (fq_FreeList q') = []" using q'(3) q(4) by (simp add: fq_frame_def)
  ultimately show ?thesis using ph_wf_frame [OF q(1) q'(3,2)] q'(4) q(5) by (auto simp: rq_use_def)
qed

lemma rq_release:
  assumes "rq_use s xs"
  shows "\<exists>q. ph_destroy s = Value q \<and> rq_rep q xs"
proof -
  obtain q h where s: "s = (q, h)" by (cases s)
  with assms have q: "ph_wf (q, h)" "fq_wf q" "fq_view q = [xs]" "sq_items (fq_FreeList q) = []"
    "ph_local h = Some 0" "ph_token h = 0" by (auto simp: rq_use_def ph_wf_def)
  have f: "sq_invar (fq_FreeList q)" "length (sq_items (fq_FreeList q)) < sq_cap (fq_FreeList q)"
    using q(2,4) by (auto simp: fq_wf_def kFreeListSize_def)
  from sq.push_room [OF this, of 0] q(4) obtain f where
    f': "sq_push (fq_FreeList q) 0 = Value (True, f)" "sq_items f = [0]" by auto
  from ph_release_spec [OF q(1,5)] f'(1) q(6) have
    "ph_release s = Value (q\<lparr>fq_FreeList := f\<rparr>, h)" "fq_wf (q\<lparr>fq_FreeList := f\<rparr>)"
    by (auto simp: ph_release_def s)
  with q(3,5) f'(2) length_fq_view [of q] show ?thesis
    by (auto simp: ph_destroy_def s rq_rep_def fq_view_def)
qed

lemma rq_pop:
  assumes "rq_rep q xs"
  shows "\<exists>q'. fq_pop_hard q 0 = Value (case xs of [] \<Rightarrow> None | x # _ \<Rightarrow> Some x, q') \<and> rq_rep q' (tl xs)"
proof -
  have wf: "fq_wf q" using assms by (simp add: rq_rep_def)
  have len: "length (fq_heap q) \<le> 1" using assms by (auto simp: rq_rep_def fq_view_def split: if_splits)
  then have "length (fq_heap q) \<le> kQueueMaxCount" "0 < max 1 (length (fq_heap q))" by (auto simp: kQueueMaxCount_def)
  from fq_pop_hard_result [OF wf this] obtain r q' where
    q': "fq_pop_hard q 0 = Value (r, q')" "fq_wf q'" "fq_frame q q'"
      "scan_result {..<length (fq_heap q)} (fq_view q) r (fq_view q')" by blast
  show ?thesis
  proof (cases "fq_heap q = []")
    case True
    then have "r = None" using q'(4) by (cases r) (auto simp: scan_result_def)
    with True assms q' show ?thesis by (auto simp: rq_rep_def fq_frame_def)
  next
    case False
    with assms have v: "fq_view q = [xs]" "length (fq_heap q) = 1" using length_fq_view [of q] by (auto simp: rq_rep_def)
    then have "r = (case xs of [] \<Rightarrow> None | x # _ \<Rightarrow> Some x)" "fq_view q' = [tl xs]"
      using q'(4) by (auto simp: scan_result_def split: option.splits list.splits)
    with False assms q' show ?thesis by (auto simp: rq_rep_def fq_frame_def)
  qed
qed

interpretation rq: handle_queue ph_new ph_push_hard ph_destroy fq_pop_hard rq_rep rq_use kLocalQueueSize
  by unfold_locales (fact rq_acquire rq_push rq_release rq_pop)+

lemma rq_submit:
  "rq_rep q xs \<Longrightarrow> length xs < kLocalQueueSize \<Longrightarrow> \<exists>q'. fq_submit x q = Value (True, q') \<and> rq_rep q' (xs @ [x])"
  unfolding fq_submit_def by (rule rq.submit_fifo)

text \<open>Submissions one after the other through temporary handles.\<close>

primrec fq_submit_all :: "'a list \<Rightarrow> 'a fast_queue \<Rightarrow> 'a fast_queue outcome" where
  "fq_submit_all [] q = Value q"
| "fq_submit_all (x # xs) q = obind (fq_submit x q) (\<lambda>(_, q). fq_submit_all xs q)"

lemma rq_submit_all:
  "rq_rep q xs \<Longrightarrow> length xs + length ys \<le> kLocalQueueSize \<Longrightarrow>
    \<exists>q'. fq_submit_all ys q = Value q' \<and> rq_rep q' (xs @ ys)"
proof (induction ys arbitrary: q xs)
  case (Cons y ys)
  from rq_submit [OF Cons.prems(1), of y] Cons.prems(2) obtain q1 where
    "fq_submit y q = Value (True, q1)" "rq_rep q1 (xs @ [y])" by auto
  with Cons.IH [of q1 "xs @ [y]"] Cons.prems(2) show ?case by auto
qed simp

text \<open>
  C12 (refinement). Up to \<open>kLocalQueueSize\<close> elements submitted through temporary handles to a new
  \<open>FastQueue\<close> come out of \<open>pop_hard\<close> in the order they went in: one local queue is created and its token
  passes through the free list from handle to handle.
\<close>

theorem fq_fifo_while_small:
  assumes "length xs \<le> kLocalQueueSize"
  shows "\<exists>q q'. fq_submit_all xs (fq_new null) = Value q \<and>
    pop_times fq_pop_hard (length xs) q = Value (map Some xs, q') \<and> concat (fq_view q') = []"
proof -
  from rq_submit_all [OF rq_rep_new, of xs null] assms obtain q where
    q: "fq_submit_all xs (fq_new null) = Value q" "rq_rep q xs" by auto
  with rq.pops_drain [OF q(2)] show ?thesis by (auto simp: rq_rep_def fq_view_def split: if_splits)
qed

theorem fq_fifo_while_small_witness:
  "\<exists>q q'. fq_submit_all [3, 1, 2] (fq_new (0::nat)) = Value q \<and>
     pop_times fq_pop_hard 3 q = Value ([Some 3, Some 1, Some 2], q')"
  using fq_fifo_while_small [of "[3, 1, 2]" "0::nat"] by (fastforce simp: kLocalQueueSize_def eval_nat_numeral)

end
