(* ===== verification/Coroutine.thy ===== *)
theory Coroutine
  imports Ready_Queue
begin

text \<open>
  Tasks, fibers and the scheduler: \<open>task.h\<close>, \<open>fiber_task.h/.cc\<close>, \<open>coroutine.h/.cc\<close>, the worker of
  \<open>thread_pool.h\<close>, the timer callback of \<open>async_timer.cc\<close> and \<open>entry.cc\<close>.

  The code of a task is the user's. It is represented by the calls it makes into the library, in order
  (a \<open>script\<close>): a fiber that left its stack by \<open>ToFiber()\<close> is the script that is left to run. Objects
  that the program keeps behind \<open>std::shared_ptr\<close> (tasks and triggers) have addresses, their position
  in the pool's store; a null pointer is \<open>None\<close>. The messages of \<open>colog\<close> are collected in a list.
\<close>

section \<open>Scripts\<close>

datatype script =
    Done
  | Yield script
  | Await "nat option" script
  | Await_seconds script
  | Await_func script script
  | Notify "nat option" script
  | Go script script
  | Submit script script
  | New_trigger "nat \<Rightarrow> script"

primrec seq :: "script \<Rightarrow> script \<Rightarrow> script" where
  "seq Done k = k"
| "seq (Yield s) k = Yield (seq s k)"
| "seq (Await t s) k = Await t (seq s k)"
| "seq (Await_seconds s) k = Await_seconds (seq s k)"
| "seq (Await_func f s) k = Await_func f (seq s k)"
| "seq (Notify t s) k = Notify t (seq s k)"
| "seq (Go f s) k = Go f (seq s k)"
| "seq (Submit f s) k = Submit f (seq s k)"
| "seq (New_trigger f) k = New_trigger (\<lambda>t. seq (f t) k)"

section \<open>Tasks and the pool\<close>

datatype TaskStatus = kUnknown | kFinished | kReady | kWaiting

text \<open>
  \<open>work_routine\<close>: not created yet (the body is still in \<open>f_\<close>), switched out, or past the last
  \<open>ToFiber()\<close> of \<open>_co_proxy\<close>.
\<close>

datatype routine = NilFiber script | Suspended script | Ended

record task =
  tk_fiber :: bool
  tk_status :: TaskStatus
  tk_routine :: routine

definition new_FunctionTask :: "script \<Rightarrow> task" where
  "new_FunctionTask f = \<lparr>tk_fiber = False, tk_status = kUnknown, tk_routine = NilFiber f\<rparr>"

definition new_FiberTask :: "script \<Rightarrow> task" where
  "new_FiberTask f = \<lparr>tk_fiber = True, tk_status = kUnknown, tk_routine = NilFiber f\<rparr>"

record pool =
  pl_tasks :: "nat option fast_queue"
  pl_wait_queue :: "nat push_stack"
  pl_store :: "task list"
  pl_triggers :: "int list list"
  pl_timers :: "nat list"
  pl_log :: "string list"

definition pool_new :: pool where
  "pool_new = \<lparr>pl_tasks = fq_new None, pl_wait_queue = ps_new 1000 kUnitSize, pl_store = [],
     pl_triggers = [], pl_timers = [], pl_log = []\<rparr>"

text \<open>A temporary handle and \<open>push_hard\<close>; a refused push is only logged.\<close>

definition pool_push :: "string \<Rightarrow> nat option \<Rightarrow> pool \<Rightarrow> pool outcome" where
  "pool_push msg t p = obind (fq_submit t (pl_tasks p)) (\<lambda>(ok, q).
     Value (p\<lparr>pl_tasks := q, pl_log := (if ok then pl_log p else pl_log p @ [msg])\<rparr>))"

definition pool_alloc :: "task \<Rightarrow> pool \<Rightarrow> nat \<times> pool" where
  "pool_alloc t p = (length (pl_store p), p\<lparr>pl_store := pl_store p @ [t]\<rparr>)"

definition pool_submit :: "script \<Rightarrow> pool \<Rightarrow> pool outcome" where
  "pool_submit f p = (case pool_alloc (new_FunctionTask f) p of (t, p) \<Rightarrow> pool_push ''Push failed'' (Some t) p)"

definition pool_go :: "script \<Rightarrow> pool \<Rightarrow> pool outcome" where
  "pool_go f p = (case pool_alloc (new_FiberTask f) p of (t, p) \<Rightarrow> pool_push ''Push failed'' (Some t) p)"

section \<open>Triggers\<close>

definition NewTrigger :: "pool \<Rightarrow> nat \<times> pool" where
  "NewTrigger p = (length (pl_triggers p), p\<lparr>pl_triggers := pl_triggers p @ [[]]\<rparr>)"

definition trigger_Register :: "nat option \<Rightarrow> int \<Rightarrow> pool \<Rightarrow> pool outcome" where
  "trigger_Register t wid p = (case t of None \<Rightarrow> Undefined
     | Some a \<Rightarrow> obind (vec_get (pl_triggers p) (int a)) (\<lambda>waiters.
         Value (p\<lparr>pl_triggers := (pl_triggers p)[a := waiters @ [wid]]\<rparr>)))"

fun notify_loop :: "nat push_stack \<Rightarrow> int list \<Rightarrow> nat option fast_queue \<times> handle \<Rightarrow> string list \<Rightarrow>
    ((nat option fast_queue \<times> handle) \<times> string list) outcome" where
  "notify_loop wait_queue [] s log = Value (s, log)"
| "notify_loop wait_queue (wid # ids) s log = obind (ps_get wait_queue wid) (\<lambda>r.
     case r of
       None \<Rightarrow> Value (s, log @ [''wait queue fail''])
     | Some pTask \<Rightarrow> obind (ph_push_hard pTask s) (\<lambda>(ok, s).
         notify_loop wait_queue ids s (if ok then log else log @ [''push fail''])))"

definition notify :: "nat option \<Rightarrow> pool \<Rightarrow> pool outcome" where
  "notify trigger p = (case trigger of None \<Rightarrow> Value p
     | Some a \<Rightarrow> obind (vec_get (pl_triggers p) (int a)) (\<lambda>waiters.
         obind (ph_new (pl_tasks p)) (\<lambda>s.
         obind (notify_loop (pl_wait_queue p) waiters s (pl_log p)) (\<lambda>(s, log).
         obind (ph_destroy s) (\<lambda>q. Value (p\<lparr>pl_tasks := q, pl_log := log\<rparr>))))))"

text \<open>The operating system fires a pending timer.\<close>

definition timer_callback :: "nat \<Rightarrow> pool \<Rightarrow> pool outcome" where
  "timer_callback t p = notify (Some t) (p\<lparr>pl_timers := remove1 t (pl_timers p)\<rparr>)"

definition AsyncTimer_await :: "nat \<Rightarrow> pool \<Rightarrow> pool" where
  "AsyncTimer_await t p = p\<lparr>pl_timers := pl_timers p @ [t]\<rparr>"

section \<open>Running a fiber until it leaves its stack\<close>

text \<open>
  Why a fiber switched back: its function returned, it yielded, or it waits. With the last come
  \<open>FiberData::trigger\<close> and \<open>FiberData::wait_for_task\<close>.
\<close>

datatype switch = Returned | Yielded script | Waits "nat option" "nat option" script

primrec run_script :: "script \<Rightarrow> pool \<Rightarrow> (switch \<times> pool) outcome" where
  "run_script Done p = Value (Returned, p)"
| "run_script (Yield k) p = Value (Yielded k, p)"
| "run_script (Await t k) p = Value (Waits t None k, p)"
| "run_script (Await_seconds k) p = (case NewTrigger p of (temp, p) \<Rightarrow>
     Value (Waits (Some temp) None k, AsyncTimer_await temp p))"
| "run_script (Await_func f k) p = (case NewTrigger p of (temp, p) \<Rightarrow>
     case pool_alloc (new_FiberTask (seq f (Notify (Some temp) Done))) p of (t, p) \<Rightarrow>
     Value (Waits (Some temp) (Some t) k, p))"
| "run_script (Notify t k) p = obind (notify t p) (\<lambda>p. run_script k p)"
| "run_script (Go f k) p = obind (pool_go f p) (\<lambda>p. run_script k p)"
| "run_script (Submit f k) p = obind (pool_submit f p) (\<lambda>p. run_script k p)"
| "run_script (New_trigger f) p = (case NewTrigger p of (t, p) \<Rightarrow> run_script (f t) p)"

text \<open>
  \<open>Task::call\<close>. Calling through a null pointer, suspending a function task (which has no fiber of its
  own) and switching to a fiber whose function has returned are undefined.
\<close>

datatype called = Called TaskStatus "nat option" "nat option"

definition set_routine :: "nat \<Rightarrow> TaskStatus \<Rightarrow> routine \<Rightarrow> pool \<Rightarrow> pool" where
  "set_routine t st r p = p\<lparr>pl_store := (pl_store p)[t := (pl_store p ! t)\<lparr>tk_status := st, tk_routine := r\<rparr>]\<rparr>"

definition FiberTask_call :: "nat \<Rightarrow> script \<Rightarrow> pool \<Rightarrow> (called \<times> pool) outcome" where
  "FiberTask_call t s p = obind (run_script s p) (\<lambda>(e, p).
     Value (case e of
       Returned \<Rightarrow> (Called kFinished None None, set_routine t kFinished Ended p)
     | Yielded k \<Rightarrow> (Called kReady None None, set_routine t kReady (Suspended k) p)
     | Waits trigger wait_for_task k \<Rightarrow>
         (Called kWaiting trigger wait_for_task, set_routine t kWaiting (Suspended k) p)))"

definition FunctionTask_call :: "script \<Rightarrow> pool \<Rightarrow> (called \<times> pool) outcome" where
  "FunctionTask_call f p = obind (run_script f p) (\<lambda>(e, p).
     case e of Returned \<Rightarrow> Value (Called kFinished None None, p) | _ \<Rightarrow> Undefined)"

definition task_call :: "nat option \<Rightarrow> pool \<Rightarrow> (called \<times> pool) outcome" where
  "task_call current p = (case current of None \<Rightarrow> Undefined
     | Some t \<Rightarrow> obind (vec_get (pl_store p) (int t)) (\<lambda>tk.
         case tk_routine tk of
           NilFiber f \<Rightarrow> if tk_fiber tk then FiberTask_call t f p else FunctionTask_call f p
         | Suspended k \<Rightarrow> FiberTask_call t k p
         | Ended \<Rightarrow> Undefined))"

section \<open>The worker\<close>

text \<open>
  One iteration in two steps, since other threads may act between the return of \<open>call()\<close> and the
  \<open>switch\<close> over its result: a worker is idle, or holds the task it has to put away.
\<close>

datatype worker = Idle | Holds nat called

definition pool_poll :: "nat \<Rightarrow> pool \<Rightarrow> (worker \<times> pool) outcome" where
  "pool_poll middle p = obind (fq_pop_hard (pl_tasks p) middle) (\<lambda>(r, q).
     let p = p\<lparr>pl_tasks := q\<rparr> in
     case r of
       None \<Rightarrow> Value (Idle, p)
     | Some current \<Rightarrow> obind (task_call current p) (\<lambda>(c, p). Value (Holds (the current) c, p)))"

definition pool_settle :: "nat \<Rightarrow> called \<Rightarrow> pool \<Rightarrow> pool outcome" where
  "pool_settle current c p = (case c of Called st trigger wait_for_task \<Rightarrow>
     (case st of
        kReady \<Rightarrow> pool_push ''push fail'' (Some current) p
      | kWaiting \<Rightarrow> (case ps_push (pl_wait_queue p) current of (wid, wq) \<Rightarrow>
          obind (trigger_Register trigger wid (p\<lparr>pl_wait_queue := wq\<rparr>)) (\<lambda>p.
            case wait_for_task of None \<Rightarrow> Value p | Some t \<Rightarrow> pool_push ''push fail'' (Some t) p))
      | _ \<Rightarrow> Value p))"

definition pool_work :: "nat \<Rightarrow> pool \<Rightarrow> (bool \<times> pool) outcome" where
  "pool_work middle p = obind (pool_poll middle p) (\<lambda>(w, p).
     case w of Idle \<Rightarrow> Value (False, p) | Holds t c \<Rightarrow> obind (pool_settle t c p) (\<lambda>p. Value (True, p)))"

text \<open>
  \<open>as_machine\<close>: the main thread works until the future \<open>trace\<close> is ready and no task was found in
  \<open>limit\<close> iterations in a row. \<open>None\<close> is a run cut off by the fuel; \<open>start\<close> is the random number.
\<close>

definition task_ended :: "nat \<Rightarrow> pool \<Rightarrow> bool" where
  "task_ended t p \<longleftrightarrow> t < length (pl_store p) \<and>
     (case tk_routine (pl_store p ! t) of Ended \<Rightarrow> True | _ \<Rightarrow> False)"

fun as_machine :: "nat \<Rightarrow> (pool \<Rightarrow> nat) \<Rightarrow> nat \<Rightarrow> nat \<Rightarrow> nat \<Rightarrow> nat \<Rightarrow> pool \<Rightarrow> (nat \<times> pool) outcome option" where
  "as_machine 0 start limit trace retry_count task_count p = None"
| "as_machine (Suc fuel) start limit trace retry_count task_count p =
     (if retry_count < limit \<or> \<not> task_ended trace p then
        (case pool_work (start p) p of
           Undefined \<Rightarrow> Some Undefined
         | Value (True, p) \<Rightarrow> as_machine fuel start limit trace 0 (task_count + 1) p
         | Value (False, p) \<Rightarrow> as_machine fuel start limit trace (retry_count + 1) task_count p)
      else Some (Value (task_count, p)))"

text \<open>\<open>main\<close> of \<open>entry.cc\<close>: the program's own \<open>coplus::main\<close> is the first fiber.\<close>

definition entry_main :: "nat \<Rightarrow> (pool \<Rightarrow> nat) \<Rightarrow> script \<Rightarrow> (nat \<times> pool) outcome option" where
  "entry_main fuel start main = (case pool_go main pool_new of
     Undefined \<Rightarrow> Some Undefined | Value p \<Rightarrow> as_machine fuel start 5000 0 0 0 p)"

end
