(* ===== verification/Wait_Graph.thy ===== *)
theory Wait_Graph
  imports Coroutine
begin

text \<open>
  Who waits for whom, for scripts that wait only by \<open>await(func)\<close>: an invariant over the remaining
  scripts of the tasks, the ready list, the wait queue and the triggers, and what each library call does
  to it. A ghost map gives, for every task started by an \<open>await(func)\<close>, the trigger it will notify and the
  task that waits for it.
\<close>

section \<open>Structured scripts\<close>

text \<open>
  \<open>strand o s\<close>: \<open>s\<close> uses \<open>yield\<close>, \<open>go\<close> and \<open>await(func)\<close> only, and its last act is to notify the trigger
  \<open>o\<close>, if there is one.
\<close>

fun strand :: "nat option \<Rightarrow> script \<Rightarrow> bool" where
  "strand o' Done = (o' = None)"
| "strand o' (Yield k) = strand o' k"
| "strand o' (Go f k) = (strand None f \<and> strand o' k)"
| "strand o' (Await_func f k) = (strand None f \<and> strand o' k)"
| "strand o' (Notify t Done) = (t \<noteq> None \<and> o' = t)"
| "strand o' _ = False"

abbreviation structured :: "script \<Rightarrow> bool" where
  "structured \<equiv> strand None"

lemma strand_seq: "structured f \<Longrightarrow> strand (Some t) (seq f (Notify (Some t) Done))"
proof -
  have "strand o' f \<Longrightarrow> o' = None \<Longrightarrow> strand (Some t) (seq f (Notify (Some t) Done))" for o'
    by (induction o' f rule: strand.induct) auto
  then show "structured f \<Longrightarrow> ?thesis" by simp
qed

text \<open>How many tasks a script starts, and an upper bound of the iterations they take.\<close>

primrec spawns :: "script \<Rightarrow> nat" where
  "spawns Done = 0"
| "spawns (Yield k) = spawns k"
| "spawns (Await t k) = spawns k"
| "spawns (Await_seconds k) = spawns k"
| "spawns (Await_func f k) = Suc (spawns f + spawns k)"
| "spawns (Notify t k) = spawns k"
| "spawns (Go f k) = Suc (spawns f + spawns k)"
| "spawns (Submit f k) = Suc (spawns f + spawns k)"
| "spawns (New_trigger f) = 0"

primrec weight :: "script \<Rightarrow> nat" where
  "weight Done = 1"
| "weight (Yield k) = Suc (weight k)"
| "weight (Await t k) = Suc (weight k)"
| "weight (Await_seconds k) = Suc (weight k)"
| "weight (Await_func f k) = Suc (weight f + weight k)"
| "weight (Notify t k) = weight k"
| "weight (Go f k) = weight f + weight k"
| "weight (Submit f k) = weight f + weight k"
| "weight (New_trigger f) = 0"

lemma seq_notify_measures:
  "strand o' f \<Longrightarrow> o' = None \<Longrightarrow> spawns (seq f (Notify t Done)) = spawns f \<and> weight (seq f (Notify t Done)) = weight f"
  by (induction o' f rule: strand.induct) auto

lemma weight_pos: "strand o' s \<Longrightarrow> 0 < weight s"
  by (induction o' s rule: strand.induct) auto

section \<open>The invariant\<close>

definition live :: "script option list \<Rightarrow> nat set" where
  "live K = {i. i < length K \<and> K ! i \<noteq> None}"

definition parked_at :: "script option list \<Rightarrow> nat list \<Rightarrow> nat list \<Rightarrow> int list list \<Rightarrow> nat option \<Rightarrow> nat \<Rightarrow> nat \<Rightarrow> bool" where
  "parked_at K R W T run t i \<longleftrightarrow> t < length T \<and> (\<exists>w < length W. T ! t = [int w] \<and> W ! w = i) \<and>
     i \<in> live K \<and> i \<notin> set R \<and> run \<noteq> Some i"

definition wait_graph :: "script option list \<Rightarrow> nat list \<Rightarrow> nat list \<Rightarrow> int list list \<Rightarrow> (nat \<rightharpoonup> nat \<times> nat) \<Rightarrow> nat option \<Rightarrow> bool" where
  "wait_graph K R W T g run \<longleftrightarrow>
     distinct R \<and> set R \<subseteq> live K \<and> (\<forall>r. run = Some r \<longrightarrow> r \<in> live K \<and> r \<notin> set R) \<and>
     (\<forall>c \<in> live K. strand (map_option fst (g c)) (the (K ! c))) \<and>
     (\<forall>c \<in> live K. \<forall>t i. g c = Some (t, i) \<longrightarrow> parked_at K R W T run t i \<and> i < c) \<and>
     (\<forall>c \<in> live K. \<forall>c' \<in> live K. \<forall>t t' i. g c = Some (t, i) \<longrightarrow> g c' = Some (t', i) \<longrightarrow> c = c') \<and>
     (\<forall>i \<in> live K. i \<in> set R \<or> run = Some i \<or> (\<exists>c \<in> live K. \<exists>t. g c = Some (t, i)))"

lemma wait_graphI:
  assumes "distinct R" "set R \<subseteq> live K" "\<And>r. run = Some r \<Longrightarrow> r \<in> live K \<and> r \<notin> set R"
    and "\<And>c. c \<in> live K \<Longrightarrow> strand (map_option fst (g c)) (the (K ! c))"
    and "\<And>c t i. c \<in> live K \<Longrightarrow> g c = Some (t, i) \<Longrightarrow> parked_at K R W T run t i \<and> i < c"
    and "\<And>c c' t t' i. c \<in> live K \<Longrightarrow> c' \<in> live K \<Longrightarrow> g c = Some (t, i) \<Longrightarrow> g c' = Some (t', i) \<Longrightarrow> c = c'"
    and "\<And>i. i \<in> live K \<Longrightarrow> i \<in> set R \<or> run = Some i \<or> (\<exists>c \<in> live K. \<exists>t. g c = Some (t, i))"
  shows "wait_graph K R W T g run"
  using assms unfolding wait_graph_def by blast

lemma wait_graphD:
  assumes "wait_graph K R W T g run"
  shows wg_distinct: "distinct R"
    and wg_ready: "set R \<subseteq> live K"
    and wg_run: "run = Some r \<Longrightarrow> r \<in> live K \<and> r \<notin> set R"
    and wg_strand: "c \<in> live K \<Longrightarrow> strand (map_option fst (g c)) (the (K ! c))"
    and wg_parked: "c \<in> live K \<Longrightarrow> g c = Some (t, i) \<Longrightarrow> parked_at K R W T run t i \<and> i < c"
    and wg_unique: "c \<in> live K \<Longrightarrow> c' \<in> live K \<Longrightarrow> g c = Some (t, i) \<Longrightarrow> g c' = Some (t', i) \<Longrightarrow> c = c'"
    and wg_cover: "i \<in> live K \<Longrightarrow> i \<in> set R \<or> run = Some i \<or> (\<exists>c \<in> live K. \<exists>t. g c = Some (t, i))"
  using assms unfolding wait_graph_def by blast+

lemma live_update: "r \<in> live K \<Longrightarrow> live (K[r := Some s]) = live K"
  by (auto simp: live_def nth_list_update)

lemma live_update_None: "live (K[r := None]) = live K - {r}"
  by (auto simp: live_def nth_list_update split: if_splits) (metis nth_list_update_neq option.distinct(1) nth_list_update_eq)

lemma live_snoc: "live (K @ [Some s]) = insert (length K) (live K)"
  by (auto simp: live_def nth_append)

lemma live_bound: "i \<in> live K \<Longrightarrow> i < length K"
  by (simp add: live_def)

text \<open>With nothing ready and nothing running, nothing is left: every parked task has a later live one.\<close>

lemma wait_graph_no_deadlock:
  assumes "wait_graph K [] W T g None"
  shows "live K = {}"
proof (rule ccontr)
  assume ne: "live K \<noteq> {}"
  have fin: "finite (live K)" by (simp add: live_def)
  from wg_cover [OF assms Max_in [OF fin ne]] obtain c t where c: "c \<in> live K" "g c = Some (t, Max (live K))"
    by auto
  from wg_parked [OF assms this] Max_ge [OF fin c(1)] show False by simp
qed

lemma wait_graph_poll:
  assumes "wait_graph K (i # R) W T g None"
  shows "wait_graph K R W T g (Some i)"
proof (rule wait_graphI)
  show "parked_at K R W T (Some i) t j \<and> j < c" if "c \<in> live K" "g c = Some (t, j)" for c t j
    using wg_parked [OF assms that] by (auto simp: parked_at_def)
  show "j \<in> set R \<or> Some i = Some j \<or> (\<exists>c \<in> live K. \<exists>t. g c = Some (t, j))" if "j \<in> live K" for j
    using wg_cover [OF assms that] by auto
qed (use wg_distinct [OF assms] wg_ready [OF assms] wg_strand [OF assms] wg_unique [OF assms] in auto)

text \<open>The running task, its script and what is known of them.\<close>

lemma wait_graph_running:
  assumes "wait_graph K R W T g (Some r)"
  shows "r \<in> live K" "r < length K" "r \<notin> set R" "strand (map_option fst (g r)) (the (K ! r))"
    and "\<And>c t i. c \<in> live K \<Longrightarrow> g c = Some (t, i) \<Longrightarrow> i \<noteq> r"
proof -
  show "i \<noteq> r" if "c \<in> live K" "g c = Some (t, i)" for c t i
    using wg_parked [OF assms that] by (auto simp: parked_at_def)
qed (use wg_run [OF assms refl] wg_strand [OF assms] in \<open>auto simp: live_def\<close>)

lemma strand_update:
  assumes "\<And>c. c \<in> live K \<Longrightarrow> strand (map_option fst (g c)) (the (K ! c))" "strand (map_option fst (g r)) k"
    and "c \<in> live K"
  shows "strand (map_option fst (g c)) (the (K[r := Some k] ! c))"
  using assms by (cases "c = r") (auto simp: live_def)

lemma wait_graph_yield:
  assumes g: "wait_graph K R W T g (Some r)" and "K ! r = Some (Yield k)"
  shows "wait_graph (K[r := Some k]) (R @ [r]) W T g None"
proof -
  note r = wait_graph_running [OF g]
  have k: "strand (map_option fst (g r)) k" using r(4) assms(2) by simp
  show ?thesis
  proof (rule wait_graphI, unfold live_update [OF r(1)])
    show "strand (map_option fst (g c)) (the (K[r := Some k] ! c))" if "c \<in> live K" for c
      using wg_strand [OF g] k that by (rule strand_update)
    show "parked_at (K[r := Some k]) (R @ [r]) W T None t i \<and> i < c" if "c \<in> live K" "g c = Some (t, i)" for c t i
      using wg_parked [OF g that] by (auto simp: parked_at_def live_update [OF r(1)])
    show "i \<in> set (R @ [r]) \<or> None = Some i \<or> (\<exists>c \<in> live K. \<exists>t. g c = Some (t, i))" if "i \<in> live K" for i
      using wg_cover [OF g that] by auto
  qed (use r wg_distinct [OF g] wg_ready [OF g] wg_unique [OF g] in auto)
qed

lemma wait_graph_done:
  assumes g: "wait_graph K R W T g (Some r)" and "K ! r = Some Done"
  shows "wait_graph (K[r := None]) R W T g None"
proof -
  note r = wait_graph_running [OF g]
  have none: "g r = None" using r(4) assms(2) by simp
  show ?thesis
  proof (rule wait_graphI, unfold live_update_None)
    show "strand (map_option fst (g c)) (the (K[r := None] ! c))" if "c \<in> live K - {r}" for c
      using wg_strand [OF g, of c] that by simp
    show "parked_at (K[r := None]) R W T None t i \<and> i < c" if "c \<in> live K - {r}" "g c = Some (t, i)" for c t i
      using wg_parked [OF g, of c t i] that by (auto simp: parked_at_def live_update_None)
    show "i \<in> set R \<or> None = Some i \<or> (\<exists>c \<in> live K - {r}. \<exists>t. g c = Some (t, i))" if "i \<in> live K - {r}" for i
      using wg_cover [OF g, of i] that none by fastforce
  qed (use r wg_distinct [OF g] wg_ready [OF g] wg_unique [OF g] in auto)
qed

lemma wait_graph_notify:
  assumes g: "wait_graph K R W T g (Some r)" and "K ! r = Some (Notify t k)"
  shows "\<exists>a w. t = Some a \<and> k = Done \<and> a < length T \<and> T ! a = [int w] \<and> w < length W \<and>
    W ! w \<notin> set R \<and> W ! w \<in> live K \<and> wait_graph (K[r := Some k]) (R @ [W ! w]) W T (g(r := None)) (Some r)"
proof -
  note r = wait_graph_running [OF g]
  obtain a i where a: "t = Some a" "k = Done" "g r = Some (a, i)" using r(4) assms(2) by (cases k) auto
  from wg_parked [OF g r(1) a(3)] obtain w where
    w: "w < length W" "T ! a = [int w]" "W ! w = i" "i \<in> live K" "i \<notin> set R" "i \<noteq> r" "a < length T"
    by (auto simp: parked_at_def)
  have "wait_graph (K[r := Some k]) (R @ [i]) W T (g(r := None)) (Some r)"
  proof (rule wait_graphI, unfold live_update [OF r(1)])
    show "strand (map_option fst ((g(r := None)) c)) (the (K[r := Some k] ! c))" if "c \<in> live K" for c
      using wg_strand [OF g that] r(2) a(2) by (cases "c = r") auto
    show "parked_at (K[r := Some k]) (R @ [i]) W T (Some r) t j \<and> j < c"
      if "c \<in> live K" "(g(r := None)) c = Some (t, j)" for c t j
    proof -
      from that(2) have c: "c \<noteq> r" "g c = Some (t, j)" by (auto split: if_splits)
      moreover from c wg_unique [OF g that(1) r(1), of t j a] a(3) have "j \<noteq> i" by auto
      ultimately show ?thesis using wg_parked [OF g that(1) c(2)] by (auto simp: parked_at_def live_update [OF r(1)])
    qed
    show "c = c'" if "c \<in> live K" "c' \<in> live K" "(g(r := None)) c = Some (t, j)" "(g(r := None)) c' = Some (t', j)"
      for c c' t t' j using that wg_unique [OF g that(1,2), of t j t'] by (auto split: if_splits)
    show "j \<in> set (R @ [i]) \<or> Some r = Some j \<or> (\<exists>c \<in> live K. \<exists>t. (g(r := None)) c = Some (t, j))" if "j \<in> live K" for j
    proof -
      have "j = i \<or> (\<exists>t. (g(r := None)) c = Some (t, j))" if "g c = Some (t', j)" for c t'
        using that a(3) by (cases "c = r") auto
      then show ?thesis using wg_cover [OF g that] by (simp del: fun_upd_apply) blast
    qed
  qed (use r w wg_distinct [OF g] wg_ready [OF g] in auto)
  with a w show ?thesis by auto
qed

text \<open>A new task enters the ready list, with or without somebody waiting for it.\<close>

lemma live_spawn:
  "r \<in> live K \<Longrightarrow> live (K[r := Some k] @ [Some s]) = insert (length K) (live K)"
  by (simp add: live_snoc live_update)

lemma strand_spawn:
  assumes "\<And>c. c \<in> live K \<Longrightarrow> strand (map_option fst (g c)) (the (K ! c))" "strand (map_option fst (g r)) k"
    and "strand (map_option fst o') s" "c \<in> insert (length K) (live K)"
  shows "strand (map_option fst ((g(length K := o')) c)) (the ((K[r := Some k] @ [Some s]) ! c))"
proof (cases "c = length K")
  case True
  then show ?thesis using assms(3) by (simp add: nth_append)
next
  case False
  then have c: "c \<in> live K" using assms(4) by simp
  have "(g(length K := o')) c = g c" "(K[r := Some k] @ [Some s]) ! c = K[r := Some k] ! c"
    using False live_bound [OF c] by (simp_all add: nth_append)
  then show ?thesis using strand_update [OF assms(1,2) c] by simp
qed

lemma wait_graph_go:
  assumes g: "wait_graph K R W T g (Some r)" and "K ! r = Some (Go f k)"
  shows "wait_graph (K[r := Some k] @ [Some f]) (R @ [length K]) W T (g(length K := None)) (Some r)"
proof -
  note r = wait_graph_running [OF g]
  have k: "strand (map_option fst (g r)) k" "strand (map_option fst None) f" using r(4) assms(2) by auto
  have new: "length K \<notin> live K" "length K \<notin> set R" using wg_ready [OF g] by (auto simp: live_def)
  have cover: "(g(length K := None)) c = g c" if "c \<in> live K" for c using that new(1) by auto
  show ?thesis
  proof (rule wait_graphI, unfold live_spawn [OF r(1)])
    show "strand (map_option fst ((g(length K := None)) c)) (the ((K[r := Some k] @ [Some f]) ! c))"
      if "c \<in> insert (length K) (live K)" for c
      using wg_strand [OF g] k that by (rule strand_spawn)
    show "parked_at (K[r := Some k] @ [Some f]) (R @ [length K]) W T (Some r) t i \<and> i < c"
      if "c \<in> insert (length K) (live K)" "(g(length K := None)) c = Some (t, i)" for c t i
      using that new wg_parked [OF g, of c t i] by (auto simp: parked_at_def live_spawn [OF r(1)] split: if_splits)
    show "c = c'" if "c \<in> insert (length K) (live K)" "c' \<in> insert (length K) (live K)"
      "(g(length K := None)) c = Some (t, j)" "(g(length K := None)) c' = Some (t', j)"
      for c c' t t' j using that wg_unique [OF g, of c c' t j t'] by (auto split: if_splits)
    show "i \<in> set (R @ [length K]) \<or> Some r = Some i \<or>
        (\<exists>c \<in> insert (length K) (live K). \<exists>t. (g(length K := None)) c = Some (t, i))"
      if "i \<in> insert (length K) (live K)" for i
      using that wg_cover [OF g, of i] cover by (simp del: fun_upd_apply) blast
  qed (use r new wg_distinct [OF g] wg_ready [OF g] in auto)
qed

lemma wait_graph_await:
  assumes g: "wait_graph K R W T g (Some r)" and "K ! r = Some (Await_func f k)"
  shows "wait_graph (K[r := Some k] @ [Some (seq f (Notify (Some (length T)) Done))]) (R @ [length K])
    (W @ [r]) (T @ [[int (length W)]]) (g(length K := Some (length T, r))) None"
proof -
  let ?s = "seq f (Notify (Some (length T)) Done)" and ?g = "g(length K := Some (length T, r))"
  note r = wait_graph_running [OF g]
  have k: "strand (map_option fst (g r)) k" "strand (map_option fst (Some (length T, r))) ?s"
    using r(4) assms(2) by (auto simp: strand_seq)
  have new: "length K \<notin> live K" "length K \<notin> set R" using wg_ready [OF g] by (auto simp: live_def)
  have cover: "?g c = g c" if "c \<in> live K" for c using that new(1) by auto
  have last: "?g (length K) = Some (length T, r)" by simp
  show ?thesis
  proof (rule wait_graphI, unfold live_spawn [OF r(1)])
    show "strand (map_option fst (?g c)) (the ((K[r := Some k] @ [Some ?s]) ! c))"
      if "c \<in> insert (length K) (live K)" for c
      using wg_strand [OF g] k that by (rule strand_spawn)
    show "parked_at (K[r := Some k] @ [Some ?s]) (R @ [length K]) (W @ [r]) (T @ [[int (length W)]]) None t i \<and> i < c"
      if "c \<in> insert (length K) (live K)" "?g c = Some (t, i)" for c t i
    proof (cases "c = length K")
      case True
      then have "i = r" "t = length T" using that(2) by auto
      then show ?thesis using True r(1-3) new
        unfolding parked_at_def live_spawn [OF r(1)] by (auto simp: nth_append)
    next
      case False
      then have "c \<in> live K" "g c = Some (t, i)" using that by auto
      from wg_parked [OF g this] new show ?thesis
        by (auto simp: parked_at_def live_spawn [OF r(1)] nth_append)
    qed
    show "c = c'" if "c \<in> insert (length K) (live K)" "c' \<in> insert (length K) (live K)"
      "?g c = Some (t, j)" "?g c' = Some (t', j)" for c c' t t' j
      using that r(5) wg_unique [OF g, of c c' t j t'] by (auto split: if_splits)
    show "i \<in> set (R @ [length K]) \<or> None = Some i \<or> (\<exists>c \<in> insert (length K) (live K). \<exists>t. ?g c = Some (t, i))"
      if "i \<in> insert (length K) (live K)" for i
      using that wg_cover [OF g, of i] cover last by (simp del: fun_upd_apply) blast
  qed (use r new wg_distinct [OF g] wg_ready [OF g] in auto)
qed

end
