(* ===== verification/Coroutine_Props.thy ===== *)
theory Coroutine_Props
  imports Wait_Graph
begin

text \<open>
  The scheduler at work: what \<open>notify\<close> and the worker do to a pool in order, that structured programs
  run to their end on one worker, and the cases in which waiting goes wrong.
\<close>

section \<open>The pool in order\<close>

definition cont :: "task \<Rightarrow> script option" where
  "cont tk = (case tk_routine tk of NilFiber s \<Rightarrow> Some s | Suspended s \<Rightarrow> Some s | Ended \<Rightarrow> None)"

definition conts :: "pool \<Rightarrow> script option list" where
  "conts p = map cont (pl_store p)"

text \<open>\<open>R\<close> is the ready queue, \<open>W\<close> everything ever pushed to the wait queue; nothing was logged.\<close>

definition pool_rep :: "pool \<Rightarrow> nat list \<Rightarrow> nat list \<Rightarrow> bool" where
  "pool_rep p R W \<longleftrightarrow> rq_rep (pl_tasks p) (map Some R) \<and> ps_holds (pl_wait_queue p) W \<and>
     ps_max_size (pl_wait_queue p) = 1000 \<and> (\<forall>tk \<in> set (pl_store p). tk_fiber tk) \<and> pl_log p = []"

lemma length_conts [simp]: "length (conts p) = length (pl_store p)"
  by (simp add: conts_def)

lemma conts_tasks [simp]: "conts (p\<lparr>pl_tasks := q\<rparr>) = conts p"
  by (simp add: conts_def)

lemma log_same: "pl_log p = l \<Longrightarrow> p\<lparr>pl_tasks := q, pl_log := l\<rparr> = p\<lparr>pl_tasks := q\<rparr>"
  by (cases p) simp

lemma pool_rep_new: "pool_rep pool_new [] []"
  by (simp add: pool_rep_def pool_new_def rq_rep_new ps_holds_new kUnitSize_def) (simp add: ps_new_def)

lemma pool_push_spec:
  assumes "pool_rep p R W" "length R < kLocalQueueSize"
  shows "\<exists>q. pool_push msg (Some t) p = Value (p\<lparr>pl_tasks := q\<rparr>) \<and> pool_rep (p\<lparr>pl_tasks := q\<rparr>) (R @ [t]) W"
proof -
  from rq_submit [of "pl_tasks p" "map Some R" "Some t"] assms obtain q where
    "fq_submit (Some t) (pl_tasks p) = Value (True, q)" "rq_rep q (map Some (R @ [t]))"
    by (auto simp: pool_rep_def)
  with assms(1) show ?thesis by (intro exI [of _ q]) (simp add: pool_push_def pool_rep_def log_same)
qed

lemma pool_alloc_rep:
  assumes "pool_rep p R W"
  shows "pool_rep (snd (pool_alloc (new_FiberTask f) p)) R W"
    and "conts (snd (pool_alloc (new_FiberTask f) p)) = conts p @ [Some f]"
  using assms by (auto simp: pool_alloc_def pool_rep_def conts_def cont_def new_FiberTask_def)

lemma notify_loop_spec:
  assumes "rq_use s (map Some R)" "\<forall>i \<in> set ids. i < length W" "ps_holds wq W" "length W \<le> ps_max_size wq"
    and "length R + length ids \<le> kLocalQueueSize"
  shows "\<exists>s'. notify_loop wq (map int ids) s log = Value (s', log) \<and> rq_use s' (map Some (R @ map ((!) W) ids))"
  using assms
proof (induction ids arbitrary: s R)
  case (Cons i ids)
  have "ps_get wq (int i) = Value (Some (Some (W ! i)))" using Cons.prems by (intro ps_get_pushed) auto
  moreover from rq_push [OF Cons.prems(1), of "Some (W ! i)"] Cons.prems(5) obtain s' where
    "ph_push_hard (Some (W ! i)) s = Value (True, s')" "rq_use s' (map Some (R @ [W ! i]))" by auto
  ultimately show ?case using Cons.IH [of s' "R @ [W ! i]"] Cons.prems by auto
qed simp

text \<open>A notified trigger puts its waiters back, in the order they registered.\<close>

lemma notify_rep:
  assumes "pool_rep p R W" "a < length (pl_triggers p)" "pl_triggers p ! a = map int ids"
    and "\<forall>i \<in> set ids. i < length W" "length W \<le> 1000" "length R + length ids \<le> kLocalQueueSize"
  shows "\<exists>q. notify (Some a) p = Value (p\<lparr>pl_tasks := q\<rparr>) \<and> pool_rep (p\<lparr>pl_tasks := q\<rparr>) (R @ map ((!) W) ids) W"
proof -
  have p: "rq_rep (pl_tasks p) (map Some R)" "ps_holds (pl_wait_queue p) W" "length W \<le> ps_max_size (pl_wait_queue p)"
    using assms(1,5) by (auto simp: pool_rep_def)
  from rq_acquire [OF p(1)] obtain s where s: "ph_new (pl_tasks p) = Value s" "rq_use s (map Some R)" by blast
  from notify_loop_spec [OF s(2) assms(4) p(2,3) assms(6)] obtain s' where
    s': "notify_loop (pl_wait_queue p) (map int ids) s (pl_log p) = Value (s', pl_log p)"
      "rq_use s' (map Some (R @ map ((!) W) ids))" by blast
  from rq_release [OF s'(2)] obtain q where
    "ph_destroy s' = Value q" "rq_rep q (map Some (R @ map ((!) W) ids))" by blast
  with s(1) s'(1) assms(1-3) show ?thesis
    by (intro exI [of _ q]) (simp add: notify_def pool_rep_def log_same)
qed

section \<open>Structured programs\<close>

text \<open>Tasks that exist or may still be started, and the work that is left.\<close>

definition budget :: "script option list \<Rightarrow> nat" where
  "budget K = length K + (\<Sum>o' \<leftarrow> K. case o' of None \<Rightarrow> 0 | Some s \<Rightarrow> spawns s)"

definition work :: "script option list \<Rightarrow> nat" where
  "work K = (\<Sum>o' \<leftarrow> K. case o' of None \<Rightarrow> 0 | Some s \<Rightarrow> weight s)"

lemma sum_list_update_nat:
  fixes f :: "'a \<Rightarrow> nat"
  shows "r < length K \<Longrightarrow> (\<Sum>x \<leftarrow> K[r := y]. f x) + f (K ! r) = (\<Sum>x \<leftarrow> K. f x) + f y"
proof (induction K arbitrary: r)
  case (Cons a K)
  then show ?case by (cases r) auto
qed simp

lemma work_update:
  "r < length K \<Longrightarrow> K ! r = Some s \<Longrightarrow>
    work (K[r := o']) + weight s = work K + (case o' of None \<Rightarrow> 0 | Some s' \<Rightarrow> weight s')"
  using sum_list_update_nat [of r K "\<lambda>o'. case o' of None \<Rightarrow> 0 | Some s \<Rightarrow> weight s" o'] by (simp add: work_def)

lemma budget_update:
  "r < length K \<Longrightarrow> K ! r = Some s \<Longrightarrow>
    budget (K[r := o']) + spawns s = budget K + (case o' of None \<Rightarrow> 0 | Some s' \<Rightarrow> spawns s')"
  using sum_list_update_nat [of r K "\<lambda>o'. case o' of None \<Rightarrow> 0 | Some s \<Rightarrow> spawns s" o'] by (simp add: budget_def)

lemma work_snoc: "work (K @ [Some s]) = work K + weight s"
  by (simp add: work_def)

lemma budget_snoc: "budget (K @ [Some s]) = Suc (budget K + spawns s)"
  by (simp add: budget_def)

lemma length_le_budget: "length K \<le> budget K"
  by (simp add: budget_def)

lemmas measure_simps = work_snoc budget_snoc seq_notify_measures

text \<open>A pool between two iterations of the worker, and while the fiber \<open>r\<close> runs with \<open>s\<close> left.\<close>

definition quiet :: "pool \<Rightarrow> nat \<Rightarrow> nat list \<Rightarrow> bool" where
  "quiet p m R \<longleftrightarrow> (\<exists>W g. wait_graph (conts p) R W (pl_triggers p) g None \<and> pool_rep p R W \<and>
     budget (conts p) \<le> kLocalQueueSize \<and> length W \<le> length (conts p) \<and> work (conts p) = m \<and> 0 < length (conts p))"

definition running :: "pool \<Rightarrow> nat \<Rightarrow> script \<Rightarrow> nat \<Rightarrow> bool" where
  "running p r s m \<longleftrightarrow> (\<exists>R W g. r < length (conts p) \<and>
     wait_graph ((conts p)[r := Some s]) R W (pl_triggers p) g (Some r) \<and> pool_rep p R W \<and>
     budget ((conts p)[r := Some s]) \<le> kLocalQueueSize \<and> length W \<le> length (conts p) \<and>
     work ((conts p)[r := Some s]) = m)"

text \<open>The ready list always has room for one more task that is not in it.\<close>

lemma ready_room:
  assumes "wait_graph K R W T g run" "i \<in> live K" "i \<notin> set R" "budget K \<le> n"
  shows "length R < n"
proof -
  have "set R \<subset> {..<length K}" using wg_ready [OF assms(1)] assms(2,3) by (auto simp: live_def)
  from psubset_card_mono [OF _ this] wg_distinct [OF assms(1)] have "length R < length K"
    by (simp add: distinct_card)
  then show ?thesis using assms(4) length_le_budget [of K] by simp
qed

lemma running_go:
  assumes "running p r (Go f k) m"
  shows "\<exists>p'. pool_go f p = Value p' \<and> running p' r k m"
proof -
  let ?K = "(conts p)[r := Some (Go f k)]" and ?n = "length (conts p)"
  from assms obtain R W g where
    s: "r < length (conts p)" "wait_graph ?K R W (pl_triggers p) g (Some r)" "pool_rep p R W"
      "budget ?K \<le> kLocalQueueSize" "length W \<le> ?n" "work ?K = m"
    unfolding running_def by blast
  let ?K' = "(conts p)[r := Some k] @ [Some f]"
  have g': "wait_graph ?K' (R @ [?n]) W (pl_triggers p) (g(?n := None)) (Some r)"
    using wait_graph_go [OF s(2), of f k] s(1) by simp
  have m: "work ?K' = m" "budget ?K' = budget ?K"
    using work_update [of r ?K "Go f k" "Some k"] budget_update [of r ?K "Go f k" "Some k"] s(1,6)
    by (simp_all add: measure_simps)
  let ?p = "snd (pool_alloc (new_FiberTask f) p)"
  have p: "pool_rep ?p R W" "conts ?p = conts p @ [Some f]" "fst (pool_alloc (new_FiberTask f) p) = ?n"
    "pl_triggers ?p = pl_triggers p"
    using pool_alloc_rep [OF s(3), of f] by (auto simp: pool_alloc_def)
  have "length R < kLocalQueueSize"
    using ready_room [OF s(2) _ _ s(4), of r] wait_graph_running [OF s(2)] by simp
  from pool_push_spec [OF p(1) this, of "''Push failed''" ?n] obtain q where
    q: "pool_push ''Push failed'' (Some ?n) ?p = Value (?p\<lparr>pl_tasks := q\<rparr>)" "pool_rep (?p\<lparr>pl_tasks := q\<rparr>) (R @ [?n]) W"
    by blast
  have "pool_go f p = Value (?p\<lparr>pl_tasks := q\<rparr>)" using q(1) p(3) by (simp add: pool_go_def case_prod_beta)
  moreover have "running (?p\<lparr>pl_tasks := q\<rparr>) r k m"
    unfolding running_def using s(1,4,5) g' m q(2) p
    by (intro exI [of _ "R @ [?n]"] exI [of _ W] exI [of _ "g(?n := None)"]) (simp add: list_update_append)
  ultimately show ?thesis by blast
qed

lemma running_notify:
  assumes "running p r (Notify t k) m"
  shows "\<exists>p'. notify t p = Value p' \<and> running p' r k m"
proof -
  let ?K = "(conts p)[r := Some (Notify t k)]"
  from assms obtain R W g where
    s: "r < length (conts p)" "wait_graph ?K R W (pl_triggers p) g (Some r)" "pool_rep p R W"
      "budget ?K \<le> kLocalQueueSize" "length W \<le> length (conts p)" "work ?K = m"
    unfolding running_def by blast
  from wait_graph_notify [OF s(2), of t k] s(1) obtain a w where
    a: "t = Some a" "a < length (pl_triggers p)" "pl_triggers p ! a = [int w]" "w < length W" "W ! w \<notin> set R"
      "W ! w \<in> live ?K" "wait_graph ((conts p)[r := Some k]) (R @ [W ! w]) W (pl_triggers p) (g(r := None)) (Some r)"
    by auto
  have "length R < kLocalQueueSize" using ready_room [OF s(2) a(6,5) s(4)] .
  moreover have "length W \<le> 1000" using s(4,5) length_le_budget [of ?K] by (simp add: kLocalQueueSize_def)
  ultimately obtain q where
    q: "notify t p = Value (p\<lparr>pl_tasks := q\<rparr>)" "pool_rep (p\<lparr>pl_tasks := q\<rparr>) (R @ [W ! w]) W"
    using notify_rep [OF s(3) a(2), of "[w]"] a(1,3,4) by auto
  have m: "work ((conts p)[r := Some k]) = m" "budget ((conts p)[r := Some k]) = budget ?K"
    using work_update [of r ?K "Notify t k" "Some k"] budget_update [of r ?K "Notify t k" "Some k"] s(1,6) by simp_all
  have "running (p\<lparr>pl_tasks := q\<rparr>) r k m"
    unfolding running_def using s(1,4,5) a(7) m q(2)
    by (intro exI [of _ "R @ [W ! w]"] exI [of _ W] exI [of _ "g(r := None)"]) simp
  with q(1) show ?thesis by blast
qed

text \<open>A structured fiber runs up to the point where it leaves its stack.\<close>

definition exit_point :: "script \<Rightarrow> bool" where
  "exit_point s \<longleftrightarrow> (case s of Done \<Rightarrow> True | Yield _ \<Rightarrow> True | Await_func _ _ \<Rightarrow> True | _ \<Rightarrow> False)"

lemma running_strand: "running p r s m \<Longrightarrow> \<exists>o'. strand o' s"
  using wait_graph_running(4) by (fastforce simp: running_def)

lemma run_to_exit:
  "running p r s m \<Longrightarrow> \<exists>p' s'. run_script s p = run_script s' p' \<and> exit_point s' \<and> running p' r s' m"
proof (induction s arbitrary: p)
  case (Go f k)
  from running_go [OF Go.prems] obtain p' where "pool_go f p = Value p'" "running p' r k m" by blast
  with Go.IH(2) [of p'] show ?case by simp
next
  case (Notify t k)
  from running_notify [OF Notify.prems] obtain p' where "notify t p = Value p'" "running p' r k m" by blast
  with Notify.IH [of p'] show ?case by simp
next
  case Done
  then show ?case by (intro exI [of _ p] exI [of _ Done]) (simp add: exit_point_def)
next
  case (Yield k)
  then show ?case by (intro exI [of _ p] exI [of _ "Yield k"]) (simp add: exit_point_def)
next
  case (Await_func f k)
  then show ?case by (intro exI [of _ p] exI [of _ "Await_func f k"]) (simp add: exit_point_def)
qed (use running_strand in fastforce)+


section \<open>One iteration of the worker\<close>

lemma set_routine_rep:
  assumes "pool_rep p R W" "r < length (pl_store p)"
  shows "pool_rep (set_routine r st rt p) R W"
    and "conts (set_routine r st rt p) = (conts p)[r := (case rt of NilFiber s \<Rightarrow> Some s | Suspended s \<Rightarrow> Some s | Ended \<Rightarrow> None)]"
    and "pl_triggers (set_routine r st rt p) = pl_triggers p"
  using assms set_update_subset_insert [of "pl_store p" r "(pl_store p ! r)\<lparr>tk_status := st, tk_routine := rt\<rparr>"]
  by (auto simp: set_routine_def pool_rep_def conts_def map_update cont_def)

lemma settle_done:
  assumes "running p r Done m"
  shows "\<exists>m' R. quiet (set_routine r kFinished Ended p) m' R \<and> m' < m"
proof -
  let ?K = "(conts p)[r := Some Done]"
  from assms obtain R W g where
    s: "r < length (conts p)" "wait_graph ?K R W (pl_triggers p) g (Some r)" "pool_rep p R W"
      "budget ?K \<le> kLocalQueueSize" "length W \<le> length (conts p)" "work ?K = m"
    unfolding running_def by blast
  note p = set_routine_rep [OF s(3) s(1) [simplified], of kFinished Ended, simplified]
  have "wait_graph ((conts p)[r := None]) R W (pl_triggers p) g None"
    using wait_graph_done [OF s(2)] s(1) by simp
  moreover have "work ((conts p)[r := None]) + 1 = m" "budget ((conts p)[r := None]) = budget ?K"
    using work_update [of r ?K Done None] budget_update [of r ?K Done None] s(1,6) by simp_all
  ultimately show ?thesis using s(1,4,5) p
    by (intro exI [of _ "m - 1"] exI [of _ R]) (auto simp: quiet_def)
qed

lemma settle_yield:
  assumes "running p r (Yield k) m"
  shows "\<exists>p' m' R. pool_push ''push fail'' (Some r) (set_routine r kReady (Suspended k) p) = Value p' \<and> quiet p' m' R \<and> m' < m"
proof -
  let ?K = "(conts p)[r := Some (Yield k)]" and ?p = "set_routine r kReady (Suspended k) p"
  from assms obtain R W g where
    s: "r < length (conts p)" "wait_graph ?K R W (pl_triggers p) g (Some r)" "pool_rep p R W"
      "budget ?K \<le> kLocalQueueSize" "length W \<le> length (conts p)" "work ?K = m"
    unfolding running_def by blast
  note p = set_routine_rep [OF s(3) s(1) [simplified], of kReady "Suspended k", simplified]
  have g: "wait_graph ((conts p)[r := Some k]) (R @ [r]) W (pl_triggers p) g None"
    using wait_graph_yield [OF s(2)] s(1) by simp
  have m: "work ((conts p)[r := Some k]) + 1 = m" "budget ((conts p)[r := Some k]) = budget ?K"
    using work_update [of r ?K "Yield k" "Some k"] budget_update [of r ?K "Yield k" "Some k"] s(1,6) by simp_all
  have "length R < kLocalQueueSize" using ready_room [OF s(2) _ _ s(4), of r] wait_graph_running [OF s(2)] by simp
  from pool_push_spec [OF p(1) this, of "''push fail''" r] obtain q where
    q: "pool_push ''push fail'' (Some r) ?p = Value (?p\<lparr>pl_tasks := q\<rparr>)" "pool_rep (?p\<lparr>pl_tasks := q\<rparr>) (R @ [r]) W"
    by blast
  have "quiet (?p\<lparr>pl_tasks := q\<rparr>) (m - 1) (R @ [r])"
    unfolding quiet_def using s(1,4,5) g m p q(2) by (intro exI [of _ W] exI [of _ g]) auto
  with q(1) m(1) show ?thesis
    by (intro exI [of _ "?p\<lparr>pl_tasks := q\<rparr>"] exI [of _ "m - 1"] exI [of _ "R @ [r]"]) auto
qed

text \<open>The pool after \<open>await(func)\<close> has left the fiber: a new trigger, and a new task that is not queued yet.\<close>

definition awaiting :: "nat \<Rightarrow> script \<Rightarrow> script \<Rightarrow> pool \<Rightarrow> pool" where
  "awaiting r f k p = set_routine r kWaiting (Suspended k)
     (p\<lparr>pl_triggers := pl_triggers p @ [[]],
        pl_store := pl_store p @ [new_FiberTask (seq f (Notify (Some (length (pl_triggers p))) Done))]\<rparr>)"

lemma awaiting_rep:
  assumes "pool_rep p R W" "r < length (pl_store p)"
  shows "pool_rep (awaiting r f k p) R W"
    and "conts (awaiting r f k p) = (conts p)[r := Some k] @ [Some (seq f (Notify (Some (length (pl_triggers p))) Done))]"
    and "pl_triggers (awaiting r f k p) = pl_triggers p @ [[]]"
proof -
  let ?p = "p\<lparr>pl_triggers := pl_triggers p @ [[]],
    pl_store := pl_store p @ [new_FiberTask (seq f (Notify (Some (length (pl_triggers p))) Done))]\<rparr>"
  have p: "pool_rep ?p R W" "r < length (pl_store ?p)" using assms by (auto simp: pool_rep_def new_FiberTask_def)
  from set_routine_rep [OF p, of kWaiting "Suspended k"] assms(2) show "pool_rep (awaiting r f k p) R W"
    "conts (awaiting r f k p) = (conts p)[r := Some k] @ [Some (seq f (Notify (Some (length (pl_triggers p))) Done))]"
    "pl_triggers (awaiting r f k p) = pl_triggers p @ [[]]"
    by (simp_all add: awaiting_def) (simp add: conts_def list_update_append cont_def new_FiberTask_def)
qed

lemma settle_await:
  assumes "running p r (Await_func f k) m"
  shows "\<exists>p' m' R. pool_settle r (Called kWaiting (Some (length (pl_triggers p))) (Some (length (pl_store p)))) (awaiting r f k p) =
    Value p' \<and> quiet p' m' R \<and> m' < m"
proof -
  let ?K = "(conts p)[r := Some (Await_func f k)]" and ?p = "awaiting r f k p"
  let ?n = "length (conts p)" and ?t = "length (pl_triggers p)"
  let ?K' = "(conts p)[r := Some k] @ [Some (seq f (Notify (Some ?t) Done))]"
  from assms obtain R W g where
    s: "r < ?n" "wait_graph ?K R W (pl_triggers p) g (Some r)" "pool_rep p R W"
      "budget ?K \<le> kLocalQueueSize" "length W \<le> ?n" "work ?K = m"
    unfolding running_def by blast
  note p = awaiting_rep [OF s(3) s(1) [simplified], of f k]
  have g: "wait_graph ?K' (R @ [?n]) (W @ [r]) (pl_triggers p @ [[int (length W)]]) (g(?n := Some (?t, r))) None"
    using wait_graph_await [OF s(2), of f k] s(1) by simp
  have "strand (map_option fst (g r)) (Await_func f k)" using wait_graph_running(4) [OF s(2)] s(1) by simp
  then have f: "structured f" by simp
  have m: "work ?K' + 1 = m" "budget ?K' = budget ?K"
    using work_update [of r ?K "Await_func f k" "Some k"] budget_update [of r ?K "Await_func f k" "Some k"] s(1,6)
      seq_notify_measures [OF f refl, of "Some ?t"] by (simp_all add: work_snoc budget_snoc)
  have w: "length W < 1000" using s(4,5) length_le_budget [of ?K] by (simp add: kLocalQueueSize_def)
  have h: "ps_holds (pl_wait_queue ?p) W" "ps_max_size (pl_wait_queue ?p) = 1000" using p(1) by (auto simp: pool_rep_def)
  from ps.push_law [OF h(1), of r] w h(2) obtain wq where
    wq: "ps_push (pl_wait_queue ?p) r = (int (length W), wq)" "ps_holds wq (W @ [r])" "ps_max_size wq = 1000" by auto
  let ?p1 = "?p\<lparr>pl_wait_queue := wq, pl_triggers := pl_triggers p @ [[int (length W)]]\<rparr>"
  have reg: "trigger_Register (Some ?t) (int (length W)) (?p\<lparr>pl_wait_queue := wq\<rparr>) = Value ?p1"
    using p(3) by (simp add: trigger_Register_def list_update_append)
  have p1: "pool_rep ?p1 R (W @ [r])" using p(1) wq by (simp add: pool_rep_def)
  have "length R < kLocalQueueSize" using ready_room [OF s(2) _ _ s(4), of r] wait_graph_running [OF s(2)] by simp
  from pool_push_spec [OF p1 this, of "''push fail''" ?n] obtain q where
    q: "pool_push ''push fail'' (Some ?n) ?p1 = Value (?p1\<lparr>pl_tasks := q\<rparr>)" "pool_rep (?p1\<lparr>pl_tasks := q\<rparr>) (R @ [?n]) (W @ [r])"
    by blast
  have c: "conts (?p1\<lparr>pl_tasks := q\<rparr>) = ?K'" using p(2) by (simp add: conts_def)
  have "pool_settle r (Called kWaiting (Some ?t) (Some (length (pl_store p)))) ?p = Value (?p1\<lparr>pl_tasks := q\<rparr>)"
    using wq(1) reg q(1) by (simp add: pool_settle_def)
  moreover have "quiet (?p1\<lparr>pl_tasks := q\<rparr>) (m - 1) (R @ [?n])"
    unfolding quiet_def c using s(1,4,5) g m q(2)
    by (intro exI [of _ "W @ [r]"] exI [of _ "g(?n := Some (?t, r))"]) simp
  ultimately show ?thesis using m(1) by (intro exI conjI) (assumption, assumption, simp)
qed

text \<open>The call and the switch over its result, for a fiber that is about to run.\<close>

lemma call_settle:
  assumes "running p r s m"
  shows "\<exists>c p1 p2 m' R. FiberTask_call r s p = Value (c, p1) \<and> pool_settle r c p1 = Value p2 \<and> quiet p2 m' R \<and> m' < m"
proof -
  from run_to_exit [OF assms] obtain p' s' where
    e: "run_script s p = run_script s' p'" "exit_point s'" "running p' r s' m" by blast
  then consider (fin) "s' = Done" | (yield) k where "s' = Yield k" | (await) f k where "s' = Await_func f k"
    by (auto simp: exit_point_def split: script.splits)
  then show ?thesis
  proof cases
    case fin
    with e(1) have "FiberTask_call r s p = Value (Called kFinished None None, set_routine r kFinished Ended p')"
      by (simp add: FiberTask_call_def)
    with settle_done [OF e(3) [unfolded fin]] show ?thesis by (auto simp: pool_settle_def)
  next
    case yield
    with e(1) have "FiberTask_call r s p = Value (Called kReady None None, set_routine r kReady (Suspended k) p')"
      by (simp add: FiberTask_call_def)
    with settle_yield [OF e(3) [unfolded yield]] show ?thesis by (auto simp: pool_settle_def)
  next
    case await
    with e(1) have "FiberTask_call r s p = Value (Called kWaiting (Some (length (pl_triggers p')))
        (Some (length (pl_store p'))), awaiting r f k p')"
      by (simp add: FiberTask_call_def NewTrigger_def pool_alloc_def awaiting_def)
    with settle_await [OF e(3) [unfolded await]] show ?thesis by auto
  qed
qed

lemma pool_work_step:
  assumes "quiet p m (r # R)"
  shows "\<exists>p' m' R'. pool_work 0 p = Value (True, p') \<and> quiet p' m' R' \<and> m' < m"
proof -
  from assms obtain W g where
    s: "wait_graph (conts p) (r # R) W (pl_triggers p) g None" "pool_rep p (r # R) W"
      "budget (conts p) \<le> kLocalQueueSize" "length W \<le> length (conts p)" "work (conts p) = m" "0 < length (conts p)"
    by (auto simp: quiet_def)
  from rq_pop [of "pl_tasks p" "map Some (r # R)"] s(2) obtain q where
    q: "fq_pop_hard (pl_tasks p) 0 = Value (Some (Some r), q)" "rq_rep q (map Some R)" by (auto simp: pool_rep_def)
  let ?p = "p\<lparr>pl_tasks := q\<rparr>"
  note g = wait_graph_poll [OF s(1)]
  note r = wait_graph_running [OF g]
  from r(1) obtain k where k: "conts p ! r = Some k" by (auto simp: live_def)
  then have K: "(conts p)[r := Some k] = conts p" by (metis list_update_id)
  have "pool_rep ?p R W" using s(2) q(2) by (simp add: pool_rep_def)
  then have run: "running ?p r k m"
    unfolding running_def using s(3-5) g r(2) K by (intro exI [of _ R] exI [of _ W] exI [of _ g]) simp
  from call_settle [OF run] obtain c p1 p2 m' R' where
    c: "FiberTask_call r k ?p = Value (c, p1)" "pool_settle r c p1 = Value p2" "quiet p2 m' R'" "m' < m" by blast
  have len: "r < length (pl_store p)" using r(2) by simp
  have "tk_fiber (pl_store p ! r)" using s(2) len by (simp add: pool_rep_def)
  then have "task_call (Some r) ?p = FiberTask_call r k ?p"
    using k len by (auto simp: task_call_def conts_def cont_def split: routine.splits)
  with c q(1) show ?thesis by (intro exI [of _ p2] exI [of _ m'] exI [of _ R']) (simp add: pool_work_def pool_poll_def Let_def)
qed

lemma pool_work_idle:
  assumes "quiet p m []"
  shows "\<exists>p'. pool_work 0 p = Value (False, p') \<and> quiet p' m [] \<and> conts p' = conts p \<and> live (conts p) = {}"
proof -
  from assms obtain W g where
    s: "wait_graph (conts p) [] W (pl_triggers p) g None" "pool_rep p [] W"
      "budget (conts p) \<le> kLocalQueueSize" "length W \<le> length (conts p)" "work (conts p) = m" "0 < length (conts p)"
    by (auto simp: quiet_def)
  from rq_pop [of "pl_tasks p" "[]"] s(2) obtain q where
    q: "fq_pop_hard (pl_tasks p) 0 = Value (None, q)" "rq_rep q []" by (auto simp: pool_rep_def)
  have "pool_rep (p\<lparr>pl_tasks := q\<rparr>) [] W" using s(2) q(2) by (simp add: pool_rep_def)
  with s wait_graph_no_deadlock [OF s(1)] q(1) show ?thesis
    by (intro exI [of _ "p\<lparr>pl_tasks := q\<rparr>"]) (auto simp: pool_work_def pool_poll_def Let_def quiet_def)
qed

section \<open>The main thread\<close>

text \<open>The random start index is below the number of local queues (there is at most one here).\<close>

definition start_ok :: "(pool \<Rightarrow> nat) \<Rightarrow> bool" where
  "start_ok start \<longleftrightarrow> (\<forall>p. start p < max 1 (nat (fq_queue_count (pl_tasks p))))"

lemma start_zero_rep:
  assumes "start_ok start" "pool_rep p R W"
  shows "start p = 0"
proof -
  have "rq_rep (pl_tasks p) (map Some R)" using assms(2) by (simp add: pool_rep_def)
  then have "fq_wf (pl_tasks p)" "length (fq_heap (pl_tasks p)) \<le> 1"
    by (auto simp: rq_rep_def fq_view_def split: if_splits)
  then have "fq_queue_count (pl_tasks p) \<le> 1" by (simp add: fq_queue_count_def fq_size)
  moreover have "start p < max 1 (nat (fq_queue_count (pl_tasks p)))" using assms(1) by (simp add: start_ok_def)
  ultimately show ?thesis by simp
qed

lemma start_zero: "start_ok start \<Longrightarrow> quiet p m R \<Longrightarrow> start p = 0"
  by (auto simp: quiet_def intro: start_zero_rep)

lemma live_empty_ended: "live (conts p) = {} \<Longrightarrow> t < length (pl_store p) \<Longrightarrow> task_ended t p"
  by (auto simp: live_def conts_def cont_def task_ended_def split: routine.splits)

lemma as_machine_returns:
  assumes "start_ok start" "0 < limit" "quiet p m R" "rc \<le> limit" "m + limit < fuel + rc" "R \<noteq> [] \<longrightarrow> rc = 0"
  shows "\<exists>n p'. as_machine fuel start limit 0 rc tc p = Some (Value (n, p')) \<and> live (conts p') = {} \<and>
    (\<exists>m. quiet p' m [])"
  using assms(3-)
proof (induction fuel arbitrary: p m R rc tc)
  case 0
  then show ?case by simp
next
  case (Suc fuel)
  have z: "start p = 0" using start_zero [OF assms(1) Suc.prems(1)] .
  show ?case
  proof (cases R)
    case Nil
    from pool_work_idle [OF Suc.prems(1) [unfolded Nil]] obtain p' where
      p': "pool_work 0 p = Value (False, p')" "quiet p' m []" "conts p' = conts p" "live (conts p) = {}" by blast
    have "0 < length (pl_store p)" using Suc.prems(1) by (auto simp: quiet_def)
    then have e: "task_ended 0 p" using live_empty_ended [OF p'(4)] by blast
    show ?thesis
    proof (cases "rc < limit")
      case True
      then have "Suc rc \<le> limit" "m + limit < fuel + Suc rc" using Suc.prems(3) by auto
      from Suc.IH [OF p'(2) this, of tc] show ?thesis using z True p'(1) by simp
    next
      case False
      with e p'(4) Suc.prems(1) Nil show ?thesis by auto
    qed
  next
    case (Cons r R')
    from pool_work_step [OF Suc.prems(1) [unfolded Cons]] obtain p' m' R1 where
      p': "pool_work 0 p = Value (True, p')" "quiet p' m' R1" "m' < m" by blast
    have "m' + limit < fuel + 0" using Suc.prems(3,4) Cons p'(3) by simp
    from Suc.IH [OF p'(2) _ this, of "Suc tc"] show ?thesis using z p'(1) Suc.prems(4) Cons assms(2) by simp
  qed
qed

text \<open>The pool that \<open>entry.cc\<close> starts with.\<close>

lemma go_new:
  "\<exists>p. pool_go s pool_new = Value p \<and> pool_rep p [0] [] \<and> conts p = [Some s] \<and> pl_triggers p = [] \<and> pl_timers p = []"
proof -
  let ?p = "snd (pool_alloc (new_FiberTask s) pool_new)"
  have p: "pool_rep ?p [] []" "conts ?p = [Some s]" "pl_triggers ?p = []" "pl_timers ?p = []"
    using pool_alloc_rep [OF pool_rep_new, of s] by (auto simp: conts_def pool_new_def pool_alloc_def)
  from pool_push_spec [OF p(1), of "''Push failed''" 0] obtain q where
    q: "pool_push ''Push failed'' (Some 0) ?p = Value (?p\<lparr>pl_tasks := q\<rparr>)" "pool_rep (?p\<lparr>pl_tasks := q\<rparr>) [0] []"
    by (auto simp: kLocalQueueSize_def)
  have "pool_go s pool_new = Value (?p\<lparr>pl_tasks := q\<rparr>)"
    using q(1) by (simp add: pool_go_def pool_alloc_def pool_new_def)
  with p q(2) show ?thesis by auto
qed

lemma quiet_go:
  assumes "structured s" "Suc (spawns s) \<le> kLocalQueueSize"
  shows "\<exists>p. pool_go s pool_new = Value p \<and> quiet p (weight s) [0]"
proof -
  from go_new [of s] obtain p where
    p: "pool_go s pool_new = Value p" "pool_rep p [0] []" "conts p = [Some s]" "pl_triggers p = []" by blast
  have "wait_graph [Some s] [0] [] [] (\<lambda>_. None) None"
    using assms(1) by (auto simp: wait_graph_def live_def)
  with assms(2) p have "quiet p (weight s) [0]"
    unfolding quiet_def by (intro exI [of _ "[]"] exI [of _ "\<lambda>_. None"]) (simp add: budget_def work_def)
  with p(1) show ?thesis by blast
qed

lemma rq_rep_count: "rq_rep q xs \<Longrightarrow> fq_element_count q = Value (length xs)"
proof -
  assume q: "rq_rep q xs"
  have wf: "fq_wf q" "concat (fq_view q) = xs" "length (fq_heap q) \<le> kQueueMaxCount"
    using q by (auto simp: rq_rep_def fq_view_def kQueueMaxCount_def split: if_splits)
  then show ?thesis using fq_count_from_spec [OF wf(1,3), of 0 0] fq_size [OF wf(1)] by (simp add: fq_element_count_def)
qed

section \<open>Properties\<close>

text \<open>
  C1 (liveness). A program whose fibers use \<open>yield\<close>, \<open>go\<close> and \<open>await(func)\<close> in any nesting, with at most
  \<open>kLocalQueueSize\<close> tasks in all, runs to its end on the main thread alone: \<open>main\<close> returns after at most
  \<open>weight\<close> scheduling steps and 5000 empty polls, every task has ended, nothing is left in the queue and no
  push has failed. In particular every \<open>await(func)\<close> is woken exactly once.
\<close>

theorem entry_main_returns:
  assumes "structured s" "Suc (spawns s) \<le> kLocalQueueSize" "start_ok start" "weight s + 5000 < fuel"
  shows "\<exists>n p. entry_main fuel start s = Some (Value (n, p)) \<and> (\<forall>t < length (pl_store p). task_ended t p) \<and>
    pl_log p = [] \<and> fq_element_count (pl_tasks p) = Value 0"
proof -
  from quiet_go [OF assms(1,2)] obtain p where p: "pool_go s pool_new = Value p" "quiet p (weight s) [0]" by blast
  from as_machine_returns [OF assms(3) _ p(2), where limit = 5000 and rc = 0 and fuel = fuel and tc = 0] assms(4) obtain n p' m where
    p': "as_machine fuel start 5000 0 0 0 p = Some (Value (n, p'))" "live (conts p') = {}" "quiet p' m []" by auto
  then have q: "rq_rep (pl_tasks p') []" "pl_log p' = []" by (auto simp: quiet_def pool_rep_def)
  have "fq_element_count (pl_tasks p') = Value 0" using rq_rep_count [OF q(1)] by simp
  with p p'(1) q(2) live_empty_ended [OF p'(2)] show ?thesis by (auto simp: entry_main_def)
qed

theorem entry_main_returns_witness:
  "\<exists>n p. entry_main 6000 (\<lambda>_. 0) (Await_func (Yield (Await_func Done Done)) (Go (Yield Done) Done)) = Some (Value (n, p)) \<and>
     pl_log p = []"
proof -
  have s: "structured (Await_func (Yield (Await_func Done Done)) (Go (Yield Done) Done))"
    "Suc (spawns (Await_func (Yield (Await_func Done Done)) (Go (Yield Done) Done))) \<le> kLocalQueueSize"
    "start_ok (\<lambda>_. 0)"
    "weight (Await_func (Yield (Await_func Done Done)) (Go (Yield Done) Done)) + 5000 < 6000"
    by (simp_all add: kLocalQueueSize_def start_ok_def less_max_iff_disj)
  from entry_main_returns [OF s] show ?thesis by blast
qed

text \<open>
  C14 (functional). \<open>notify\<close> on a trigger whose waiters hold valid wait-queue tokens resubmits each of them,
  in the order in which they registered, behind what is already queued, and logs nothing; it leaves the
  list of waiters as it was. A null trigger is ignored.
\<close>

theorem notify_spec:
  assumes "pool_rep p R W" "a < length (pl_triggers p)" "pl_triggers p ! a = map int ids"
    and "\<forall>i \<in> set ids. i < length W" "length W \<le> 1000" "length R + length ids \<le> kLocalQueueSize"
  shows "\<exists>p'. notify (Some a) p = Value p' \<and> pool_rep p' (R @ map ((!) W) ids) W \<and>
    pl_triggers p' = pl_triggers p \<and> pl_store p' = pl_store p \<and> notify None p = Value p"
proof -
  from notify_rep [OF assms] obtain q where
    "notify (Some a) p = Value (p\<lparr>pl_tasks := q\<rparr>)" "pool_rep (p\<lparr>pl_tasks := q\<rparr>) (R @ map ((!) W) ids) W" by blast
  then show ?thesis by (intro exI [of _ "p\<lparr>pl_tasks := q\<rparr>"]) (simp add: notify_def)
qed

lemma pool_rep_parked:
  "\<exists>wq. pool_rep (pool_new\<lparr>pl_wait_queue := wq, pl_triggers := [[0, 1]]\<rparr>) [] [7, 4]"
proof -
  let ?empty = "ps_new 1000 kUnitSize :: nat push_stack" and ?w = "push_all ps_push (ps_new 1000 kUnitSize) [7, 4 :: nat]"
  have h: "ps_holds ?empty []" by (rule ps_holds_new) (simp_all add: kUnitSize_def)
  have "ps_holds ?w ([] @ [7, 4]) \<and> ps_max_size ?w = ps_max_size ?empty"
    using ps.push_all_holds [OF h, of "[7, 4]"] by simp
  then have "ps_holds ?w [7, 4]" "ps_max_size ?w = 1000" by (simp_all add: ps_new_def [of 1000])
  then show ?thesis using pool_rep_new by (intro exI [of _ ?w]) (auto simp: pool_rep_def)
qed

theorem notify_spec_witness:
  "\<exists>p p'. pool_rep p [] [7, 4] \<and> notify (Some 0) p = Value p' \<and> pool_rep p' [7, 4] [7, 4]"
proof -
  from pool_rep_parked obtain wq where
    p: "pool_rep (pool_new\<lparr>pl_wait_queue := wq, pl_triggers := [[0, 1]]\<rparr>) [] [7, 4]" by blast
  from notify_spec [OF p, of 0 "[0, 1]"] p show ?thesis by (auto simp: kLocalQueueSize_def)
qed

definition notify_twice :: script where
  "notify_twice = New_trigger (\<lambda>t. Go (Await (Some t) Done) (Yield (Notify (Some t) (Yield (Notify (Some t) Done)))))"

text \<open>
  The waiters of a trigger are never removed, so a second \<open>notify\<close> resubmits a fiber that has
  ended meanwhile, and the worker that calls it switches to a finished fiber: a program of two fibers in
  which one awaits a trigger and the other notifies it twice.
\<close>

lemma notify_twice_undefined:
  "(case entry_main 20 (\<lambda>_. 0) notify_twice of Some Undefined \<Rightarrow> True | _ \<Rightarrow> False)"
  by code_simp




text \<open>
  C30 (error). The wait queue never shrinks. Once it has taken its 1000 entries, a fiber that awaits is
  registered under the token -1, and \<open>notify\<close> gives up at it with a message: neither it nor the waiters
  after it are woken.
\<close>

theorem wait_queue_exhausted:
  assumes "pool_rep p R W" "1000 \<le> length W" "Suc (length W) < 2 ^ 32" "t < length (pl_triggers p)"
    and "pl_triggers p ! t = []"
  shows "\<exists>p1 p2. pool_settle r (Called kWaiting (Some t) None) p = Value p1 \<and> pl_triggers p1 ! t = [- 1] \<and>
    notify (Some t) p1 = Value p2 \<and> pl_log p2 = [''wait queue fail''] \<and> rq_rep (pl_tasks p2) (map Some R)"
proof -
  have p: "rq_rep (pl_tasks p) (map Some R)" "ps_holds (pl_wait_queue p) W" "ps_max_size (pl_wait_queue p) = 1000"
    "pl_log p = []" using assms(1) by (auto simp: pool_rep_def)
  from ps.push_law [OF p(2) assms(3), of r] p(3) assms(2) obtain wq where
    wq: "ps_push (pl_wait_queue p) r = (- 1, wq)" "ps_holds wq (W @ [r])" by auto
  let ?p1 = "p\<lparr>pl_wait_queue := wq, pl_triggers := (pl_triggers p)[t := [- 1]]\<rparr>"
  have s: "pool_settle r (Called kWaiting (Some t) None) p = Value ?p1"
    using wq(1) assms(4,5) by (simp add: pool_settle_def trigger_Register_def)
  from rq_acquire [OF p(1)] obtain s where s1: "ph_new (pl_tasks p) = Value s" "rq_use s (map Some R)" by blast
  from rq_release [OF s1(2)] obtain q where q: "ph_destroy s = Value q" "rq_rep q (map Some R)" by blast
  have "ps_get wq (- 1) = Value None" using wq(2) by (intro ps_get_minus_one) (simp add: ps_holds_def)
  with s1(1) q(1) assms(4) p(4) have
    "notify (Some t) ?p1 = Value (?p1\<lparr>pl_tasks := q, pl_log := [''wait queue fail'']\<rparr>)"
    by (simp add: notify_def)
  with s q(2) assms(4) show ?thesis by (intro exI [of _ ?p1] exI conjI) (assumption | simp)+
qed

lemma pool_rep_exhausted:
  "\<exists>wq. pool_rep (pool_new\<lparr>pl_wait_queue := wq, pl_triggers := [[]]\<rparr>) [] (replicate 1000 7)"
proof -
  let ?empty = "ps_new 1000 kUnitSize :: nat push_stack"
  let ?w = "push_all ps_push ?empty (replicate 1000 7)"
  have h: "ps_holds ?empty []" by (rule ps_holds_new) (simp_all add: kUnitSize_def)
  have "ps_holds ?w (replicate 1000 7)" "ps_max_size ?w = ps_max_size ?empty"
    using ps.push_all_holds [OF h, of "replicate 1000 7"] by auto
  then show ?thesis using pool_rep_new by (intro exI [of _ ?w]) (auto simp: pool_rep_def ps_new_def [of 1000 kUnitSize])
qed

theorem wait_queue_exhausted_witness:
  "\<exists>p p1 p2. pool_settle 3 (Called kWaiting (Some 0) None) p = Value p1 \<and> notify (Some 0) p1 = Value p2 \<and>
     pl_log p2 = [''wait queue fail'']"
proof -
  from pool_rep_exhausted obtain wq where
    p: "pool_rep (pool_new\<lparr>pl_wait_queue := wq, pl_triggers := [[]]\<rparr>) [] (replicate 1000 7)" by blast
  from wait_queue_exhausted [OF p, of 0 3] show ?thesis by auto
qed

end
