(* ===== verification/Pool_Workers.thy ===== *)
theory Pool_Workers
  imports Coroutine_Props
begin

text \<open>
  Several worker threads on one pool. What is one action here: \<open>pop_hard\<close> with the switch to the fiber;
  one call of the running code into the library; and each of the actions by which the worker puts the fiber away,
  that is the resubmission of a ready fiber, the push to the wait queue, the registration in the trigger and the submission
  of an awaited task. An action that calls the ready queue takes two steps, one to enter the queue and one to leave it, and other workers may run in between. The
  ready queue allows only one consumer at a time (see \<open>Local_Queue_Conc\<close>, where two consumers race), and its sequential model stands for it only
  while no two calls overlap: entering it while another thread is inside is \<open>Undefined\<close>, and the properties are about the schedules in which
  calls stay apart. The wait queue and the triggers need no such condition (\<open>Push_Stack_Conc\<close>, and the lock of a trigger).
\<close>

section \<open>Workers\<close>

text \<open>
  Where a worker is: it looks for a task, it runs one with a script left, \<open>call()\<close> has returned, it has the index of the
  waiting fiber and has to register it, it has to submit the awaited task.
\<close>

datatype phase =
    Free
  | Runs nat script
  | Settles nat called
  | Registers int "nat option" "nat option"
  | Submits nat

text \<open>What the schedule may do: a step of a worker, or a step of the callback of a pending timer.\<close>

datatype action = Step nat | Fire nat

text \<open>\<open>wk_inside\<close> is who is inside a call of the ready queue.\<close>

record workers =
  wk_pool :: pool
  wk_phases :: "phase list"
  wk_inside :: "action option"

definition workers_new :: "nat \<Rightarrow> pool \<Rightarrow> workers" where
  "workers_new n p = \<lparr>wk_pool = p, wk_phases = replicate n Free, wk_inside = None\<rparr>"

text \<open>A fiber leaves its stack (see \<open>FiberTask_call\<close> and \<open>FunctionTask_call\<close>).\<close>

definition leave :: "nat \<Rightarrow> switch \<Rightarrow> pool \<Rightarrow> (phase \<times> pool) outcome" where
  "leave t e p =
     (if tk_fiber (pl_store p ! t) then Value (case e of
          Returned \<Rightarrow> (Settles t (Called kFinished None None), set_routine t kFinished Ended p)
        | Yielded k \<Rightarrow> (Settles t (Called kReady None None), set_routine t kReady (Suspended k) p)
        | Waits trigger wait_for_task k \<Rightarrow>
            (Settles t (Called kWaiting trigger wait_for_task), set_routine t kWaiting (Suspended k) p))
      else (case e of Returned \<Rightarrow> Value (Settles t (Called kFinished None None), p) | _ \<Rightarrow> Undefined))"

text \<open>The next library call of a running task.\<close>

fun script_step :: "nat \<Rightarrow> script \<Rightarrow> pool \<Rightarrow> (phase \<times> pool) outcome" where
  "script_step t Done p = leave t Returned p"
| "script_step t (Yield k) p = leave t (Yielded k) p"
| "script_step t (Await a k) p = leave t (Waits a None k) p"
| "script_step t (Await_seconds k) p = (case NewTrigger p of (temp, p) \<Rightarrow>
     leave t (Waits (Some temp) None k) (AsyncTimer_await temp p))"
| "script_step t (Await_func f k) p = (case NewTrigger p of (temp, p) \<Rightarrow>
     case pool_alloc (new_FiberTask (seq f (Notify (Some temp) Done))) p of (c, p) \<Rightarrow>
     leave t (Waits (Some temp) (Some c) k) p)"
| "script_step t (Notify a k) p = obind (notify a p) (\<lambda>p. Value (Runs t k, p))"
| "script_step t (Go f k) p = obind (pool_go f p) (\<lambda>p. Value (Runs t k, p))"
| "script_step t (Submit f k) p = obind (pool_submit f p) (\<lambda>p. Value (Runs t k, p))"
| "script_step t (New_trigger f) p = (case NewTrigger p of (a, p) \<Rightarrow> Value (Runs t (f a), p))"

text \<open>
  The call of a task that was popped. Switching to a fiber that another thread is running is undefined, as is
  switching to one that has ended.
\<close>

definition is_running :: "phase list \<Rightarrow> nat \<Rightarrow> bool" where
  "is_running ph t \<longleftrightarrow> (\<exists>x \<in> set ph. case x of Runs t' _ \<Rightarrow> t' = t | _ \<Rightarrow> False)"

definition begin_call :: "phase list \<Rightarrow> nat option \<Rightarrow> pool \<Rightarrow> (phase \<times> pool) outcome" where
  "begin_call ph current p = (case current of None \<Rightarrow> Undefined
     | Some t \<Rightarrow> obind (vec_get (pl_store p) (int t)) (\<lambda>tk.
         if tk_fiber tk \<and> is_running ph t then Undefined
         else case tk_routine tk of
             NilFiber f \<Rightarrow> Value (Runs t f, p)
           | Suspended k \<Rightarrow> Value (Runs t k, p)
           | Ended \<Rightarrow> Undefined))"

fun settle_step :: "nat \<Rightarrow> called \<Rightarrow> pool \<Rightarrow> (phase \<times> pool) outcome" where
  "settle_step current (Called st trigger wait_for_task) p =
     (case st of
        kReady \<Rightarrow> obind (pool_push ''push fail'' (Some current) p) (\<lambda>p. Value (Free, p))
      | kWaiting \<Rightarrow> (case ps_push (pl_wait_queue p) current of (wid, wq) \<Rightarrow>
          Value (Registers wid trigger wait_for_task, p\<lparr>pl_wait_queue := wq\<rparr>))
      | _ \<Rightarrow> Value (Free, p))"

fun phase_step :: "(pool \<Rightarrow> nat) \<Rightarrow> phase list \<Rightarrow> phase \<Rightarrow> pool \<Rightarrow> (phase \<times> pool) outcome" where
  "phase_step start ph Free p = obind (fq_pop_hard (pl_tasks p) (start p)) (\<lambda>(r, q).
     let p = p\<lparr>pl_tasks := q\<rparr> in
     case r of None \<Rightarrow> Value (Free, p) | Some current \<Rightarrow> begin_call ph current p)"
| "phase_step start ph (Runs t s) p = script_step t s p"
| "phase_step start ph (Settles t c) p = settle_step t c p"
| "phase_step start ph (Registers wid trigger wait_for_task) p = obind (trigger_Register trigger wid p) (\<lambda>p.
     Value (case wait_for_task of None \<Rightarrow> Free | Some c \<Rightarrow> Submits c, p))"
| "phase_step start ph (Submits c) p = obind (pool_push ''push fail'' (Some c) p) (\<lambda>p. Value (Free, p))"

text \<open>The action that is next for a worker or a timer, as a whole.\<close>

fun workers_do :: "(pool \<Rightarrow> nat) \<Rightarrow> action \<Rightarrow> workers \<Rightarrow> workers outcome" where
  "workers_do start (Step w) S = obind (phase_step start (wk_phases S) (wk_phases S ! w) (wk_pool S)) (\<lambda>(x, p).
     Value (S\<lparr>wk_pool := p, wk_phases := (wk_phases S)[w := x]\<rparr>))"
| "workers_do start (Fire t) S = (if t \<in> set (pl_timers (wk_pool S))
     then obind (timer_callback t (wk_pool S)) (\<lambda>p. Value (S\<lparr>wk_pool := p\<rparr>)) else Value S)"

text \<open>Whether it calls the ready queue: to look for a task, in \<open>notify\<close>, \<open>go\<close> and \<open>submit\<close>, to resubmit a fiber or to submit an awaited task.\<close>

fun uses_queue :: "phase \<Rightarrow> bool" where
  "uses_queue Free = True"
| "uses_queue (Runs t s) = (case s of Notify a k \<Rightarrow> True | Go f k \<Rightarrow> True | Submit f k \<Rightarrow> True | _ \<Rightarrow> False)"
| "uses_queue (Settles t (Called st trigger c)) = (st = kReady)"
| "uses_queue (Registers wid trigger c) = False"
| "uses_queue (Submits c) = True"

fun calls_queue :: "action \<Rightarrow> workers \<Rightarrow> bool" where
  "calls_queue (Step w) S = uses_queue (wk_phases S ! w)"
| "calls_queue (Fire t) S = (t \<in> set (pl_timers (wk_pool S)))"

definition workers_act :: "(pool \<Rightarrow> nat) \<Rightarrow> action \<Rightarrow> workers \<Rightarrow> workers outcome" where
  "workers_act start a S =
     (if calls_queue a S then
        case wk_inside S of
          None \<Rightarrow> Value (S\<lparr>wk_inside := Some a\<rparr>)
        | Some b \<Rightarrow> if b = a then obind (workers_do start a S) (\<lambda>S. Value (S\<lparr>wk_inside := None\<rparr>)) else Undefined
      else workers_do start a S)"

fun workers_exec :: "(pool \<Rightarrow> nat) \<Rightarrow> action list \<Rightarrow> workers \<Rightarrow> workers outcome" where
  "workers_exec start [] S = Value S"
| "workers_exec start (a # acts) S = obind (workers_act start a S) (\<lambda>S. workers_exec start acts S)"

text \<open>The schedules in which nobody enters the ready queue while another one is inside.\<close>

fun calls_apart :: "(pool \<Rightarrow> nat) \<Rightarrow> action list \<Rightarrow> workers \<Rightarrow> bool" where
  "calls_apart start [] S \<longleftrightarrow> True"
| "calls_apart start (a # acts) S \<longleftrightarrow> (calls_queue a S \<longrightarrow> wk_inside S = None \<or> wk_inside S = Some a) \<and>
     (case workers_act start a S of Value S \<Rightarrow> calls_apart start acts S | Undefined \<Rightarrow> True)"

definition is_free :: "phase \<Rightarrow> bool" where
  "is_free x \<longleftrightarrow> (case x of Free \<Rightarrow> True | _ \<Rightarrow> False)"

text \<open>The timer that \<open>await(seconds)\<close> starts may fire before the fiber is registered, and the wake-up is then lost.\<close>

lemma timer_lost:
  "case obind (pool_go (Await_seconds Done) pool_new) (\<lambda>p.
      workers_exec (\<lambda>_. 0) [Step 0, Step 0, Step 0, Fire 0, Fire 0, Step 0, Step 0, Fire 0, Step 0, Step 0, Step 1, Step 1] (workers_new 2 p)) of
     Undefined \<Rightarrow> False
   | Value S \<Rightarrow> list_all is_free (wk_phases S) \<and> \<not> task_ended 0 (wk_pool S) \<and> pl_timers (wk_pool S) = [] \<and>
       fq_element_count (pl_tasks (wk_pool S)) = Value 0 \<and> pl_log (wk_pool S) = []"
  by code_simp

section \<open>The invariant\<close>

text \<open>
  The tasks a worker carries: they are live and nobody else has them. The workers are a multiset here, so that a step replaces
  one element \<open>x\<close> of \<open>add_mset x P\<close>.
\<close>

fun carries :: "phase \<Rightarrow> nat list" where
  "carries Free = []"
| "carries (Runs t s) = [t]"
| "carries (Settles t (Called st trigger c)) = (if st = kFinished then [] else [t]) @ (case c of None \<Rightarrow> [] | Some c \<Rightarrow> [c])"
| "carries (Registers wid trigger c) = (case c of None \<Rightarrow> [] | Some c \<Rightarrow> [c])"
| "carries (Submits c) = [c]"

abbreviation parks :: "nat \<Rightarrow> nat \<Rightarrow> nat \<Rightarrow> phase" where
  "parks i a c \<equiv> Settles i (Called kWaiting (Some a) (Some c))"

abbreviation enrols :: "nat \<Rightarrow> nat \<Rightarrow> nat \<Rightarrow> phase" where
  "enrols n a c \<equiv> Registers (int n) (Some a) (Some c)"

definition tokens :: "nat list \<Rightarrow> phase multiset \<Rightarrow> nat multiset" where
  "tokens R P = mset R + (\<Sum>x \<in># P. mset (carries x))"

text \<open>
  How far the wait of \<open>i\<close> for \<open>c\<close> on the trigger \<open>a\<close> has come: \<open>call()\<close> has returned, \<open>i\<close> is on the wait queue, it is
  registered. In the last two nobody has \<open>i\<close>; before the last, \<open>c\<close> is not queued.
\<close>

definition stage :: "nat list \<Rightarrow> nat list \<Rightarrow> int list list \<Rightarrow> phase multiset \<Rightarrow> nat \<Rightarrow> nat \<Rightarrow> nat \<Rightarrow> bool" where
  "stage R W T P c a i \<longleftrightarrow> T ! a = [] \<and> parks i a c \<in># P \<or>
     i \<notin># tokens R P \<and> (\<exists>n < length W. W ! n = i \<and> (T ! a = [int n] \<and> (\<forall>m. enrols m a c \<notin># P) \<or> T ! a = [] \<and> enrols n a c \<in># P))"

fun phase_ok :: "script option list \<Rightarrow> nat list \<Rightarrow> (nat \<rightharpoonup> nat \<times> nat) \<Rightarrow> phase \<Rightarrow> bool" where
  "phase_ok K W g (Runs t s) \<longleftrightarrow> K ! t = Some s"
| "phase_ok K W g (Settles i (Called st trigger c)) \<longleftrightarrow> (case st of
     kWaiting \<Rightarrow> (\<exists>a c'. trigger = Some a \<and> c = Some c' \<and> g c' = Some (a, i))
   | kUnknown \<Rightarrow> False
   | _ \<Rightarrow> trigger = None \<and> c = None)"
| "phase_ok K W g (Registers wid trigger c) \<longleftrightarrow> (\<exists>n a c'. wid = int n \<and> n < length W \<and> trigger = Some a \<and> c = Some c' \<and> g c' = Some (a, W ! n))"
| "phase_ok K W g _ \<longleftrightarrow> True"

definition fleet :: "script option list \<Rightarrow> nat list \<Rightarrow> nat list \<Rightarrow> int list list \<Rightarrow> (nat \<rightharpoonup> nat \<times> nat) \<Rightarrow> phase multiset \<Rightarrow> bool" where
  "fleet K R W T g P \<longleftrightarrow>
     (\<forall>i. count (tokens R P) i \<le> 1) \<and> set_mset (tokens R P) \<subseteq> live K \<and> (\<forall>x \<in># P. phase_ok K W g x) \<and>
     (\<forall>c \<in> live K. strand (map_option fst (g c)) (the (K ! c))) \<and>
     (\<forall>c \<in> live K. \<forall>a i. g c = Some (a, i) \<longrightarrow> i < c \<and> i \<in> live K \<and> a < length T \<and> stage R W T P c a i) \<and>
     (\<forall>c \<in> live K. \<forall>c' \<in> live K. \<forall>a i a' i'. g c = Some (a, i) \<longrightarrow> g c' = Some (a', i') \<longrightarrow> a = a' \<or> i = i' \<longrightarrow> c = c') \<and>
     (\<forall>i \<in> live K. i \<in># tokens R P \<or> (\<exists>c \<in> live K. \<exists>a. g c = Some (a, i)))"

lemma fleetI:
  assumes "\<And>i. count (tokens R P) i \<le> 1" "\<And>i. i \<in># tokens R P \<Longrightarrow> i \<in> live K" "\<And>x. x \<in># P \<Longrightarrow> phase_ok K W g x"
    and "\<And>c. c \<in> live K \<Longrightarrow> strand (map_option fst (g c)) (the (K ! c))"
    and "\<And>c a i. c \<in> live K \<Longrightarrow> g c = Some (a, i) \<Longrightarrow> i < c \<and> i \<in> live K \<and> a < length T \<and> stage R W T P c a i"
    and "\<And>c c' a i a' i'. c \<in> live K \<Longrightarrow> c' \<in> live K \<Longrightarrow> g c = Some (a, i) \<Longrightarrow> g c' = Some (a', i') \<Longrightarrow> a = a' \<or> i = i' \<Longrightarrow> c = c'"
    and "\<And>i. i \<in> live K \<Longrightarrow> i \<in># tokens R P \<or> (\<exists>c \<in> live K. \<exists>a. g c = Some (a, i))"
  shows "fleet K R W T g P"
  using assms unfolding fleet_def by blast

lemma fleetD:
  assumes "fleet K R W T g P"
  shows fl_once: "count (tokens R P) i \<le> 1"
    and fl_live: "i \<in># tokens R P \<Longrightarrow> i \<in> live K"
    and fl_phase: "x \<in># P \<Longrightarrow> phase_ok K W g x"
    and fl_strand: "c \<in> live K \<Longrightarrow> strand (map_option fst (g c)) (the (K ! c))"
    and fl_stage: "c \<in> live K \<Longrightarrow> g c = Some (a, i) \<Longrightarrow> i < c \<and> i \<in> live K \<and> a < length T \<and> stage R W T P c a i"
    and fl_unique: "c \<in> live K \<Longrightarrow> c' \<in> live K \<Longrightarrow> g c = Some (a, i) \<Longrightarrow> g c' = Some (a', i') \<Longrightarrow> a = a' \<or> i = i' \<Longrightarrow> c = c'"
    and fl_cover: "i \<in> live K \<Longrightarrow> i \<in># tokens R P \<or> (\<exists>c \<in> live K. \<exists>a. g c = Some (a, i))"
  using assms unfolding fleet_def by blast+

lemma tokens_add [simp]: "tokens R (add_mset x P) = mset (carries x) + tokens R P"
  by (simp add: tokens_def)

lemma tokens_snoc [simp]: "tokens (R @ [i]) P = add_mset i (tokens R P)"
  by (simp add: tokens_def)

lemma tokens_cons [simp]: "tokens (i # R) P = add_mset i (tokens R P)"
  by (simp add: tokens_def)

lemma in_tokens: "i \<in># tokens R P \<longleftrightarrow> i \<in> set R \<or> (\<exists>x \<in># P. i \<in> set (carries x))"
  by (auto simp: tokens_def)

text \<open>What a wait needs of a step that does not concern it.\<close>

lemma stage_step:
  assumes "stage R W T (add_mset x P) c a i" "\<And>i c. x \<noteq> parks i a c" "\<And>n c. x \<noteq> enrols n a c" "T' ! a = T ! a"
    and "i \<notin># tokens R (add_mset x P) \<Longrightarrow> i \<notin># tokens R' (add_mset y P)" "\<exists>W1. W' = W @ W1" "\<And>n. y \<noteq> enrols n a c"
  shows "stage R' W' T' (add_mset y P) c a i"
  using assms unfolding stage_def by (fastforce simp: nth_append)

lemma fleet_no_deadlock:
  assumes "fleet K [] W T g P" "\<And>x. x \<in># P \<Longrightarrow> x = Free"
  shows "live K = {}"
proof (rule ccontr)
  assume ne: "live K \<noteq> {}"
  have fin: "finite (live K)" by (simp add: live_def)
  have "i \<notin># tokens [] P" for i using assms(2) by (force simp: in_tokens)
  with fl_cover [OF assms(1) Max_in [OF fin ne]] obtain c a where c: "c \<in> live K" "g c = Some (a, Max (live K))" by auto
  from fl_stage [OF assms(1) this] Max_ge [OF fin c(1)] show False by simp
qed

text \<open>A worker hands its tasks over without ending or starting a wait.\<close>

lemma fleet_move:
  assumes f: "fleet K R W T g (add_mset x P)" and "tokens R' (add_mset y P) = tokens R (add_mset x P)" "phase_ok K W g y"
    and "\<And>i a c. x \<noteq> parks i a c" "\<And>n a c. x \<noteq> enrols n a c" "\<And>n a c. y \<noteq> enrols n a c"
  shows "fleet K R' W T g (add_mset y P)"
proof (rule fleetI, unfold assms(2))
  show "i < c \<and> i \<in> live K \<and> a < length T \<and> stage R' W T (add_mset y P) c a i" if "c \<in> live K" "g c = Some (a, i)" for c a i
    using fl_stage [OF f that] assms(2,4-6) stage_step [of R W T x P c a i T R' y W] by simp
qed (use assms(3) fl_once [OF f] fl_live [OF f] fl_phase [OF f] fl_strand [OF f] fl_unique [OF f] fl_cover [OF f] in auto)

text \<open>A running task: nobody waits for its being put away, and who waits for it is registered.\<close>

lemma fleet_running:
  assumes f: "fleet K R W T g (add_mset (Runs r s) P)"
  shows "r \<in> live K" "r < length K" "K ! r = Some s" "r \<notin># tokens R P" "strand (map_option fst (g r)) s"
    and "\<And>c a i. c \<in> live K \<Longrightarrow> g c = Some (a, i) \<Longrightarrow> i \<noteq> r"
    and "\<And>a i. g r = Some (a, i) \<Longrightarrow> i \<notin># tokens R P \<and> (\<exists>n < length W. W ! n = i \<and> T ! a = [int n])"
proof -
  show r: "r \<in> live K" "K ! r = Some s" using fl_live [OF f, of r] fl_phase [OF f, of "Runs r s"] by simp_all
  show "r < length K" "strand (map_option fst (g r)) s" using r fl_strand [OF f r(1)] by (auto simp: live_def)
  show n: "r \<notin># tokens R P" using fl_once [OF f, of r] by (simp add: count_eq_zero_iff [symmetric])
  show "i \<noteq> r" if "c \<in> live K" "g c = Some (a, i)" for c a i
    using fl_stage [OF f that] n by (auto simp: stage_def in_tokens)
  show "i \<notin># tokens R P \<and> (\<exists>n < length W. W ! n = i \<and> T ! a = [int n])" if "g r = Some (a, i)" for a i
    using fl_stage [OF f r(1) that] n by (auto simp: stage_def in_tokens)
qed

lemma phase_ok_other: "phase_ok K W g x \<Longrightarrow> r \<notin> set (carries x) \<Longrightarrow> phase_ok (K[r := o']) W g x"
  by (cases x rule: carries.cases) (auto split: TaskStatus.splits)

lemma fleet_others:
  "r \<notin># tokens R P \<Longrightarrow> x \<in># P \<Longrightarrow> r \<notin> set (carries x)"
  by (auto simp: in_tokens)

lemma fleet_done:
  assumes f: "fleet K R W T g (add_mset (Runs r Done) P)"
  shows "fleet (K[r := None]) R W T g (add_mset (Settles r (Called kFinished None None)) P)" (is "fleet ?K _ _ _ _ (add_mset ?y P)")
proof -
  note r = fleet_running [OF f]
  have none: "g r = None" using r(5) by simp
  show ?thesis
  proof (rule fleetI, unfold live_update_None)
    show "i \<in> live K - {r}" if "i \<in># tokens R (add_mset ?y P)" for i using fl_live [OF f, of i] that r(4) by auto
    show "phase_ok ?K W g x" if "x \<in># add_mset ?y P" for x
      using that fl_phase [OF f, of x] fleet_others [OF r(4)] by (auto intro: phase_ok_other)
    show "strand (map_option fst (g c)) (the (?K ! c))" if "c \<in> live K - {r}" for c using fl_strand [OF f, of c] that by simp
    show "i < c \<and> i \<in> live K - {r} \<and> a < length T \<and> stage R W T (add_mset ?y P) c a i" if "c \<in> live K - {r}" "g c = Some (a, i)" for c a i
      using fl_stage [OF f _ that(2)] that r(6) [OF _ that(2)] by (auto elim!: stage_step)
    show "i \<in># tokens R (add_mset ?y P) \<or> (\<exists>c \<in> live K - {r}. \<exists>a. g c = Some (a, i))" if "i \<in> live K - {r}" for i
      using fl_cover [OF f, of i] that none by fastforce
    show "count (tokens R (add_mset ?y P)) i \<le> 1" for i using fl_once [OF f, of i] by (simp split: if_splits)
  qed (use fl_unique [OF f] in blast)
qed

lemma fleet_yield:
  assumes f: "fleet K R W T g (add_mset (Runs r (Yield k)) P)"
  shows "fleet (K[r := Some k]) R W T g (add_mset (Settles r (Called kReady None None)) P)" (is "fleet ?K _ _ _ _ (add_mset ?y P)")
proof -
  note r = fleet_running [OF f]
  have k: "strand (map_option fst (g r)) k" using r(5) by simp
  show ?thesis
  proof (rule fleetI, unfold live_update [OF r(1)])
    show "phase_ok ?K W g x" if "x \<in># add_mset ?y P" for x
      using that fl_phase [OF f, of x] fleet_others [OF r(4)] by (auto intro: phase_ok_other)
    show "strand (map_option fst (g c)) (the (?K ! c))" if "c \<in> live K" for c
      using fl_strand [OF f] k that by (rule strand_update)
    show "i < c \<and> i \<in> live K \<and> a < length T \<and> stage R W T (add_mset ?y P) c a i" if "c \<in> live K" "g c = Some (a, i)" for c a i
      using fl_stage [OF f that] by (auto elim!: stage_step)
  qed (use fl_once [OF f] fl_live [OF f] fl_unique [OF f] fl_cover [OF f] in auto)
qed

lemma fleet_notify:
  assumes f: "fleet K R W T g (add_mset (Runs r (Notify t k)) P)"
  shows "\<exists>a n. t = Some a \<and> k = Done \<and> a < length T \<and> n < length W \<and> T ! a = [int n] \<and> W ! n \<in> live K \<and>
    W ! n \<notin># tokens R (add_mset (Runs r k) P) \<and> fleet (K[r := Some k]) (R @ [W ! n]) W T (g(r := None)) (add_mset (Runs r k) P)"
proof -
  note r = fleet_running [OF f]
  obtain a i where a: "t = Some a" "k = Done" "g r = Some (a, i)" using r(5) by (cases k) auto
  obtain n where n: "n < length W" "W ! n = i" "T ! a = [int n]" "i \<notin># tokens R P" using r(7) [OF a(3)] by blast
  have i: "i \<in> live K" "a < length T" "i \<noteq> r" using fl_stage [OF f r(1) a(3)] r(6) [OF r(1) a(3)] by auto
  let ?K = "K[r := Some k]" and ?g = "g(r := None)" and ?y = "Runs r k"
  have "fleet ?K (R @ [i]) W T ?g (add_mset ?y P)"
  proof (rule fleetI, unfold live_update [OF r(1)])
    show "count (tokens (R @ [i]) (add_mset ?y P)) j \<le> 1" for j
      using fl_once [OF f, of j] n(4) i(3) by (auto simp: count_eq_zero_iff [symmetric])
    show "phase_ok ?K W ?g x" if "x \<in># add_mset ?y P" for x
    proof (cases "x = ?y")
      case False
      then have x: "x \<in># P" using that by simp
      have "phase_ok K W ?g x" using fl_phase [OF f, of x] fleet_others [OF r(4) x] x
        by (cases x rule: carries.cases) (auto split: TaskStatus.splits)
      then show ?thesis using fleet_others [OF r(4) x] by (rule phase_ok_other)
    qed (use r(2) in simp)
    show "strand (map_option fst (?g c)) (the (?K ! c))" if "c \<in> live K" for c
      using fl_strand [OF f that] r(2) a(2) by (cases "c = r") auto
    show "j < c \<and> j \<in> live K \<and> b < length T \<and> stage (R @ [i]) W T (add_mset ?y P) c b j" if "c \<in> live K" "?g c = Some (b, j)" for c b j
    proof -
      have c: "c \<noteq> r" "g c = Some (b, j)" using that(2) by (auto split: if_splits)
      then have "j \<noteq> i" using fl_unique [OF f that(1) r(1) c(2) a(3)] by auto
      then show ?thesis using fl_stage [OF f that(1) c(2)] by (auto elim!: stage_step)
    qed
    show "c = c'" if "c \<in> live K" "c' \<in> live K" "?g c = Some (b, j)" "?g c' = Some (b', j')" "b = b' \<or> j = j'" for c c' b j b' j'
      using that fl_unique [OF f that(1,2), of b j b' j'] by (auto split: if_splits)
    show "j \<in># tokens (R @ [i]) (add_mset ?y P) \<or> (\<exists>c \<in> live K. \<exists>b. ?g c = Some (b, j))" if "j \<in> live K" for j
    proof -
      have "j = i \<or> (\<exists>b. ?g c = Some (b, j))" if "g c = Some (b', j)" for c b' using that a(3) by (cases "c = r") auto
      then show ?thesis using fl_cover [OF f that] by (simp del: fun_upd_apply) blast
    qed
  qed (use fl_live [OF f] i(1) in auto)
  with a n i show ?thesis by auto
qed

text \<open>A new task: queued at once by \<open>go\<close>, carried by the worker after \<open>await(func)\<close>.\<close>

lemma phase_ok_spawn:
  assumes "phase_ok K W g x" "r \<notin> set (carries x)" "\<And>i. i \<in> set (carries x) \<Longrightarrow> i < length K"
  shows "phase_ok (K[r := o'] @ [s]) W (g(length K := v)) x"
  using assms by (cases x rule: carries.cases) (auto simp: nth_append split: TaskStatus.splits)

lemma carried_bound: "fleet K R W T g P \<Longrightarrow> x \<in># P \<Longrightarrow> i \<in> set (carries x) \<Longrightarrow> i < length K"
  using fl_live [of K R W T g P i] by (auto simp: in_tokens live_def)

lemma fleet_go:
  assumes f: "fleet K R W T g (add_mset (Runs r (Go h k)) P)"
  shows "fleet (K[r := Some k] @ [Some h]) (R @ [length K]) W T (g(length K := None)) (add_mset (Runs r k) P)"
    (is "fleet ?K ?R _ _ ?g (add_mset ?y P)")
proof -
  note r = fleet_running [OF f]
  have k: "strand (map_option fst (g r)) k" "strand (map_option fst None) h" using r(5) by auto
  have new: "length K \<notin> live K" "length K \<notin># tokens R P" "length K \<noteq> r" using fl_live [OF f, of "length K"] r(2) by (auto simp: live_def)
  have old: "?g c = g c" if "c \<in> live K" for c using that new(1) by auto
  show ?thesis
  proof (rule fleetI, unfold live_spawn [OF r(1)])
    show "count (tokens ?R (add_mset ?y P)) j \<le> 1" for j
      using fl_once [OF f, of j] new by (auto simp: count_eq_zero_iff [symmetric])
    show "phase_ok ?K W ?g x" if "x \<in># add_mset ?y P" for x
    proof (cases "x = ?y")
      case False
      then have x: "x \<in># P" using that by simp
      show ?thesis using fl_phase [OF f, of x] fleet_others [OF r(4) x] carried_bound [OF f, of x] x by (intro phase_ok_spawn) auto
    qed (use r(2) in \<open>simp add: nth_append\<close>)
    show "strand (map_option fst (?g c)) (the (?K ! c))" if "c \<in> insert (length K) (live K)" for c
      using fl_strand [OF f] k that by (rule strand_spawn)
    show "j < c \<and> j \<in> insert (length K) (live K) \<and> a < length T \<and> stage ?R W T (add_mset ?y P) c a j"
      if "c \<in> insert (length K) (live K)" "?g c = Some (a, j)" for c a j
    proof -
      have c: "c \<in> live K" "g c = Some (a, j)" using that by (auto split: if_splits)
      have "j \<noteq> length K" using fl_stage [OF f c] new(1) by auto
      then show ?thesis using fl_stage [OF f c] by (auto elim!: stage_step)
    qed
    show "c = c'" if "c \<in> insert (length K) (live K)" "c' \<in> insert (length K) (live K)" "?g c = Some (a, j)" "?g c' = Some (a', j')"
      "a = a' \<or> j = j'" for c c' a j a' j'
      using that fl_unique [OF f, of c c' a j a' j'] by (auto split: if_splits)
    show "i \<in># tokens ?R (add_mset ?y P) \<or> (\<exists>c \<in> insert (length K) (live K). \<exists>a. ?g c = Some (a, i))"
      if "i \<in> insert (length K) (live K)" for i
      using that fl_cover [OF f, of i] old by (simp del: fun_upd_apply) blast
  qed (use fl_live [OF f] in auto)
qed

lemma fleet_await:
  assumes f: "fleet K R W T g (add_mset (Runs r (Await_func h k)) P)"
  shows "fleet (K[r := Some k] @ [Some (seq h (Notify (Some (length T)) Done))]) R W (T @ [[]]) (g(length K := Some (length T, r)))
    (add_mset (parks r (length T) (length K)) P)" (is "fleet ?K _ _ ?T ?g (add_mset ?y P)")
proof -
  note r = fleet_running [OF f]
  have k: "strand (map_option fst (g r)) k" "strand (map_option fst (Some (length T, r))) (seq h (Notify (Some (length T)) Done))"
    using r(5) by (auto simp: strand_seq)
  have new: "length K \<notin> live K" "length K \<notin># tokens R P" "length K \<noteq> r" using fl_live [OF f, of "length K"] r(2) by (auto simp: live_def)
  have old: "?g c = g c" if "c \<in> live K" for c using that new(1) by auto
  have last: "?g (length K) = Some (length T, r)" by simp
  show ?thesis
  proof (rule fleetI, unfold live_spawn [OF r(1)])
    show "count (tokens R (add_mset ?y P)) j \<le> 1" for j
      using fl_once [OF f, of j] new by (auto simp: count_eq_zero_iff [symmetric])
    show "phase_ok ?K W ?g x" if "x \<in># add_mset ?y P" for x
    proof (cases "x = ?y")
      case False
      then have x: "x \<in># P" using that by simp
      show ?thesis using fl_phase [OF f, of x] fleet_others [OF r(4) x] carried_bound [OF f, of x] x by (intro phase_ok_spawn) auto
    qed simp
    show "strand (map_option fst (?g c)) (the (?K ! c))" if "c \<in> insert (length K) (live K)" for c
      using fl_strand [OF f] k that by (rule strand_spawn)
    show "j < c \<and> j \<in> insert (length K) (live K) \<and> a < length ?T \<and> stage R W ?T (add_mset ?y P) c a j"
      if "c \<in> insert (length K) (live K)" "?g c = Some (a, j)" for c a j
    proof (cases "c = length K")
      case True
      then show ?thesis using that r(1,2) by (auto simp: stage_def nth_append)
    next
      case False
      then have c: "c \<in> live K" "g c = Some (a, j)" using that by auto
      have "j \<noteq> length K" using fl_stage [OF f c] new(1) by auto
      then show ?thesis using fl_stage [OF f c] by (auto simp: nth_append elim!: stage_step)
    qed
    show "c = c'" if "c \<in> insert (length K) (live K)" "c' \<in> insert (length K) (live K)" "?g c = Some (a, j)" "?g c' = Some (a', j')"
      "a = a' \<or> j = j'" for c c' a j a' j'
      using that r(6) fl_stage [OF f, of c a j] fl_stage [OF f, of c' a' j'] fl_unique [OF f, of c c' a j a' j'] by (fastforce split: if_splits)
    show "i \<in># tokens R (add_mset ?y P) \<or> (\<exists>c \<in> insert (length K) (live K). \<exists>a. ?g c = Some (a, i))"
      if "i \<in> insert (length K) (live K)" for i
      using that fl_cover [OF f, of i] old by (auto simp del: fun_upd_apply)
  qed (use fl_live [OF f] in auto)
qed

text \<open>The waiting task goes to the wait queue and into its trigger.\<close>

lemma phase_ok_park: "phase_ok K W g x \<Longrightarrow> phase_ok K (W @ [i]) g x"
  by (cases x rule: carries.cases) (auto simp: nth_append split: TaskStatus.splits)

lemma fleet_park:
  assumes f: "fleet K R W T g (add_mset (parks i a c) P)"
  shows "fleet K R (W @ [i]) T g (add_mset (enrols (length W) a c) P)" (is "fleet _ _ ?W _ _ (add_mset ?y P)")
proof -
  have g: "g c = Some (a, i)" using fl_phase [OF f, of "parks i a c"] by simp
  have c: "c \<in> live K" using fl_live [OF f, of c] by simp
  have once: "i \<notin># tokens R P" "c \<noteq> i" "c \<notin># tokens R P" using fl_once [OF f, of i] fl_once [OF f, of c] fl_stage [OF f c g]
    by (auto simp: count_eq_zero_iff [symmetric])
  have T: "T ! a = []"
    using fl_stage [OF f c g] by (simp add: stage_def)
  show ?thesis
  proof (rule fleetI)
    show "phase_ok K ?W g x" if "x \<in># add_mset ?y P" for x
      using that fl_phase [OF f, of x] g by (auto intro: phase_ok_park)
    show "j \<in> live K" if "j \<in># tokens R (add_mset ?y P)" for j using fl_live [OF f, of j] that by auto
    show "j < d \<and> j \<in> live K \<and> b < length T \<and> stage R ?W T (add_mset ?y P) d b j" if d: "d \<in> live K" "g d = Some (b, j)" for d b j
    proof (cases "d = c")
      case True
      then show ?thesis using fl_stage [OF f d] d g T once by (auto simp: stage_def)
    next
      case False
      then have "b \<noteq> a" using fl_unique [OF f d(1) c d(2) g] by auto
      then show ?thesis using fl_stage [OF f d] stage_step [of R W T "parks i a c" P d b j T R ?y ?W] by simp
    qed
    show "count (tokens R (add_mset ?y P)) j \<le> 1" for j using fl_once [OF f, of j] by (simp split: if_splits)
    show "j \<in># tokens R (add_mset ?y P) \<or> (\<exists>c \<in> live K. \<exists>a. g c = Some (a, j))" if "j \<in> live K" for j
      using fl_cover [OF f that] c g by auto
  qed (use fl_strand [OF f] fl_unique [OF f] in blast)+
qed

lemma fleet_register:
  assumes f: "fleet K R W T g (add_mset (enrols n a c) P)"
  shows "a < length T" "T ! a = []" "fleet K R W (T[a := [int n]]) g (add_mset (Submits c) P)" (is "fleet _ _ _ ?T _ (add_mset ?y P)")
proof -
  have g: "g c = Some (a, W ! n)" "n < length W" using fl_phase [OF f, of "enrols n a c"] by auto
  have c: "c \<in> live K" "c \<notin># tokens R P" using fl_live [OF f, of c] fl_once [OF f, of c] by (auto simp: count_eq_zero_iff [symmetric])
  show a: "a < length T" "T ! a = []"
    using fl_stage [OF f c(1) g(1)] by (auto simp: stage_def)
  show "fleet K R W ?T g (add_mset ?y P)"
  proof (rule fleetI)
    show "j < d \<and> j \<in> live K \<and> b < length ?T \<and> stage R W ?T (add_mset ?y P) d b j" if d: "d \<in> live K" "g d = Some (b, j)" for d b j
    proof (cases "d = c")
      case True
      then show ?thesis using fl_stage [OF f d] d g a c(2) by (auto simp: stage_def in_tokens)
    next
      case False
      then have "b \<noteq> a" using fl_unique [OF f d(1) c(1) d(2) g(1)] by auto
      then show ?thesis using fl_stage [OF f d] stage_step [of R W T "enrols n a c" P d b j ?T R ?y W] by simp
    qed
  qed (use fl_once [OF f] fl_live [OF f] fl_phase [OF f] fl_strand [OF f] fl_unique [OF f] fl_cover [OF f] in auto)
qed

end
