(* ===== verification/Pool_Workers_Props.thy ===== *)
theory Pool_Workers_Props
  imports Pool_Workers
begin

text \<open>
  Structured programs on several workers: the invariant of \<open>Pool_Workers\<close> tied to the pool, that every step keeps it and makes a
  measure smaller, and what follows for all schedules; and that a worker alone is the sequential model.
\<close>

section \<open>The pool and its workers\<close>

text \<open>
  Every library call and every action of a worker that finds something to do makes \<open>load\<close> smaller: a call is worth 8, a queued
  task 3, and a worker counts by what it has still to do.
\<close>

primrec effort :: "script \<Rightarrow> nat" where
  "effort Done = 1"
| "effort (Yield k) = Suc (effort k)"
| "effort (Await t k) = Suc (effort k)"
| "effort (Await_seconds k) = Suc (effort k)"
| "effort (Await_func f k) = Suc (Suc (effort f + effort k))"
| "effort (Notify t k) = Suc (effort k)"
| "effort (Go f k) = Suc (effort f + effort k)"
| "effort (Submit f k) = Suc (effort f + effort k)"
| "effort (New_trigger f) = 0"

fun rank :: "phase \<Rightarrow> nat" where
  "rank Free = 0"
| "rank (Runs t s) = 2"
| "rank (Settles t c) = 6"
| "rank (Registers wid trigger c) = 5"
| "rank (Submits c) = 4"

fun is_parking :: "phase \<Rightarrow> bool" where
  "is_parking (Settles t (Called st trigger c)) = (st = kWaiting)"
| "is_parking _ = False"

definition efforts :: "script option list \<Rightarrow> nat" where
  "efforts K = (\<Sum>o' \<leftarrow> K. case o' of None \<Rightarrow> 0 | Some s \<Rightarrow> effort s)"

definition load :: "script option list \<Rightarrow> nat list \<Rightarrow> phase multiset \<Rightarrow> nat" where
  "load K R P = 8 * efforts K + 3 * length R + (\<Sum>x \<in># P. rank x)"

definition agrees :: "script option list \<Rightarrow> script option list \<Rightarrow> phase multiset \<Rightarrow> bool" where
  "agrees K C P \<longleftrightarrow> length K = length C \<and> (\<forall>t < length K. (\<forall>s. Runs t s \<notin># P) \<longrightarrow> K ! t = C ! t)"

definition crew :: "pool \<Rightarrow> phase multiset \<Rightarrow> nat \<Rightarrow> nat list \<Rightarrow> bool" where
  "crew p P m R \<longleftrightarrow> (\<exists>K W g. fleet K R W (pl_triggers p) g P \<and> agrees K (conts p) P \<and> pool_rep p R W \<and> budget K \<le> kLocalQueueSize \<and>
     length W + size (filter_mset is_parking P) \<le> length K \<and> pl_timers p = [] \<and> load K R P = m)"

lemma effort_seq: "structured f \<Longrightarrow> effort (seq f (Notify t Done)) = Suc (effort f)"
proof -
  have "strand o' f \<Longrightarrow> o' = None \<Longrightarrow> effort (seq f (Notify t Done)) = Suc (effort f)" for o'
    by (induction o' f rule: strand.induct) auto
  then show "structured f \<Longrightarrow> ?thesis" by simp
qed

lemma efforts_update:
  "r < length K \<Longrightarrow> K ! r = Some s \<Longrightarrow>
    efforts (K[r := o']) + effort s = efforts K + (case o' of None \<Rightarrow> 0 | Some s' \<Rightarrow> effort s')"
  using sum_list_update_nat [of r K "\<lambda>o'. case o' of None \<Rightarrow> 0 | Some s \<Rightarrow> effort s" o'] by (simp add: efforts_def)

lemma efforts_snoc [simp]: "efforts (K @ [Some s]) = efforts K + effort s"
  by (simp add: efforts_def)

lemma load_add [simp]: "load K R (add_mset x P) = rank x + load K R P"
  by (simp add: load_def)

lemma crewE:
  assumes "crew p P m R"
  obtains K W g where "fleet K R W (pl_triggers p) g P" "agrees K (conts p) P" "pool_rep p R W" "budget K \<le> kLocalQueueSize"
    "length W + size (filter_mset is_parking P) \<le> length K" "pl_timers p = []" "load K R P = m"
  using assms unfolding crew_def by blast

lemma fleet_distinct: "fleet K R W T g P \<Longrightarrow> distinct R"
  unfolding distinct_count_atmost_1
proof (intro allI)
  fix i assume "fleet K R W T g P"
  then have "count (mset R) i + count (\<Sum>x \<in># P. mset (carries x)) i \<le> 1" using fl_once [of K R W T g P i] by (simp add: tokens_def)
  moreover have "0 < count (mset R) i \<longleftrightarrow> i \<in> set R" by simp
  ultimately show "count (mset R) i = (if i \<in> set R then 1 else 0)" by (simp only: split: if_split) linarith
qed

lemma fleet_room:
  assumes "fleet K R W T g P" "i \<in> live K" "i \<notin> set R" "budget K \<le> n"
  shows "length R < n"
proof -
  have "set R \<subset> {..<length K}" using fl_live [OF assms(1)] assms(2,3) by (auto simp: live_def in_tokens)
  from psubset_card_mono [OF _ this] fleet_distinct [OF assms(1)] have "length R < length K" by (simp add: distinct_card)
  then show ?thesis using assms(4) length_le_budget [of K] by simp
qed

text \<open>A free worker finds a task, or finds nothing.\<close>

lemma crew_pop:
  assumes "crew p (add_mset Free P) m (i # R)" "start_ok start" "mset ph = add_mset Free P"
  shows "\<exists>y p' m'. phase_step start ph Free p = Value (y, p') \<and> crew p' (add_mset y P) m' R \<and> m' < m"
proof -
  from assms(1) obtain K W g where
    c: "fleet K (i # R) W (pl_triggers p) g (add_mset Free P)" "agrees K (conts p) (add_mset Free P)" "pool_rep p (i # R) W" "budget K \<le> kLocalQueueSize"
      "length W + size (filter_mset is_parking P) \<le> length K" "pl_timers p = []" "load K (i # R) (add_mset Free P) = m"
    by (auto elim!: crewE)
  from rq_pop [of "pl_tasks p" "map Some (i # R)"] c(3) obtain q where
    q: "fq_pop_hard (pl_tasks p) 0 = Value (Some (Some i), q)" "rq_rep q (map Some R)" by (auto simp: pool_rep_def)
  let ?p = "p\<lparr>pl_tasks := q\<rparr>"
  have i: "i \<in> live K" "i \<notin># tokens R P" using fl_live [OF c(1), of i] fl_once [OF c(1), of i] by (auto simp: count_eq_zero_iff [symmetric])
  have nr: "Runs i s \<notin># P" for s using fleet_others [OF i(2), of "Runs i s"] by auto
  have len: "i < length (pl_store p)" "length K = length (pl_store p)" using i(1) c(2) by (auto simp: live_def agrees_def)
  have "conts p ! i = K ! i" using c(2) nr len by (simp add: agrees_def)
  then obtain s where s: "K ! i = Some s" "conts p ! i = Some s" using i(1) by (auto simp: live_def)
  have "\<not> is_running ph i" using nr assms(3) by (auto simp: is_running_def split: phase.splits simp flip: set_mset_mset)
  then have "begin_call ph (Some i) ?p = Value (Runs i s, ?p)"
    using s(2) len by (auto simp: begin_call_def conts_def cont_def split: routine.splits)
  then have "phase_step start ph Free p = Value (Runs i s, ?p)"
    using q(1) start_zero_rep [OF assms(2) c(3)] by simp
  moreover have "fleet K R W (pl_triggers p) g (add_mset (Runs i s) P)" by (rule fleet_move [OF c(1)]) (use s in auto)
  moreover have "agrees K (conts ?p) (add_mset (Runs i s) P)" "pool_rep ?p R W" using c(2,3) q(2) by (auto simp: agrees_def pool_rep_def)
  ultimately have "crew ?p (add_mset (Runs i s) P) (load K R (add_mset (Runs i s) P)) R"
    unfolding crew_def using c(4-6) by (intro exI [of _ K] exI [of _ W] exI [of _ g]) simp
  moreover have "load K R (add_mset (Runs i s) P) < m" using c(7) by (auto simp: load_def)
  ultimately show ?thesis using \<open>phase_step start ph Free p = _\<close> by blast
qed

lemma crew_starve:
  assumes "crew p (add_mset Free P) m []" "start_ok start"
  shows "\<exists>p'. phase_step start ph Free p = Value (Free, p') \<and> crew p' (add_mset Free P) m []"
proof -
  from assms(1) obtain K W g where
    c: "fleet K [] W (pl_triggers p) g (add_mset Free P)" "agrees K (conts p) (add_mset Free P)" "pool_rep p [] W" "budget K \<le> kLocalQueueSize"
      "length W + size (filter_mset is_parking P) \<le> length K" "pl_timers p = []" "load K [] (add_mset Free P) = m"
    by (auto elim!: crewE)
  from rq_pop [of "pl_tasks p" "[]"] c(3) obtain q where
    q: "fq_pop_hard (pl_tasks p) 0 = Value (None, q)" "rq_rep q []" by (auto simp: pool_rep_def)
  have "agrees K (conts p) (add_mset Free P)" "pool_rep (p\<lparr>pl_tasks := q\<rparr>) [] W" using c(2,3) q(2) by (auto simp: agrees_def pool_rep_def)
  then have "crew (p\<lparr>pl_tasks := q\<rparr>) (add_mset Free P) m []" unfolding crew_def using c by (intro exI [of _ K] exI [of _ W] exI [of _ g]) simp
  then show ?thesis using q(1) start_zero_rep [OF assms(2) c(3)] by simp
qed

text \<open>The steps of a running task.\<close>

lemma agrees_step:
  assumes "agrees K C (add_mset (Runs r s) P)" "\<And>t s. y \<noteq> Runs t s" "r < length K"
  shows "agrees (K[r := o']) (C[r := o']) (add_mset y P)"
proof -
  have "K[r := o'] ! t = C[r := o'] ! t" if "t < length K" "\<And>s. Runs t s \<notin># P" for t
    using assms that by (cases "t = r") (auto simp: agrees_def)
  then show ?thesis using assms(1) by (simp add: agrees_def)
qed

lemma agrees_run:
  assumes "agrees K C (add_mset (Runs r s) P)"
  shows "agrees (K[r := Some k]) C (add_mset (Runs r k) P)"
proof -
  have "K[r := Some k] ! t = C ! t" if "t < length K" "\<And>s. Runs t s \<notin># add_mset (Runs r k) P" for t
  proof -
    have "t \<noteq> r" using that(2) [of k] by auto
    then show ?thesis using assms that by (auto simp: agrees_def)
  qed
  then show ?thesis using assms by (simp add: agrees_def)
qed

lemma agrees_spawn: "agrees K C P \<Longrightarrow> agrees (K @ [o']) (C @ [o']) P"
  by (auto simp: agrees_def nth_append)

text \<open>It leaves its stack, having ended or yielded.\<close>

lemma crew_leave:
  assumes "crew p (add_mset (Runs r s) P) m R" "script_step r s p = leave r e p"
    and "\<And>p. tk_fiber (pl_store p ! r) \<Longrightarrow> leave r e p = Value (y, set_routine r st rt p)"
    and "\<And>K W T g. fleet K R W T g (add_mset (Runs r s) P) \<Longrightarrow> fleet (K[r := o']) R W T g (add_mset y P)"
    and "o' = (case rt of NilFiber s \<Rightarrow> Some s | Suspended s \<Rightarrow> Some s | Ended \<Rightarrow> None)" "\<And>t s. y \<noteq> Runs t s" "\<not> is_parking y" "rank y \<le> 6"
    and "case o' of None \<Rightarrow> 0 < effort s | Some k \<Rightarrow> effort k < effort s \<and> spawns k \<le> spawns s"
  shows "\<exists>y p' m' R'. script_step r s p = Value (y, p') \<and> crew p' (add_mset y P) m' R' \<and> m' < m"
proof -
  let ?p = "set_routine r st rt p"
  from assms(1) obtain K W g where
    c: "fleet K R W (pl_triggers p) g (add_mset (Runs r s) P)" "agrees K (conts p) (add_mset (Runs r s) P)" "pool_rep p R W" "budget K \<le> kLocalQueueSize"
      "length W + size (filter_mset is_parking P) \<le> length K" "pl_timers p = []" "load K R (add_mset (Runs r s) P) = m"
    by (auto elim!: crewE)
  note r = fleet_running [OF c(1)]
  have len: "r < length (pl_store p)" using r(2) c(2) by (simp add: agrees_def)
  note p = set_routine_rep [OF c(3) len, of st rt, folded assms(5)]
  have step: "script_step r s p = Value (y, ?p)" using c(3) len assms(2,3) by (simp add: pool_rep_def)
  have "agrees (K[r := o']) (conts ?p) (add_mset y P)" unfolding p(2) by (rule agrees_step [OF c(2) assms(6) r(2)])
  moreover have "budget (K[r := o']) \<le> kLocalQueueSize" using budget_update [OF r(2,3), of o'] c(4) assms(9) by (auto split: option.splits)
  ultimately have "crew ?p (add_mset y P) (load (K[r := o']) R (add_mset y P)) R"
    unfolding crew_def using assms(4) [OF c(1)] assms(7) p c(5,6)
    by (intro exI [of _ "K[r := o']"] exI [of _ W] exI [of _ g]) (simp add: set_routine_def)
  moreover have "load (K[r := o']) R (add_mset y P) < m"
    using c(7) efforts_update [OF r(2,3), of o'] assms(8,9) by (auto simp: load_def split: option.splits)
  ultimately show ?thesis using step by blast
qed

lemma crew_done:
  "crew p (add_mset (Runs r Done) P) m R \<Longrightarrow> \<exists>y p' m' R'. script_step r Done p = Value (y, p') \<and> crew p' (add_mset y P) m' R' \<and> m' < m"
  by (erule crew_leave [where e = Returned and st = kFinished and rt = Ended and o' = None and y = "Settles r (Called kFinished None None)"])
    (simp_all add: leave_def fleet_done)

lemma crew_yield:
  "crew p (add_mset (Runs r (Yield k)) P) m R \<Longrightarrow>
    \<exists>y p' m' R'. script_step r (Yield k) p = Value (y, p') \<and> crew p' (add_mset y P) m' R' \<and> m' < m"
  by (erule crew_leave [where e = "Yielded k" and st = kReady and rt = "Suspended k" and o' = "Some k" and y = "Settles r (Called kReady None None)"])
    (simp_all add: leave_def fleet_yield)

lemma crew_await:
  assumes "crew p (add_mset (Runs r (Await_func h k)) P) m R"
  shows "\<exists>y p' m' R'. script_step r (Await_func h k) p = Value (y, p') \<and> crew p' (add_mset y P) m' R' \<and> m' < m"
proof -
  let ?x = "Runs r (Await_func h k)" and ?p = "awaiting r h k p" and ?h = "seq h (Notify (Some (length (pl_triggers p))) Done)"
  from assms obtain K W g where
    c: "fleet K R W (pl_triggers p) g (add_mset ?x P)" "agrees K (conts p) (add_mset ?x P)" "pool_rep p R W" "budget K \<le> kLocalQueueSize"
      "length W + size (filter_mset is_parking P) \<le> length K" "pl_timers p = []" "load K R (add_mset ?x P) = m"
    by (auto elim!: crewE)
  let ?y = "parks r (length (pl_triggers p)) (length K)" and ?K = "K[r := Some k] @ [Some ?h]" and ?g = "g(length K := Some (length (pl_triggers p), r))"
  note r = fleet_running [OF c(1)]
  have h: "structured h" using r(5) by simp
  have len: "r < length (pl_store p)" "length K = length (pl_store p)" using r(2) c(2) by (simp_all add: agrees_def)
  note p = awaiting_rep [OF c(3) len(1), of h k]
  have step: "script_step r (Await_func h k) p = Value (?y, ?p)"
    using c(3) len by (simp add: leave_def pool_rep_def awaiting_def NewTrigger_def pool_alloc_def nth_append)
  have "agrees ?K (conts ?p) (add_mset ?y P)" unfolding p(2) using r(2) by (intro agrees_spawn agrees_step [OF c(2)]) simp_all
  moreover have "budget ?K \<le> kLocalQueueSize"
    using budget_update [OF r(2,3), of "Some k"] seq_notify_measures [OF h refl] c(4) by (simp add: budget_snoc)
  ultimately have "crew ?p (add_mset ?y P) (load ?K R (add_mset ?y P)) R"
    unfolding crew_def using fleet_await [OF c(1)] p c(5,6)
    by (intro exI [of _ ?K] exI [of _ W] exI [of _ ?g]) (simp add: awaiting_def set_routine_def)
  moreover have "load ?K R (add_mset ?y P) < m"
    using c(7) efforts_update [OF r(2,3), of "Some k"] effort_seq [OF h] by (auto simp: load_def)
  ultimately show ?thesis using step by blast
qed

text \<open>It starts or wakes another.\<close>

lemma crew_go:
  assumes "crew p (add_mset (Runs r (Go h k)) P) m R"
  shows "\<exists>y p' m' R'. script_step r (Go h k) p = Value (y, p') \<and> crew p' (add_mset y P) m' R' \<and> m' < m"
proof -
  let ?x = "Runs r (Go h k)" and ?p = "snd (pool_alloc (new_FiberTask h) p)" and ?y = "Runs r k"
  from assms obtain K W g where
    c: "fleet K R W (pl_triggers p) g (add_mset ?x P)" "agrees K (conts p) (add_mset ?x P)" "pool_rep p R W" "budget K \<le> kLocalQueueSize"
      "length W + size (filter_mset is_parking P) \<le> length K" "pl_timers p = []" "load K R (add_mset ?x P) = m"
    by (auto elim!: crewE)
  let ?K = "K[r := Some k] @ [Some h]" and ?g = "g(length K := None)" and ?n = "length K"
  note r = fleet_running [OF c(1)]
  have len: "r < length (pl_store p)" "?n = length (pl_store p)" using r(2) c(2) by (simp_all add: agrees_def)
  have p: "pool_rep ?p R W" "conts ?p = conts p @ [Some h]" "fst (pool_alloc (new_FiberTask h) p) = ?n"
    using pool_alloc_rep [OF c(3), of h] len by (auto simp: pool_alloc_def)
  have "r \<notin> set R" using r(4) by (auto simp: in_tokens)
  from pool_push_spec [OF p(1) fleet_room [OF c(1) r(1) this c(4)], of "''Push failed''" ?n] obtain q where
    q: "pool_push ''Push failed'' (Some ?n) ?p = Value (?p\<lparr>pl_tasks := q\<rparr>)" "pool_rep (?p\<lparr>pl_tasks := q\<rparr>) (R @ [?n]) W" by blast
  let ?q = "?p\<lparr>pl_tasks := q\<rparr>"
  have step: "script_step r (Go h k) p = Value (?y, ?q)" using q(1) p(3) by (simp add: pool_go_def case_prod_beta)
  have "agrees ?K (conts ?q) (add_mset ?y P)" unfolding conts_tasks p(2) by (intro agrees_spawn agrees_run [OF c(2)])
  moreover have "budget ?K \<le> kLocalQueueSize" using budget_update [OF r(2,3), of "Some k"] c(4) by (simp add: budget_snoc)
  moreover have "pl_triggers ?q = pl_triggers p" "pl_timers ?q = []" using c(6) by (simp_all add: pool_alloc_def)
  ultimately have "crew ?q (add_mset ?y P) (load ?K (R @ [?n]) (add_mset ?y P)) (R @ [?n])"
    unfolding crew_def using fleet_go [OF c(1)] q(2) c(5) by (intro exI [of _ ?K] exI [of _ W] exI [of _ ?g]) simp
  moreover have "load ?K (R @ [?n]) (add_mset ?y P) < m" using c(7) efforts_update [OF r(2,3), of "Some k"] by (auto simp: load_def)
  ultimately show ?thesis using step by blast
qed

lemma crew_notify:
  assumes "crew p (add_mset (Runs r (Notify t k)) P) m R"
  shows "\<exists>y p' m' R'. script_step r (Notify t k) p = Value (y, p') \<and> crew p' (add_mset y P) m' R' \<and> m' < m"
proof -
  let ?x = "Runs r (Notify t k)" and ?y = "Runs r k"
  from assms obtain K W g where
    c: "fleet K R W (pl_triggers p) g (add_mset ?x P)" "agrees K (conts p) (add_mset ?x P)" "pool_rep p R W" "budget K \<le> kLocalQueueSize"
      "length W + size (filter_mset is_parking P) \<le> length K" "pl_timers p = []" "load K R (add_mset ?x P) = m"
    by (auto elim!: crewE)
  note r = fleet_running [OF c(1)]
  from fleet_notify [OF c(1)] obtain a n where
    a: "t = Some a" "a < length (pl_triggers p)" "n < length W" "pl_triggers p ! a = [int n]" "W ! n \<in> live K" "W ! n \<notin> set R"
      "fleet (K[r := Some k]) (R @ [W ! n]) W (pl_triggers p) (g(r := None)) (add_mset ?y P)" by (auto simp: in_tokens)
  have "length W \<le> 1000" using c(4,5) length_le_budget [of K] by (simp add: kLocalQueueSize_def)
  with notify_rep [OF c(3) a(2), of "[n]"] a(1,3,4) fleet_room [OF c(1) a(5,6) c(4)] obtain q where
    q: "notify t p = Value (p\<lparr>pl_tasks := q\<rparr>)" "pool_rep (p\<lparr>pl_tasks := q\<rparr>) (R @ [W ! n]) W" by auto
  have "agrees (K[r := Some k]) (conts (p\<lparr>pl_tasks := q\<rparr>)) (add_mset ?y P)" unfolding conts_tasks by (rule agrees_run [OF c(2)])
  moreover have "budget (K[r := Some k]) \<le> kLocalQueueSize" using budget_update [OF r(2,3), of "Some k"] c(4) by simp
  ultimately have "crew (p\<lparr>pl_tasks := q\<rparr>) (add_mset ?y P) (load (K[r := Some k]) (R @ [W ! n]) (add_mset ?y P)) (R @ [W ! n])"
    unfolding crew_def using a(7) q(2) c(5,6) by (intro exI [of _ "K[r := Some k]"] exI [of _ W] exI [of _ "g(r := None)"]) simp
  moreover have "load (K[r := Some k]) (R @ [W ! n]) (add_mset ?y P) < m"
    using c(7) efforts_update [OF r(2,3), of "Some k"] by (auto simp: load_def)
  ultimately show ?thesis using q(1) by (intro exI [of _ ?y] exI [of _ "p\<lparr>pl_tasks := q\<rparr>"]) auto
qed

text \<open>The worker puts the task away.\<close>

lemma agrees_same: "agrees K C (add_mset x P) \<Longrightarrow> (\<And>t s. x \<noteq> Runs t s) \<Longrightarrow> agrees K C (add_mset y P)"
  by (simp add: agrees_def) metis

text \<open>A task \<open>i\<close> that the worker carries goes to the ready queue.\<close>

lemma crew_push:
  assumes "crew p (add_mset x P) m R" "carries x = [i]" "3 < rank x" "\<not> is_parking x" "\<And>n a c. x \<noteq> enrols n a c" "\<And>t s. x \<noteq> Runs t s"
    and "phase_step start ph x p = obind (pool_push ''push fail'' (Some i) p) (\<lambda>p. Value (Free, p))"
  shows "\<exists>y p' m' R'. phase_step start ph x p = Value (y, p') \<and> crew p' (add_mset y P) m' R' \<and> m' < m"
proof -
  from assms(1,4) obtain K W g where
    c: "fleet K R W (pl_triggers p) g (add_mset x P)" "agrees K (conts p) (add_mset x P)" "pool_rep p R W" "budget K \<le> kLocalQueueSize"
      "length W + size (filter_mset is_parking P) \<le> length K" "pl_timers p = []" "load K R (add_mset x P) = m"
    by (auto elim!: crewE)
  have i: "i \<in> live K" "i \<notin># tokens R P" using fl_live [OF c(1), of i] fl_once [OF c(1), of i] assms(2)
    by (auto simp: count_eq_zero_iff [symmetric])
  then have "i \<notin> set R" by (auto simp: in_tokens)
  from pool_push_spec [OF c(3) fleet_room [OF c(1) i(1) this c(4)], of "''push fail''" i] obtain q where
    q: "pool_push ''push fail'' (Some i) p = Value (p\<lparr>pl_tasks := q\<rparr>)" "pool_rep (p\<lparr>pl_tasks := q\<rparr>) (R @ [i]) W" by blast
  have "x \<noteq> parks j a d" for j a d using assms(4) by auto
  then have "fleet K (R @ [i]) W (pl_triggers p) g (add_mset Free P)" using assms(2,5) by (intro fleet_move [OF c(1)]) auto
  moreover have "agrees K (conts (p\<lparr>pl_tasks := q\<rparr>)) (add_mset Free P)" unfolding conts_tasks by (rule agrees_same [OF c(2) assms(6)])
  ultimately have "crew (p\<lparr>pl_tasks := q\<rparr>) (add_mset Free P) (load K (R @ [i]) (add_mset Free P)) (R @ [i])"
    unfolding crew_def using q(2) c(4-6) by (intro exI [of _ K] exI [of _ W] exI [of _ g]) simp
  moreover have "load K (R @ [i]) (add_mset Free P) < m" using c(7) assms(3) by (auto simp: load_def)
  ultimately show ?thesis using q(1) assms(7) by (intro exI [of _ Free] exI [of _ "p\<lparr>pl_tasks := q\<rparr>"]) auto
qed

lemma crew_finished:
  assumes "crew p (add_mset (Settles r (Called kFinished None None)) P) m R"
  shows "\<exists>m'. crew p (add_mset Free P) m' R \<and> m' < m"
proof -
  let ?x = "Settles r (Called kFinished None None)"
  from assms obtain K W g where
    c: "fleet K R W (pl_triggers p) g (add_mset ?x P)" "agrees K (conts p) (add_mset ?x P)" "pool_rep p R W" "budget K \<le> kLocalQueueSize"
      "length W + size (filter_mset is_parking P) \<le> length K" "pl_timers p = []" "load K R (add_mset ?x P) = m"
    by (auto elim!: crewE)
  have "fleet K R W (pl_triggers p) g (add_mset Free P)" by (rule fleet_move [OF c(1)]) simp_all
  moreover have "agrees K (conts p) (add_mset Free P)" by (rule agrees_same [OF c(2)]) simp
  ultimately have "crew p (add_mset Free P) (load K R (add_mset Free P)) R"
    unfolding crew_def using c(3-6) by (intro exI [of _ K] exI [of _ W] exI [of _ g]) simp
  then show ?thesis using c(7) by (intro exI [of _ "load K R (add_mset Free P)"]) auto
qed

lemma crew_park:
  assumes "crew p (add_mset (parks i a d) P) m R"
  shows "\<exists>y p' m' R'. settle_step i (Called kWaiting (Some a) (Some d)) p = Value (y, p') \<and> crew p' (add_mset y P) m' R' \<and> m' < m"
proof -
  from assms obtain K W g where
    c: "fleet K R W (pl_triggers p) g (add_mset (parks i a d) P)" "agrees K (conts p) (add_mset (parks i a d) P)" "pool_rep p R W"
      "budget K \<le> kLocalQueueSize" "length W + Suc (size (filter_mset is_parking P)) \<le> length K" "pl_timers p = []"
      "load K R (add_mset (parks i a d) P) = m"
    by (auto elim!: crewE)
  let ?y = "enrols (length W) a d"
  have w: "length W < 1000" using c(4,5) length_le_budget [of K] by (simp add: kLocalQueueSize_def)
  have h: "ps_holds (pl_wait_queue p) W" "ps_max_size (pl_wait_queue p) = 1000" using c(3) by (auto simp: pool_rep_def)
  from ps.push_law [OF h(1), of i] w h(2) obtain wq where
    wq: "ps_push (pl_wait_queue p) i = (int (length W), wq)" "ps_holds wq (W @ [i])" "ps_max_size wq = 1000" by auto
  let ?p = "p\<lparr>pl_wait_queue := wq\<rparr>"
  have "conts ?p = conts p" by (simp add: conts_def)
  then have "agrees K (conts ?p) (add_mset ?y P)" using agrees_same [OF c(2)] by simp
  moreover have "pool_rep ?p R (W @ [i])" using c(3) wq by (simp add: pool_rep_def)
  ultimately have "crew ?p (add_mset ?y P) (load K R (add_mset ?y P)) R"
    unfolding crew_def using fleet_park [OF c(1)] c(4-6) by (intro exI [of _ K] exI [of _ "W @ [i]"] exI [of _ g]) simp
  moreover have "load K R (add_mset ?y P) < m" using c(7) by auto
  ultimately show ?thesis using wq(1) by (intro exI [of _ ?y] exI [of _ ?p]) auto
qed

lemma crew_register:
  assumes "crew p (add_mset (enrols n a d) P) m R"
  shows "\<exists>y p' m' R'. phase_step start ph (enrols n a d) p = Value (y, p') \<and> crew p' (add_mset y P) m' R' \<and> m' < m"
proof -
  from assms obtain K W g where
    c: "fleet K R W (pl_triggers p) g (add_mset (enrols n a d) P)" "agrees K (conts p) (add_mset (enrols n a d) P)" "pool_rep p R W"
      "budget K \<le> kLocalQueueSize" "length W + size (filter_mset is_parking P) \<le> length K" "pl_timers p = []"
      "load K R (add_mset (enrols n a d) P) = m"
    by (auto elim!: crewE)
  note t = fleet_register [OF c(1)]
  let ?p = "p\<lparr>pl_triggers := (pl_triggers p)[a := [int n]]\<rparr>" and ?y = "Submits d"
  have step: "phase_step start ph (enrols n a d) p = Value (?y, ?p)" using t(1,2) by (simp add: trigger_Register_def)
  have "conts ?p = conts p" by (simp add: conts_def)
  then have "agrees K (conts ?p) (add_mset ?y P)" using agrees_same [OF c(2)] by simp
  moreover have "pool_rep ?p R W" using c(3) by (simp add: pool_rep_def)
  ultimately have "crew ?p (add_mset ?y P) (load K R (add_mset ?y P)) R"
    unfolding crew_def using t(3) c(4-6) by (intro exI [of _ K] exI [of _ W] exI [of _ g]) simp
  moreover have "load K R (add_mset ?y P) < m" using c(7) by auto
  ultimately show ?thesis using step by blast
qed

section \<open>Runs\<close>

lemma crew_script:
  assumes "crew p (add_mset (Runs r s) P) m R"
  shows "\<exists>y p' m' R'. script_step r s p = Value (y, p') \<and> crew p' (add_mset y P) m' R' \<and> m' < m"
proof -
  obtain o' where "strand o' s" using assms fleet_running(5) by (fastforce elim!: crewE)
  then consider "s = Done" | k where "s = Yield k" | f k where "s = Go f k" | f k where "s = Await_func f k" | t k where "s = Notify t k"
    by (cases "(o', s)" rule: strand.cases) auto
  then show ?thesis using assms by cases (simp_all only: crew_done crew_yield crew_go crew_await crew_notify)
qed

lemma crew_settle:
  assumes "crew p (add_mset (Settles r c) P) m R"
  shows "\<exists>y p' m' R'. settle_step r c p = Value (y, p') \<and> crew p' (add_mset y P) m' R' \<and> m' < m"
proof -
  obtain st t d where c: "c = Called st t d" by (cases c)
  have "\<exists>K W g. phase_ok K W g (Settles r c)" using assms fl_phase by (fastforce elim!: crewE)
  then consider "c = Called kFinished None None" | "c = Called kReady None None" | a d where "c = Called kWaiting (Some a) (Some d)"
    unfolding c by (cases st) auto
  then show ?thesis
  proof cases
    case 1
    then show ?thesis using crew_finished [of p r P m R] assms by (intro exI [of _ Free] exI [of _ p]) auto
  next
    case 2
    then show ?thesis using crew_push [OF assms, of r undefined undefined] by simp
  next
    case 3
    then show ?thesis using crew_park assms by blast
  qed
qed

text \<open>Whatever a worker does is defined; only looking for a task in an empty queue is no progress.\<close>

lemma crew_step:
  assumes "crew p (add_mset x P) m R" "start_ok start" "mset ph = add_mset x P"
  shows "\<exists>y p' m' R'. phase_step start ph x p = Value (y, p') \<and> crew p' (add_mset y P) m' R' \<and>
    (if x = Free \<and> R = [] then y = Free \<and> R' = [] \<and> m' = m else m' < m)"
proof (cases x)
  case Free
  then show ?thesis
  proof (cases R)
    case Nil
    then show ?thesis using crew_starve [of p P m start ph] assms Free by auto
  next
    case (Cons i R')
    then show ?thesis using crew_pop [of p P m i R' start ph] assms Free by auto
  qed
next
  case (Registers wid t d)
  have "\<exists>K W g. phase_ok K W g x" using assms(1) fl_phase by (fastforce elim!: crewE)
  then obtain n a c where "x = enrols n a c" using Registers by auto
  then show ?thesis using crew_register assms(1) by fastforce
next
  case (Submits c)
  then show ?thesis using crew_push [OF assms(1), of c start ph] by auto
qed (use crew_script crew_settle assms(1) in \<open>fastforce+\<close>)

abbreviation crew_of :: "workers \<Rightarrow> nat \<Rightarrow> nat list \<Rightarrow> bool" where
  "crew_of S \<equiv> crew (wk_pool S) (mset (wk_phases S))"

text \<open>One action: either it makes the load smaller, or it is a timer that is not there or a search that finds nothing.\<close>

lemma crew_do:
  assumes "crew_of S m R" "start_ok start" "\<And>w. act = Step w \<Longrightarrow> w < length (wk_phases S)"
  shows "\<exists>S' m' R'. workers_do start act S = Value S' \<and> crew_of S' m' R' \<and> length (wk_phases S') = length (wk_phases S) \<and> wk_inside S' = wk_inside S \<and>
    (m' < m \<or> m' = m \<and> R' = R \<and> wk_phases S' = wk_phases S \<and> (\<forall>w. act = Step w \<longrightarrow> wk_phases S ! w = Free \<and> R = []))"
proof (cases act)
  case (Fire t)
  have "pl_timers (wk_pool S) = []" using assms(1) by (auto simp: crew_def)
  then show ?thesis using assms(1) Fire by auto
next
  case (Step w)
  let ?ph = "wk_phases S"
  have w: "w < length ?ph" using assms(3) Step by simp
  define P where "P = mset ?ph - {#?ph ! w#}"
  have P: "mset ?ph = add_mset (?ph ! w) P" using w by (simp add: P_def nth_mem_mset)
  from crew_step [OF assms(1) [unfolded P] assms(2) P] obtain y p' m' R' where
    y: "phase_step start ?ph (?ph ! w) (wk_pool S) = Value (y, p')" "crew p' (add_mset y P) m' R'"
      "if ?ph ! w = Free \<and> R = [] then y = Free \<and> R' = [] \<and> m' = m else m' < m" by blast
  have "crew_of (S\<lparr>wk_pool := p', wk_phases := ?ph[w := y]\<rparr>) m' R'" using y(2) w by (simp add: mset_update P_def)
  moreover have "?ph[w := y] = ?ph" if "?ph ! w = Free" "y = Free" using that by (metis list_update_id)
  ultimately show ?thesis using y(1,3) Step
    by (intro exI [of _ "S\<lparr>wk_pool := p', wk_phases := ?ph[w := y]\<rparr>"] exI [of _ m'] exI [of _ R']) (auto split: if_splits)
qed

text \<open>One step that does not enter the queue while another one is inside. Without progress, it enters the queue or leaves it with nothing.\<close>

definition no_progress :: "action \<Rightarrow> workers \<Rightarrow> workers \<Rightarrow> nat list \<Rightarrow> bool" where
  "no_progress act S S' R \<longleftrightarrow> wk_phases S' = wk_phases S \<and>
     (wk_inside S = None \<and> wk_inside S' = Some act \<or>
      wk_inside S = Some act \<and> wk_inside S' = None \<and> (\<forall>w. act = Step w \<longrightarrow> wk_phases S ! w = Free \<and> R = []) \<or>
      wk_inside S' = wk_inside S \<and> (\<forall>w. act \<noteq> Step w))"

lemma crew_act:
  assumes "crew_of S m R" "start_ok start" "\<And>w. act = Step w \<Longrightarrow> w < length (wk_phases S)"
    and "calls_queue act S \<longrightarrow> wk_inside S = None \<or> wk_inside S = Some act"
  shows "\<exists>S' m' R'. workers_act start act S = Value S' \<and> crew_of S' m' R' \<and> length (wk_phases S') = length (wk_phases S) \<and>
    (m' < m \<or> m' = m \<and> R' = R \<and> no_progress act S S' R)"
proof (cases "calls_queue act S \<and> wk_inside S = None")
  case True
  then show ?thesis using assms(1) by (intro exI [of _ "S\<lparr>wk_inside := Some act\<rparr>"] exI [of _ m] exI [of _ R]) (simp add: workers_act_def no_progress_def)
next
  case False
  from crew_do [OF assms(1-3)] obtain S' m' R' where
    d: "workers_do start act S = Value S'" "crew_of S' m' R'" "length (wk_phases S') = length (wk_phases S)" "wk_inside S' = wk_inside S"
      "m' < m \<or> m' = m \<and> R' = R \<and> wk_phases S' = wk_phases S \<and> (\<forall>w. act = Step w \<longrightarrow> wk_phases S ! w = Free \<and> R = [])" by blast
  show ?thesis
  proof (cases "calls_queue act S")
    case True
    with False assms(4) have i: "wk_inside S = Some act" by blast
    with True d(1) have "workers_act start act S = Value (S'\<lparr>wk_inside := None\<rparr>)" by (simp add: workers_act_def)
    with d i show ?thesis by (intro exI [of _ "S'\<lparr>wk_inside := None\<rparr>"] exI [of _ m'] exI [of _ R']) (auto simp: no_progress_def)
  next
    case other: False
    then have "workers_act start act S = Value S'" "\<And>w. act = Step w \<Longrightarrow> wk_phases S ! w \<noteq> Free" using d(1) by (auto simp: workers_act_def)
    with d show ?thesis by (intro exI [of _ S'] exI [of _ m'] exI [of _ R']) (auto simp: no_progress_def)
  qed
qed

text \<open>How many steps of a worker it takes that one of them completes an action.\<close>

definition steps_needed :: "nat \<Rightarrow> workers \<Rightarrow> nat" where
  "steps_needed w S = (if wk_inside S = Some (Step w) then 1 else 2)"

lemma crew_exec:
  assumes "crew_of S m R" "start_ok start" "\<And>w. Step w \<in> set acts \<Longrightarrow> w < length (wk_phases S)" "calls_apart start acts S"
  shows "\<exists>S' m' R'. workers_exec start acts S = Value S' \<and> crew_of S' m' R' \<and> length (wk_phases S') = length (wk_phases S) \<and>
    (m' < m \<or> m' = m \<and> R' = R \<and> wk_phases S' = wk_phases S \<and>
      (\<forall>w. steps_needed w S \<le> count_list acts (Step w) \<longrightarrow> wk_phases S ! w = Free \<and> R = []))"
  using assms(1,3,4)
proof (induction acts arbitrary: S m R)
  case (Cons act acts)
  have apart: "calls_queue act S \<longrightarrow> wk_inside S = None \<or> wk_inside S = Some act" using Cons.prems(3) by simp
  from crew_act [OF Cons.prems(1) assms(2) _ apart] Cons.prems(2) obtain S1 m1 R1 where
    1: "workers_act start act S = Value S1" "crew_of S1 m1 R1" "length (wk_phases S1) = length (wk_phases S)"
      "m1 < m \<or> m1 = m \<and> R1 = R \<and> no_progress act S S1 R" by auto
  from Cons.IH [OF 1(2)] Cons.prems(2,3) 1(1,3) obtain S2 m2 R2 where
    2: "workers_exec start acts S1 = Value S2" "crew_of S2 m2 R2" "length (wk_phases S2) = length (wk_phases S1)"
      "m2 < m1 \<or> m2 = m1 \<and> R2 = R1 \<and> wk_phases S2 = wk_phases S1 \<and>
        (\<forall>w. steps_needed w S1 \<le> count_list acts (Step w) \<longrightarrow> wk_phases S1 ! w = Free \<and> R1 = [])" by auto
  have "m2 < m \<or> m2 = m \<and> R2 = R \<and> wk_phases S2 = wk_phases S \<and>
      (\<forall>w. steps_needed w S \<le> count_list (act # acts) (Step w) \<longrightarrow> wk_phases S ! w = Free \<and> R = [])"
  proof (cases "m1 < m \<or> m2 < m1")
    case False
    then have s: "m1 = m" "R1 = R" "no_progress act S S1 R" "m2 = m1" "R2 = R1" "wk_phases S2 = wk_phases S1"
      "\<And>w. steps_needed w S1 \<le> count_list acts (Step w) \<Longrightarrow> wk_phases S1 ! w = Free \<and> R1 = []" using 1(4) 2(4) by auto
    have "wk_phases S ! w = Free \<and> R = []" if "steps_needed w S \<le> count_list (act # acts) (Step w)" for w
      using s(2,3) s(7) [of w] that by (auto simp: no_progress_def steps_needed_def split: if_splits)
    with s show ?thesis by (simp add: no_progress_def)
  qed (use 1(4) 2(4) in auto)
  with 1 2 show ?case by (intro exI [of _ S2] exI [of _ m2] exI [of _ R2]) simp
qed (auto simp: steps_needed_def)

text \<open>When all workers are idle and nothing is queued, nothing is left to do.\<close>

lemma rank_0: "rank x = 0 \<longleftrightarrow> x = Free"
  by (cases x) auto

lemma crew_idle:
  assumes "crew_of S m []" "\<And>x. x \<in> set (wk_phases S) \<Longrightarrow> x = Free"
  shows "m = 0"
proof -
  from assms(1) obtain K W g where
    c: "fleet K [] W (pl_triggers (wk_pool S)) g (mset (wk_phases S))" "load K [] (mset (wk_phases S)) = m" by (auto elim: crewE)
  have "live K = {}" using fleet_no_deadlock [OF c(1)] assms(2) by simp
  then have "K ! i = None" if "i < length K" for i using that by (auto simp: live_def)
  then have "efforts K = 0" by (auto simp: efforts_def in_set_conv_nth)
  moreover have "(\<Sum>x \<in># mset (wk_phases S). rank x) = 0" using assms(2) by force
  ultimately show ?thesis using c(2) unfolding load_def by (simp only: list.size)
qed

lemma crew_final:
  assumes "crew_of S 0 R"
  shows "R = []" "x \<in> set (wk_phases S) \<Longrightarrow> x = Free" "t < length (pl_store (wk_pool S)) \<Longrightarrow> task_ended t (wk_pool S)"
    "pl_log (wk_pool S) = []" "fq_element_count (pl_tasks (wk_pool S)) = Value 0"
proof -
  from assms obtain K W g where
    c: "fleet K R W (pl_triggers (wk_pool S)) g (mset (wk_phases S))" "agrees K (conts (wk_pool S)) (mset (wk_phases S))"
      "pool_rep (wk_pool S) R W" "load K R (mset (wk_phases S)) = 0" by (auto elim: crewE)
  show R: "R = []" using c(4) by (simp add: load_def)
  have "\<forall>x \<in> set (wk_phases S). rank x = 0" using c(4) by (simp add: load_def)
  then show free: "x = Free" if "x \<in> set (wk_phases S)" for x using that rank_0 by blast
  then have "live K = {}" using fleet_no_deadlock [OF c(1) [unfolded R]] by simp
  moreover have "K ! t = conts (wk_pool S) ! t" if "t < length K" for t using c(2) free that by (fastforce simp: agrees_def)
  ultimately have "live (conts (wk_pool S)) = {}" using c(2) by (auto simp: live_def agrees_def)
  then show "task_ended t (wk_pool S)" if "t < length (pl_store (wk_pool S))" using live_empty_ended that by blast
  show "pl_log (wk_pool S) = []" "fq_element_count (pl_tasks (wk_pool S)) = Value 0"
    using c(3) R rq_rep_count by (fastforce simp: pool_rep_def)+
qed

lemma workers_exec_append: "workers_exec start (xs @ ys) S = obind (workers_exec start xs S) (workers_exec start ys)"
  by (induction xs arbitrary: S) (auto simp: obind_assoc intro: obind_cong)

lemma calls_apart_append:
  "calls_apart start (xs @ ys) S \<longleftrightarrow> calls_apart start xs S \<and> (\<forall>S'. workers_exec start xs S = Value S' \<longrightarrow> calls_apart start ys S')"
proof (induction xs arbitrary: S)
  case (Cons a xs)
  then show ?case by (cases "workers_act start a S") auto
qed simp

text \<open>Rounds in which every worker gets two steps: as many as the load is at the start are enough.\<close>

lemma crew_rounds:
  assumes "crew_of S m R" "start_ok start" "0 < n" "length (wk_phases S) = n" "m \<le> length rounds" "calls_apart start (concat rounds) S"
    and "\<And>round w. round \<in> set rounds \<Longrightarrow> if w < n then 2 \<le> count_list round (Step w) else Step w \<notin> set round"
  shows "\<exists>S' R'. workers_exec start (concat rounds) S = Value S' \<and> crew_of S' 0 R'"
  using assms(1,4-)
proof (induction rounds arbitrary: S m R)
  case (Cons round rounds)
  have steps: "if w < n then 2 \<le> count_list round (Step w) else Step w \<notin> set round" for w using Cons.prems(5) [of round] by auto
  have apart: "calls_apart start round S" "\<And>S'. workers_exec start round S = Value S' \<Longrightarrow> calls_apart start (concat rounds) S'"
    using Cons.prems(4) by (auto simp: calls_apart_append)
  have "w < length (wk_phases S)" if "Step w \<in> set round" for w using steps [of w] that Cons.prems(2) by (simp split: if_splits)
  from crew_exec [OF Cons.prems(1) assms(2) this apart(1)] Cons.prems(2) obtain S1 m1 R1 where
    1: "workers_exec start round S = Value S1" "crew_of S1 m1 R1" "length (wk_phases S1) = n"
      "m1 < m \<or> m1 = m \<and> R1 = R \<and> wk_phases S1 = wk_phases S \<and>
        (\<forall>w. steps_needed w S \<le> count_list round (Step w) \<longrightarrow> wk_phases S ! w = Free \<and> R = [])" by auto
  have "m1 \<le> length rounds"
  proof (cases "m1 < m")
    case False
    have "steps_needed w S \<le> count_list round (Step w)" if "w < n" for w using steps [of w] that by (simp add: steps_needed_def)
    then have f: "m1 = m" "R1 = []" "\<And>w. w < n \<Longrightarrow> wk_phases S1 ! w = Free" using False 1(4) assms(3) by auto
    then have "x = Free" if "x \<in> set (wk_phases S1)" for x using that 1(3) by (auto simp: in_set_conv_nth)
    then show ?thesis using crew_idle [of S1 m1] 1(2) f(2) by simp
  qed (use Cons.prems(3) in simp)
  from Cons.IH [OF 1(2,3) this apart(2) [OF 1(1)]] Cons.prems(5) obtain S2 R2 where
    "workers_exec start (concat rounds) S1 = Value S2" "crew_of S2 0 R2" by auto
  then show ?case using 1(1) by (auto simp: workers_exec_append)
qed auto

section \<open>Properties\<close>

lemma crew_new:
  assumes "structured s" "Suc (spawns s) \<le> kLocalQueueSize"
  shows "\<exists>p. pool_go s pool_new = Value p \<and> crew_of (workers_new n p) (8 * effort s + 3) [0]"
proof -
  from go_new [of s] obtain p where
    p: "pool_go s pool_new = Value p" "pool_rep p [0] []" "conts p = [Some s]" "pl_triggers p = []" "pl_timers p = []" by blast
  let ?P = "mset (replicate n Free)"
  have P: "x \<in># ?P \<Longrightarrow> x = Free" for x by (simp split: if_splits)
  then have t: "tokens [0] ?P = {#0#}" by (induction n) (auto simp: tokens_def)
  have "fleet [Some s] [0] [] [] (\<lambda>_. None) ?P" using assms(1) t by (intro fleetI) (auto simp: live_def split: if_splits)
  moreover have "agrees [Some s] [Some s] ?P" by (simp add: agrees_def)
  moreover have "size (filter_mset is_parking ?P) \<le> Suc 0" by (induction n) auto
  moreover have "(\<Sum>x \<in># ?P. rank x) = 0" by simp
  then have "load [Some s] [0] ?P = 8 * effort s + 3" unfolding load_def by (simp add: efforts_def)
  ultimately have "crew_of (workers_new n p) (8 * effort s + 3) [0]"
    unfolding crew_def workers_new_def using p assms(2)
    by (intro exI [of _ "[Some s]"] exI [of _ "[]"] exI [of _ "\<lambda>_. None"]) (simp add: budget_def)
  with p(1) show ?thesis by blast
qed

text \<open>What the invariant says of the workers: no two run or carry the same task, and they are not stuck.\<close>

lemma crew_exclusive:
  assumes "crew_of S m R" "v < length (wk_phases S)" "w < length (wk_phases S)" "wk_phases S ! v = Runs t s" "wk_phases S ! w = Runs t s'"
  shows "v = w"
proof (rule ccontr)
  assume "v \<noteq> w"
  from assms(1) obtain K W g where f: "fleet K R W (pl_triggers (wk_pool S)) g (mset (wk_phases S))" by (auto elim: crewE)
  define P where "P = mset (wk_phases S) - {#Runs t s#}"
  have P: "mset (wk_phases S) = add_mset (Runs t s) P" using nth_mem [OF assms(2)] assms(4) by (simp add: P_def)
  have u: "mset ((wk_phases S)[v := Free]) = add_mset Free P" using assms(2,4) by (simp add: mset_update P_def)
  have "(wk_phases S)[v := Free] ! w \<in> set ((wk_phases S)[v := Free])" using assms(3) by (intro nth_mem) simp
  then have "Runs t s' \<in># mset ((wk_phases S)[v := Free])" using \<open>v \<noteq> w\<close> assms(5) by simp
  then have "Runs t s' \<in># P" unfolding u by simp
  then show False using fleet_running(4) [OF f [unfolded P]] fleet_others by fastforce
qed

lemma crew_stuck_free:
  assumes "crew_of S m R" "list_all is_free (wk_phases S)" "fq_element_count (pl_tasks (wk_pool S)) = Value 0"
    "t < length (pl_store (wk_pool S))"
  shows "task_ended t (wk_pool S)"
proof -
  have "rq_rep (pl_tasks (wk_pool S)) (map Some R)" using assms(1) by (auto simp: crew_def pool_rep_def)
  then have R: "R = []" using rq_rep_count assms(3) by fastforce
  have "x = Free" if "x \<in> set (wk_phases S)" for x using assms(2) that by (cases x) (auto simp: list_all_iff is_free_def)
  then have "m = 0" using crew_idle assms(1) R by blast
  then show ?thesis using crew_final(3) assms(1,4) by blast
qed

text \<open>
  C3 (safety). A program whose fibers use \<open>yield\<close>, \<open>go\<close> and \<open>await(func)\<close> in any nesting, with at most \<open>kLocalQueueSize\<close> tasks in all, on
  any number of workers in every interleaving in which no two calls of the ready queue overlap: every step is defined (no task is called that has ended or that another
  worker runs), no push fails, no two workers ever run the same task, and the workers find nothing to do only when all tasks have ended, so no
  wake-up is lost. When two workers are inside the ready queue at once this can fail.
\<close>

theorem workers_safe:
  assumes "structured s" "Suc (spawns s) \<le> kLocalQueueSize" "start_ok start" "pool_go s pool_new = Value p"
    and "\<And>w. Step w \<in> set acts \<Longrightarrow> w < n" "calls_apart start acts (workers_new n p)"
  shows "\<exists>S. workers_exec start acts (workers_new n p) = Value S \<and> pl_log (wk_pool S) = [] \<and>
    (\<forall>v < n. \<forall>w < n. \<forall>t k k'. wk_phases S ! v = Runs t k \<longrightarrow> wk_phases S ! w = Runs t k' \<longrightarrow> v = w) \<and>
    (list_all is_free (wk_phases S) \<and> fq_element_count (pl_tasks (wk_pool S)) = Value 0 \<longrightarrow>
      (\<forall>t < length (pl_store (wk_pool S)). task_ended t (wk_pool S)))"
proof -
  have p: "crew_of (workers_new n p) (8 * effort s + 3) [0]" using crew_new [OF assms(1,2), of n] assms(4) by auto
  have n: "length (wk_phases (workers_new n p)) = n" by (simp add: workers_new_def)
  from crew_exec [OF p assms(3) _ assms(6)] assms(5) n obtain S m R where
    S: "workers_exec start acts (workers_new n p) = Value S" "crew_of S m R" "length (wk_phases S) = n" by auto
  have "pl_log (wk_pool S) = []" using S(2) by (auto simp: crew_def pool_rep_def)
  with S(1) crew_exclusive [OF S(2), unfolded S(3)] crew_stuck_free [OF S(2)] show ?thesis by blast
qed

text \<open>
  C2 (liveness). Such a program ends on any number of workers under every fair schedule in which no two calls of the ready queue overlap: in rounds of any length in which each worker takes at least
  two steps, enough to enter and leave the queue, after \<open>8 * effort s + 3\<close> rounds all workers are idle, the queue is empty, every task has ended and nothing was logged.
\<close>

theorem workers_finish:
  assumes "structured s" "Suc (spawns s) \<le> kLocalQueueSize" "start_ok start" "pool_go s pool_new = Value p" "0 < n"
    and "\<And>round w. round \<in> set rounds \<Longrightarrow> if w < n then 2 \<le> count_list round (Step w) else Step w \<notin> set round"
    and "8 * effort s + 3 \<le> length rounds" "calls_apart start (concat rounds) (workers_new n p)"
  shows "\<exists>S. workers_exec start (concat rounds) (workers_new n p) = Value S \<and>
    (\<forall>x \<in> set (wk_phases S). x = Free) \<and> (\<forall>t < length (pl_store (wk_pool S)). task_ended t (wk_pool S)) \<and>
    fq_element_count (pl_tasks (wk_pool S)) = Value 0 \<and> pl_log (wk_pool S) = []"
proof -
  have p: "crew_of (workers_new n p) (8 * effort s + 3) [0]" using crew_new [OF assms(1,2), of n] assms(4) by auto
  have n: "length (wk_phases (workers_new n p)) = n" by (simp add: workers_new_def)
  from crew_rounds [OF p assms(3,5) n assms(7,8,6)] obtain S R where
    S: "workers_exec start (concat rounds) (workers_new n p) = Value S" "crew_of S 0 R" by blast
  with crew_final [OF S(2)] show ?thesis by blast
qed

text \<open>Two workers: the fiber of the one yields, and the other one runs it to its end.\<close>

definition demo_rounds :: "action list list" where
  "demo_rounds = map Step [0, 0, 0, 1, 1] # replicate 18 (map Step [0, 0, 1, 1])"

lemma demo_rounds_apart:
  "\<exists>p. pool_go (Yield Done) pool_new = Value p \<and> calls_apart (\<lambda>_. 0) (concat demo_rounds) (workers_new 2 p)"
proof -
  have "case pool_go (Yield Done) pool_new of Undefined \<Rightarrow> False | Value p \<Rightarrow> calls_apart (\<lambda>_. 0) (concat demo_rounds) (workers_new 2 p)" by code_simp
  then show ?thesis by (auto split: outcome.splits)
qed

theorem workers_safe_witness:
  "\<exists>p S. pool_go (Yield Done) pool_new = Value p \<and> calls_apart (\<lambda>_. 0) (concat demo_rounds) (workers_new 2 p) \<and>
     workers_exec (\<lambda>_. 0) (concat demo_rounds) (workers_new 2 p) = Value S \<and> pl_log (wk_pool S) = []"
proof -
  have s: "structured (Yield Done)" "Suc (spawns (Yield Done)) \<le> kLocalQueueSize" "start_ok (\<lambda>_. 0)"
    by (simp_all add: kLocalQueueSize_def start_ok_def less_max_iff_disj)
  have w: "w < 2" if "Step w \<in> set (concat demo_rounds)" for w using that by (auto simp: demo_rounds_def)
  from demo_rounds_apart obtain p where p: "pool_go (Yield Done) pool_new = Value p" "calls_apart (\<lambda>_. 0) (concat demo_rounds) (workers_new 2 p)" by blast
  from workers_safe [OF s p(1) w p(2)] p show ?thesis by blast
qed

theorem workers_finish_witness:
  "\<exists>p S. pool_go (Yield Done) pool_new = Value p \<and> calls_apart (\<lambda>_. 0) (concat demo_rounds) (workers_new 2 p) \<and>
     workers_exec (\<lambda>_. 0) (concat demo_rounds) (workers_new 2 p) = Value S \<and>
     (\<forall>t < length (pl_store (wk_pool S)). task_ended t (wk_pool S)) \<and> pl_log (wk_pool S) = []"
proof -
  have s: "structured (Yield Done)" "Suc (spawns (Yield Done)) \<le> kLocalQueueSize" "start_ok (\<lambda>_. 0)"
    by (simp_all add: kLocalQueueSize_def start_ok_def less_max_iff_disj)
  have r: "if w < 2 then 2 \<le> count_list round (Step w) else Step w \<notin> set round" if "round \<in> set demo_rounds" for round w
    using that by (auto simp: demo_rounds_def less_2_cases_iff)
  have l: "8 * effort (Yield Done) + 3 \<le> length demo_rounds" by (simp add: demo_rounds_def)
  from demo_rounds_apart obtain p where p: "pool_go (Yield Done) pool_new = Value p" "calls_apart (\<lambda>_. 0) (concat demo_rounds) (workers_new 2 p)" by blast
  from workers_finish [OF s p(1) _ r l p(2)] p show ?thesis by auto
qed

section \<open>One worker alone\<close>

text \<open>The kind of a task never changes.\<close>

definition kind :: "nat \<Rightarrow> pool \<Rightarrow> bool option" where
  "kind t p = (if t < length (pl_store p) then Some (tk_fiber (pl_store p ! t)) else None)"

lemma kind_store: "pl_store p' = pl_store p @ tks \<Longrightarrow> kind t p = Some b \<Longrightarrow> kind t p' = Some b"
  by (auto simp: kind_def nth_append split: if_splits)

lemma store_push: "pool_push msg t p = Value p' \<Longrightarrow> pl_store p' = pl_store p"
  by (auto simp: pool_push_def)

lemma store_notify: "notify t p = Value p' \<Longrightarrow> pl_store p' = pl_store p"
  by (auto simp: notify_def split: option.splits)

lemma kind_go: "pool_go f p = Value p' \<Longrightarrow> kind t p = Some b \<Longrightarrow> kind t p' = Some b"
  by (rule kind_store [where tks = "[new_FiberTask f]"]) (auto simp: pool_go_def pool_alloc_def dest: store_push)

lemma kind_submit: "pool_submit f p = Value p' \<Longrightarrow> kind t p = Some b \<Longrightarrow> kind t p' = Some b"
  by (rule kind_store [where tks = "[new_FunctionTask f]"]) (auto simp: pool_submit_def pool_alloc_def dest: store_push)

lemma kind_notify: "notify a p = Value p' \<Longrightarrow> kind t p = Some b \<Longrightarrow> kind t p' = Some b"
  by (rule kind_store [where tks = "[]"]) (auto dest: store_notify)

abbreviation alone :: "(pool \<Rightarrow> nat) \<Rightarrow> nat \<Rightarrow> phase \<Rightarrow> pool \<Rightarrow> workers outcome" where
  "alone start k x p \<equiv> workers_exec start (replicate k (Step 0)) \<lparr>wk_pool = p, wk_phases = [x], wk_inside = None\<rparr>"

lemma alone_step:
  assumes "phase_step start [x] x p = Value (y, p')" "\<exists>k. alone start k y p' = r"
  shows "\<exists>k. alone start k x p = r"
proof -
  from assms(2) obtain k where k: "alone start k y p' = r" by blast
  show ?thesis
  proof (cases "uses_queue x")
    case True
    then show ?thesis using k assms(1) by (intro exI [of _ "Suc (Suc k)"]) (simp add: workers_act_def)
  next
    case False
    then show ?thesis using k assms(1) by (intro exI [of _ "Suc k"]) (simp add: workers_act_def)
  qed
qed

lemma alone_one: "\<exists>k. alone start k x p = obind (phase_step start [x] x p) (\<lambda>(x, p). Value \<lparr>wk_pool = p, wk_phases = [x], wk_inside = None\<rparr>)"
proof (cases "uses_queue x")
  case True
  then show ?thesis by (intro exI [of _ 2]) (cases "phase_step start [x] x p"; auto simp: numeral_2_eq_2 workers_act_def)
next
  case False
  then show ?thesis by (intro exI [of _ 1]) (cases "phase_step start [x] x p"; auto simp: workers_act_def)
qed

lemma leave_alone:
  "script_step t s p = leave t e p' \<Longrightarrow>
    \<exists>k. alone start k (Runs t s) p = obind (leave t e p') (\<lambda>(x, p). Value \<lparr>wk_pool = p, wk_phases = [x], wk_inside = None\<rparr>)"
  using alone_one [where start = start and p = p and x = "Runs t s"] by simp

lemma alone_done:
  "phase_step start [x] x p = Value (y, p') \<Longrightarrow> \<exists>k. alone start k x p = Value \<lparr>wk_pool = p', wk_phases = [y], wk_inside = None\<rparr>"
  using alone_one [where start = start and p = p and x = x] by simp

lemma run_alone:
  "run_script s p = Value (e, p') \<Longrightarrow> kind t p = Some b \<Longrightarrow>
    kind t p' = Some b \<and> (\<exists>k. alone start k (Runs t s) p = obind (leave t e p') (\<lambda>(x, p). Value \<lparr>wk_pool = p, wk_phases = [x], wk_inside = None\<rparr>))"
proof (induction s arbitrary: p)
  case (Notify a s)
  then obtain p1 where p1: "notify a p = Value p1" "run_script s p1 = Value (e, p')" by auto
  have "phase_step start [Runs t (Notify a s)] (Runs t (Notify a s)) p = Value (Runs t s, p1)" using p1(1) by simp
  from alone_step [OF this] Notify.IH [OF p1(2) kind_notify [OF p1(1) Notify.prems(2)]] show ?case by blast
next
  case (Go f s)
  then obtain p1 where p1: "pool_go f p = Value p1" "run_script s p1 = Value (e, p')" by auto
  have "phase_step start [Runs t (Go f s)] (Runs t (Go f s)) p = Value (Runs t s, p1)" using p1(1) by simp
  from alone_step [OF this] Go.IH(2) [OF p1(2) kind_go [OF p1(1) Go.prems(2)]] show ?case by blast
next
  case (Submit f s)
  then obtain p1 where p1: "pool_submit f p = Value p1" "run_script s p1 = Value (e, p')" by auto
  have "phase_step start [Runs t (Submit f s)] (Runs t (Submit f s)) p = Value (Runs t s, p1)" using p1(1) by simp
  from alone_step [OF this] Submit.IH(2) [OF p1(2) kind_submit [OF p1(1) Submit.prems(2)]] show ?case by blast
next
  case (New_trigger f)
  obtain a p1 where a: "NewTrigger p = (a, p1)" by (cases "NewTrigger p")
  then have p1: "kind t p1 = Some b" "run_script (f a) p1 = Value (e, p')"
    using New_trigger.prems by (auto simp: NewTrigger_def kind_def split: if_splits)
  have "phase_step start [Runs t (New_trigger f)] (Runs t (New_trigger f)) p = Value (Runs t (f a), p1)" using a by simp
  from alone_step [OF this] New_trigger.IH [OF rangeI p1(2,1)] show ?case by blast
next
  case (Await_func f s)
  let ?p = "p\<lparr>pl_triggers := pl_triggers p @ [[]], pl_store := pl_store p @ [new_FiberTask (seq f (Notify (Some (length (pl_triggers p))) Done))]\<rparr>"
  have e: "e = Waits (Some (length (pl_triggers p))) (Some (length (pl_store p))) s" "p' = ?p"
    using Await_func.prems(1) by (auto simp: NewTrigger_def pool_alloc_def)
  have "kind t ?p = Some b" using Await_func.prems(2) by (auto simp: kind_def nth_append split: if_splits)
  then show ?case unfolding e by (intro conjI leave_alone) (simp_all add: NewTrigger_def pool_alloc_def)
next
  case (Await_seconds s)
  let ?p = "p\<lparr>pl_triggers := pl_triggers p @ [[]], pl_timers := pl_timers p @ [length (pl_triggers p)]\<rparr>"
  have e: "e = Waits (Some (length (pl_triggers p))) None s" "p' = ?p"
    using Await_seconds.prems(1) by (auto simp: NewTrigger_def AsyncTimer_await_def)
  show ?case unfolding e using Await_seconds.prems(2)
    by (intro conjI leave_alone) (simp_all add: NewTrigger_def AsyncTimer_await_def kind_def split: if_splits)
qed (auto intro!: leave_alone)

text \<open>The steps after the call are those of \<open>pool_settle\<close>.\<close>

lemma settle_alone:
  assumes "pool_settle t c p = Value p'"
  shows "\<exists>k. alone start k (Settles t c) p = Value \<lparr>wk_pool = p', wk_phases = [Free], wk_inside = None\<rparr>"
proof -
  obtain st a d where c: "c = Called st a d" by (cases c)
  show ?thesis
  proof (cases st)
    case kWaiting
    obtain wid wq where w: "ps_push (pl_wait_queue p) t = (wid, wq)" by (cases "ps_push (pl_wait_queue p) t")
    with assms c kWaiting obtain p1 where
      p1: "trigger_Register a wid (p\<lparr>pl_wait_queue := wq\<rparr>) = Value p1"
        "(case d of None \<Rightarrow> Value p1 | Some t \<Rightarrow> pool_push ''push fail'' (Some t) p1) = Value p'" by (auto simp: pool_settle_def)
    have 1: "phase_step start [Settles t c] (Settles t c) p = Value (Registers wid a d, p\<lparr>pl_wait_queue := wq\<rparr>)"
      using w c kWaiting by simp
    have 2: "phase_step start [Registers wid a d] (Registers wid a d) (p\<lparr>pl_wait_queue := wq\<rparr>) = Value (case d of None \<Rightarrow> Free | Some e \<Rightarrow> Submits e, p1)"
      using p1(1) by simp
    have "\<exists>k. alone start k (case d of None \<Rightarrow> Free | Some e \<Rightarrow> Submits e) p1 = Value \<lparr>wk_pool = p', wk_phases = [Free], wk_inside = None\<rparr>"
    proof (cases d)
      case None
      then show ?thesis using p1(2) by (intro exI [of _ 0]) simp
    next
      case (Some e)
      then show ?thesis using p1(2) by (auto intro!: alone_done)
    qed
    then show ?thesis using alone_step [OF 1 alone_step [OF 2]] by blast
  qed (use assms c in \<open>auto simp: pool_settle_def intro!: alone_done\<close>)
qed

text \<open>
  C13 (equivalence). A worker that nobody disturbs does in its steps exactly what one iteration of the sequential model does: for every pool and every
  script, whatever \<open>pool_work\<close> returns is the pool after some number of steps, with the worker free again.
\<close>

theorem workers_alone:
  assumes "pool_work (start p) p = Value (b, p')" "\<forall>tk \<in> set (pl_store p). tk_fiber tk \<or> (\<exists>f. tk_routine tk = NilFiber f)"
  shows "\<exists>k. workers_exec start (replicate k (Step 0)) (workers_new 1 p) = Value (workers_new 1 p')"
proof -
  have new: "workers_new 1 p = \<lparr>wk_pool = p, wk_phases = [Free], wk_inside = None\<rparr>" for p by (simp add: workers_new_def)
  from assms(1) obtain r q where q: "fq_pop_hard (pl_tasks p) (start p) = Value (r, q)" by (auto simp: pool_work_def pool_poll_def)
  let ?p = "p\<lparr>pl_tasks := q\<rparr>"
  show ?thesis
  proof (cases r)
    case None
    then have "phase_step start [Free] Free p = Value (Free, ?p)" "p' = ?p" using q assms(1) by (auto simp: pool_work_def pool_poll_def)
    then show ?thesis unfolding new by (auto intro!: alone_done)
  next
    case (Some cur)
    with assms(1) q obtain c p1 where
      c: "task_call cur ?p = Value (c, p1)" "pool_settle (the cur) c p1 = Value p'" by (auto simp: pool_work_def pool_poll_def Let_def)
    then obtain t tk where t: "cur = Some t" "vec_get (pl_store p) (int t) = Value tk" by (cases cur) (auto simp: task_call_def)
    then have tk: "t < length (pl_store p)" "tk = pl_store p ! t" by (auto simp: vec_get_def split: if_splits)
    have fib: "tk_fiber tk \<or> (\<exists>f. tk_routine tk = NilFiber f)" using assms(2) tk by simp
    obtain s where s: "tk_routine tk = NilFiber s \<or> tk_routine tk = Suspended s" "begin_call [Free] cur ?p = Value (Runs t s, ?p)"
      "(if tk_fiber tk then FiberTask_call t s ?p else FunctionTask_call s ?p) = Value (c, p1)"
      using c(1) t tk fib by (cases "tk_routine tk") (auto simp: task_call_def begin_call_def is_running_def split: if_splits)
    then obtain e p2 where e: "run_script s ?p = Value (e, p2)" by (auto simp: FiberTask_call_def FunctionTask_call_def split: if_splits)
    have "kind t ?p = Some (tk_fiber tk)" using tk by (simp add: kind_def)
    from run_alone [OF e this, of start] obtain k where
      k: "kind t p2 = Some (tk_fiber tk)" "alone start k (Runs t s) ?p = obind (leave t e p2) (\<lambda>(x, p). Value \<lparr>wk_pool = p, wk_phases = [x], wk_inside = None\<rparr>)" by blast
    have "leave t e p2 = Value (Settles t c, p1)"
      using s(3) e k(1) by (auto simp: FiberTask_call_def FunctionTask_call_def leave_def kind_def split: if_splits switch.splits)
    then have k2: "alone start k (Runs t s) ?p = Value \<lparr>wk_pool = p1, wk_phases = [Settles t c], wk_inside = None\<rparr>" using k(2) by simp
    from settle_alone [OF c(2)] t(1) obtain j where
      "alone start j (Settles t c) p1 = Value \<lparr>wk_pool = p', wk_phases = [Free], wk_inside = None\<rparr>" by auto
    with k2 have "alone start (k + j) (Runs t s) ?p = Value \<lparr>wk_pool = p', wk_phases = [Free], wk_inside = None\<rparr>"
      by (simp add: replicate_add workers_exec_append)
    moreover have "phase_step start [Free] Free p = Value (Runs t s, ?p)" using q Some s(2) by simp
    ultimately show ?thesis unfolding new using alone_step by blast
  qed
qed

theorem workers_alone_witness:
  "\<exists>p p' k. pool_go (Yield (Go Done Done)) pool_new = Value p \<and> pool_work 0 p = Value (True, p') \<and>
     workers_exec (\<lambda>_. 0) (replicate k (Step 0)) (workers_new 1 p) = Value (workers_new 1 p')"
proof -
  have s: "structured (Yield (Go Done Done))" "Suc (spawns (Yield (Go Done Done))) \<le> kLocalQueueSize" by (simp_all add: kLocalQueueSize_def)
  from quiet_go [OF s] obtain p where p: "pool_go (Yield (Go Done Done)) pool_new = Value p" "quiet p (weight (Yield (Go Done Done))) [0]" by blast
  from pool_work_step [OF p(2)] obtain p' where p': "pool_work 0 p = Value (True, p')" by blast
  have "\<forall>tk \<in> set (pl_store p). tk_fiber tk \<or> (\<exists>f. tk_routine tk = NilFiber f)" using p(2) by (auto simp: quiet_def pool_rep_def)
  from workers_alone [OF _ this, of "\<lambda>_. 0"] p(1) p' show ?thesis by blast
qed

end
