(* ===== verification/Pool_Types.thy ===== *)
theory Pool_Types
  imports Pool_Workers
begin

text \<open>
  No made-up references, for programs of any kind: whatever the fibers do with triggers, timers, functions and each other, on
  any number of workers, every task that a queue, a worker or a trigger refers to has been made before, and so has every trigger, as long as no step is undefined. This is an invariant of the raw memory of the containers,
  so that it needs nothing of their order or of the room in them. It does not say that an object is still alive: lifetimes are not modelled.
\<close>

section \<open>What the containers hold\<close>

definition queue_typed :: "('a \<Rightarrow> bool) \<Rightarrow> 'a fast_queue \<Rightarrow> bool" where
  "queue_typed P q \<longleftrightarrow> P (fq_null q) \<and> (\<forall>lq \<in> set (fq_heap q). lq_data lq \<noteq> [] \<and> (\<forall>x \<in> set (lq_data lq). P x))"

definition stack_typed :: "('a \<Rightarrow> bool) \<Rightarrow> 'a push_stack \<Rightarrow> bool" where
  "stack_typed P s \<longleftrightarrow> (\<forall>cells x. Some cells \<in> set (ps_stacks s) \<longrightarrow> Some x \<in> set cells \<longrightarrow> P x)"

lemma vec_get_mem: "vec_get xs i = Value x \<Longrightarrow> x \<in> set xs"
  by (auto simp: vec_get_def split: if_split_asm)

lemma retry_keeps:
  assumes "\<And>s ok s'. P s \<Longrightarrow> f s = Value (ok, s') \<Longrightarrow> P s'" "P s" "retry f n s = Value (k, s')"
  shows "P s'"
  using assms(2,3)
proof (induction n arbitrary: s)
  case (Suc n)
  show ?case
  proof (cases "n = 0")
    case False
    with Suc.prems obtain ok s1 where "f s = Value (ok, s1)" "(if ok then Value (n, s1) else retry f n s1) = Value (k, s')" by auto
    then show ?thesis using Suc.IH assms(1) Suc.prems(1) by (auto split: if_splits)
  qed (use Suc.prems in auto)
qed auto

lemma queue_typed_heap: "queue_typed P q \<Longrightarrow> fq_heap q' = fq_heap q \<Longrightarrow> fq_null q' = fq_null q \<Longrightarrow> queue_typed P q'"
  by (simp add: queue_typed_def)

lemma queue_typed_mono: "queue_typed P q \<Longrightarrow> (\<And>x. P x \<Longrightarrow> Q x) \<Longrightarrow> queue_typed Q q"
  by (auto simp: queue_typed_def)

lemma stack_typed_mono: "stack_typed P s \<Longrightarrow> (\<And>x. P x \<Longrightarrow> Q x) \<Longrightarrow> stack_typed Q s"
  unfolding stack_typed_def by blast

lemma queue_typed_update:
  assumes "queue_typed P q" "lq_data lq \<noteq> []" "\<forall>x \<in> set (lq_data lq). P x"
  shows "queue_typed P (q\<lparr>fq_heap := (fq_heap q)[i := lq]\<rparr>)"
proof -
  have "set ((fq_heap q)[i := lq]) \<subseteq> insert lq (set (fq_heap q))" by (rule set_update_subset_insert)
  then show ?thesis using assms by (auto simp: queue_typed_def)
qed

lemma lq_push_data: "lq_push lq x = (ok, lq') \<Longrightarrow> lq_data lq \<noteq> [] \<Longrightarrow> lq_data lq' \<noteq> [] \<and> set (lq_data lq') \<subseteq> insert x (set (lq_data lq))"
  using set_update_subset_insert [of "lq_data lq" "unat (lq_tail_fast lq) mod length (lq_data lq)" x]
  by (auto simp: lq_push_def Let_def split: if_splits)

lemma lq_pop_data: "lq_pop lq = (r, lq') \<Longrightarrow> lq_data lq \<noteq> [] \<Longrightarrow> lq_data lq' = lq_data lq \<and> (\<forall>x. r = Some x \<longrightarrow> x \<in> set (lq_data lq))"
  by (auto simp: lq_pop_def Let_def split: if_splits)

lemma local_push_typed:
  assumes "queue_typed P q" "P x" "fq_local_push q i x = Value (ok, q')"
  shows "queue_typed P q'"
proof -
  from assms(3) obtain lq where "vec_get (fq_heap q) (int i) = Value lq"
    "(case lq_push lq x of (ok, lq') \<Rightarrow> Value (ok, q\<lparr>fq_heap := (fq_heap q)[i := lq']\<rparr>)) = Value (ok, q')" by (auto simp: fq_local_push_def)
  then obtain lq' where lq: "vec_get (fq_heap q) (int i) = Value lq" "lq_push lq x = (ok, lq')"
    "q' = q\<lparr>fq_heap := (fq_heap q)[i := lq']\<rparr>" by (cases "lq_push lq x") auto
  then have "lq \<in> set (fq_heap q)" by (auto dest: vec_get_mem)
  then have "lq_data lq \<noteq> []" "\<forall>x \<in> set (lq_data lq). P x" using assms(1) by (auto simp: queue_typed_def)
  with lq_push_data [OF lq(2)] assms(1,2) show ?thesis unfolding lq(3) by (intro queue_typed_update) auto
qed

lemma local_pop_typed:
  assumes "queue_typed P q" "fq_local_pop q i = Value (r, q')"
  shows "queue_typed P q' \<and> (\<forall>x. r = Some x \<longrightarrow> P x)"
proof -
  from assms(2) obtain lq where "vec_get (fq_heap q) (int i) = Value lq"
    "(case lq_pop lq of (r, lq') \<Rightarrow> Value (r, q\<lparr>fq_heap := (fq_heap q)[i := lq']\<rparr>)) = Value (r, q')" by (auto simp: fq_local_pop_def)
  then obtain lq' where lq: "vec_get (fq_heap q) (int i) = Value lq" "lq_pop lq = (r, lq')"
    "q' = q\<lparr>fq_heap := (fq_heap q)[i := lq']\<rparr>" by (cases "lq_pop lq") auto
  then have "lq \<in> set (fq_heap q)" by (auto dest: vec_get_mem)
  then have d: "lq_data lq \<noteq> []" "\<forall>x \<in> set (lq_data lq). P x" using assms(1) by (auto simp: queue_typed_def)
  with lq_pop_data [OF lq(2)] assms(1) show ?thesis unfolding lq(3) by (auto intro!: queue_typed_update)
qed

lemma pop_down_typed: "fq_pop_down q i = Value (r, q') \<Longrightarrow> queue_typed P q \<Longrightarrow> queue_typed P q' \<and> (\<forall>x. r = Some x \<longrightarrow> P x)"
proof (induction q i rule: fq_pop_down.induct)
  case (1 q i)
  show ?case
  proof (cases "i \<ge> 0")
    case True
    with "1.prems"(1) obtain l where l: "fq_lookup q i = Value l" by (subst (asm) fq_pop_down.simps) auto
    show ?thesis
    proof (cases l)
      case None
      then show ?thesis using "1.IH"(1) [OF True l] "1.prems" l True by (subst (asm) (2) fq_pop_down.simps) auto
    next
      case (Some p)
      with "1.prems"(1) l True obtain r1 q1 where p: "fq_local_pop q p = Value (r1, q1)"
        "(case r1 of Some x \<Rightarrow> Value (Some x, q1) | None \<Rightarrow> fq_pop_down q1 (i - 1)) = Value (r, q')"
        by (subst (asm) fq_pop_down.simps) auto
      then show ?thesis using local_pop_typed [OF "1.prems"(2) p(1)] "1.IH"(2) [OF True l Some p(1) refl] by (cases r1) auto
    qed
  qed (use 1 in \<open>simp add: fq_pop_down.simps\<close>)
qed

lemma pop_up_typed: "fq_pop_up q i n = Value (r, q') \<Longrightarrow> queue_typed P q \<Longrightarrow> queue_typed P q' \<and> (\<forall>x. r = Some x \<longrightarrow> P x)"
proof (induction q i n rule: fq_pop_up.induct)
  case (1 q i n)
  show ?case
  proof (cases "i < n")
    case True
    with "1.prems"(1) obtain l where l: "fq_lookup q i = Value l" by (subst (asm) fq_pop_up.simps) auto
    show ?thesis
    proof (cases l)
      case None
      then show ?thesis using "1.prems" l True by (simp add: fq_pop_up.simps)
    next
      case (Some p)
      with "1.prems"(1) l True obtain r1 q1 where p: "fq_local_pop q p = Value (r1, q1)"
        "(case r1 of Some x \<Rightarrow> Value (Some x, q1)
          | None \<Rightarrow> fq_pop_up q1 (i + 1) (if i = n - 1 then ps_size (fq_QueueList q1) else n)) = Value (r, q')"
        by (subst (asm) fq_pop_up.simps) auto
      then show ?thesis using local_pop_typed [OF "1.prems"(2) p(1)] "1.IH" [OF True l Some p(1) refl] by (cases r1) auto
    qed
  qed (use 1 in \<open>simp add: fq_pop_up.simps\<close>)
qed

lemma pop_hard_typed:
  assumes "fq_pop_hard q middle = Value (r, q')" "queue_typed P q"
  shows "queue_typed P q' \<and> (\<forall>x. r = Some x \<longrightarrow> P x)"
proof -
  from assms(1) obtain r1 q1 where r1: "fq_pop_down q (int middle) = Value (r1, q1)"
    "(case r1 of Some x \<Rightarrow> Value (Some x, q1) | None \<Rightarrow> fq_pop_up q1 (int middle + 1) (ps_size (fq_QueueList q))) = Value (r, q')"
    by (auto simp: fq_pop_hard_def Let_def)
  from pop_down_typed [OF r1(1) assms(2)] pop_up_typed [of q1 "int middle + 1" _ r q' P] r1(2) show ?thesis by (cases r1) auto
qed

text \<open>Handles: only \<open>push\<close> writes, and a new ring holds null pointers.\<close>

lemma apply_typed: "queue_typed P (fst s) \<Longrightarrow> ph_apply s = Value (ok, s') \<Longrightarrow> queue_typed P (fst s')"
  by (auto simp: ph_apply_def Let_def split: prod.split_asm option.split_asm elim!: queue_typed_heap)

lemma preempt_typed: "queue_typed P (fst s) \<Longrightarrow> ph_preempt s = Value (ok, s') \<Longrightarrow> queue_typed P (fst s')"
  by (auto simp: ph_preempt_def fq_create_queue_def Let_def queue_typed_def lq_new_def kLocalQueueSize_def split: prod.split_asm option.split_asm if_split_asm)

lemma push_typed: "queue_typed P (fst s) \<Longrightarrow> P x \<Longrightarrow> ph_push x s = Value (ok, s') \<Longrightarrow> queue_typed P (fst s')"
  by (auto simp: ph_push_def split: prod.split_asm option.split_asm dest: local_push_typed)

lemma release_typed: "queue_typed P (fst s) \<Longrightarrow> ph_release s = Value s' \<Longrightarrow> queue_typed P (fst s')"
  by (auto simp: ph_release_def split: prod.split_asm elim!: queue_typed_heap)

text \<open>The retry loops keep it.\<close>

lemma retry_apply_typed: "queue_typed P (fst s) \<Longrightarrow> retry ph_apply n s = Value (k, s') \<Longrightarrow> queue_typed P (fst s')"
  by (rule retry_keeps [where P = "\<lambda>s. queue_typed P (fst s)" and f = ph_apply, OF apply_typed])

lemma retry_preempt_typed: "queue_typed P (fst s) \<Longrightarrow> retry ph_preempt n s = Value (k, s') \<Longrightarrow> queue_typed P (fst s')"
  by (rule retry_keeps [where P = "\<lambda>s. queue_typed P (fst s)" and f = ph_preempt, OF preempt_typed])

lemma retry_push_typed: "P x \<Longrightarrow> queue_typed P (fst s) \<Longrightarrow> retry (ph_push x) n s = Value (k, s') \<Longrightarrow> queue_typed P (fst s')"
  by (rule retry_keeps [where P = "\<lambda>s. queue_typed P (fst s)" and f = "ph_push x", OF push_typed])

lemma acquire_typed:
  assumes "queue_typed P (fst s)" "ph_acquire s = Value s'"
  shows "queue_typed P (fst s')"
proof -
  from assms(2) obtain n s1 where s1: "retry ph_apply kProducerRetry s = Value (n, s1)"
    "(if n = 0 then obind (retry ph_preempt kProducerRetry s1) (\<lambda>(_, s). Value s) else Value s1) = Value s'" by (auto simp: ph_acquire_def)
  have "queue_typed P (fst s1)" by (rule retry_apply_typed [OF assms(1) s1(1)])
  then show ?thesis using s1(2) retry_preempt_typed [of P s1] by (fastforce split: if_split_asm)
qed

lemma push_hard_typed:
  assumes "queue_typed P (fst s)" "P x" "ph_push_hard x s = Value (ok, s')"
  shows "queue_typed P (fst s')"
proof -
  note push = retry_push_typed [where P = P and x = x, OF assms(2)] and preempt = retry_preempt_typed [where P = P]
  from assms(3) obtain s1 where s1: "(if ph_local (snd s) = None then ph_acquire s else Value s) = Value s1"
    "(if ph_local (snd s1) = None then Value (False, s1) else obind (retry (ph_push x) kProducerRetry s1) (\<lambda>(n, s).
         if n \<noteq> 0 then Value (True, s)
         else obind (ph_release s) (\<lambda>s. obind (retry ph_preempt kProducerRetry s) (\<lambda>(_, s).
             if ph_local (snd s) = None then Value (False, s)
             else obind (retry (ph_push x) kProducerRetry s) (\<lambda>(n, s). Value (n \<noteq> 0, s)))))) = Value (ok, s')"
    unfolding ph_push_hard_def by auto
  have t1: "queue_typed P (fst s1)" using s1(1) assms(1) acquire_typed [of P s s1] by (auto split: if_split_asm)
  show ?thesis
  proof (cases "ph_local (snd s1) = None")
    case False
    with s1(2) obtain n s2 where s2: "retry (ph_push x) kProducerRetry s1 = Value (n, s2)"
      "(if n \<noteq> 0 then Value (True, s2) else obind (ph_release s2) (\<lambda>s. obind (retry ph_preempt kProducerRetry s) (\<lambda>(_, s).
             if ph_local (snd s) = None then Value (False, s)
             else obind (retry (ph_push x) kProducerRetry s) (\<lambda>(n, s). Value (n \<noteq> 0, s))))) = Value (ok, s')" by auto
    have t2: "queue_typed P (fst s2)" by (rule push [OF t1 s2(1)])
    show ?thesis
    proof (cases "n \<noteq> 0")
      case False
      with s2(2) obtain s3 k s4 where s3: "ph_release s2 = Value s3" "retry ph_preempt kProducerRetry s3 = Value (k, s4)"
        "(if ph_local (snd s4) = None then Value (False, s4) else obind (retry (ph_push x) kProducerRetry s4) (\<lambda>(n, s). Value (n \<noteq> 0, s))) = Value (ok, s')"
        by auto
      then have "queue_typed P (fst s4)" using preempt release_typed [OF t2] by blast
      then show ?thesis using s3(3) push [of s4] by (fastforce split: if_split_asm)
    qed (use s2(2) t2 in auto)
  qed (use s1(2) t1 in auto)
qed

lemma destroy_typed: "queue_typed P (fst s) \<Longrightarrow> ph_destroy s = Value q \<Longrightarrow> queue_typed P q"
  by (auto simp: ph_destroy_def split: option.split_asm dest: release_typed)

lemma submit_typed:
  assumes "queue_typed P q" "P x" "fq_submit x q = Value (ok, q')"
  shows "queue_typed P q'"
proof -
  from assms(3) obtain s s1 where s: "ph_new q = Value s" "ph_push_hard x s = Value (ok, s1)" "ph_destroy s1 = Value q'"
    by (auto simp: fq_submit_def)
  have "queue_typed P (fst s)" using s(1) assms(1) acquire_typed [of P "(q, \<lparr>ph_token = 0, ph_local = None\<rparr>)" s] by (simp add: ph_new_def)
  then show ?thesis using push_hard_typed [where P = P, OF _ assms(2) s(2)] destroy_typed [where P = P, OF _ s(3)] by blast
qed

text \<open>The wait queue.\<close>

lemma stack_push_typed:
  assumes "stack_typed P s" "P x" "ps_push s x = (k, s')"
  shows "stack_typed P s'"
proof (cases "size_t_of_int (sint (ps_end s)) \<ge> ps_max_size s")
  case False
  define m where "m = size_t_of_int (sint (ps_end s)) div ps_unit s"
  define old where "old = (case ps_stacks s ! m of None \<Rightarrow> replicate (ps_unit s) None | Some cells \<Rightarrow> cells)"
  have s': "ps_stacks s' = (ps_stacks s)[m := Some (old[nat (sint (ps_end s)) - m * ps_unit s := Some x])]"
    using assms(3) False by (auto simp: ps_push_def Let_def m_def old_def cong: option.case_cong)
  show ?thesis
  proof (cases "m < length (ps_stacks s)")
    case True
    have "P y" if "Some y \<in> set old" for y
      using that assms(1) nth_mem [OF True] by (auto simp: old_def stack_typed_def split: option.split_asm if_split_asm)
    then have "P y" if "Some y \<in> set (old[i := Some x])" for y i
      using that set_update_subset_insert [of old i "Some x"] assms(2) by auto
    then show ?thesis using assms(1) set_update_subset_insert [of "ps_stacks s" m] unfolding stack_typed_def s' by blast
  qed (use assms(1) s' in \<open>simp add: stack_typed_def not_less list_update_beyond\<close>)
qed (use assms in \<open>auto simp: ps_push_def Let_def stack_typed_def\<close>)

lemma stack_get_typed: "stack_typed P s \<Longrightarrow> ps_get s k = Value (Some (Some x)) \<Longrightarrow> P x"
proof -
  assume t: "stack_typed P s" and g: "ps_get s k = Value (Some (Some x))"
  from g obtain i cells j where "vec_get (ps_stacks s) i = Value (Some cells)" "vec_get cells j = Value (Some x)"
    by (auto simp: ps_get_def Let_def split: if_split_asm option.split_asm)
  then have "Some cells \<in> set (ps_stacks s)" "Some x \<in> set cells" by (auto dest: vec_get_mem)
  then show "P x" using t unfolding stack_typed_def by blast
qed

section \<open>Well-scoped programs\<close>

text \<open>\<open>scoped s n\<close>: \<open>s\<close> uses only null triggers, the first \<open>n\<close> triggers, and those that it makes itself.\<close>

definition ref_ok :: "nat \<Rightarrow> nat option \<Rightarrow> bool" where
  "ref_ok n r \<longleftrightarrow> (case r of None \<Rightarrow> True | Some t \<Rightarrow> t < n)"

primrec scoped :: "script \<Rightarrow> nat \<Rightarrow> bool" where
  "scoped Done n = True"
| "scoped (Yield k) n = scoped k n"
| "scoped (Await t k) n = (ref_ok n t \<and> scoped k n)"
| "scoped (Await_seconds k) n = scoped k n"
| "scoped (Await_func f k) n = (scoped f n \<and> scoped k n)"
| "scoped (Notify t k) n = (ref_ok n t \<and> scoped k n)"
| "scoped (Go f k) n = (scoped f n \<and> scoped k n)"
| "scoped (Submit f k) n = (scoped f n \<and> scoped k n)"
| "scoped (New_trigger f) n = (\<forall>a \<ge> n. scoped (f a) (Suc a))"

lemma ref_ok_mono: "ref_ok n r \<Longrightarrow> n \<le> m \<Longrightarrow> ref_ok m r"
  by (auto simp: ref_ok_def split: option.splits)

lemma scoped_mono: "scoped s n \<Longrightarrow> n \<le> m \<Longrightarrow> scoped s m"
  by (induction s arbitrary: n m) (auto intro: ref_ok_mono)

lemma scoped_seq: "scoped f n \<Longrightarrow> scoped k n \<Longrightarrow> scoped (seq f k) n"
proof (induction f arbitrary: n)
  case (New_trigger f)
  have "scoped (seq (f a) k) (Suc a)" if "n \<le> a" for a
    using New_trigger.IH [of "f a" "Suc a"] New_trigger.prems that scoped_mono [of k n "Suc a"] by simp
  then show ?case by simp
qed auto

definition task_typed :: "nat \<Rightarrow> task \<Rightarrow> bool" where
  "task_typed n tk \<longleftrightarrow> (case tk_routine tk of NilFiber s \<Rightarrow> scoped s n | Suspended s \<Rightarrow> scoped s n | Ended \<Rightarrow> True)"

definition pool_typed :: "pool \<Rightarrow> bool" where
  "pool_typed p \<longleftrightarrow> queue_typed (ref_ok (length (pl_store p))) (pl_tasks p) \<and> stack_typed (\<lambda>t. t < length (pl_store p)) (pl_wait_queue p) \<and>
     (\<forall>tk \<in> set (pl_store p). task_typed (length (pl_triggers p)) tk) \<and> (\<forall>t \<in> set (pl_timers p). t < length (pl_triggers p))"

fun phase_typed :: "pool \<Rightarrow> phase \<Rightarrow> bool" where
  "phase_typed p Free \<longleftrightarrow> True"
| "phase_typed p (Runs t s) \<longleftrightarrow> t < length (pl_store p) \<and> scoped s (length (pl_triggers p))"
| "phase_typed p (Settles t (Called st trigger c)) \<longleftrightarrow> t < length (pl_store p) \<and> ref_ok (length (pl_triggers p)) trigger \<and> ref_ok (length (pl_store p)) c"
| "phase_typed p (Registers wid trigger c) \<longleftrightarrow> ref_ok (length (pl_triggers p)) trigger \<and> ref_ok (length (pl_store p)) c"
| "phase_typed p (Submits c) \<longleftrightarrow> c < length (pl_store p)"

definition grows :: "pool \<Rightarrow> pool \<Rightarrow> bool" where
  "grows p p' \<longleftrightarrow> length (pl_store p) \<le> length (pl_store p') \<and> length (pl_triggers p) \<le> length (pl_triggers p')"

lemma phase_typed_mono: "phase_typed p x \<Longrightarrow> grows p p' \<Longrightarrow> phase_typed p' x"
  by (cases "(p, x)" rule: phase_typed.cases) (auto simp: grows_def intro: ref_ok_mono scoped_mono)

lemma task_typed_mono: "task_typed n tk \<Longrightarrow> n \<le> m \<Longrightarrow> task_typed m tk"
  by (auto simp: task_typed_def split: routine.splits intro: scoped_mono)

text \<open>The library calls.\<close>

lemma pool_push_typed:
  assumes "pool_push msg t p = Value p'" "pool_typed p" "ref_ok (length (pl_store p)) t"
  shows "pool_typed p' \<and> pl_store p' = pl_store p \<and> pl_triggers p' = pl_triggers p"
proof -
  from assms(1) obtain ok q where q: "fq_submit t (pl_tasks p) = Value (ok, q)"
    "p' = p\<lparr>pl_tasks := q, pl_log := (if ok then pl_log p else pl_log p @ [msg])\<rparr>" by (auto simp: pool_push_def)
  then show ?thesis using submit_typed [of "ref_ok (length (pl_store p))" "pl_tasks p" t ok q] assms(2,3) by (simp add: pool_typed_def)
qed

lemma pool_alloc_typed:
  assumes "pool_alloc tk p = (t, p')" "pool_typed p" "task_typed (length (pl_triggers p)) tk"
  shows "pool_typed p' \<and> grows p p' \<and> t < length (pl_store p') \<and> pl_triggers p' = pl_triggers p"
proof -
  have p': "p' = p\<lparr>pl_store := pl_store p @ [tk]\<rparr>" "t = length (pl_store p)" using assms(1) by (auto simp: pool_alloc_def)
  have "queue_typed (ref_ok (Suc (length (pl_store p)))) (pl_tasks p)"
    using assms(2) unfolding pool_typed_def by (auto elim!: queue_typed_mono intro: ref_ok_mono)
  moreover have "stack_typed (\<lambda>t. t < Suc (length (pl_store p))) (pl_wait_queue p)"
    using assms(2) unfolding pool_typed_def by (auto elim!: stack_typed_mono)
  ultimately show ?thesis using assms(2,3) by (auto simp: p' pool_typed_def grows_def)
qed

lemma NewTrigger_typed:
  assumes "NewTrigger p = (a, p')" "pool_typed p"
  shows "pool_typed p' \<and> grows p p' \<and> a = length (pl_triggers p) \<and> length (pl_triggers p') = Suc a \<and> pl_store p' = pl_store p"
  using assms task_typed_mono [of "length (pl_triggers p)" _ "Suc (length (pl_triggers p))"]
  by (auto simp: NewTrigger_def pool_typed_def grows_def less_Suc_eq)

lemma notify_loop_typed:
  "notify_loop wq ids s log = Value (s', log') \<Longrightarrow> stack_typed (\<lambda>t. t < n) wq \<Longrightarrow> queue_typed (ref_ok n) (fst s) \<Longrightarrow> queue_typed (ref_ok n) (fst s')"
proof (induction wq ids s log rule: notify_loop.induct)
  case (2 wq wid ids s log)
  from "2.prems"(1) obtain r where r: "ps_get wq wid = Value r" by auto
  show ?case
  proof (cases r)
    case (Some t)
    with "2.prems"(1) r obtain ok s1 where s1: "ph_push_hard t s = Value (ok, s1)"
      "notify_loop wq ids s1 (if ok then log else log @ [''push fail'']) = Value (s', log')" by auto
    have "ref_ok n t" using stack_get_typed [OF "2.prems"(2), of wid] r Some by (cases t) (auto simp: ref_ok_def)
    then have "queue_typed (ref_ok n) (fst s1)" using push_hard_typed [where P = "ref_ok n" and x = t, OF "2.prems"(3) _ s1(1)] by blast
    then show ?thesis using "2.IH" [OF r Some s1(1) refl s1(2) "2.prems"(2)] by blast
  qed (use "2.prems" r in auto)
qed auto

lemma notify_typed:
  assumes "notify t p = Value p'" "pool_typed p"
  shows "pool_typed p' \<and> pl_store p' = pl_store p \<and> pl_triggers p' = pl_triggers p"
proof (cases t)
  case (Some a)
  with assms(1) obtain ws s s1 log q where
    n: "ph_new (pl_tasks p) = Value s" "notify_loop (pl_wait_queue p) ws s (pl_log p) = Value (s1, log)" "ph_destroy s1 = Value q"
      "p' = p\<lparr>pl_tasks := q, pl_log := log\<rparr>" by (auto simp: notify_def)
  let ?P = "ref_ok (length (pl_store p))"
  have "queue_typed ?P (fst s)"
    using n(1) assms(2) acquire_typed [of ?P "(pl_tasks p, \<lparr>ph_token = 0, ph_local = None\<rparr>)" s] by (simp add: ph_new_def pool_typed_def)
  then have "queue_typed ?P q" using notify_loop_typed [OF n(2)] destroy_typed [where P = ?P, OF _ n(3)] assms(2) by (auto simp: pool_typed_def)
  then show ?thesis using assms(2) n(4) by (simp add: pool_typed_def)
qed (use assms in \<open>simp add: notify_def\<close>)

lemma set_routine_typed:
  assumes "pool_typed p" "case rt of NilFiber s \<Rightarrow> scoped s (length (pl_triggers p)) | Suspended s \<Rightarrow> scoped s (length (pl_triggers p)) | Ended \<Rightarrow> True"
  shows "pool_typed (set_routine t st rt p)"
proof -
  have "task_typed (length (pl_triggers p)) tk" if "tk \<in> set ((pl_store p)[t := (pl_store p ! t)\<lparr>tk_status := st, tk_routine := rt\<rparr>])" for tk
    using that set_update_subset_insert [of "pl_store p" t] assms by (fastforce simp: pool_typed_def task_typed_def)
  then show ?thesis using assms(1) by (simp add: set_routine_def pool_typed_def)
qed

section \<open>The steps\<close>

text \<open>\<open>step_typed p (y, p')\<close>: after a step of a worker its new phase and the pool are well-typed and nothing has gone.\<close>

definition step_typed :: "pool \<Rightarrow> phase \<times> pool \<Rightarrow> bool" where
  "step_typed p r \<longleftrightarrow> (case r of (y, p') \<Rightarrow> pool_typed p' \<and> phase_typed p' y \<and> grows p p')"

lemma grows_refl [simp]: "grows p p"
  by (simp add: grows_def)

lemma grows_trans: "grows p q \<Longrightarrow> grows q r \<Longrightarrow> grows p r"
  by (auto simp: grows_def)

lemma step_typed_trans: "step_typed q r \<Longrightarrow> grows p q \<Longrightarrow> step_typed p r"
  by (auto simp: step_typed_def intro: grows_trans)

lemma set_routine_sizes [simp]:
  "length (pl_store (set_routine t st rt p)) = length (pl_store p)" "pl_triggers (set_routine t st rt p) = pl_triggers p"
  by (simp_all add: set_routine_def)

definition switch_typed :: "pool \<Rightarrow> switch \<Rightarrow> bool" where
  "switch_typed p e \<longleftrightarrow> (case e of Returned \<Rightarrow> True | Yielded k \<Rightarrow> scoped k (length (pl_triggers p))
     | Waits trigger c k \<Rightarrow> ref_ok (length (pl_triggers p)) trigger \<and> ref_ok (length (pl_store p)) c \<and> scoped k (length (pl_triggers p)))"

lemma ref_ok_simps [simp]: "ref_ok n None" "ref_ok n (Some t) \<longleftrightarrow> t < n"
  by (simp_all add: ref_ok_def)

lemma leave_typed:
  assumes "leave t e p = Value r" "pool_typed p" "t < length (pl_store p)" "switch_typed p e"
  shows "step_typed p r"
  using assms by (auto simp: leave_def step_typed_def switch_typed_def grows_def set_routine_typed split: if_split_asm switch.splits)

lemma leave_typed_later:
  assumes "leave t e q = Value r" "switch_typed q e" "pool_typed q" "grows p q" "t < length (pl_store p)"
  shows "step_typed p r"
proof -
  have "t < length (pl_store q)" using assms(4,5) by (simp add: grows_def)
  from step_typed_trans [OF leave_typed [OF assms(1,3) this assms(2)] assms(4)] show ?thesis .
qed

lemma script_step_typed:
  assumes "script_step t s p = Value r" "pool_typed p" "t < length (pl_store p)" "scoped s (length (pl_triggers p))"
  shows "step_typed p r"
proof (cases s)
  case (Await_func f k)
  obtain a p1 where a: "NewTrigger p = (a, p1)" by (cases "NewTrigger p")
  note n = NewTrigger_typed [OF a assms(2)]
  let ?tk = "new_FiberTask (seq f (Notify (Some a) Done))"
  obtain c p2 where c: "pool_alloc ?tk p1 = (c, p2)" by (cases "pool_alloc ?tk p1")
  have "scoped (seq f (Notify (Some a) Done)) (length (pl_triggers p1))"
    using n assms(4) Await_func scoped_mono [of f "length (pl_triggers p)" "Suc a"] by (intro scoped_seq) auto
  then have "task_typed (length (pl_triggers p1)) ?tk" by (simp add: task_typed_def new_FiberTask_def)
  note m = pool_alloc_typed [OF c _ this]
  have "leave t (Waits (Some a) (Some c) k) p2 = Value r" using assms(1) Await_func a c by simp
  moreover have "switch_typed p2 (Waits (Some a) (Some c) k)" "pool_typed p2" "grows p p2"
    using n m assms(4) Await_func scoped_mono [of k "length (pl_triggers p)" "Suc a"] by (auto simp: switch_typed_def intro: grows_trans)
  ultimately show ?thesis using assms(3) by (rule leave_typed_later)
next
  case (Await_seconds k)
  obtain a p1 where a: "NewTrigger p = (a, p1)" by (cases "NewTrigger p")
  note n = NewTrigger_typed [OF a assms(2)]
  let ?p = "AsyncTimer_await a p1"
  have "leave t (Waits (Some a) None k) ?p = Value r" using assms(1) Await_seconds a by simp
  moreover have "switch_typed ?p (Waits (Some a) None k)" "pool_typed ?p" "grows p ?p"
    using n assms(4) Await_seconds scoped_mono [of k "length (pl_triggers p)" "Suc a"]
    by (auto simp: switch_typed_def AsyncTimer_await_def pool_typed_def grows_def)
  ultimately show ?thesis using assms(3) by (rule leave_typed_later)
next
  case (New_trigger f)
  obtain a p1 where a: "NewTrigger p = (a, p1)" by (cases "NewTrigger p")
  then show ?thesis using NewTrigger_typed [OF a assms(2)] assms New_trigger by (auto simp: step_typed_def)
next
  case (Notify a k)
  then obtain p1 where "notify a p = Value p1" "r = (Runs t k, p1)" using assms(1) by auto
  then show ?thesis using notify_typed [of a p p1] assms Notify by (auto simp: step_typed_def grows_def)
next
  case (Go f k)
  let ?tk = "new_FiberTask f"
  obtain c p1 where c: "pool_alloc ?tk p = (c, p1)" by (cases "pool_alloc ?tk p")
  then obtain p2 where p2: "pool_push ''Push failed'' (Some c) p1 = Value p2" "r = (Runs t k, p2)" using assms(1) Go by (auto simp: pool_go_def)
  have "task_typed (length (pl_triggers p)) ?tk" using assms(4) Go by (simp add: task_typed_def new_FiberTask_def)
  from pool_alloc_typed [OF c assms(2) this] pool_push_typed [OF p2(1)] p2(2) assms(3,4) Go show ?thesis by (auto simp: step_typed_def grows_def)
next
  case (Submit f k)
  let ?tk = "new_FunctionTask f"
  obtain c p1 where c: "pool_alloc ?tk p = (c, p1)" by (cases "pool_alloc ?tk p")
  then obtain p2 where p2: "pool_push ''Push failed'' (Some c) p1 = Value p2" "r = (Runs t k, p2)" using assms(1) Submit by (auto simp: pool_submit_def)
  have "task_typed (length (pl_triggers p)) ?tk" using assms(4) Submit by (simp add: task_typed_def new_FunctionTask_def)
  from pool_alloc_typed [OF c assms(2) this] pool_push_typed [OF p2(1)] p2(2) assms(3,4) Submit show ?thesis by (auto simp: step_typed_def grows_def)
qed (use assms leave_typed in \<open>auto simp: switch_typed_def\<close>)

lemma settle_step_typed:
  assumes "settle_step t c p = Value r" "pool_typed p" "phase_typed p (Settles t c)"
  shows "step_typed p r"
proof -
  obtain st a d where c: "c = Called st a d" by (cases c)
  show ?thesis
  proof (cases st)
    case kWaiting
    obtain wid wq where w: "ps_push (pl_wait_queue p) t = (wid, wq)" by (cases "ps_push (pl_wait_queue p) t")
    have "stack_typed (\<lambda>t. t < length (pl_store p)) wq"
      using stack_push_typed [OF _ _ w] assms(2,3) c by (auto simp: pool_typed_def)
    then show ?thesis using assms c kWaiting w by (auto simp: step_typed_def pool_typed_def grows_def)
  next
    case kReady
    then obtain p1 where "pool_push ''push fail'' (Some t) p = Value p1" "r = (Free, p1)" using assms(1) c by auto
    then show ?thesis using pool_push_typed [of "''push fail''" "Some t" p p1] assms(2,3) c by (auto simp: step_typed_def grows_def)
  qed (use assms c in \<open>auto simp: step_typed_def\<close>)
qed

lemma begin_call_typed:
  assumes "begin_call ph cur p = Value r" "pool_typed p"
  shows "step_typed p r"
proof -
  from assms(1) obtain t where t: "cur = Some t" by (cases cur) (auto simp: begin_call_def)
  with assms(1) obtain tk where tk: "vec_get (pl_store p) (int t) = Value tk"
    "(if tk_fiber tk \<and> is_running ph t then Undefined
      else case tk_routine tk of NilFiber f \<Rightarrow> Value (Runs t f, p) | Suspended k \<Rightarrow> Value (Runs t k, p) | Ended \<Rightarrow> Undefined) = Value r"
    by (auto simp: begin_call_def)
  have "task_typed (length (pl_triggers p)) tk" using vec_get_mem [OF tk(1)] assms(2) by (simp add: pool_typed_def)
  moreover have "t < length (pl_store p)" using tk(1) by (auto simp: vec_get_def split: if_split_asm)
  ultimately show ?thesis using tk(2) assms(2) by (auto simp: step_typed_def task_typed_def split: if_split_asm routine.split_asm)
qed

lemma phase_step_typed:
  assumes "phase_step start ph x p = Value r" "pool_typed p" "phase_typed p x"
  shows "step_typed p r"
proof (cases x)
  case Free
  then obtain cur q where q: "fq_pop_hard (pl_tasks p) (start p) = Value (cur, q)"
    "(case cur of None \<Rightarrow> Value (Free, p\<lparr>pl_tasks := q\<rparr>) | Some c \<Rightarrow> begin_call ph c (p\<lparr>pl_tasks := q\<rparr>)) = Value r"
    using assms(1) by (auto simp: Let_def)
  have t: "pool_typed (p\<lparr>pl_tasks := q\<rparr>)" "grows p (p\<lparr>pl_tasks := q\<rparr>)"
    using pop_hard_typed [OF q(1)] assms(2) by (auto simp: pool_typed_def grows_def)
  show ?thesis
  proof (cases cur)
    case (Some c)
    then have "begin_call ph c (p\<lparr>pl_tasks := q\<rparr>) = Value r" using q(2) by simp
    from step_typed_trans [OF begin_call_typed [OF this t(1)] t(2)] show ?thesis .
  qed (use q(2) t in \<open>auto simp: step_typed_def\<close>)
next
  case (Registers wid a c)
  then obtain t ws p1 where "a = Some t" "vec_get (pl_triggers p) (int t) = Value ws" "p1 = p\<lparr>pl_triggers := (pl_triggers p)[t := ws @ [wid]]\<rparr>"
    "r = (case c of None \<Rightarrow> Free | Some c \<Rightarrow> Submits c, p1)" using assms(1) by (auto simp: trigger_Register_def split: option.split_asm)
  then show ?thesis using assms(2,3) Registers by (auto simp: step_typed_def pool_typed_def grows_def split: option.splits)
next
  case (Submits c)
  then obtain p1 where "pool_push ''push fail'' (Some c) p = Value p1" "r = (Free, p1)" using assms(1) by auto
  then show ?thesis using pool_push_typed [of "''push fail''" "Some c" p p1] assms(2,3) Submits by (auto simp: step_typed_def grows_def)
qed (use assms script_step_typed settle_step_typed in auto)

section \<open>Properties\<close>

definition workers_typed :: "workers \<Rightarrow> bool" where
  "workers_typed S \<longleftrightarrow> pool_typed (wk_pool S) \<and> (\<forall>x \<in> set (wk_phases S). phase_typed (wk_pool S) x)"

lemma workers_do_typed:
  assumes "workers_do start a S = Value S'" "workers_typed S" "\<And>w. a = Step w \<Longrightarrow> w < length (wk_phases S)"
  shows "workers_typed S' \<and> length (wk_phases S') = length (wk_phases S)"
proof (cases a)
  case (Step w)
  then obtain y p where y: "phase_step start (wk_phases S) (wk_phases S ! w) (wk_pool S) = Value (y, p)"
    "S' = S\<lparr>wk_pool := p, wk_phases := (wk_phases S)[w := y]\<rparr>" using assms(1) by auto
  have "phase_typed (wk_pool S) (wk_phases S ! w)" using assms(2,3) Step by (simp add: workers_typed_def)
  then have t: "pool_typed p" "phase_typed p y" "grows (wk_pool S) p"
    using phase_step_typed [OF y(1)] assms(2) by (auto simp: workers_typed_def step_typed_def)
  have "phase_typed p x" if "x \<in> set ((wk_phases S)[w := y])" for x
    using that set_update_subset_insert [of "wk_phases S" w y] t(2) phase_typed_mono [OF _ t(3)] assms(2) by (auto simp: workers_typed_def)
  then show ?thesis using t(1) y(2) by (simp add: workers_typed_def)
next
  case (Fire t)
  show ?thesis
  proof (cases "t \<in> set (pl_timers (wk_pool S))")
    case True
    then obtain p where p: "notify (Some t) ((wk_pool S)\<lparr>pl_timers := remove1 t (pl_timers (wk_pool S))\<rparr>) = Value p" "S' = S\<lparr>wk_pool := p\<rparr>"
      using assms(1) Fire by (auto simp: timer_callback_def)
    have "pool_typed ((wk_pool S)\<lparr>pl_timers := remove1 t (pl_timers (wk_pool S))\<rparr>)"
      using assms(2) set_remove1_subset [of t "pl_timers (wk_pool S)"] by (auto simp: workers_typed_def pool_typed_def)
    from notify_typed [OF p(1) this] have "pool_typed p" "grows (wk_pool S) p" by (auto simp: grows_def)
    then show ?thesis using p(2) assms(2) phase_typed_mono by (auto simp: workers_typed_def)
  qed (use assms Fire in auto)
qed

lemma workers_act_typed:
  assumes "workers_act start a S = Value S'" "workers_typed S" "\<And>w. a = Step w \<Longrightarrow> w < length (wk_phases S)"
  shows "workers_typed S' \<and> length (wk_phases S') = length (wk_phases S)"
proof (cases "workers_do start a S")
  case (Value S1)
  from workers_do_typed [OF this assms(2,3)] Value assms(1,2) show ?thesis
    by (auto simp: workers_act_def workers_typed_def split: if_split_asm option.split_asm)
qed (use assms in \<open>auto simp: workers_act_def workers_typed_def split: if_split_asm option.split_asm\<close>)

lemma workers_exec_typed:
  "workers_exec start acts S = Value S' \<Longrightarrow> workers_typed S \<Longrightarrow> (\<And>w. Step w \<in> set acts \<Longrightarrow> w < length (wk_phases S)) \<Longrightarrow> workers_typed S'"
proof (induction acts arbitrary: S)
  case (Cons a acts)
  then obtain S1 where S1: "workers_act start a S = Value S1" "workers_exec start acts S1 = Value S'" by auto
  from workers_act_typed [OF S1(1) Cons.prems(2)] Cons.prems(3) have "workers_typed S1" "length (wk_phases S1) = length (wk_phases S)" by auto
  then show ?case using Cons.IH [OF S1(2)] Cons.prems(3) by simp
qed simp

text \<open>
  For every program whose triggers are its own, whatever it does, and every schedule of workers and timers that does not run into undefined behaviour: the
  ready queue and the wait queue hold only null pointers and tasks that have been made, every worker's task, awaited task and trigger has been made, and so have the timers' triggers
  and those of the scripts that are left. (The model keeps every task and trigger; when \<open>std::shared_ptr\<close> frees them is not part of it.)
\<close>

lemma workers_well_typed:
  assumes "scoped main 0" "\<And>w. Step w \<in> set acts \<Longrightarrow> w < n"
  shows "\<exists>p. pool_go main pool_new = Value p \<and> (\<forall>S. workers_exec start acts (workers_new n p) = Value S \<longrightarrow> workers_typed S)"
proof -
  from go_new [of main] obtain p where p: "pool_go main pool_new = Value p" by blast
  let ?tk = "new_FiberTask main"
  obtain c p1 where c: "pool_alloc ?tk pool_new = (c, p1)" by (cases "pool_alloc ?tk pool_new")
  have "pool_typed pool_new" by (auto simp: pool_typed_def pool_new_def queue_typed_def fq_new_def stack_typed_def ps_new_def)
  moreover have "task_typed (length (pl_triggers pool_new)) ?tk" using assms(1) by (simp add: task_typed_def new_FiberTask_def pool_new_def)
  ultimately have "pool_typed p1" "c < length (pl_store p1)" using pool_alloc_typed [OF c] by auto
  then have "pool_typed p" using p c pool_push_typed [of "''Push failed''" "Some c" p1 p] by (auto simp: pool_go_def)
  then have "workers_typed (workers_new n p)" by (simp add: workers_typed_def workers_new_def)
  with p workers_exec_typed assms(2) show ?thesis by (auto simp: workers_new_def)
qed

end
