(* ===== verification/Fiber_Port.thy ===== *)
theory Fiber_Port
  imports Coroutine
begin

text \<open>
  The switch between stacks: \<open>fiber_port.cc\<close> (the Windows port), the thread-local \<open>FiberData\<close> and \<open>FiberTask::call\<close>
  of \<open>fiber_task.h/.cc\<close>, and how \<open>yield\<close>, \<open>await\<close> and the end of a fiber leave it (\<open>coroutine.h/.cc\<close>). The model \<open>Coroutine\<close> takes the result of
  \<open>call()\<close> for granted; here it is what several threads compute through their thread-local variables. The fiber functions of the operating system
  are the fields of \<open>fiber_api\<close>, over an arbitrary state of the system; the first argument is the calling thread.
\<close>

section \<open>The port\<close>

record 's fiber_api =
  ConvertThreadToFiber :: "nat \<Rightarrow> 's \<Rightarrow> 's"
  GetCurrentFiber :: "nat \<Rightarrow> 's \<Rightarrow> nat"
  CreateFiber :: "nat \<Rightarrow> 's \<Rightarrow> nat option \<times> 's"
  SwitchToFiber :: "nat \<Rightarrow> nat \<Rightarrow> 's \<Rightarrow> 's"

record FiberData =
  fd_public_status :: TaskStatus
  fd_caller_fiber :: "nat option"
  fd_wait_for_task :: "nat option"
  fd_trigger :: "nat option"

definition FiberData_init :: FiberData where
  "FiberData_init = \<lparr>fd_public_status = kUnknown, fd_caller_fiber = None, fd_wait_for_task = None, fd_trigger = None\<rparr>"

record 's fibers =
  fb_os :: 's
  fb_data :: "nat \<Rightarrow> FiberData"

definition set_data :: "nat \<Rightarrow> (FiberData \<Rightarrow> FiberData) \<Rightarrow> 's fibers \<Rightarrow> 's fibers" where
  "set_data th f s = s\<lparr>fb_data := (fb_data s)(th := f (fb_data s th))\<rparr>"

definition InitEnv :: "'s fiber_api \<Rightarrow> nat \<Rightarrow> 's fibers \<Rightarrow> 's fibers" where
  "InitEnv api th s = s\<lparr>fb_os := ConvertThreadToFiber api th (fb_os s)\<rparr>"

definition CurrentFiber :: "'s fiber_api \<Rightarrow> nat \<Rightarrow> 's fibers \<Rightarrow> nat" where
  "CurrentFiber api th s = GetCurrentFiber api th (fb_os s)"

text \<open>\<open>NilFiber\<close> is \<open>None\<close>: \<open>CreateFiber\<close> returns it when it fails, and switching to it is undefined.\<close>

definition NewFiber :: "'s fiber_api \<Rightarrow> nat \<Rightarrow> 's fibers \<Rightarrow> nat option \<times> 's fibers" where
  "NewFiber api th s = (case CreateFiber api th (fb_os s) of (f, os) \<Rightarrow> (f, s\<lparr>fb_os := os\<rparr>))"

definition ToFiber :: "'s fiber_api \<Rightarrow> nat \<Rightarrow> nat option \<Rightarrow> 's fibers \<Rightarrow> 's fibers outcome" where
  "ToFiber api th f s =
     (let temp = fd_caller_fiber (fb_data s th);
          s = set_data th (fd_caller_fiber_update (\<lambda>_. Some (CurrentFiber api th s))) s
      in case (case f of None \<Rightarrow> temp | Some g \<Rightarrow> Some g) of
           None \<Rightarrow> Undefined
         | Some g \<Rightarrow> Value (s\<lparr>fb_os := SwitchToFiber api th g (fb_os s)\<rparr>))"

section \<open>The call of a fiber task\<close>

record fiber_task =
  ft_status :: TaskStatus
  ft_ret_routine :: "nat option"
  ft_work_routine :: "nat option"

definition fiber_task_new :: fiber_task where
  "fiber_task_new = \<lparr>ft_status = kUnknown, ft_ret_routine = None, ft_work_routine = None\<rparr>"

text \<open>\<open>call()\<close> up to the switch. Whether a fiber could be created is not checked.\<close>

definition fiber_enter :: "'s fiber_api \<Rightarrow> nat \<Rightarrow> fiber_task \<Rightarrow> 's fibers \<Rightarrow> (fiber_task \<times> 's fibers) outcome" where
  "fiber_enter api th t s =
     (let t = t\<lparr>ft_status := kReady, ft_ret_routine := Some (CurrentFiber api th s)\<rparr>;
          (r, s) = (case ft_work_routine t of None \<Rightarrow> NewFiber api th s | Some r \<Rightarrow> (Some r, s));
          t = t\<lparr>ft_work_routine := r\<rparr>;
          s = set_data th (fd_public_status_update (\<lambda>_. ft_status t)) s
      in obind (ToFiber api th r s) (\<lambda>s. Value (t, s)))"

text \<open>A fiber that runs on resets the status; a new one starts in \<open>_co_proxy\<close>.\<close>

definition fiber_resume :: "nat \<Rightarrow> bool \<Rightarrow> 's fibers \<Rightarrow> 's fibers" where
  "fiber_resume th starts s = (if starts then s else set_data th (fd_public_status_update (\<lambda>_. kReady)) s)"

text \<open>How a fiber leaves its stack: \<open>raw_call\<close> has returned to \<open>_co_proxy\<close>, or \<open>yield\<close>, or one of the \<open>await\<close> functions.\<close>

fun fiber_exit :: "'s fiber_api \<Rightarrow> nat \<Rightarrow> switch \<Rightarrow> 's fibers \<Rightarrow> 's fibers outcome" where
  "fiber_exit api th Returned s = ToFiber api th None (set_data th (fd_public_status_update (\<lambda>_. kFinished)) s)"
| "fiber_exit api th (Yielded k) s = ToFiber api th None s"
| "fiber_exit api th (Waits trigger wait_for_task k) s = ToFiber api th None (set_data th (\<lambda>d. d\<lparr>fd_trigger := trigger,
     fd_public_status := kWaiting, fd_wait_for_task := wait_for_task\<rparr>) s)"

section \<open>Threads that call fibers\<close>

text \<open>
  Each thread is in its worker, or in the call of a task. \<open>Exit\<close> is the rest of that call: the fiber that the thread is on leaves its stack.
  A fiber has ended when its \<open>raw_call\<close> has returned: switched to once more, it returns from \<open>_co_proxy\<close>, which is undefined. So is the switch
  to a fiber that runs on another thread.
\<close>

record 's fiber_sys =
  fs_fibers :: "'s fibers"
  fs_tasks :: "nat \<Rightarrow> fiber_task"
  fs_calls :: "nat option list"
  fs_ended :: "nat list"

datatype fiber_action = Enter nat nat | Exit nat switch

text \<open>What the worker on a thread sees when a call returns: the fiber it is on, the task, the status and the two variables it reads.\<close>

datatype fiber_event = Call_returned nat nat nat called

definition fiber_runs :: "'s fiber_api \<Rightarrow> nat \<Rightarrow> 's fiber_sys \<Rightarrow> 's fibers \<Rightarrow> bool" where
  "fiber_runs api th s fb \<longleftrightarrow> CurrentFiber api th fb \<notin> set (fs_ended s) \<and>
     (\<forall>u < length (fs_calls s). u \<noteq> th \<longrightarrow> CurrentFiber api u fb \<noteq> CurrentFiber api th fb)"

fun ended_by :: "switch \<Rightarrow> 'a \<Rightarrow> 'a list \<Rightarrow> 'a list" where
  "ended_by Returned x xs = x # xs"
| "ended_by (Yielded k) x xs = xs"
| "ended_by (Waits trigger wait_for_task k) x xs = xs"

fun fiber_act :: "'s fiber_api \<Rightarrow> fiber_action \<Rightarrow> 's fiber_sys \<Rightarrow> (fiber_event list \<times> 's fiber_sys) outcome" where
  "fiber_act api (Enter th i) s =
     (if th < length (fs_calls s) \<and> fs_calls s ! th = None \<and> Some i \<notin> set (fs_calls s) then
        obind (fiber_enter api th (fs_tasks s i) (fs_fibers s)) (\<lambda>(t, fb).
          if fiber_runs api th s fb then
            Value ([], s\<lparr>fs_fibers := fiber_resume th (ft_work_routine (fs_tasks s i) = None \<and> ft_work_routine t \<noteq> None) fb,
              fs_tasks := (fs_tasks s)(i := t), fs_calls := (fs_calls s)[th := Some i]\<rparr>)
          else Undefined)
      else Value ([], s))"
| "fiber_act api (Exit th e) s =
     (case (if th < length (fs_calls s) then fs_calls s ! th else None) of
        None \<Rightarrow> Value ([], s)
      | Some i \<Rightarrow> obind (fiber_exit api th e (fs_fibers s)) (\<lambda>fb.
          let d = fb_data fb th in
          Value ([Call_returned th i (CurrentFiber api th fb) (Called (fd_public_status d) (fd_trigger d) (fd_wait_for_task d))],
            s\<lparr>fs_fibers := fb, fs_tasks := (fs_tasks s)(i := (fs_tasks s i)\<lparr>ft_status := fd_public_status d\<rparr>), fs_calls := (fs_calls s)[th := None],
              fs_ended := ended_by e (CurrentFiber api th (fs_fibers s)) (fs_ended s)\<rparr>)))"

fun fiber_exec :: "'s fiber_api \<Rightarrow> fiber_action list \<Rightarrow> 's fiber_sys \<Rightarrow> (fiber_event list \<times> 's fiber_sys) outcome" where
  "fiber_exec api [] s = Value ([], s)"
| "fiber_exec api (a # acts) s = obind (fiber_act api a s) (\<lambda>(evs, s). obind (fiber_exec api acts s) (\<lambda>(evs', s). Value (evs @ evs', s)))"

text \<open>All threads have called \<open>InitEnv\<close>.\<close>

primrec init_threads :: "'s fiber_api \<Rightarrow> nat \<Rightarrow> 's fibers \<Rightarrow> 's fibers" where
  "init_threads api 0 s = s"
| "init_threads api (Suc n) s = InitEnv api n (init_threads api n s)"

definition fiber_sys_new :: "'s fiber_api \<Rightarrow> nat \<Rightarrow> 's \<Rightarrow> 's fiber_sys" where
  "fiber_sys_new api n os = \<lparr>fs_fibers = init_threads api n \<lparr>fb_os = os, fb_data = (\<lambda>_. FiberData_init)\<rparr>,
     fs_tasks = (\<lambda>_. fiber_task_new), fs_calls = replicate n None, fs_ended = []\<rparr>"

section \<open>What is relied on\<close>

text \<open>
  \<open>live\<close> are the fibers that exist and \<open>conv\<close> the threads that have been converted. A conversion and a creation give a new fiber, if a creation
  gives one at all; a switch to a fiber that exists makes it the current one of the calling thread; nothing of this concerns the current fiber
  of another thread.
\<close>

definition fiber_api_ok :: "'s fiber_api \<Rightarrow> ('s \<Rightarrow> nat set) \<Rightarrow> ('s \<Rightarrow> nat set) \<Rightarrow> bool" where
  "fiber_api_ok api live conv \<longleftrightarrow>
     (\<forall>th s. th \<notin> conv s \<longrightarrow> (let s' = ConvertThreadToFiber api th s; f = GetCurrentFiber api th s' in
        f \<notin> live s \<and> live s' = insert f (live s) \<and> conv s' = insert th (conv s) \<and>
        (\<forall>u. u \<noteq> th \<longrightarrow> GetCurrentFiber api u s' = GetCurrentFiber api u s))) \<and>
     (\<forall>th f s. f \<in> live s \<longrightarrow> (let s' = SwitchToFiber api th f s in
        live s' = live s \<and> (\<forall>u. GetCurrentFiber api u s' = (if u = th then f else GetCurrentFiber api u s)))) \<and>
     (\<forall>th s. case CreateFiber api th s of (r, s') \<Rightarrow>
        (case r of None \<Rightarrow> live s' = live s | Some f \<Rightarrow> f \<notin> live s \<and> live s' = insert f (live s)) \<and>
        (\<forall>u. GetCurrentFiber api u s' = GetCurrentFiber api u s))"

lemma fiber_api_okD:
  assumes "fiber_api_ok api live conv"
  shows "f \<in> live s \<Longrightarrow> live (SwitchToFiber api th f s) = live s \<and>
      GetCurrentFiber api u (SwitchToFiber api th f s) = (if u = th then f else GetCurrentFiber api u s)"
    and "CreateFiber api th s = (Some f, s') \<Longrightarrow> f \<notin> live s \<and> live s' = insert f (live s) \<and> GetCurrentFiber api u s' = GetCurrentFiber api u s"
    and "th \<notin> conv s \<Longrightarrow> (let s' = ConvertThreadToFiber api th s; f = GetCurrentFiber api th s' in
        f \<notin> live s \<and> live s' = insert f (live s) \<and> conv s' = insert th (conv s) \<and>
        (\<forall>u. u \<noteq> th \<longrightarrow> GetCurrentFiber api u s' = GetCurrentFiber api u s))"
proof -
  note a = assms [unfolded fiber_api_ok_def]
  show "f \<in> live s \<Longrightarrow> live (SwitchToFiber api th f s) = live s \<and>
      GetCurrentFiber api u (SwitchToFiber api th f s) = (if u = th then f else GetCurrentFiber api u s)"
    using conjunct1 [OF conjunct2 [OF a]] by (simp add: Let_def)
  show "CreateFiber api th s = (Some f, s') \<Longrightarrow> f \<notin> live s \<and> live s' = insert f (live s) \<and> GetCurrentFiber api u s' = GetCurrentFiber api u s"
    using conjunct2 [OF conjunct2 [OF a], THEN spec, of th, THEN spec, of s] by simp
qed (use conjunct1 [OF assms [unfolded fiber_api_ok_def]] in blast)

section \<open>Every call returns to its worker\<close>

text \<open>What \<open>Coroutine.FiberTask_call\<close> gives for a fiber that leaves its stack by \<open>e\<close>.\<close>

fun called_of :: "switch \<Rightarrow> called" where
  "called_of Returned = Called kFinished None None"
| "called_of (Yielded k) = Called kReady None None"
| "called_of (Waits trigger wait_for_task k) = Called kWaiting trigger wait_for_task"

text \<open>The worker reads the trigger and the awaited task only if the status is \<open>kWaiting\<close>.\<close>

fun same_call :: "called \<Rightarrow> called \<Rightarrow> bool" where
  "same_call (Called st t w) (Called st' t' w') \<longleftrightarrow> st = st' \<and> (st = kWaiting \<longrightarrow> t = t' \<and> w = w')"

definition fiber_inv :: "'s fiber_api \<Rightarrow> (nat \<Rightarrow> nat) \<Rightarrow> 's fiber_sys \<Rightarrow> bool" where
  "fiber_inv api home s \<longleftrightarrow> (\<forall>th < length (fs_calls s). case fs_calls s ! th of
       None \<Rightarrow> CurrentFiber api th (fs_fibers s) = home th
     | Some i \<Rightarrow> ft_work_routine (fs_tasks s i) = Some (CurrentFiber api th (fs_fibers s)) \<and>
         ft_ret_routine (fs_tasks s i) = Some (home th) \<and>
         fd_caller_fiber (fb_data (fs_fibers s) th) = Some (home th) \<and> fd_public_status (fb_data (fs_fibers s) th) = kReady) \<and>
     (\<forall>th th'. th < length (fs_calls s) \<longrightarrow> th' < length (fs_calls s) \<longrightarrow> fs_calls s ! th \<noteq> None \<longrightarrow> fs_calls s ! th = fs_calls s ! th' \<longrightarrow> th = th')"

text \<open>The fibers of the threads and of the tasks exist and are different, and only a task of \<open>ended\<close> has a fiber that has ended.\<close>

definition fibers_apart :: "('s \<Rightarrow> nat set) \<Rightarrow> (nat \<Rightarrow> nat) \<Rightarrow> nat list \<Rightarrow> 's fiber_sys \<Rightarrow> bool" where
  "fibers_apart live home ended s \<longleftrightarrow>
     home ` {..<length (fs_calls s)} \<subseteq> live (fb_os (fs_fibers s)) \<and> inj_on home {..<length (fs_calls s)} \<and>
     (\<forall>i r. ft_work_routine (fs_tasks s i) = Some r \<longrightarrow> r \<in> live (fb_os (fs_fibers s)) \<and> r \<notin> home ` {..<length (fs_calls s)}) \<and>
     (\<forall>i j r. ft_work_routine (fs_tasks s i) = Some r \<longrightarrow> ft_work_routine (fs_tasks s j) = Some r \<longrightarrow> i = j) \<and>
     (\<forall>f \<in> set (fs_ended s). \<exists>i \<in> set ended. ft_work_routine (fs_tasks s i) = Some f)"

lemma set_data_simps [simp]:
  "fb_data (set_data th f s) th' = (if th' = th then f (fb_data s th) else fb_data s th')" "fb_os (set_data th f s) = fb_os s"
  "CurrentFiber api th' (set_data th f s) = CurrentFiber api th' s"
  by (simp_all add: set_data_def CurrentFiber_def)

lemma ToFiber_spec:
  assumes "fiber_api_ok api live conv" "(case f of None \<Rightarrow> fd_caller_fiber (fb_data s th) | Some g \<Rightarrow> Some g) = Some g" "g \<in> live (fb_os s)"
  shows "\<exists>s'. ToFiber api th f s = Value s' \<and> (\<forall>t. CurrentFiber api t s' = (if t = th then g else CurrentFiber api t s)) \<and>
    (\<forall>t. fb_data s' t = (if t = th then (fb_data s th)\<lparr>fd_caller_fiber := Some (CurrentFiber api th s)\<rparr> else fb_data s t)) \<and>
    live (fb_os s') = live (fb_os s)"
  using assms(2,3) unfolding ToFiber_def Let_def set_data_def by (auto simp: CurrentFiber_def fiber_api_okD(1) [OF assms(1)])

text \<open>The fiber that a call enters: the one of the task, or a new one.\<close>

definition work_fiber :: "'s fiber_api \<Rightarrow> nat \<Rightarrow> fiber_task \<Rightarrow> 's fibers \<Rightarrow> nat option" where
  "work_fiber api th t s = (case ft_work_routine t of None \<Rightarrow> fst (NewFiber api th s) | Some r \<Rightarrow> Some r)"

lemma fiber_enter_spec:
  assumes ok: "fiber_api_ok api live conv" and w: "work_fiber api th t s = Some r" and live: "set_option (ft_work_routine t) \<subseteq> live (fb_os s)"
  shows "\<exists>s'. fiber_enter api th t s = Value (t\<lparr>ft_status := kReady, ft_ret_routine := Some (CurrentFiber api th s), ft_work_routine := Some r\<rparr>, s') \<and>
    (\<forall>u. CurrentFiber api u s' = (if u = th then r else CurrentFiber api u s)) \<and>
    (\<forall>u. fb_data s' u = (if u = th then (fb_data s th)\<lparr>fd_caller_fiber := Some (CurrentFiber api th s), fd_public_status := kReady\<rparr> else fb_data s u)) \<and>
    live (fb_os s') = insert r (live (fb_os s)) \<and> (ft_work_routine t = None \<longrightarrow> r \<notin> live (fb_os s))"
proof -
  obtain s1 where r: "(case ft_work_routine t of None \<Rightarrow> NewFiber api th s | Some r \<Rightarrow> (Some r, s)) = (Some r, s1)"
    using w by (cases "NewFiber api th s") (auto simp: work_fiber_def split: option.splits)
  then have s1: "\<And>u. CurrentFiber api u s1 = CurrentFiber api u s" "fb_data s1 = fb_data s" "live (fb_os s1) = insert r (live (fb_os s))"
    "ft_work_routine t = None \<longrightarrow> r \<notin> live (fb_os s)"
    using fiber_api_okD(2) [OF ok] live by (auto simp: NewFiber_def CurrentFiber_def split: option.splits prod.splits)
  let ?s = "set_data th (fd_public_status_update (\<lambda>_. kReady)) s1"
  obtain s' where s': "ToFiber api th (Some r) ?s = Value s'" "\<And>u. CurrentFiber api u s' = (if u = th then r else CurrentFiber api u ?s)"
    "\<And>u. fb_data s' u = (if u = th then (fb_data ?s th)\<lparr>fd_caller_fiber := Some (CurrentFiber api th ?s)\<rparr> else fb_data ?s u)"
    "live (fb_os s') = live (fb_os ?s)"
    using ToFiber_spec [OF ok, where f = "Some r" and s = "?s" and th = th and g = r] s1(3) by auto
  have "fiber_enter api th t s = Value (t\<lparr>ft_status := kReady, ft_ret_routine := Some (CurrentFiber api th s), ft_work_routine := Some r\<rparr>, s')"
    using r s'(1) unfolding fiber_enter_def by (auto simp: Let_def split: option.splits)
  then show ?thesis using s' s1 by (intro exI [of _ s']) auto
qed

lemma fiber_exit_spec:
  assumes ok: "fiber_api_ok api live conv" and "fd_caller_fiber (fb_data s th) = Some h" "fd_public_status (fb_data s th) = kReady" "h \<in> live (fb_os s)"
  shows "\<exists>s'. fiber_exit api th e s = Value s' \<and> (\<forall>u. CurrentFiber api u s' = (if u = th then h else CurrentFiber api u s)) \<and>
    (\<forall>u. u \<noteq> th \<longrightarrow> fb_data s' u = fb_data s u) \<and> live (fb_os s') = live (fb_os s) \<and>
    (let d = fb_data s' th in same_call (Called (fd_public_status d) (fd_trigger d) (fd_wait_for_task d)) (called_of e))"
proof (cases e)
  case Returned
  let ?s = "set_data th (fd_public_status_update (\<lambda>_. kFinished)) s"
  show ?thesis using ToFiber_spec [OF ok, where f = None and s = "?s" and th = th and g = h] assms(2,4) Returned by (auto simp: Let_def)
next
  case (Yielded k)
  show ?thesis using ToFiber_spec [OF ok, where f = None and s = s and th = th and g = h] assms(2-4) Yielded by auto
next
  case (Waits t w k)
  let ?s = "set_data th (\<lambda>d. d\<lparr>fd_trigger := t, fd_public_status := kWaiting, fd_wait_for_task := w\<rparr>) s"
  show ?thesis using ToFiber_spec [OF ok, where f = None and s = "?s" and th = th and g = h] assms(2,4) Waits by auto
qed

lemma fiber_resume_same:
  "fd_public_status (fb_data s th) = kReady \<Longrightarrow> fiber_resume th starts s = s"
proof -
  assume "fd_public_status (fb_data s th) = kReady"
  then have "(fb_data s th)\<lparr>fd_public_status := kReady\<rparr> = fb_data s th" by (cases "fb_data s th") simp
  then show ?thesis by (cases s) (auto simp: fiber_resume_def set_data_def)
qed

text \<open>What the workers are to see of a schedule: each thread makes one call at a time.\<close>

fun ideal_calls :: "fiber_action list \<Rightarrow> nat option list \<Rightarrow> (nat \<times> nat \<times> called) list" where
  "ideal_calls [] calls = []"
| "ideal_calls (Enter th i # acts) calls =
     ideal_calls acts (if th < length calls \<and> calls ! th = None \<and> Some i \<notin> set calls then calls[th := Some i] else calls)"
| "ideal_calls (Exit th e # acts) calls =
     (case (if th < length calls then calls ! th else None) of
        None \<Rightarrow> ideal_calls acts calls
      | Some i \<Rightarrow> (th, i, called_of e) # ideal_calls acts (calls[th := None]))"

text \<open>No task is entered after it has ended.\<close>

fun no_reentry :: "fiber_action list \<Rightarrow> nat option list \<Rightarrow> nat list \<Rightarrow> bool" where
  "no_reentry [] calls ended \<longleftrightarrow> True"
| "no_reentry (Enter th i # acts) calls ended \<longleftrightarrow>
     (if th < length calls \<and> calls ! th = None \<and> Some i \<notin> set calls then i \<notin> set ended \<and> no_reentry acts (calls[th := Some i]) ended
      else no_reentry acts calls ended)"
| "no_reentry (Exit th e # acts) calls ended \<longleftrightarrow>
     (case (if th < length calls then calls ! th else None) of
        None \<Rightarrow> no_reentry acts calls ended
      | Some i \<Rightarrow> no_reentry acts (calls[th := None]) (ended_by e i ended))"

text \<open>The next action is a first call whose fiber cannot be created.\<close>

fun creation_fails :: "'s fiber_api \<Rightarrow> fiber_action \<Rightarrow> 's fiber_sys \<Rightarrow> bool" where
  "creation_fails api (Enter th i) s \<longleftrightarrow> th < length (fs_calls s) \<and> fs_calls s ! th = None \<and> ft_work_routine (fs_tasks s i) = None \<and>
     fst (CreateFiber api th (fb_os (fs_fibers s))) = None"
| "creation_fails api (Exit th e) s \<longleftrightarrow> False"

fun event_matches :: "(nat \<Rightarrow> nat) \<Rightarrow> fiber_event \<Rightarrow> nat \<times> nat \<times> called \<Rightarrow> bool" where
  "event_matches home (Call_returned th i f c) (th', i', c') \<longleftrightarrow> th = th' \<and> i = i' \<and> f = home th \<and> same_call c c'"

lemma fiber_invD:
  assumes "fiber_inv api home s" "th < length (fs_calls s)"
  shows "fs_calls s ! th = None \<Longrightarrow> CurrentFiber api th (fs_fibers s) = home th"
    and "fs_calls s ! th = Some i \<Longrightarrow> ft_work_routine (fs_tasks s i) = Some (CurrentFiber api th (fs_fibers s)) \<and>
      ft_ret_routine (fs_tasks s i) = Some (home th) \<and>
      fd_caller_fiber (fb_data (fs_fibers s) th) = Some (home th) \<and> fd_public_status (fb_data (fs_fibers s) th) = kReady"
    and "th' < length (fs_calls s) \<Longrightarrow> fs_calls s ! th = Some i \<Longrightarrow> fs_calls s ! th' = Some i \<Longrightarrow> th = th'"
  using assms unfolding fiber_inv_def by (force split: option.splits)+

lemma fibers_apart_live: "fibers_apart live home ended s \<Longrightarrow> set_option (ft_work_routine (fs_tasks s i)) \<subseteq> live (fb_os (fs_fibers s))"
  unfolding fibers_apart_def by (cases "ft_work_routine (fs_tasks s i)") auto

lemma fiber_runs_entered:
  assumes inv: "fiber_inv api home s" and apart: "fibers_apart live home ended s" and i: "Some i \<notin> set (fs_calls s)" "i \<notin> set ended"
    and new: "ft_work_routine (fs_tasks s i) = Some r \<or> ft_work_routine (fs_tasks s i) = None \<and> r \<notin> live (fb_os (fs_fibers s))"
    and fb: "CurrentFiber api th fb = r" "\<And>u. u \<noteq> th \<Longrightarrow> CurrentFiber api u fb = CurrentFiber api u (fs_fibers s)"
  shows "fiber_runs api th s fb"
proof -
  have "r \<notin> set (fs_ended s)" using apart new i(2) unfolding fibers_apart_def by metis
  moreover have "CurrentFiber api u (fs_fibers s) \<noteq> r" if u: "u < length (fs_calls s)" for u
  proof (cases "fs_calls s ! u")
    case None
    with fiber_invD(1) [OF inv u] u apart new show ?thesis unfolding fibers_apart_def by (metis imageI lessThan_iff subsetD)
  next
    case (Some j)
    then have "j \<noteq> i" using i(1) nth_mem [OF u] by auto
    moreover have "ft_work_routine (fs_tasks s j) = Some (CurrentFiber api u (fs_fibers s))" using fiber_invD(2) [OF inv u Some] by blast
    ultimately show ?thesis using apart new unfolding fibers_apart_def by metis
  qed
  ultimately show ?thesis using fb by (simp add: fiber_runs_def)
qed

lemma fibers_apart_enter:
  assumes "fibers_apart live home ended s"
    and "ft_work_routine (fs_tasks s i) = Some r \<or> ft_work_routine (fs_tasks s i) = None \<and> r \<notin> live (fb_os (fs_fibers s))"
    and "live (fb_os (fs_fibers s')) = insert r (live (fb_os (fs_fibers s)))" "length (fs_calls s') = length (fs_calls s)" "fs_ended s' = fs_ended s"
    "\<And>j. ft_work_routine (fs_tasks s' j) = (if j = i then Some r else ft_work_routine (fs_tasks s j))"
  shows "fibers_apart live home ended s'"
proof -
  have "(\<forall>f \<in> set (fs_ended s'). \<exists>j \<in> set ended. ft_work_routine (fs_tasks s' j) = Some f)"
    using assms unfolding fibers_apart_def by (metis option.distinct(1))
  moreover have "r \<notin> home ` {..<length (fs_calls s)}" using assms(1,2) unfolding fibers_apart_def by blast
  ultimately show ?thesis using assms unfolding fibers_apart_def by (auto split: if_splits)
qed

lemma fibers_apart_exit:
  assumes "fibers_apart live home ended s" "ft_work_routine (fs_tasks s i) = Some f"
    and "live (fb_os (fs_fibers s')) = live (fb_os (fs_fibers s))" "length (fs_calls s') = length (fs_calls s)" "fs_ended s' = ended_by e f (fs_ended s)"
    "\<And>j. ft_work_routine (fs_tasks s' j) = ft_work_routine (fs_tasks s j)"
  shows "fibers_apart live home (ended_by e i ended) s'"
  using assms unfolding fibers_apart_def by (cases e) auto

lemma fiber_enter_ok:
  assumes ok: "fiber_api_ok api live conv" and inv: "fiber_inv api home s" and apart: "fibers_apart live home ended s"
    and th: "th < length (fs_calls s)" "fs_calls s ! th = None" "Some i \<notin> set (fs_calls s)" "i \<notin> set ended"
    and r: "work_fiber api th (fs_tasks s i) (fs_fibers s) = Some r"
  shows "\<exists>s'. fiber_act api (Enter th i) s = Value ([], s') \<and> fiber_inv api home s' \<and> fibers_apart live home ended s' \<and> fs_calls s' = (fs_calls s)[th := Some i]"
proof -
  obtain fb where e: "fiber_enter api th (fs_tasks s i) (fs_fibers s) =
      Value ((fs_tasks s i)\<lparr>ft_status := kReady, ft_ret_routine := Some (CurrentFiber api th (fs_fibers s)), ft_work_routine := Some r\<rparr>, fb)"
    "\<And>u. CurrentFiber api u fb = (if u = th then r else CurrentFiber api u (fs_fibers s))"
    "\<And>u. fb_data fb u = (if u = th then (fb_data (fs_fibers s) th)\<lparr>fd_caller_fiber := Some (CurrentFiber api th (fs_fibers s)), fd_public_status := kReady\<rparr>
       else fb_data (fs_fibers s) u)"
    "live (fb_os fb) = insert r (live (fb_os (fs_fibers s)))" "ft_work_routine (fs_tasks s i) = None \<longrightarrow> r \<notin> live (fb_os (fs_fibers s))"
    using fiber_enter_spec [OF ok r fibers_apart_live [OF apart]] by (elim exE conjE, intro that) auto
  have home: "CurrentFiber api th (fs_fibers s) = home th" by (rule fiber_invD(1) [OF inv th(1,2)])
  have fresh: "fs_calls s ! u \<noteq> Some i" if "u < length (fs_calls s)" for u using th(3) that by (metis nth_mem)
  let ?s = "s\<lparr>fs_fibers := fb, fs_tasks := (fs_tasks s)(i := (fs_tasks s i)\<lparr>ft_status := kReady, ft_ret_routine := Some (home th), ft_work_routine := Some r\<rparr>),
    fs_calls := (fs_calls s)[th := Some i]\<rparr>"
  have new: "ft_work_routine (fs_tasks s i) = Some r \<or> ft_work_routine (fs_tasks s i) = None \<and> r \<notin> live (fb_os (fs_fibers s))"
    using r e(5) by (auto simp: work_fiber_def split: option.splits)
  have "fiber_runs api th s fb" by (rule fiber_runs_entered [OF inv apart th(3,4) new]) (simp_all add: e(2))
  moreover have "\<And>b. fiber_resume th b fb = fb" by (rule fiber_resume_same) (simp add: e(3))
  ultimately have "fiber_act api (Enter th i) s = Value ([], ?s)" using th e(1) home by simp
  moreover have "fiber_inv api home ?s"
    unfolding fiber_inv_def
  proof (intro conjI allI impI)
    fix u assume "u < length (fs_calls ?s)"
    then have u: "u < length (fs_calls s)" by simp
    show "case fs_calls ?s ! u of None \<Rightarrow> CurrentFiber api u (fs_fibers ?s) = home u
      | Some j \<Rightarrow> ft_work_routine (fs_tasks ?s j) = Some (CurrentFiber api u (fs_fibers ?s)) \<and> ft_ret_routine (fs_tasks ?s j) = Some (home u) \<and>
          fd_caller_fiber (fb_data (fs_fibers ?s) u) = Some (home u) \<and> fd_public_status (fb_data (fs_fibers ?s) u) = kReady"
    proof (cases "u = th")
      case False
      then show ?thesis using fiber_invD(1,2) [OF inv u] fresh [OF u] e(2,3) by (auto split: option.splits)
    qed (use u e(2,3) home in simp)
  next
    fix u v assume "u < length (fs_calls ?s)" "v < length (fs_calls ?s)" "fs_calls ?s ! u \<noteq> None" "fs_calls ?s ! u = fs_calls ?s ! v"
    then show "u = v" using fiber_invD(3) [OF inv] fresh th(1) by (auto simp: nth_list_update split: if_splits)
  qed
  moreover have "fibers_apart live home ended ?s" by (rule fibers_apart_enter [OF apart new]) (simp_all add: e(4))
  ultimately show ?thesis by auto
qed

lemma fiber_exit_ok:
  assumes ok: "fiber_api_ok api live conv" and inv: "fiber_inv api home s" and apart: "fibers_apart live home ended s" and th: "th < length (fs_calls s)" "fs_calls s ! th = Some i"
  shows "\<exists>ev s'. fiber_act api (Exit th e) s = Value ([ev], s') \<and> event_matches home ev (th, i, called_of e) \<and> fiber_inv api home s' \<and>
    fibers_apart live home (ended_by e i ended) s' \<and>
    fs_calls s' = (fs_calls s)[th := None]"
proof -
  note d = fiber_invD(2) [OF inv th]
  have h: "home th \<in> live (fb_os (fs_fibers s))" using apart th(1) unfolding fibers_apart_def by auto
  obtain fb where e: "fiber_exit api th e (fs_fibers s) = Value fb" "\<And>u. CurrentFiber api u fb = (if u = th then home th else CurrentFiber api u (fs_fibers s))"
    "\<And>u. u \<noteq> th \<Longrightarrow> fb_data fb u = fb_data (fs_fibers s) u"
    "same_call (Called (fd_public_status (fb_data fb th)) (fd_trigger (fb_data fb th)) (fd_wait_for_task (fb_data fb th))) (called_of e)"
    "live (fb_os fb) = live (fb_os (fs_fibers s))"
    using fiber_exit_spec [OF ok, of "fs_fibers s" th "home th" e] d h by (auto simp: Let_def)
  let ?s = "s\<lparr>fs_fibers := fb, fs_tasks := (fs_tasks s)(i := (fs_tasks s i)\<lparr>ft_status := fd_public_status (fb_data fb th)\<rparr>), fs_calls := (fs_calls s)[th := None],
    fs_ended := ended_by e (CurrentFiber api th (fs_fibers s)) (fs_ended s)\<rparr>"
  have "fiber_inv api home ?s"
    unfolding fiber_inv_def
  proof (intro conjI allI impI)
    fix u assume "u < length (fs_calls ?s)"
    then have u: "u < length (fs_calls s)" by simp
    show "case fs_calls ?s ! u of None \<Rightarrow> CurrentFiber api u (fs_fibers ?s) = home u
      | Some j \<Rightarrow> ft_work_routine (fs_tasks ?s j) = Some (CurrentFiber api u (fs_fibers ?s)) \<and> ft_ret_routine (fs_tasks ?s j) = Some (home u) \<and>
          fd_caller_fiber (fb_data (fs_fibers ?s) u) = Some (home u) \<and> fd_public_status (fb_data (fs_fibers ?s) u) = kReady"
    proof (cases "u = th")
      case False
      then show ?thesis using fiber_invD(1,2) [OF inv u] e(2,3) by (auto split: option.splits)
    qed (use u e(2) in simp)
  next
    fix u v assume "u < length (fs_calls ?s)" "v < length (fs_calls ?s)" "fs_calls ?s ! u \<noteq> None" "fs_calls ?s ! u = fs_calls ?s ! v"
    then show "u = v" using fiber_invD(3) [OF inv] th(1) by (auto simp: nth_list_update split: if_splits)
  qed
  moreover have "fibers_apart live home (ended_by e i ended) ?s"
    by (rule fibers_apart_exit [OF apart conjunct1 [OF d]]) (simp_all add: e(5))
  ultimately show ?thesis using th e by (auto simp: Let_def)
qed

lemma fiber_exec_ok:
  assumes ok: "fiber_api_ok api live conv" and "fiber_inv api home s" "fibers_apart live home ended s" "no_reentry acts (fs_calls s) ended"
  shows "\<exists>m evs s'. m \<le> length acts \<and> fiber_exec api (take m acts) s = Value (evs, s') \<and>
    list_all2 (event_matches home) evs (ideal_calls (take m acts) (fs_calls s)) \<and> (m = length acts \<or> creation_fails api (acts ! m) s')"
  using assms(2-)
proof (induction acts arbitrary: s ended)
  case (Cons a acts)
  have step: ?case if "fiber_act api a s = Value (evs1, s1)" "list_all2 (event_matches home) evs1 evs2"
      "\<And>acts. ideal_calls (a # acts) (fs_calls s) = evs2 @ ideal_calls acts (fs_calls s1)"
      "fiber_inv api home s1" "fibers_apart live home ended1 s1" "no_reentry acts (fs_calls s1) ended1" for evs1 evs2 s1 ended1
  proof -
    from Cons.IH [OF that(4-6)] obtain m evs s' where
      "m \<le> length acts" "fiber_exec api (take m acts) s1 = Value (evs, s')"
      "list_all2 (event_matches home) evs (ideal_calls (take m acts) (fs_calls s1))" "m = length acts \<or> creation_fails api (acts ! m) s'" by blast
    then show ?thesis using that(1-3) by (intro exI [of _ "Suc m"] exI [of _ "evs1 @ evs"] exI [of _ s']) (auto intro: list_all2_appendI)
  qed
  show ?case
  proof (cases a)
    case (Enter th i)
    show ?thesis
    proof (cases "th < length (fs_calls s) \<and> fs_calls s ! th = None \<and> Some i \<notin> set (fs_calls s)")
      case True
      then have th: "th < length (fs_calls s)" "fs_calls s ! th = None" "Some i \<notin> set (fs_calls s)" by auto
      have i: "i \<notin> set ended" "no_reentry acts ((fs_calls s)[th := Some i]) ended" using Cons.prems(3) th Enter by auto
      show ?thesis
      proof (cases "work_fiber api th (fs_tasks s i) (fs_fibers s)")
        case None
        then have "creation_fails api a s" using th Enter by (auto simp: work_fiber_def NewFiber_def split: option.splits prod.splits)
        then show ?thesis by (intro exI [of _ 0]) auto
      next
        case (Some r)
        from fiber_enter_ok [OF ok Cons.prems(1,2) th i(1) Some] obtain s' where
          s': "fiber_act api (Enter th i) s = Value ([], s')" "fiber_inv api home s'" "fibers_apart live home ended s'"
            "fs_calls s' = (fs_calls s)[th := Some i]" by blast
        show ?thesis by (rule step [where ?evs2.0 = "[]" and ?ended1.0 = ended and ?evs1.0 = "[]" and ?s1.0 = s']) (use s' th i Enter in auto)
      qed
    qed (rule step [where ?evs2.0 = "[]" and ?ended1.0 = ended and ?evs1.0 = "[]" and ?s1.0 = s], use Cons.prems Enter in auto)
  next
    case (Exit th e)
    show ?thesis
    proof (cases "th < length (fs_calls s) \<and> fs_calls s ! th \<noteq> None")
      case True
      then obtain i where i: "th < length (fs_calls s)" "fs_calls s ! th = Some i" by auto
      from fiber_exit_ok [OF ok Cons.prems(1,2) i, of e] obtain ev s' where
        s': "fiber_act api (Exit th e) s = Value ([ev], s')" "event_matches home ev (th, i, called_of e)" "fiber_inv api home s'"
          "fibers_apart live home (ended_by e i ended) s'" "fs_calls s' = (fs_calls s)[th := None]" by blast
      show ?thesis
        by (rule step [where ?evs2.0 = "[(th, i, called_of e)]" and ?ended1.0 = "ended_by e i ended" and ?evs1.0 = "[ev]" and ?s1.0 = s'])
          (use s' i Exit Cons.prems(3) in auto)
    qed (rule step [where ?evs2.0 = "[]" and ?ended1.0 = ended and ?evs1.0 = "[]" and ?s1.0 = s], use Cons.prems Exit in \<open>auto split: if_splits option.splits\<close>)
  qed
qed simp

lemma init_threads_apart:
  assumes ok: "fiber_api_ok api live conv" and "conv os = {}"
  shows "let s = fb_os (init_threads api n \<lparr>fb_os = os, fb_data = d\<rparr>) in conv s = {..<n} \<and>
    (\<lambda>th. GetCurrentFiber api th s) ` {..<n} \<subseteq> live s \<and> inj_on (\<lambda>th. GetCurrentFiber api th s) {..<n}"
proof (induction n)
  case (Suc n)
  let ?s = "fb_os (init_threads api n \<lparr>fb_os = os, fb_data = d\<rparr>)"
  have "n \<notin> conv ?s" using Suc by (simp add: Let_def)
  from fiber_api_okD(3) [OF ok this] Suc show ?case
    by (auto simp: Let_def InitEnv_def inj_on_def lessThan_Suc image_iff subset_iff)
qed (use assms in simp)

section \<open>Properties\<close>

text \<open>
  C38 (refinement). Threads that call fibers and fibers that end, yield and await, in any interleaving in which no task is called after it has ended, and wherever
  a fiber runs on: up to the first fiber that cannot be created, nothing is undefined and every call returns on the thread that
  made it and on the fiber of its worker, with the status of the way in which the fiber left, and when it waits with its own trigger and
  awaited task. The thread-local variables thus carry what the model of the scheduler assumes.
\<close>

theorem fiber_calls_refine:
  assumes "fiber_api_ok api live conv" "conv os = {}" "no_reentry acts (replicate n None) []"
  shows "\<exists>m evs s. m \<le> length acts \<and> fiber_exec api (take m acts) (fiber_sys_new api n os) = Value (evs, s) \<and>
    list_all2 (event_matches (\<lambda>th. CurrentFiber api th (fs_fibers (fiber_sys_new api n os)))) evs (ideal_calls (take m acts) (replicate n None)) \<and>
    (m = length acts \<or> creation_fails api (acts ! m) s)"
proof -
  let ?home = "\<lambda>th. CurrentFiber api th (fs_fibers (fiber_sys_new api n os))"
  have "fiber_inv api ?home (fiber_sys_new api n os)" by (simp add: fiber_inv_def fiber_sys_new_def)
  moreover have "fibers_apart live ?home [] (fiber_sys_new api n os)"
    using init_threads_apart [OF assms(1,2), of n "\<lambda>_. FiberData_init"]
    by (simp add: fibers_apart_def fiber_sys_new_def fiber_task_new_def CurrentFiber_def Let_def)
  moreover have "no_reentry acts (fs_calls (fiber_sys_new api n os)) []" using assms(3) by (simp add: fiber_sys_new_def)
  ultimately show ?thesis using fiber_exec_ok [OF assms(1)] by (fastforce simp: fiber_sys_new_def)
qed

text \<open>
  A system whose state is the current fiber of every thread and the number of fibers, which are numbered from one; it can create
  a fiber as long as it has room beside those that exist.
\<close>

definition plain_api :: "(nat \<Rightarrow> bool) \<Rightarrow> ((nat \<Rightarrow> nat) \<times> nat) fiber_api" where
  "plain_api room = \<lparr>ConvertThreadToFiber = (\<lambda>th (cur, n). (cur(th := Suc n), Suc n)), GetCurrentFiber = (\<lambda>th (cur, n). cur th),
     CreateFiber = (\<lambda>th (cur, n). if room n then (Some (Suc n), (cur, Suc n)) else (None, (cur, n))),
     SwitchToFiber = (\<lambda>th f (cur, n). (cur(th := f), n))\<rparr>"

definition plain_live :: "(nat \<Rightarrow> nat) \<times> nat \<Rightarrow> nat set" where
  "plain_live s = {0<..snd s}"

definition plain_conv :: "(nat \<Rightarrow> nat) \<times> nat \<Rightarrow> nat set" where
  "plain_conv s = {th. 0 < fst s th}"

lemma plain_api_ok: "fiber_api_ok (plain_api room) plain_live plain_conv"
  by (auto simp: fiber_api_ok_def plain_api_def plain_live_def plain_conv_def)

definition demo_acts :: "fiber_action list" where
  "demo_acts = [Enter 0 7, Enter 1 8, Exit 1 (Yielded Done), Exit 0 (Waits (Some 3) None Done), Enter 1 7, Exit 1 Returned, Enter 1 8]"

theorem fiber_calls_refine_witness:
  "no_reentry demo_acts (replicate 2 None) [] \<and> length (ideal_calls demo_acts (replicate 2 None)) = 3 \<and>
    (\<exists>evs s. fiber_exec (plain_api (\<lambda>_. True)) demo_acts (fiber_sys_new (plain_api (\<lambda>_. True)) 2 (\<lambda>_. 0, 0)) = Value (evs, s) \<and>
      list_all2 (event_matches (\<lambda>th. CurrentFiber (plain_api (\<lambda>_. True)) th (fs_fibers (fiber_sys_new (plain_api (\<lambda>_. True)) 2 (\<lambda>_. 0, 0))))) evs
        (ideal_calls demo_acts (replicate 2 None)))"
proof -
  have n: "no_reentry demo_acts (replicate 2 None) []" "length (ideal_calls demo_acts (replicate 2 None)) = 3" by code_simp+
  have c: "\<not> creation_fails (plain_api (\<lambda>_. True)) a s" for a s by (cases a) (simp_all add: plain_api_def split_def)
  from fiber_calls_refine [OF plain_api_ok [of "\<lambda>_. True"], of "(\<lambda>_. 0, 0)", OF _ n(1)] obtain m evs s where
    "m \<le> length demo_acts" "fiber_exec (plain_api (\<lambda>_. True)) (take m demo_acts) (fiber_sys_new (plain_api (\<lambda>_. True)) 2 (\<lambda>_. 0, 0)) = Value (evs, s)"
    "list_all2 (event_matches (\<lambda>th. CurrentFiber (plain_api (\<lambda>_. True)) th (fs_fibers (fiber_sys_new (plain_api (\<lambda>_. True)) 2 (\<lambda>_. 0, 0))))) evs
        (ideal_calls (take m demo_acts) (replicate 2 None))" "m = length demo_acts \<or> creation_fails (plain_api (\<lambda>_. True)) (demo_acts ! m) s"
    by (auto simp: plain_conv_def)
  with n c show ?thesis using n by auto
qed

text \<open>
  The comment at \<open>ToFiber\<close> demands that a fiber is entered and left continuously, and the port needs it: when a fiber enters
  another one directly, the inner one returns to it, but then the outer one returns to the inner one and not to the worker.
\<close>

lemma nested_entry_astray:
  "(case obind (ToFiber (plain_api (\<lambda>_. True)) 0 (Some 5) \<lparr>fb_os = (\<lambda>_. 1, 9), fb_data = (\<lambda>_. FiberData_init)\<rparr>) (\<lambda>s.
      obind (ToFiber (plain_api (\<lambda>_. True)) 0 (Some 6) s) (\<lambda>s. obind (ToFiber (plain_api (\<lambda>_. True)) 0 None s) (\<lambda>s. obind (ToFiber (plain_api (\<lambda>_. True)) 0 None s) (\<lambda>s.
      Value (CurrentFiber (plain_api (\<lambda>_. True)) 0 s))))) of Value f \<Rightarrow> f = 6 | Undefined \<Rightarrow> False)"
  by code_simp

text \<open>
  A fiber that cannot be created is not noticed: \<open>ToFiber\<close> takes \<open>NilFiber\<close> for a return and switches to the fiber that the thread has called last.
  If there is none the switch is undefined. Otherwise the call of the one task runs the other task, and returns with its status.
\<close>

lemma creation_failure_runs_last:
  assumes "fiber_api_ok api live conv" "ft_work_routine t = None" "CreateFiber api th (fb_os s) = (None, os)"
  shows "fd_caller_fiber (fb_data s th) = None \<Longrightarrow> fiber_enter api th t s = Undefined"
    and "fd_caller_fiber (fb_data s th) = Some g \<Longrightarrow> g \<in> live os \<Longrightarrow>
      \<exists>t' s'. fiber_enter api th t s = Value (t', s') \<and> ft_work_routine t' = None \<and> CurrentFiber api th s' = g"
  using assms(2,3) fiber_api_okD(1) [OF assms(1)]
  by (auto simp: fiber_enter_def NewFiber_def ToFiber_def set_data_def CurrentFiber_def Let_def)

lemma creation_failure_mixes_tasks:
  "(case fiber_exec (plain_api (\<lambda>n. n < 2)) [Enter 0 7, Exit 0 (Yielded Done), Enter 0 8, Exit 0 (Waits (Some 3) None Done)] (fiber_sys_new (plain_api (\<lambda>n. n < 2)) 1 (\<lambda>_. 0, 0)) of
      Value (evs, s) \<Rightarrow> evs = [Call_returned 0 7 1 (Called kReady None None), Call_returned 0 8 1 (Called kWaiting (Some 3) None)] \<and>
        ft_work_routine (fs_tasks s 8) = None
    | Undefined \<Rightarrow> False)"
  by code_simp

end
