(* ===== verification/Machine_Pool.thy ===== *)
theory Machine_Pool
  imports Coplus_Prelude
begin

text \<open>
  \<open>Machine\<close> of \<open>machine.h\<close>, a worker thread with its closing flag and job counter, and the vector of
  machines that \<open>ThreadPool\<close> of \<open>thread_pool.h\<close> resizes and closes. Joining a thread that was not
  started and destroying or overwriting a thread that was not joined end the program; both are
  \<open>Undefined\<close> here, like the use of a null pointer.
\<close>

section \<open>One machine\<close>

record machine =
  mc_close :: "bool option"
  mc_joinable :: bool
  mc_job_count :: "int option"

definition machine_new :: machine where
  "machine_new = \<lparr>mc_close = Some False, mc_joinable = True, mc_job_count = Some 0\<rparr>"

definition machine_default :: machine where
  "machine_default = \<lparr>mc_close = Some True, mc_joinable = False, mc_job_count = None\<rparr>"

text \<open>The move constructor: the new object, and what is left of the old one.\<close>

definition machine_move :: "machine \<Rightarrow> machine \<times> machine" where
  "machine_move m = (m, \<lparr>mc_close = None, mc_joinable = False, mc_job_count = None\<rparr>)"

definition machine_join :: "machine \<Rightarrow> machine outcome" where
  "machine_join m = (case mc_close m of None \<Rightarrow> Undefined
     | Some True \<Rightarrow> Value m
     | Some False \<Rightarrow> if mc_joinable m then Value (m\<lparr>mc_close := Some True, mc_joinable := False\<rparr>) else Undefined)"

definition machine_restart :: "machine \<Rightarrow> (bool \<times> machine) outcome" where
  "machine_restart m = (case mc_close m of None \<Rightarrow> Undefined
     | Some False \<Rightarrow> Value (False, m)
     | Some True \<Rightarrow> if mc_joinable m then Undefined else Value (True, m\<lparr>mc_joinable := True\<rparr>))"

definition machine_destroy :: "machine \<Rightarrow> unit outcome" where
  "machine_destroy m = (if mc_joinable m then Undefined else Value ())"

text \<open>
  The loop of the thread: before every iteration it loads the flag, here from a sequence of what it
  sees; every successful iteration is counted.
\<close>

fun machine_loop :: "bool list \<Rightarrow> ('s \<Rightarrow> bool \<times> 's) \<Rightarrow> int \<Rightarrow> 's \<Rightarrow> (int \<times> 's) option" where
  "machine_loop [] schedule job_count s = None"
| "machine_loop (close # closes) schedule job_count s =
     (if close then Some (job_count, s)
      else case schedule s of (ok, s) \<Rightarrow> machine_loop closes schedule (if ok then job_count + 1 else job_count) s)"

section \<open>The machines of the pool\<close>

record machines =
  tp_machines :: "machine list"
  tp_threadSize :: nat

primrec each_machine :: "(machine \<Rightarrow> 'b outcome) \<Rightarrow> machine list \<Rightarrow> 'b list outcome" where
  "each_machine f [] = Value []"
| "each_machine f (m # ms) = obind (f m) (\<lambda>m'. obind (each_machine f ms) (\<lambda>ms'. Value (m' # ms')))"

text \<open>
  The constructor with \<open>hardware_concurrency()\<close>: one thread less, for the main thread. With 0 the bound
  of the loop wraps around to the largest \<open>size_t\<close>.
\<close>

definition tp_new :: "nat \<Rightarrow> machines outcome" where
  "tp_new hw = (if hw = 0 then Undefined else Value \<lparr>tp_machines = replicate (hw - 1) machine_new, tp_threadSize = hw\<rparr>)"

definition tp_resize :: "nat \<Rightarrow> machines \<Rightarrow> machines outcome" where
  "tp_resize newSize p =
     (if newSize < tp_threadSize p then
        if length (tp_machines p) < newSize then Undefined
        else obind (each_machine machine_join (drop newSize (tp_machines p))) (\<lambda>dropped.
          obind (each_machine machine_destroy dropped) (\<lambda>_.
            Value (p\<lparr>tp_machines := take newSize (tp_machines p), tp_threadSize := newSize\<rparr>)))
      else Value (p\<lparr>tp_machines := tp_machines p @ replicate (newSize - tp_threadSize p) machine_new,
        tp_threadSize := newSize\<rparr>))"

definition tp_close :: "machines \<Rightarrow> machines outcome" where
  "tp_close p = obind (each_machine machine_join (tp_machines p)) (\<lambda>ms. Value (p\<lparr>tp_machines := ms\<rparr>))"

text \<open>\<open>report\<close> reads every job counter.\<close>

definition machine_report :: "machine \<Rightarrow> int outcome" where
  "machine_report m = (case mc_job_count m of None \<Rightarrow> Undefined | Some n \<Rightarrow> Value n)"

definition tp_report :: "machines \<Rightarrow> int list outcome" where
  "tp_report p = each_machine machine_report (tp_machines p)"

definition tp_destroy :: "machines \<Rightarrow> int list outcome" where
  "tp_destroy p = obind (tp_close p) (\<lambda>p. obind (tp_report p) (\<lambda>log.
     obind (each_machine machine_destroy (tp_machines p)) (\<lambda>_. Value log)))"

section \<open>Invariant\<close>

definition machine_ok :: "machine \<Rightarrow> bool" where
  "machine_ok m \<longleftrightarrow> (\<exists>c n. mc_close m = Some c \<and> mc_joinable m = (\<not> c) \<and> mc_job_count m = Some n)"

definition tp_wf :: "machines \<Rightarrow> bool" where
  "tp_wf p \<longleftrightarrow> (\<forall>m \<in> set (tp_machines p). machine_ok m) \<and>
     length (tp_machines p) \<le> tp_threadSize p \<and> tp_threadSize p \<le> length (tp_machines p) + 1"

definition tp_running :: "machines \<Rightarrow> nat" where
  "tp_running p = length (filter mc_joinable (tp_machines p))"

lemma machine_ok_new [simp]: "machine_ok machine_new"
  by (auto simp: machine_ok_def machine_new_def)

lemma join_ok:
  "machine_ok m \<Longrightarrow> \<exists>m'. machine_join m = Value m' \<and> machine_ok m' \<and> \<not> mc_joinable m' \<and> mc_job_count m' = mc_job_count m"
  by (auto simp: machine_ok_def machine_join_def)

lemma join_each:
  "\<forall>m \<in> set ms. machine_ok m \<Longrightarrow> \<exists>ms'. each_machine machine_join ms = Value ms' \<and> length ms' = length ms \<and>
     (\<forall>m \<in> set ms'. machine_ok m \<and> \<not> mc_joinable m) \<and> map mc_job_count ms' = map mc_job_count ms"
proof (induction ms)
  case (Cons m ms)
  then obtain ms' where "each_machine machine_join ms = Value ms'" "length ms' = length ms"
    "\<forall>m \<in> set ms'. machine_ok m \<and> \<not> mc_joinable m" "map mc_job_count ms' = map mc_job_count ms" by auto
  with join_ok [of m] Cons.prems show ?case by auto
qed simp

lemma join_joined:
  "\<forall>m \<in> set ms. machine_ok m \<and> \<not> mc_joinable m \<Longrightarrow> each_machine machine_join ms = Value ms"
proof (induction ms)
  case (Cons m ms)
  then have "machine_join m = Value m" by (auto simp: machine_ok_def machine_join_def)
  with Cons show ?case by simp
qed simp

lemma destroy_each: "\<forall>m \<in> set ms. \<not> mc_joinable m \<Longrightarrow> each_machine machine_destroy ms = Value (map (\<lambda>_. ()) ms)"
  by (induction ms) (auto simp: machine_destroy_def)

lemma report_each:
  "\<forall>m \<in> set ms. machine_ok m \<Longrightarrow>
     each_machine machine_report ms = Value (map (\<lambda>m. the (mc_job_count m)) ms)"
  by (induction ms) (auto simp: machine_ok_def machine_report_def)

section \<open>Properties\<close>

text \<open>
  C28 (invariant). From a consistent pool \<open>resize\<close> is always defined and keeps the pool consistent: growing
  starts as many machines as the thread count grows by; shrinking joins every machine it drops before it
  is destroyed, leaves the others alone, and keeps exactly \<open>newSize\<close> of them.
\<close>

theorem tp_resize_safe:
  assumes "tp_wf p"
  shows "\<exists>p'. tp_resize n p = Value p' \<and> tp_wf p' \<and> tp_threadSize p' = n \<and>
    (if n < tp_threadSize p then tp_machines p' = take n (tp_machines p) \<and> length (tp_machines p') = n
     else tp_machines p' = tp_machines p @ replicate (n - tp_threadSize p) machine_new)"
proof (cases "n < tp_threadSize p")
  case True
  then have n: "n \<le> length (tp_machines p)" using assms by (simp add: tp_wf_def)
  have "\<forall>m \<in> set (drop n (tp_machines p)). machine_ok m" using assms by (auto simp: tp_wf_def dest: in_set_dropD)
  from join_each [OF this] obtain ms where
    ms: "each_machine machine_join (drop n (tp_machines p)) = Value ms" "\<forall>m \<in> set ms. \<not> mc_joinable m" by blast
  from destroy_each [OF ms(2)] ms(1) n True assms show ?thesis
    by (auto simp: tp_resize_def tp_wf_def dest: in_set_takeD)
next
  case False
  with assms show ?thesis by (auto simp: tp_resize_def tp_wf_def)
qed

theorem tp_resize_safe_witness:
  "tp_wf \<lparr>tp_machines = replicate 3 machine_new, tp_threadSize = 4\<rparr> \<and>
   (\<exists>p'. tp_resize 2 \<lparr>tp_machines = replicate 3 machine_new, tp_threadSize = 4\<rparr> = Value p' \<and>
      tp_machines p' = replicate 2 machine_new)"
proof -
  have wf: "tp_wf \<lparr>tp_machines = replicate 3 machine_new, tp_threadSize = 4\<rparr>" by (simp add: tp_wf_def)
  from tp_resize_safe [OF wf, of 2] wf show ?thesis by auto
qed

text \<open>
  The destructor of a consistent pool joins every machine, reports the job counter of each in
  order, and destroys none that still runs.
\<close>

lemma tp_destroy_safe:
  assumes "tp_wf p"
  shows "tp_destroy p = Value (map (\<lambda>m. the (mc_job_count m)) (tp_machines p)) \<and>
    (\<exists>p'. tp_close p = Value p' \<and> tp_running p' = 0 \<and> tp_close p' = Value p')"
proof -
  have ok: "\<forall>m \<in> set (tp_machines p). machine_ok m" using assms by (simp add: tp_wf_def)
  from join_each [OF ok] obtain ms where
    ms: "each_machine machine_join (tp_machines p) = Value ms" "\<forall>m \<in> set ms. machine_ok m \<and> \<not> mc_joinable m"
      "map mc_job_count ms = map mc_job_count (tp_machines p)" by blast
  have "map (\<lambda>m. the (mc_job_count m)) ms = map (\<lambda>m. the (mc_job_count m)) (tp_machines p)"
    using arg_cong [OF ms(3), of "map the"] by (simp add: comp_def)
  moreover have "each_machine machine_join ms = Value ms"
    using ms(2) by (rule join_joined)
  moreover have "each_machine machine_destroy ms = Value (map (\<lambda>_. ()) ms)" using ms(2) by (intro destroy_each) auto
  moreover have "filter mc_joinable ms = []" using ms(2) by (auto simp: filter_empty_conv)
  ultimately show ?thesis using ms(1,2) report_each [of ms]
    by (simp add: tp_destroy_def tp_close_def tp_report_def tp_running_def)
qed

text \<open>
  The number of workers behind a thread count depends on the way to it: the constructor
  and growing leave one thread for the main thread, shrinking does not.
\<close>

lemma tp_resize_depends_on_history:
  "obind (tp_new 4) (\<lambda>p. obind (tp_resize 6 p) (\<lambda>p. Value (tp_running p))) = Value 5 \<and>
   obind (tp_new 4) (\<lambda>p. obind (tp_resize 3 p) (\<lambda>p. obind (tp_resize 6 p) (\<lambda>p. Value (tp_running p)))) = Value 6"
  by code_simp

text \<open>
  \<open>restart\<close> of a joined machine starts a thread but leaves the closing flag set: the thread
  sees it at its first iteration and does no work, a later \<open>join\<close> returns without joining, and the
  destructor then meets a thread that was not joined.
\<close>

lemma machine_restart_useless:
  assumes "machine_ok m" "machine_join m = Value m'"
  shows "\<exists>m''. machine_restart m' = Value (True, m'') \<and> mc_close m'' = Some True \<and>
    machine_loop (True # closes) schedule n s = Some (n, s) \<and>
    machine_join m'' = Value m'' \<and> machine_destroy m'' = Undefined"
proof -
  from join_ok [OF assms(1)] assms(2) have "machine_ok m'" "\<not> mc_joinable m'" by auto
  then have "mc_close m' = Some True" by (auto simp: machine_ok_def)
  with \<open>\<not> mc_joinable m'\<close> show ?thesis
    by (intro exI [of _ "m'\<lparr>mc_joinable := True\<rparr>"]) (simp add: machine_restart_def machine_join_def machine_destroy_def)
qed

end
