(* ===== verification/Channel.thy ===== *)
theory Channel
  imports Coplus_Prelude
begin

text \<open>
  \<open>Channel\<close> of \<open>include/coplus/channel.h\<close>, buffered and with capacity 0, as the atomic steps of its
  threads: the senders, the receivers and the channel's own scheduler thread. A thread in \<open>operator<<\<close> or
  \<open>operator>>\<close> first leaves its condition variable in a queue (under that queue's mutex), then tests the
  buffer under \<open>buffer_lock\<close> and sleeps on the condition variable if the test fails. A condition variable
  is named by its thread. Waking up without a notification is a step of its own, as the standard allows.
\<close>

section \<open>State\<close>

datatype 'a ch_pc =
    Ch_idle
  | Send_test bool 'a
  | Send_sleep 'a
  | Recv_test bool
  | Recv_sleep

datatype sched_pc = S_start | S_load | S_lock | S_send | S_recv | S_stop

record 'a channel =
  ch_recvq :: "nat list"
  ch_sendq :: "nat list"
  ch_buffer :: "'a list"
  ch_closed :: bool
  ch_sched :: sched_pc
  ch_locked :: bool
  ch_threads :: "'a ch_pc list"

text \<open>\<open>Ev_send t x\<close> and \<open>Ev_recv t\<close> start an operation, \<open>Ev_run t\<close> tests the buffer, \<open>Ev_wake t\<close> is a wake-up
  without a notification.\<close>

datatype 'a ch_event = Ev_send nat 'a | Ev_recv nat | Ev_run nat | Ev_wake nat | Ev_sched | Ev_close

definition ch_new :: "nat \<Rightarrow> 'a channel" where
  "ch_new threads = \<lparr>ch_recvq = [], ch_sendq = [], ch_buffer = [], ch_closed = False, ch_sched = S_start,
     ch_locked = False, ch_threads = replicate threads Ch_idle\<rparr>"

definition set_pc :: "nat \<Rightarrow> 'a ch_pc \<Rightarrow> 'a channel \<Rightarrow> 'a channel" where
  "set_pc t pc s = s\<lparr>ch_threads := (ch_threads s)[t := pc]\<rparr>"

definition pc_of :: "'a channel \<Rightarrow> nat \<Rightarrow> 'a ch_pc option" where
  "pc_of s t = (if t < length (ch_threads s) then Some (ch_threads s ! t) else None)"

text \<open>\<open>notify_one\<close> reaches a thread that sleeps on the condition variable, and is lost otherwise.\<close>

definition notify_send :: "nat \<Rightarrow> 'a channel \<Rightarrow> 'a channel" where
  "notify_send t s = (case pc_of s t of Some (Send_sleep x) \<Rightarrow> set_pc t (Send_test True x) s | _ \<Rightarrow> s)"

definition notify_recv :: "nat \<Rightarrow> 'a channel \<Rightarrow> 'a channel" where
  "notify_recv t s = (case pc_of s t of Some Recv_sleep \<Rightarrow> set_pc t (Recv_test True) s | _ \<Rightarrow> s)"

section \<open>Steps that both channels share\<close>

text \<open>The first half of the two operators, the wake-up and \<open>close\<close>; \<open>None\<close> where the step is not possible.\<close>

definition ch_send_enter :: "nat \<Rightarrow> 'a \<Rightarrow> 'a channel \<Rightarrow> 'a channel option" where
  "ch_send_enter t x s = (case pc_of s t of
     Some Ch_idle \<Rightarrow> Some (set_pc t (Send_test False x) (s\<lparr>ch_sendq := ch_sendq s @ [t]\<rparr>)) | _ \<Rightarrow> None)"

definition ch_recv_enter :: "nat \<Rightarrow> 'a channel \<Rightarrow> 'a channel option" where
  "ch_recv_enter t s = (case pc_of s t of
     Some Ch_idle \<Rightarrow> Some (set_pc t (Recv_test False) (s\<lparr>ch_recvq := ch_recvq s @ [t]\<rparr>)) | _ \<Rightarrow> None)"

definition ch_wake :: "nat \<Rightarrow> 'a channel \<Rightarrow> 'a channel option" where
  "ch_wake t s = (case pc_of s t of
     Some (Send_sleep x) \<Rightarrow> Some (set_pc t (Send_test True x) s)
   | Some Recv_sleep \<Rightarrow> Some (set_pc t (Recv_test True) s)
   | _ \<Rightarrow> None)"

definition ch_close :: "'a channel \<Rightarrow> 'a channel" where
  "ch_close s = s\<lparr>ch_closed := True\<rparr>"

section \<open>The buffered channel\<close>

text \<open>The scheduler thread, one access to the shared state at a time; it holds \<open>buffer_lock\<close> over its body.\<close>

definition buf_sched :: "nat \<Rightarrow> 'a channel \<Rightarrow> 'a channel option" where
  "buf_sched cap s = (case ch_sched s of
     S_start \<Rightarrow> Some (s\<lparr>ch_closed := False, ch_sched := S_load\<rparr>)
   | S_load \<Rightarrow> Some (s\<lparr>ch_sched := (if ch_closed s then S_stop else S_lock)\<rparr>)
   | S_lock \<Rightarrow> if ch_locked s then None else Some (s\<lparr>ch_locked := True, ch_sched := S_send\<rparr>)
   | S_send \<Rightarrow> Some ((case ch_sendq s of
         t # ts \<Rightarrow> if length (ch_buffer s) < cap then notify_send t (s\<lparr>ch_sendq := ts\<rparr>) else s
       | [] \<Rightarrow> s)\<lparr>ch_sched := S_recv\<rparr>)
   | S_recv \<Rightarrow> Some ((case ch_recvq s of
         t # ts \<Rightarrow> if length (ch_buffer s) > 0 then notify_recv t (s\<lparr>ch_recvq := ts\<rparr>) else s
       | [] \<Rightarrow> s)\<lparr>ch_locked := False, ch_sched := S_load\<rparr>)
   | S_stop \<Rightarrow> None)"

text \<open>
  The second half of the operators, with what was put into and taken out of the buffer. A thread that
  has to wait for \<open>buffer_lock\<close> makes no step.
\<close>

definition buf_test :: "nat \<Rightarrow> nat \<Rightarrow> 'a channel \<Rightarrow> ('a list \<times> 'a list \<times> 'a channel) option" where
  "buf_test cap t s = (if ch_locked s then None else (case pc_of s t of
     Some (Send_test _ x) \<Rightarrow>
       if length (ch_buffer s) < cap
       then Some ([x], [], set_pc t Ch_idle (s\<lparr>ch_buffer := ch_buffer s @ [x]\<rparr>))
       else Some ([], [], set_pc t (Send_sleep x) s)
   | Some (Recv_test _) \<Rightarrow>
       (case ch_buffer s of
          y # ys \<Rightarrow> Some ([], [y], set_pc t Ch_idle (s\<lparr>ch_buffer := ys\<rparr>))
        | [] \<Rightarrow> Some ([], [], set_pc t Recv_sleep s))
   | _ \<Rightarrow> None))"

definition silent :: "'a channel option \<Rightarrow> ('a list \<times> 'a list \<times> 'a channel) option" where
  "silent r = map_option (\<lambda>s. ([], [], s)) r"

definition buf_step :: "nat \<Rightarrow> 'a ch_event \<Rightarrow> 'a channel \<Rightarrow> ('a list \<times> 'a list \<times> 'a channel) option" where
  "buf_step cap ev s = (case ev of
     Ev_send t x \<Rightarrow> silent (ch_send_enter t x s)
   | Ev_recv t \<Rightarrow> silent (ch_recv_enter t s)
   | Ev_run t \<Rightarrow> buf_test cap t s
   | Ev_wake t \<Rightarrow> silent (ch_wake t s)
   | Ev_sched \<Rightarrow> silent (buf_sched cap s)
   | Ev_close \<Rightarrow> Some ([], [], ch_close s))"

section \<open>The channel of capacity 0\<close>

text \<open>
  The scheduler pairs the first waiting sender with the first waiting receiver; it holds the two queue
  locks, not \<open>buffer_lock\<close>. The tests of the operators fail the first time whatever the buffer holds
  (\<open>wakeonly\<close>). The pointer \<open>buffer\<close> is the list of at most one element.
\<close>

definition sync_sched :: "'a channel \<Rightarrow> 'a channel option" where
  "sync_sched s = (case ch_sched s of
     S_start \<Rightarrow> Some (s\<lparr>ch_closed := False, ch_sched := S_load\<rparr>)
   | S_load \<Rightarrow> Some (s\<lparr>ch_sched := (if ch_closed s then S_stop else S_send)\<rparr>)
   | S_send \<Rightarrow> Some ((case (ch_sendq s, ch_recvq s) of
         (a # as, b # bs) \<Rightarrow> (notify_recv b (notify_send a s))\<lparr>ch_sendq := as, ch_recvq := bs\<rparr>
       | _ \<Rightarrow> s)\<lparr>ch_sched := S_load\<rparr>)
   | _ \<Rightarrow> None)"

definition sync_test :: "nat \<Rightarrow> 'a channel \<Rightarrow> ('a list \<times> 'a list \<times> 'a channel) option" where
  "sync_test t s = (case pc_of s t of
     Some (Send_test woken x) \<Rightarrow>
       if woken \<and> ch_buffer s = [] then Some ([x], [], set_pc t Ch_idle (s\<lparr>ch_buffer := [x]\<rparr>))
       else Some ([], [], set_pc t (Send_sleep x) s)
   | Some (Recv_test woken) \<Rightarrow>
       (case ch_buffer s of
          y # ys \<Rightarrow> if woken then Some ([], [y], set_pc t Ch_idle (s\<lparr>ch_buffer := []\<rparr>))
            else Some ([], [], set_pc t Recv_sleep s)
        | [] \<Rightarrow> Some ([], [], set_pc t Recv_sleep s))
   | _ \<Rightarrow> None)"

definition sync_step :: "'a ch_event \<Rightarrow> 'a channel \<Rightarrow> ('a list \<times> 'a list \<times> 'a channel) option" where
  "sync_step ev s = (case ev of
     Ev_send t x \<Rightarrow> silent (ch_send_enter t x s)
   | Ev_recv t \<Rightarrow> silent (ch_recv_enter t s)
   | Ev_run t \<Rightarrow> sync_test t s
   | Ev_wake t \<Rightarrow> silent (ch_wake t s)
   | Ev_sched \<Rightarrow> silent (sync_sched s)
   | Ev_close \<Rightarrow> Some ([], [], ch_close s))"

section \<open>Runs\<close>

fun ch_exec :: "('e \<Rightarrow> 's \<Rightarrow> ('a list \<times> 'a list \<times> 's) option) \<Rightarrow> 'e list \<Rightarrow> 's \<Rightarrow> ('a list \<times> 'a list \<times> 's) option" where
  "ch_exec step [] s = Some ([], [], s)"
| "ch_exec step (ev # evs) s = (case step ev s of
     None \<Rightarrow> None
   | Some (i, out, s) \<Rightarrow> (case ch_exec step evs s of
       None \<Rightarrow> None | Some (i', out', s) \<Rightarrow> Some (i @ i', out @ out', s)))"

text \<open>
  What every channel promises, whatever its steps: the elements put in are, in order, those taken out
  followed by those still buffered, and the buffer respects its bound.
\<close>

locale fifo_steps =
  fixes step :: "'e \<Rightarrow> 's \<Rightarrow> ('a list \<times> 'a list \<times> 's) option"
    and buffer :: "'s \<Rightarrow> 'a list"
    and bound :: nat
  assumes step_fifo: "step ev s = Some (i, out, s') \<Longrightarrow> length (buffer s) \<le> bound \<Longrightarrow> buffer s @ i = out @ buffer s'"
    and step_bound: "step ev s = Some (i, out, s') \<Longrightarrow> length (buffer s) \<le> bound \<Longrightarrow> length (buffer s') \<le> bound"
begin

lemma exec_fifo:
  "ch_exec step evs s = Some (i, out, s') \<Longrightarrow> length (buffer s) \<le> bound \<Longrightarrow>
     buffer s @ i = out @ buffer s' \<and> length (buffer s') \<le> bound"
proof (induction evs arbitrary: s i out)
  case (Cons ev evs)
  from Cons.prems obtain i1 o1 s1 i2 o2 where
    s: "step ev s = Some (i1, o1, s1)" "ch_exec step evs s1 = Some (i2, o2, s')" "i = i1 @ i2" "out = o1 @ o2"
    by (auto split: option.splits)
  from step_fifo [OF s(1) Cons.prems(2)] Cons.IH [OF s(2) step_bound [OF s(1) Cons.prems(2)]] s(3,4) show ?case
    by (metis append.assoc)
qed simp

end

lemma buffer_frame [simp]:
  "ch_buffer (set_pc t pc s) = ch_buffer s" "ch_buffer (notify_send t s) = ch_buffer s"
  "ch_buffer (notify_recv t s) = ch_buffer s" "ch_buffer (ch_close s) = ch_buffer s"
  by (auto simp: set_pc_def notify_send_def notify_recv_def ch_close_def split: option.splits ch_pc.splits)

lemma silent_Some: "silent r = Some (i, out, s) \<longleftrightarrow> i = [] \<and> out = [] \<and> r = Some s"
  by (auto simp: silent_def)

lemma enter_frame:
  "ch_send_enter t x s = Some s' \<Longrightarrow> ch_buffer s' = ch_buffer s"
  "ch_recv_enter t s = Some s' \<Longrightarrow> ch_buffer s' = ch_buffer s"
  "ch_wake t s = Some s' \<Longrightarrow> ch_buffer s' = ch_buffer s"
  "buf_sched cap s = Some s' \<Longrightarrow> ch_buffer s' = ch_buffer s"
  "sync_sched s = Some s' \<Longrightarrow> ch_buffer s' = ch_buffer s"
  by (auto simp: ch_send_enter_def ch_recv_enter_def ch_wake_def buf_sched_def sync_sched_def
      split: option.splits ch_pc.splits sched_pc.splits list.splits if_splits)

lemma buf_test_fifo:
  "buf_test cap t s = Some (i, out, s') \<Longrightarrow> length (ch_buffer s) \<le> cap \<Longrightarrow>
     ch_buffer s @ i = out @ ch_buffer s' \<and> length (ch_buffer s') \<le> cap"
  by (auto simp: buf_test_def split: option.splits ch_pc.splits list.splits if_splits)

lemma sync_test_fifo:
  "sync_test t s = Some (i, out, s') \<Longrightarrow> length (ch_buffer s) \<le> 1 \<Longrightarrow> ch_buffer s @ i = out @ ch_buffer s' \<and>
     length (ch_buffer s') \<le> 1"
  by (auto simp: sync_test_def split: option.splits ch_pc.splits list.splits if_splits)

lemma buf_step_fifo:
  assumes "buf_step cap ev s = Some (i, out, s')" "length (ch_buffer s) \<le> cap"
  shows "ch_buffer s @ i = out @ ch_buffer s' \<and> length (ch_buffer s') \<le> cap"
  using assms buf_test_fifo [of cap _ s i out s']
  by (cases ev) (auto simp: buf_step_def silent_Some enter_frame)

lemma sync_step_fifo:
  assumes "sync_step ev s = Some (i, out, s')" "length (ch_buffer s) \<le> 1"
  shows "ch_buffer s @ i = out @ ch_buffer s' \<and> length (ch_buffer s') \<le> 1"
  using assms sync_test_fifo [of _ s i out s']
  by (cases ev) (auto simp: sync_step_def silent_Some enter_frame)

interpretation buf: fifo_steps "buf_step cap" ch_buffer cap for cap
  by unfold_locales (use buf_step_fifo in blast)+

interpretation sync: fifo_steps sync_step ch_buffer 1
  by unfold_locales (use sync_step_fifo in blast)+

section \<open>A sleeper whose condition variable is in no queue\<close>

definition forgotten :: "nat \<Rightarrow> 'a channel \<Rightarrow> bool" where
  "forgotten t s \<longleftrightarrow> pc_of s t = Some Recv_sleep \<and> t \<notin> set (ch_recvq s)"

lemma pc_of_set_pc: "pc_of (set_pc u pc s) t = (if t = u \<and> t < length (ch_threads s) then Some pc else pc_of s t)"
  by (auto simp: pc_of_def set_pc_def)

lemma pc_of_update [simp]:
  "pc_of (s\<lparr>ch_recvq := r\<rparr>) t = pc_of s t" "pc_of (s\<lparr>ch_sendq := r\<rparr>) t = pc_of s t"
  "pc_of (s\<lparr>ch_buffer := b\<rparr>) t = pc_of s t" "pc_of (s\<lparr>ch_closed := c\<rparr>) t = pc_of s t"
  "pc_of (s\<lparr>ch_sched := d\<rparr>) t = pc_of s t" "pc_of (s\<lparr>ch_locked := l\<rparr>) t = pc_of s t"
  by (simp_all add: pc_of_def)

lemma recvq_frame [simp]:
  "ch_recvq (set_pc t pc s) = ch_recvq s" "ch_recvq (notify_send t s) = ch_recvq s" "ch_recvq (notify_recv t s) = ch_recvq s"
  by (auto simp: set_pc_def notify_send_def notify_recv_def split: option.splits ch_pc.splits)

lemma pc_of_notify_recv: "pc_of s t = Some Recv_sleep \<Longrightarrow> u \<noteq> t \<Longrightarrow> pc_of (notify_recv u s) t = Some Recv_sleep"
  by (auto simp: notify_recv_def pc_of_set_pc split: option.splits ch_pc.splits)

lemma pc_of_notify_send: "pc_of s t = Some Recv_sleep \<Longrightarrow> pc_of (notify_send u s) t = Some Recv_sleep"
  by (auto simp: notify_send_def pc_of_set_pc split: option.splits ch_pc.splits)

lemmas ch_step_defs = ch_send_enter_def ch_recv_enter_def ch_wake_def ch_close_def silent_Some

lemma buf_step_forgotten:
  assumes "buf_step cap ev s = Some (i, out, s')" "forgotten t s" "ev \<noteq> Ev_wake t"
  shows "forgotten t s'"
  using assms
  by (cases ev)
    (auto simp: buf_step_def forgotten_def ch_step_defs buf_test_def buf_sched_def pc_of_set_pc pc_of_notify_send
      pc_of_notify_recv split: option.splits ch_pc.splits sched_pc.splits list.splits if_splits)

lemma sync_step_forgotten:
  assumes "sync_step ev s = Some (i, out, s')" "forgotten t s" "ev \<noteq> Ev_wake t"
  shows "forgotten t s'"
  using assms
  by (cases ev)
    (auto simp: sync_step_def forgotten_def ch_step_defs sync_test_def sync_sched_def pc_of_set_pc pc_of_notify_send
      pc_of_notify_recv split: option.splits ch_pc.splits sched_pc.splits list.splits if_splits)

lemma exec_forgotten:
  assumes "\<And>ev s i out s'. step ev s = Some (i, out, s') \<Longrightarrow> forgotten t s \<Longrightarrow> ev \<noteq> Ev_wake t \<Longrightarrow> forgotten t s'"
    and "ch_exec step evs s = Some (i, out, s')" "forgotten t s" "Ev_wake t \<notin> set evs"
  shows "forgotten t s'"
  using assms(2-)
proof (induction evs arbitrary: s i out)
  case (Cons ev evs)
  then show ?case using assms(1) by (fastforce split: option.splits)
qed simp

section \<open>Properties\<close>

text \<open>
  C15 (safety). Whatever the interleaving of senders, receivers, the scheduler thread, spurious wake-ups
  and \<open>close\<close>: a buffered channel is FIFO (what was put in is what was taken out followed by what is
  buffered), and never holds more than its capacity.
\<close>

theorem channel_fifo:
  assumes "ch_exec (buf_step cap) evs (ch_new n) = Some (sent, received, s)"
  shows "sent = received @ ch_buffer s \<and> length (ch_buffer s) \<le> cap"
  using buf.exec_fifo [OF assms] by (simp add: ch_new_def)

definition channel_demo :: "nat ch_event list" where
  "channel_demo = [Ev_sched, Ev_recv 0, Ev_run 0, Ev_send 1 5, Ev_run 1, Ev_sched, Ev_sched, Ev_sched, Ev_sched,
     Ev_run 0, Ev_send 1 6, Ev_run 1]"

theorem channel_fifo_witness:
  "\<exists>s. ch_exec (buf_step 2) channel_demo (ch_new 2) = Some ([5, 6], [5], s) \<and> ch_buffer s = [6]"
proof -
  have "(case ch_exec (buf_step 2) channel_demo (ch_new 2) of None \<Rightarrow> False
    | Some (i, out, s) \<Rightarrow> i = [5, 6] \<and> out = [5])" by code_simp
  then obtain s where s: "ch_exec (buf_step 2) channel_demo (ch_new 2) = Some ([5, 6], [5], s)"
    by (auto split: option.splits)
  from channel_fifo [OF this] s show ?thesis by auto
qed

text \<open>
  C16 (safety). The channel of capacity 0 is FIFO and holds at most one element in every interleaving.
\<close>

theorem sync_channel_fifo:
  assumes "ch_exec sync_step evs (ch_new n) = Some (sent, received, s)"
  shows "sent = received @ ch_buffer s \<and> length (ch_buffer s) \<le> 1"
  using sync.exec_fifo [OF assms] by (simp add: ch_new_def)

definition sync_demo :: "nat ch_event list" where
  "sync_demo = [Ev_sched, Ev_recv 0, Ev_run 0, Ev_send 1 5, Ev_run 1, Ev_sched, Ev_sched, Ev_run 1, Ev_run 0]"

theorem sync_channel_fifo_witness:
  "\<exists>s. ch_exec sync_step sync_demo (ch_new 2) = Some ([5], [5], s) \<and> ch_buffer s = []"
proof -
  have "(case ch_exec sync_step sync_demo (ch_new 2) of None \<Rightarrow> False
    | Some (i, out, s) \<Rightarrow> i = [5] \<and> out = [5])" by code_simp
  then obtain s where s: "ch_exec sync_step sync_demo (ch_new 2) = Some ([5], [5], s)"
    by (auto split: option.splits)
  from sync_channel_fifo [OF this] s show ?thesis by auto
qed

definition forget_run :: "nat ch_event list" where
  "forget_run = [Ev_sched, Ev_send 2 5, Ev_run 2, Ev_recv 0, Ev_recv 1, Ev_sched, Ev_sched, Ev_sched, Ev_sched,
     Ev_run 1, Ev_run 0, Ev_send 2 6, Ev_run 2, Ev_sched, Ev_sched, Ev_sched, Ev_sched]"

text \<open>
  A buffered channel can forget a receiver: its condition variable is taken out of the queue
  while it has not gone to sleep yet, another receiver takes the element, and the next notification goes
  to that receiver's stale entry. From then on the receiver sleeps, although an element is buffered, in
  every continuation without a spurious wake-up.
\<close>

lemma channel_forgets_receiver:
  "\<exists>s. ch_exec (buf_step 1) forget_run (ch_new 3) = Some ([5, 6], [5], s) \<and> ch_buffer s = [6] \<and>
     \<not> (\<exists>evs i out s'. ch_exec (buf_step 1) evs s = Some (i, out, s') \<and> Ev_wake 0 \<notin> set evs \<and>
        pc_of s' 0 \<noteq> Some Recv_sleep)"
proof -
  have "(case ch_exec (buf_step 1) forget_run (ch_new 3) of None \<Rightarrow> False
    | Some (i, out, s) \<Rightarrow> i = [5, 6] \<and> out = [5] \<and> ch_buffer s = [6] \<and> forgotten 0 s)" by code_simp
  then obtain s where s: "ch_exec (buf_step 1) forget_run (ch_new 3) = Some ([5, 6], [5], s)"
    "ch_buffer s = [6]" "forgotten 0 s" by (auto split: option.splits)
  have "pc_of s' 0 = Some Recv_sleep" if "ch_exec (buf_step 1) evs s = Some (i, out, s')" "Ev_wake 0 \<notin> set evs"
    for evs i out s'
    using exec_forgotten [OF buf_step_forgotten that(1) s(3) that(2)] by (simp add: forgotten_def)
  with s show ?thesis by blast
qed

definition sync_forget_run :: "nat ch_event list" where
  "sync_forget_run = [Ev_sched, Ev_recv 0, Ev_run 0, Ev_send 1 5, Ev_run 1, Ev_sched, Ev_sched, Ev_run 0, Ev_run 1]"

text \<open>
  The channel of capacity 0 can stop after its first pairing: sender and receiver are notified
  together, and if the receiver tests first it finds no element and sleeps again, with its condition
  variable in no queue; the sender then delivers the element, and the receiver never takes it.
\<close>

lemma sync_channel_forgets_receiver:
  "\<exists>s. ch_exec sync_step sync_forget_run (ch_new 2) = Some ([5], [], s) \<and> ch_buffer s = [5] \<and>
     \<not> (\<exists>evs i out s'. ch_exec sync_step evs s = Some (i, out, s') \<and> Ev_wake 0 \<notin> set evs \<and>
        pc_of s' 0 \<noteq> Some Recv_sleep)"
proof -
  have "(case ch_exec sync_step sync_forget_run (ch_new 2) of None \<Rightarrow> False
    | Some (i, out, s) \<Rightarrow> i = [5] \<and> out = [] \<and> ch_buffer s = [5] \<and> forgotten 0 s)" by code_simp
  then obtain s where s: "ch_exec sync_step sync_forget_run (ch_new 2) = Some ([5], [], s)"
    "ch_buffer s = [5]" "forgotten 0 s" by (auto split: option.splits)
  have "pc_of s' 0 = Some Recv_sleep" if "ch_exec sync_step evs s = Some (i, out, s')" "Ev_wake 0 \<notin> set evs"
    for evs i out s'
    using exec_forgotten [OF sync_step_forgotten that(1) s(3) that(2)] by (simp add: forgotten_def)
  with s show ?thesis by blast
qed

end
