(* ===== verification/String_Util.thy ===== *)
theory String_Util
  imports Coplus_Prelude
begin

text \<open>
  \<open>StringUtil\<close> of \<open>include/coplus/util.h\<close>: splitting at blanks with an optional limit, splitting at the
  characters of a token, and the two prefix tests. Positions are the indices the code keeps in \<open>int\<close>
  variables; a string is assumed to be shorter than \<open>2^31\<close>, so that they do not overflow, and \<open>npos\<close>
  stored in an \<open>int\<close> is -1.
\<close>

section \<open>The library functions used\<close>

definition find_first_of :: "string \<Rightarrow> string \<Rightarrow> nat \<Rightarrow> nat option" where
  "find_first_of str chars pos = List.find (\<lambda>i. str ! i \<in> set chars) [pos..<length str]"

definition find_first_not_of :: "string \<Rightarrow> string \<Rightarrow> nat \<Rightarrow> nat option" where
  "find_first_not_of str chars pos = List.find (\<lambda>i. str ! i \<notin> set chars) [pos..<length str]"

definition substr :: "string \<Rightarrow> nat \<Rightarrow> nat \<Rightarrow> string" where
  "substr str pos n = take n (drop pos str)"

text \<open>The end of the word that starts at \<open>cur\<close>.\<close>

definition word_end :: "string \<Rightarrow> string \<Rightarrow> nat \<Rightarrow> nat" where
  "word_end str chars cur = (case find_first_of str chars cur of None \<Rightarrow> length str | Some to \<Rightarrow> to)"

lemma find_upt_Some:
  "List.find P [a..<b] = Some i \<Longrightarrow> a \<le> i \<and> i < b \<and> P i \<and> (\<forall>j. a \<le> j \<and> j < i \<longrightarrow> \<not> P j)"
  by (auto simp: find_Some_iff) (metis add_less_cancel_left le_add_diff_inverse)

lemma word_end_bounds:
  assumes "find_first_not_of str chars cur = Some c"
  shows "cur \<le> c \<and> c < word_end str chars c \<and> word_end str chars c \<le> length str"
proof -
  have c: "cur \<le> c" "c < length str" "str ! c \<notin> set chars"
    using assms find_upt_Some by (fastforce simp: find_first_not_of_def)+
  have "c < to \<and> to \<le> length str" if "find_first_of str chars c = Some to" for to
    using that find_upt_Some [of "\<lambda>i. str ! i \<in> set chars" c "length str" to] c(3)
    by (auto simp: find_first_of_def order_le_less)
  then show ?thesis using c(1,2) by (auto simp: word_end_def split: option.splits)
qed

section \<open>Splitting\<close>

text \<open>The loop of the first \<open>split\<close>: the final \<open>cur\<close> and the vector.\<close>

function split_loop :: "string \<Rightarrow> int \<Rightarrow> nat \<Rightarrow> nat \<Rightarrow> string list \<Rightarrow> int \<times> string list" where
  "split_loop str max_partition base cur ret =
     (if max_partition \<le> 0 \<or> length ret - base < nat (max_partition - 1) then
        (case find_first_not_of str '' '' cur of
           None \<Rightarrow> (-1, ret)
         | Some cur \<Rightarrow>
             let to = word_end str '' '' cur
             in split_loop str max_partition base to (if to > cur then ret @ [substr str cur (to - cur)] else ret))
      else (int cur, ret))"
  by pat_completeness auto
termination
  by (relation "measure (\<lambda>(str, m, base, cur, ret). length str - cur)") (auto dest: word_end_bounds)

declare split_loop.simps [simp del]

definition split_max :: "string \<Rightarrow> string list \<Rightarrow> int \<Rightarrow> int \<times> string list" where
  "split_max str ret max_partition =
     (let base = length ret;
          (cur, ret) = split_loop str max_partition base 0 ret;
          ret = (if 0 \<le> cur \<and> cur < int (length str) then ret @ [drop (nat cur) str] else ret)
      in (int (length ret) - int base, ret))"

text \<open>The loop of the second \<open>split\<close>, which skips the separator it found.\<close>

function split_by_loop :: "string \<Rightarrow> string \<Rightarrow> nat \<Rightarrow> string list \<Rightarrow> string list" where
  "split_by_loop str token cur ret =
     (case find_first_not_of str token cur of
        None \<Rightarrow> ret
      | Some cur \<Rightarrow>
          let to = word_end str token cur
          in split_by_loop str token (to + 1) (if to > cur then ret @ [substr str cur (to - cur)] else ret))"
  by pat_completeness auto
termination
  by (relation "measure (\<lambda>(str, token, cur, ret). length str - cur)") (auto dest: word_end_bounds)

declare split_by_loop.simps [simp del]

definition split_by :: "string \<Rightarrow> string \<Rightarrow> string list \<Rightarrow> int \<times> string list" where
  "split_by str token ret =
     (let ret' = split_by_loop str token 0 ret in (int (length ret') - int (length ret), ret'))"

section \<open>Prefixes and suffixes\<close>

definition starts_with :: "string \<Rightarrow> string \<Rightarrow> bool" where
  "starts_with a b = (if length a < length b then False else substr a 0 (length b) = b)"

definition ends_with :: "string \<Rightarrow> string \<Rightarrow> bool" where
  "ends_with a b = (if length a < length b then False
     else substr b 0 (length b) = substr a (length a - length b) (length b))"

section \<open>Specification: the words of a string\<close>

function tokens :: "(char \<Rightarrow> bool) \<Rightarrow> string \<Rightarrow> string list" where
  "tokens sep s = (case dropWhile sep s of [] \<Rightarrow> []
     | c # cs \<Rightarrow> (c # takeWhile (\<lambda>x. \<not> sep x) cs) # tokens sep (dropWhile (\<lambda>x. \<not> sep x) cs))"
  by pat_completeness auto
termination
proof (relation "measure (\<lambda>(sep, s). length s)", goal_cases)
  case (2 sep s c cs)
  then have "length (dropWhile sep s) = Suc (length cs)" by simp
  with length_dropWhile_le [of "\<lambda>x. \<not> sep x" cs] length_dropWhile_le [of sep s] show ?case by simp
qed simp

declare tokens.simps [simp del]

text \<open>The first \<open>n\<close> words and what follows the last of them.\<close>

fun first_tokens :: "(char \<Rightarrow> bool) \<Rightarrow> nat \<Rightarrow> string \<Rightarrow> string list \<times> string" where
  "first_tokens sep 0 s = ([], s)"
| "first_tokens sep (Suc n) s = (case dropWhile sep s of [] \<Rightarrow> ([], [])
     | c # cs \<Rightarrow> (case first_tokens sep n (dropWhile (\<lambda>x. \<not> sep x) cs) of
         (ts, rest) \<Rightarrow> ((c # takeWhile (\<lambda>x. \<not> sep x) cs) # ts, rest)))"

text \<open>The two searches, seen from the rest of the string.\<close>

lemma dropWhile_Cons_hd: "dropWhile P xs = y # ys \<Longrightarrow> \<not> P y"
  by (metis hd_dropWhile list.distinct(1) list.sel(1))

lemma find_upt_shift:
  "List.find (\<lambda>i. Q (s ! i)) [a..<length s] =
     (if dropWhile (\<lambda>x. \<not> Q x) (drop a s) = [] then None
      else Some (length s - length (dropWhile (\<lambda>x. \<not> Q x) (drop a s))))"
proof (induction "length s - a" arbitrary: a)
  case 0
  then show ?case by simp
next
  case (Suc d)
  then have a: "a < length s" and d: "d = length s - Suc a" by auto
  have u: "[a..<length s] = a # [Suc a..<length s]" using a by (simp add: upt_conv_Cons)
  have s: "drop a s = s ! a # drop (Suc a) s" using a by (simp add: Cons_nth_drop_Suc)
  show ?case
  proof (cases "Q (s ! a)")
    case True
    then show ?thesis using a by (simp add: u s)
  next
    case False
    then show ?thesis using Suc.hyps(1) [OF d] by (simp add: u s)
  qed
qed

lemma not_of_None: "find_first_not_of s chars a = None \<longleftrightarrow> dropWhile (\<lambda>x. x \<in> set chars) (drop a s) = []"
  using find_upt_shift [of "\<lambda>x. x \<notin> set chars" s a] by (simp add: find_first_not_of_def)

lemma drop_not_of:
  assumes "find_first_not_of s chars a = Some c"
  shows "drop c s = dropWhile (\<lambda>x. x \<in> set chars) (drop a s)" "drop c s \<noteq> []"
proof -
  let ?d = "dropWhile (\<lambda>x. x \<in> set chars) (drop a s)"
  have c: "?d \<noteq> []" "c = length s - length ?d"
    using assms find_upt_shift [of "\<lambda>x. x \<notin> set chars" s a] by (auto simp: find_first_not_of_def split: if_splits)
  obtain n where n: "?d = drop n (drop a s)" by (metis dropWhile_eq_drop)
  then have "drop c s = ?d" using c by (simp add: min_def split: if_splits)
  then show "drop c s = ?d" "drop c s \<noteq> []" using c(1) by simp_all
qed

lemma word_end_drop:
  assumes "c \<le> length s"
  shows "substr s c (word_end s chars c - c) = takeWhile (\<lambda>x. x \<notin> set chars) (drop c s)"
    and "drop (word_end s chars c) s = dropWhile (\<lambda>x. x \<notin> set chars) (drop c s)"
    and "word_end s chars c = c + length (takeWhile (\<lambda>x. x \<notin> set chars) (drop c s))"
proof -
  let ?w = "takeWhile (\<lambda>x. x \<notin> set chars) (drop c s)" and ?r = "dropWhile (\<lambda>x. x \<notin> set chars) (drop c s)"
  have "length (drop c s) = length ?w + length ?r" by (metis length_append takeWhile_dropWhile_id)
  with assms have len: "length s = c + length ?w + length ?r" by simp
  have f: "find_first_of s chars c = (if ?r = [] then None else Some (length s - length ?r))"
    using find_upt_shift [of "\<lambda>x. x \<in> set chars" s c] unfolding find_first_of_def by (simp only:)
  have "word_end s chars c = length s - length ?r"
  proof (cases "?r = []")
    case True
    with f have "find_first_of s chars c = None" by metis
    with True show ?thesis unfolding word_end_def by (simp only: option.case list.size diff_zero)
  next
    case False
    with f have "find_first_of s chars c = Some (length s - length ?r)" by metis
    then show ?thesis by (simp add: word_end_def)
  qed
  with len show e: "word_end s chars c = c + length ?w" by linarith
  show "substr s c (word_end s chars c - c) = ?w" unfolding substr_def e by (simp add: takeWhile_eq_take [symmetric])
  show "drop (word_end s chars c) s = ?r" unfolding e
    by (simp add: dropWhile_eq_drop [of "\<lambda>x. x \<notin> set chars" "drop c s"] add.commute)
qed

lemma tokens_Nil: "dropWhile sep s = [] \<Longrightarrow> tokens sep s = []"
  by (subst tokens.simps) (simp del: dropWhile_eq_Nil_conv)

lemma tokens_sep: "sep x \<Longrightarrow> tokens sep (x # xs) = tokens sep xs"
  by (simp add: tokens.simps [of sep "x # xs"] tokens.simps [of sep xs])

lemma tokens_tl: "xs = [] \<or> sep (hd xs) \<Longrightarrow> tokens sep (tl xs) = tokens sep xs"
  by (cases xs) (auto simp: tokens_sep)

text \<open>One word found: the piece of the string it is, and the words after it.\<close>

lemma tokens_word:
  assumes "find_first_not_of s chars a = Some c"
  shows "tokens (\<lambda>x. x \<in> set chars) (drop a s) =
      substr s c (word_end s chars c - c) # tokens (\<lambda>x. x \<in> set chars) (drop (word_end s chars c) s)"
proof -
  let ?sep = "\<lambda>x. x \<in> set chars"
  note d = drop_not_of [OF assms]
  have c: "c \<le> length s" using word_end_bounds [OF assms] by simp
  obtain x xs where x: "drop c s = x # xs" using d(2) by (cases "drop c s") auto
  then have "\<not> ?sep x" using dropWhile_Cons_hd [of ?sep "drop a s" x xs] d(1) by simp
  then show ?thesis
    unfolding tokens.simps [of ?sep "drop a s"] d(1) [symmetric] word_end_drop(1,2) [OF c] x by simp
qed

lemma drop_word_end_sep:
  assumes "c \<le> length s"
  shows "drop (word_end s chars c) s = [] \<or> hd (drop (word_end s chars c) s) \<in> set chars"
  using word_end_drop(2) [OF assms, of chars] by (metis (no_types, lifting) hd_dropWhile)

lemma split_by_loop_tokens:
  "split_by_loop str token cur ret = ret @ tokens (\<lambda>x. x \<in> set token) (drop cur str)"
proof (induction str token cur ret rule: split_by_loop.induct)
  case (1 str token cur ret)
  show ?case
  proof (cases "find_first_not_of str token cur")
    case None
    then have "tokens (\<lambda>x. x \<in> set token) (drop cur str) = []" by (intro tokens_Nil) (simp only: not_of_None)
    with None show ?thesis by (simp add: split_by_loop.simps [of str token cur ret])
  next
    case (Some c)
    let ?to = "word_end str token c"
    have b: "c < ?to" "c \<le> length str" using word_end_bounds [OF Some] by auto
    have "tokens (\<lambda>x. x \<in> set token) (drop (?to + 1) str) = tokens (\<lambda>x. x \<in> set token) (drop ?to str)"
      using tokens_tl [where sep = "\<lambda>x. x \<in> set token", OF drop_word_end_sep [OF b(2), of token]]
      by (simp add: drop_Suc tl_drop)
    with "1.IH" [OF Some refl] b(1) Some tokens_word [OF Some] show ?thesis
      by (simp add: split_by_loop.simps [of str token cur ret] Let_def)
  qed
qed

text \<open>The limited loop: as long as it has words to take, it takes the next one.\<close>

lemma split_loop_unlimited:
  "m \<le> 0 \<Longrightarrow> split_loop str m base cur ret = (- 1, ret @ tokens (\<lambda>x. x = CHR '' '') (drop cur str))"
proof (induction str m base cur ret rule: split_loop.induct)
  case (1 str m base cur ret)
  have e: "(\<lambda>x. x \<in> set '' '') = (\<lambda>x. x = CHR '' '')" by auto
  show ?case
  proof (cases "find_first_not_of str '' '' cur")
    case None
    then have "tokens (\<lambda>x. x \<in> set '' '') (drop cur str) = []" by (intro tokens_Nil) (simp only: not_of_None)
    with None "1.prems" show ?thesis by (simp add: split_loop.simps [of str m base cur ret] e)
  next
    case (Some c)
    have b: "c < word_end str '' '' c" using word_end_bounds [OF Some] by auto
    with "1.IH" [OF _ Some refl "1.prems"] Some tokens_word [OF Some] "1.prems" show ?thesis
      by (simp add: split_loop.simps [of str m base cur ret] Let_def e)
  qed
qed

lemma first_tokens_word:
  assumes "find_first_not_of s '' '' a = Some c"
  shows "first_tokens (\<lambda>x. x = CHR '' '') (Suc n) (drop a s) =
    (substr s c (word_end s '' '' c - c) # fst (first_tokens (\<lambda>x. x = CHR '' '') n (drop (word_end s '' '' c) s)),
     snd (first_tokens (\<lambda>x. x = CHR '' '') n (drop (word_end s '' '' c) s)))"
proof -
  let ?sep = "\<lambda>x. x = CHR '' ''"
  have e: "(\<lambda>x. x \<in> set '' '') = ?sep" by auto
  note d = drop_not_of [OF assms, unfolded e]
  have c: "c \<le> length s" using word_end_bounds [OF assms] by simp
  note w = word_end_drop(1,2) [OF c, of "'' ''"]
  obtain x xs where x: "drop c s = x # xs" using d(2) by (cases "drop c s") auto
  then have "\<not> ?sep x" using dropWhile_Cons_hd [of ?sep "drop a s" x xs] d(1) by simp
  then show ?thesis unfolding first_tokens.simps d(1) [symmetric] w x by (simp add: case_prod_beta)
qed

lemma length_first_tokens: "length (fst (first_tokens sep n s)) \<le> n"
proof (induction n arbitrary: s)
  case (Suc n)
  show ?case
  proof (cases "dropWhile sep s")
    case (Cons c cs)
    with Suc [of "dropWhile (\<lambda>x. \<not> sep x) cs"] show ?thesis by (simp add: case_prod_beta)
  qed (simp del: dropWhile_eq_Nil_conv)
qed simp

lemma split_loop_limited:
  assumes "0 < m" "base \<le> length ret" "length ret - base + n = nat (m - 1)" "cur \<le> length str"
  shows "\<exists>cur'. split_loop str m base cur ret =
      (cur', ret @ fst (first_tokens (\<lambda>x. x = CHR '' '') n (drop cur str))) \<and>
    (if 0 \<le> cur' \<and> cur' < int (length str) then drop (nat cur') str else []) =
      snd (first_tokens (\<lambda>x. x = CHR '' '') n (drop cur str))"
  using assms
proof (induction n arbitrary: cur ret)
  case 0
  then show ?case by (simp add: split_loop.simps [of str m base cur ret])
next
  case (Suc n)
  have e: "(\<lambda>x. x \<in> set '' '') = (\<lambda>x. x = CHR '' '')" by auto
  have room: "length ret - base < nat (m - 1)" using Suc.prems(3) by simp
  show ?case
  proof (cases "find_first_not_of str '' '' cur")
    case None
    then have "dropWhile (\<lambda>x. x = CHR '' '') (drop cur str) = []" unfolding not_of_None e .
    with None room show ?thesis by (simp add: split_loop.simps [of str m base cur ret] del: dropWhile_eq_Nil_conv)
  next
    case (Some c)
    let ?to = "word_end str '' '' c" and ?ret = "ret @ [substr str c (word_end str '' '' c - c)]"
    have b: "c < ?to" "?to \<le> length str" using word_end_bounds [OF Some] by auto
    have "split_loop str m base cur ret = split_loop str m base ?to ?ret"
      using Some room b(1) by (simp add: split_loop.simps [of str m base cur ret] Let_def)
    with Suc.IH [of ?ret ?to] Suc.prems b(2) first_tokens_word [OF Some, of n] show ?thesis
      by (auto simp: Suc_diff_le)
  qed
qed

text \<open>The words of a string are non-empty and free of separators, and joining such words gives them back.\<close>

lemma tokens_word_prefix:
  assumes "w \<noteq> []" "\<forall>x \<in> set w. \<not> sep x" "r = [] \<or> sep (hd r)"
  shows "tokens sep (w @ r) = w # tokens sep r"
proof -
  obtain x xs where w: "w = x # xs" using assms(1) by (cases w) auto
  have "dropWhile (\<lambda>x. \<not> sep x) (xs @ r) = r" "takeWhile (\<lambda>x. \<not> sep x) (xs @ r) = xs"
    using assms(2,3) w by (auto simp: dropWhile_append takeWhile_append) (cases r; auto)+
  then show ?thesis using assms(2) w by (subst tokens.simps) simp
qed

text \<open>Every element followed by the separator, and between them only.\<close>

definition terminate_with :: "char \<Rightarrow> string list \<Rightarrow> string" where
  "terminate_with c xs = concat (map (\<lambda>x. x @ [c]) xs)"

fun join_with :: "char \<Rightarrow> string list \<Rightarrow> string" where
  "join_with c [] = []"
| "join_with c [x] = x"
| "join_with c (x # xs) = x @ [c] @ join_with c xs"

definition plain :: "string \<Rightarrow> string \<Rightarrow> bool" where
  "plain chars x \<longleftrightarrow> x \<noteq> [] \<and> set x \<inter> set chars = {}"

lemma tokens_terminate:
  "\<forall>x \<in> set xs. plain [c] x \<Longrightarrow> tokens (\<lambda>y. y = c) (terminate_with c xs) = xs"
proof (induction xs)
  case Nil
  then show ?case by (simp add: terminate_with_def tokens.simps [of _ "[]"])
next
  case (Cons x xs)
  have "tokens (\<lambda>y. y = c) (x @ [c] @ terminate_with c xs) = x # tokens (\<lambda>y. y = c) ([c] @ terminate_with c xs)"
    using Cons.prems by (intro tokens_word_prefix) (auto simp: plain_def)
  with Cons show ?case by (simp add: terminate_with_def tokens_sep)
qed

lemma tokens_join:
  "\<forall>x \<in> set xs. plain [c] x \<Longrightarrow> tokens (\<lambda>y. y = c) (join_with c xs) = xs"
proof (induction c xs rule: join_with.induct)
  case (1 c)
  then show ?case by (simp add: tokens.simps [of _ "[]"])
next
  case (2 c x)
  then show ?case using tokens_word_prefix [of x "\<lambda>y. y = c" "[]"] by (auto simp: plain_def tokens.simps [of _ "[]"])
next
  case (3 c x v va)
  have "tokens (\<lambda>y. y = c) (x @ [c] @ join_with c (v # va)) = x # tokens (\<lambda>y. y = c) ([c] @ join_with c (v # va))"
    using "3.prems" by (intro tokens_word_prefix) (auto simp: plain_def)
  with 3 show ?case by (simp add: tokens_sep)
qed

lemma split_by_tokens: "split_by str token ret =
  (int (length (tokens (\<lambda>x. x \<in> set token) str)), ret @ tokens (\<lambda>x. x \<in> set token) str)"
  by (simp add: split_by_def split_by_loop_tokens Let_def)

section \<open>Properties\<close>

text \<open>
  C19 (equivalence). Both \<open>split\<close> functions terminate and append to the vector exactly the maximal
  separator-free pieces of the string, in order, and return their number: splitting at the characters of
  a token, and splitting at blanks without a limit.
\<close>

theorem split_spec:
  "split_by str token ret =
     (int (length (tokens (\<lambda>x. x \<in> set token) str)), ret @ tokens (\<lambda>x. x \<in> set token) str) \<and>
   split_max str ret (- 1) = (int (length (tokens (\<lambda>x. x = CHR '' '') str)), ret @ tokens (\<lambda>x. x = CHR '' '') str)"
  by (simp add: split_by_tokens split_max_def split_loop_unlimited Let_def)

text \<open>
  With a limit of \<open>m\<close> parts, \<open>split\<close> appends the first \<open>m - 1\<close> words and then, unless it is
  empty, all that follows them, unsplit and with its leading blank; so never more than \<open>m\<close> parts.
\<close>

lemma split_limited:
  assumes "0 < m"
  shows "\<exists>ts rest. first_tokens (\<lambda>x. x = CHR '' '') (nat (m - 1)) str = (ts, rest) \<and>
    snd (split_max str ret m) = ret @ ts @ (if rest = [] then [] else [rest]) \<and>
    fst (split_max str ret m) = int (length ts + (if rest = [] then 0 else 1)) \<and> length ts \<le> nat (m - 1)"
proof -
  let ?f = "first_tokens (\<lambda>x. x = CHR '' '') (nat (m - 1)) str"
  from split_loop_limited [OF assms, of "length ret" ret "nat (m - 1)" 0 str] obtain cur where
    cur: "split_loop str m (length ret) 0 ret = (cur, ret @ fst ?f)"
      "(if 0 \<le> cur \<and> cur < int (length str) then drop (nat cur) str else []) = snd ?f" by auto
  have "length (fst ?f) \<le> nat (m - 1)" by (rule length_first_tokens)
  moreover have "(0 \<le> cur \<and> cur < int (length str)) \<longleftrightarrow> snd ?f \<noteq> []" using cur(2) by (auto split: if_splits)
  ultimately show ?thesis using cur
    by (intro exI [of _ "fst ?f"] exI [of _ "snd ?f"]) (auto simp: split_max_def Let_def split: if_splits)
qed

text \<open>
  Words that are non-empty and free of the separator survive being joined with it, between
  them or after each, and split again.
\<close>

lemma split_join:
  assumes "\<forall>x \<in> set xs. plain [c] x"
  shows "split_by (join_with c xs) [c] ret = (int (length xs), ret @ xs) \<and>
    split_by (terminate_with c xs) [c] ret = (int (length xs), ret @ xs)"
  using tokens_join [OF assms] tokens_terminate [OF assms] by (simp add: split_by_tokens)

text \<open>
  \<open>starts_with\<close> and \<open>ends_with\<close> decide prefix and suffix, for strings of any lengths.
\<close>

lemma starts_ends_with:
  "(starts_with a b \<longleftrightarrow> (\<exists>r. a = b @ r)) \<and> (ends_with a b \<longleftrightarrow> (\<exists>r. a = r @ b))"
proof
  have "take (length b) a = b \<longleftrightarrow> (\<exists>r. a = b @ r)" by (metis append_take_drop_id append_eq_conv_conj)
  then show "starts_with a b \<longleftrightarrow> (\<exists>r. a = b @ r)" by (auto simp: starts_with_def substr_def)
  have "drop (length a - length b) a = b \<longleftrightarrow> (\<exists>r. a = r @ b)" if "length b \<le> length a"
    by (metis append_take_drop_id append_eq_conv_conj length_append add_diff_cancel_right')
  then show "ends_with a b \<longleftrightarrow> (\<exists>r. a = r @ b)" by (auto simp: ends_with_def substr_def)
qed

end
