(* ===== verification/Protocol.thy ===== *)
theory Protocol
  imports String_Util
begin

text \<open>
  \<open>Protocol\<close> of \<open>include/coplus/protocol.h\<close>: building the frames of a message and printing one. A string is
  its list of characters, an \<open>int\<close> or \<open>unsigned int\<close> copied by \<open>memcpy\<close> is its four bytes, lowest first (the
  byte order of the machines the library is built for). \<open>format_message\<close> gives the text it writes to the
  stream and the string it returns; reading past the end of the string and indexing an empty vector are
  undefined.
\<close>

section \<open>Bytes and numbers\<close>

definition le32 :: "nat \<Rightarrow> string" where
  "le32 n = map (\<lambda>i. char_of (n div 256 ^ i mod 256)) [0, 1, 2, 3]"

definition read_u32 :: "string \<Rightarrow> nat" where
  "read_u32 s = (\<Sum>i \<leftarrow> [0, 1, 2, 3]. of_char (s ! i) * 256 ^ i)"

definition read_int :: "string \<Rightarrow> int" where
  "read_int s = (let n = int (read_u32 s) in if n < 2 ^ 31 then n else n - 2 ^ 32)"

fun show_nat :: "nat \<Rightarrow> string" where
  "show_nat n = (if n < 10 then [char_of (48 + n)] else show_nat (n div 10) @ [char_of (48 + n mod 10)])"

declare show_nat.simps [simp del]

definition show_int :: "int \<Rightarrow> string" where
  "show_int i = (if i < 0 then ''-'' @ show_nat (nat (- i)) else show_nat (nat i))"

definition memcpy_at :: "string \<Rightarrow> nat \<Rightarrow> string \<Rightarrow> string" where
  "memcpy_at dst off src = take off dst @ src @ drop (off + length src) dst"

section \<open>Constants\<close>

definition app_head_len :: nat where "app_head_len = 4"
definition app_head :: nat where "app_head = 0xDEADC0DE"
definition app_terminator_len :: nat where "app_terminator_len = 4"
definition app_terminator :: nat where "app_terminator = 0xDEADBEEF"
definition minimum_frame :: nat where "minimum_frame = 4 + 4"
definition minimum_len :: nat where "minimum_len = 1 + 4"

lemmas protocol_constants = app_head_len_def app_head_def app_terminator_len_def app_terminator_def
  minimum_frame_def minimum_len_def

datatype MessageType = kDefault | kRequest | kDirect | kResponse

definition type_code :: "MessageType \<Rightarrow> char" where
  "type_code t = (case t of kDefault \<Rightarrow> char_of (0::nat) | kRequest \<Rightarrow> char_of (1::nat)
     | kDirect \<Rightarrow> char_of (2::nat) | kResponse \<Rightarrow> char_of (3::nat))"

section \<open>Building messages\<close>

definition pickle_message :: "MessageType \<Rightarrow> string \<Rightarrow> char \<Rightarrow> string" where
  "pickle_message type request raw_type =
     (let ret = replicate app_head_len CHR '' '' @ [type_code type] @ replicate 4 CHR '' '' @ [raw_type] @ request @
            replicate app_terminator_len CHR '' '';
          ret = memcpy_at ret 0 (le32 app_head);
          len = length ret - minimum_frame;
          ret = memcpy_at ret 5 (le32 len)
      in memcpy_at ret (length ret - app_terminator_len) (le32 app_terminator))"

definition pickle_direct :: "MessageType \<Rightarrow> string \<Rightarrow> string \<Rightarrow> string" where
  "pickle_direct type addr request = pickle_message type (''::'' @ addr @ ''::'' @ request) CHR ''d''"

text \<open>The rows of the list message; \<open>h\<close> is the size of the header.\<close>

function pickle_rows :: "nat \<Rightarrow> string list \<Rightarrow> nat \<Rightarrow> string" where
  "pickle_rows h entries i =
     (if 0 < h \<and> i + h \<le> length entries then
        entries ! i @ concat (map (\<lambda>j. '','' @ entries ! j) [i + 1..<min (i + h) (length entries)]) @ '';'' @
        pickle_rows h entries (i + h)
      else [])"
  by pat_completeness auto
termination
  by (relation "measure (\<lambda>(h, entries, i). length entries - i)") auto

declare pickle_rows.simps [simp del]

definition pickle_list :: "MessageType \<Rightarrow> string list \<Rightarrow> string list \<Rightarrow> string" where
  "pickle_list type header entries =
     (if header = [] then []
      else pickle_message type
        (hd header @ concat (map (\<lambda>h. '','' @ h) (tl header)) @ '';'' @ pickle_rows (length header) entries 0) CHR ''l'')"

section \<open>Printing messages\<close>

datatype GetType = kGetNothing | kGetType | kGetContent | kGetLength

definition endl :: string where "endl = [CHR 0x0A]"

definition type_name :: "char \<Rightarrow> string" where
  "type_name c = (if c = type_code kDefault then ''default'' else if c = type_code kRequest then ''request''
     else if c = type_code kDirect then ''direct'' else if c = type_code kResponse then ''response'' else [])"

text \<open>What \<open>operator<<\<close> prints of a C string: up to the terminating zero.\<close>

definition c_string :: "string \<Rightarrow> nat \<Rightarrow> string" where
  "c_string s pos = takeWhile (\<lambda>c. c \<noteq> CHR 0x00) (drop pos s)"

text \<open>\<open>str.find(needle, pos)\<close>.\<close>

definition find_str :: "string \<Rightarrow> string \<Rightarrow> nat \<Rightarrow> nat option" where
  "find_str str needle pos = List.find (\<lambda>i. substr str i (length needle) = needle) [pos..<length str + 1 - length needle]"

text \<open>
  A cell: blanks before and after, half of the difference each; the counts \<open>d / 2.0\<close> and \<open>d / 2.0 + 0.9\<close> are
  truncated.
\<close>

definition table_cell :: "nat \<Rightarrow> string \<Rightarrow> string" where
  "table_cell width s = ''|'' @ replicate ((width - length s) div 2) CHR '' '' @ s @
     replicate ((width - length s + 1) div 2) CHR '' ''"

text \<open>The rows of the list: each has to have as many cells as the header, and widens its columns.\<close>

fun layout_rows :: "nat \<Rightarrow> nat \<Rightarrow> string list \<Rightarrow> nat list \<Rightarrow> string list \<Rightarrow> (nat list \<times> string list) option" where
  "layout_rows h i [] minLayout content = Some (minLayout, content)"
| "layout_rows h i (entry # entries) minLayout content =
     (case split_by entry '','' content of (cnt, content) \<Rightarrow>
        if cnt \<noteq> int h then None
        else layout_rows h (i + 1) entries
          (map (\<lambda>j. max (minLayout ! j) (length (content ! (h * (i - 1) + j)))) [0..<h]) content)"

function print_rows :: "nat \<Rightarrow> nat list \<Rightarrow> string list \<Rightarrow> nat \<Rightarrow> string" where
  "print_rows h minLayout content i =
     (if 0 < h \<and> i + h \<le> length content then
        concat (map (\<lambda>j. table_cell (minLayout ! (j mod h)) (content ! j)) [i..<min (i + h) (length content)]) @ ''|'' @ endl @
        print_rows h minLayout content (i + h)
      else [])"
  by pat_completeness auto
termination
  by (relation "measure (\<lambda>(h, minLayout, content, i). length content - i)") auto

declare print_rows.simps [simp del]

definition format_list :: "string \<Rightarrow> (string \<times> bool) outcome" where
  "format_list body =
     (let entries = snd (split_by body '';'' []) in
      if entries = [] then Undefined
      else
        let header = snd (split_by (entries ! 0) '','' []) in
        if header = [] then Value (''[null]'' @ endl, False)
        else (case layout_rows (length header) 1 (drop 1 entries) (map length header) [] of
            None \<Rightarrow> Value (''[broken]'' @ endl, False)
          | Some (minLayout, content) \<Rightarrow>
              let minLayout = map (\<lambda>w. w + 2) minLayout in
              Value (concat (map (\<lambda>i. table_cell (minLayout ! i) (header ! i)) [0..<length header]) @ ''|'' @ endl @
                print_rows (length header) minLayout content 0, True)))"

definition format_direct :: "string \<Rightarrow> string" where
  "format_direct s = (case find_str s ''::'' (minimum_len + 3) of
     None \<Rightarrow> ''sender broke'' @ endl @ ''message: '' @ c_string s 1 @ endl
   | Some addr_end \<Rightarrow> ''sender: '' @ substr s (minimum_len + 3) (addr_end - minimum_len - 3) @ endl @
       ''message: '' @ c_string s (addr_end + 2) @ endl)"

definition format_message :: "string \<Rightarrow> GetType \<Rightarrow> (string \<times> string) outcome" where
  "format_message s get =
     (if length s < minimum_len then Undefined
      else
        let lenv = read_int (drop 1 s);
            os = ''type: '' @ type_name (s ! 0) @ endl @ ''length: '' @ show_int lenv @ endl;
            ret = (if get = kGetType then type_name (s ! 0) else if get = kGetLength then show_int lenv else []);
            ret' = (if get = kGetContent \<and> length s > minimum_len then drop (minimum_len + 1) s else ret)
        in if length s = minimum_len then Value (os @ ''no message'' @ endl, ret')
           else if s ! minimum_len = CHR ''l'' then
             obind (format_list (drop (minimum_len + 1) s)) (\<lambda>(text, ok).
               Value (os @ ''list: '' @ endl @ text, if ok then ret' else []))
           else if s ! minimum_len = CHR ''d'' then Value (os @ format_direct s, ret')
           else Value (os @ ''message: '' @ c_string s (minimum_len + 1) @ endl, ret'))"

section \<open>Layout of a frame\<close>

lemma length_le32 [simp]: "length (le32 n) = 4"
  by (simp add: le32_def)

definition frame_body :: "MessageType \<Rightarrow> char \<Rightarrow> string \<Rightarrow> string" where
  "frame_body type raw request = [type_code type] @ le32 (length request + 6) @ [raw] @ request"

lemma memcpy_replace: "length b = length src \<Longrightarrow> memcpy_at (a @ b @ c) (length a) src = a @ src @ c"
  by (simp add: memcpy_at_def)

lemma pickle_message_layout:
  "pickle_message type request raw = le32 app_head @ frame_body type raw request @ le32 app_terminator"
proof -
  let ?b4 = "replicate 4 CHR '' ''"
  have 1: "memcpy_at (?b4 @ [type_code type] @ ?b4 @ [raw] @ request @ ?b4) 0 (le32 app_head) =
      le32 app_head @ [type_code type] @ ?b4 @ [raw] @ request @ ?b4"
    using memcpy_replace [of ?b4 "le32 app_head" "[]"] by simp
  have 2: "memcpy_at (le32 app_head @ [type_code type] @ ?b4 @ [raw] @ request @ ?b4) 5 (le32 n) =
      (le32 app_head @ [type_code type] @ le32 n @ [raw] @ request) @ ?b4" for n
    using memcpy_replace [of ?b4 "le32 n" "le32 app_head @ [type_code type]"] by simp
  have 3: "memcpy_at (xs @ ?b4) (length (xs @ ?b4) - 4) (le32 n) = xs @ le32 n" for xs n
    using memcpy_replace [of ?b4 "le32 n" xs "[]"] by simp
  show ?thesis
    unfolding pickle_message_def Let_def app_head_len_def app_terminator_len_def minimum_frame_def 1 2 3
    by (simp add: frame_body_def add.commute)
qed

lemma of_char_byte: "n < 256 \<Longrightarrow> of_char (char_of n :: char) = (n :: nat)"
  by simp

lemma read_le32: "n < 2 ^ 32 \<Longrightarrow> read_u32 (le32 n @ r) = n"
proof -
  assume n: "n < 2 ^ 32"
  have "read_u32 (le32 n @ r) = n mod 256 + n div 256 mod 256 * 256 + n div 65536 mod 256 * 65536 + n div 16777216 mod 256 * 16777216"
    by (simp add: read_u32_def le32_def)
  also have "\<dots> = n"
  proof -
    let ?a = "n div 256" and ?b = "n div 256 div 256" and ?c = "n div 256 div 256 div 256"
    have d: "n div 65536 = ?b" "n div 16777216 = ?c" by (simp_all add: div_mult2_eq [symmetric])
    have "?c < 256" using n by (simp add: less_mult_imp_div_less)
    then have "?c mod 256 = ?c" by simp
    moreover have "n = ?a * 256 + n mod 256" "?a = ?b * 256 + ?a mod 256" "?b = ?c * 256 + ?b mod 256"
      by (rule div_mult_mod_eq [symmetric])+
    ultimately show ?thesis unfolding d by linarith
  qed
  finally show ?thesis .
qed


section \<open>Reading a frame\<close>

lemma frame_body_parts:
  "length (frame_body type raw request) = length request + 6"
  "frame_body type raw request ! 0 = type_code type"
  "drop 1 (frame_body type raw request) = le32 (length request + 6) @ [raw] @ request"
  "frame_body type raw request ! 5 = raw"
  "drop 6 (frame_body type raw request) = request"
  by (simp_all add: frame_body_def nth_append nth_Cons')

lemma type_name_code:
  "type_name (type_code t) = (case t of kDefault \<Rightarrow> ''default'' | kRequest \<Rightarrow> ''request'' | kDirect \<Rightarrow> ''direct''
     | kResponse \<Rightarrow> ''response'')"
  by (cases t) (simp_all add: type_name_def type_code_def)

lemma read_int_le32: "n < 2 ^ 31 \<Longrightarrow> read_int (le32 n @ r) = int n"
  using read_le32 [of n r] by (simp add: read_int_def)

text \<open>The two lines that every message starts with, and what follows them for the two structured kinds.\<close>

definition message_head :: "MessageType \<Rightarrow> string \<Rightarrow> string" where
  "message_head type request = ''type: '' @ type_name (type_code type) @ endl @ ''length: '' @
     show_int (read_int (le32 (length request + 6))) @ endl"

lemma read_int_append: "read_int (le32 n @ r) = read_int (le32 n)"
  by (simp add: read_int_def read_u32_def nth_append)

lemma format_message_list:
  "format_list request = Value (t, True) \<Longrightarrow>
     format_message (frame_body type CHR ''l'' request) kGetNothing = Value (message_head type request @ ''list: '' @ endl @ t, [])"
  using frame_body_parts [of type "CHR ''l''" request]
  by (simp add: format_message_def minimum_len_def Let_def message_head_def read_int_append)

lemma format_message_direct:
  "format_message (frame_body type CHR ''d'' request) kGetNothing =
     Value (message_head type request @ format_direct (frame_body type CHR ''d'' request), [])"
  using frame_body_parts [of type "CHR ''d''" request]
  by (simp add: format_message_def minimum_len_def Let_def message_head_def read_int_append)

section \<open>Lists\<close>

lemma append_single: "(@) [c] = (#) c"
  by auto

lemma join_with_eq: "xs \<noteq> [] \<Longrightarrow> join_with c xs = hd xs @ concat (map (\<lambda>x. [c] @ x) (tl xs))"
  by (induction c xs rule: join_with.induct) auto

lemma join_with_plain:
  assumes "xs \<noteq> []" "\<forall>x \<in> set xs. plain [c, d] x" "c \<noteq> d"
  shows "plain [d] (join_with c xs)"
  using assms
  by (induction c xs rule: join_with.induct) (auto simp: plain_def)

lemma plain_subset: "plain [c, d] x \<Longrightarrow> plain [c] x \<and> plain [d] x"
  by (auto simp: plain_def)

text \<open>A row cut out of the flat vector of entries by its indices.\<close>

lemma row_indices:
  assumes "length row = h" "0 < h"
  shows "map (\<lambda>j. f ((pre @ row @ rest) ! j)) [length pre + 1..<length pre + h] = map f (tl row)"
    and "map (\<lambda>j. g (j - length pre) ((pre @ row @ rest) ! j)) [length pre..<length pre + h] = map (\<lambda>j. g j (row ! j)) [0..<h]"
  using assms by (auto intro!: nth_equalityI simp: nth_append nth_tl)

lemma pickle_rows_concat:
  "\<forall>r \<in> set rows. length r = h \<Longrightarrow> 0 < h \<Longrightarrow>
     pickle_rows h (pre @ concat rows) (length pre) = terminate_with CHR '';'' (map (join_with CHR '','') rows)"
proof (induction rows arbitrary: pre)
  case Nil
  then show ?case by (simp add: pickle_rows.simps [of h pre] terminate_with_def)
next
  case (Cons row rows)
  then have row: "length row = h" "row \<noteq> []" by auto
  let ?es = "pre @ row @ concat rows"
  have "?es ! length pre = hd row" using row Cons.prems(2) by (cases row) (auto simp: nth_append)
  moreover have "concat (map (\<lambda>j. '','' @ ?es ! j) [length pre + 1..<length pre + h]) = concat (map (\<lambda>x. '','' @ x) (tl row))"
    using row_indices(1) [OF row(1) Cons.prems(2), of "\<lambda>x. '','' @ x" pre "concat rows"] by simp
  ultimately have "pickle_rows h ?es (length pre) =
      join_with CHR '','' row @ '';'' @ pickle_rows h ?es (length pre + h)"
    using row Cons.prems(2) join_with_eq [OF row(2), of "CHR '',''"] by (subst pickle_rows.simps) simp
  moreover have "pickle_rows h ?es (length pre + h) = terminate_with CHR '';'' (map (join_with CHR '','') rows)"
    using Cons.IH [of "pre @ row"] Cons.prems row(1) by simp
  ultimately show ?case by (simp add: terminate_with_def)
qed

definition table_line :: "nat list \<Rightarrow> string list \<Rightarrow> string" where
  "table_line widths row = concat (map (\<lambda>j. table_cell (widths ! j) (row ! j)) [0..<length row]) @ ''|'' @ endl"

lemma print_rows_concat:
  "\<forall>r \<in> set rows. length r = h \<Longrightarrow> 0 < h \<Longrightarrow> length pre mod h = 0 \<Longrightarrow>
     print_rows h widths (pre @ concat rows) (length pre) = concat (map (table_line widths) rows)"
proof (induction rows arbitrary: pre)
  case Nil
  then show ?case by (simp add: print_rows.simps [of h widths pre])
next
  case (Cons row rows)
  then have row: "length row = h" by auto
  let ?es = "pre @ row @ concat rows"
  have "map (\<lambda>j. table_cell (widths ! (j mod h)) (?es ! j)) [length pre..<length pre + h] =
      map (\<lambda>j. table_cell (widths ! (j - length pre)) (?es ! j)) [length pre..<length pre + h]"
  proof (rule map_cong [OF refl])
    fix j
    assume "j \<in> set [length pre..<length pre + h]"
    then have j: "length pre \<le> j" "j - length pre < h" by auto
    have "j mod h = (j - length pre) mod h"
      using Cons.prems(3) j(1) by (metis add.commute le_add_diff_inverse mod_add_left_eq add_0)
    then show "table_cell (widths ! (j mod h)) (?es ! j) = table_cell (widths ! (j - length pre)) (?es ! j)"
      using j(2) by simp
  qed
  then have "print_rows h widths ?es (length pre) = table_line widths row @ print_rows h widths ?es (length pre + h)"
    using row Cons.prems(2) row_indices(2) [OF row Cons.prems(2), of "\<lambda>j. table_cell (widths ! j)" pre "concat rows"]
    by (subst print_rows.simps) (simp add: table_line_def)
  moreover have "print_rows h widths ?es (length pre + h) = concat (map (table_line widths) rows)"
    using Cons.IH [of "pre @ row"] Cons.prems row by simp
  ultimately show ?case by simp
qed

lemma split_by_plain:
  "\<forall>x \<in> set xs. plain [c] x \<Longrightarrow> split_by (join_with c xs) [c] ret = (int (length xs), ret @ xs)"
  using tokens_join [of xs c] by (simp add: split_by_tokens)

lemma layout_rows_spec:
  assumes "\<forall>r \<in> set rows. length r = h \<and> (\<forall>x \<in> set r. plain '','' x)" "0 < i" "length content = h * (i - 1)" "length lay = h"
  shows "\<exists>lay'. layout_rows h i (map (join_with CHR '','') rows) lay content = Some (lay', content @ concat rows) \<and>
    length lay' = h \<and> (\<forall>j < h. lay ! j \<le> lay' ! j \<and> (\<forall>r \<in> set rows. length (r ! j) \<le> lay' ! j))"
  using assms
proof (induction rows arbitrary: i content lay)
  case Nil
  then show ?case by simp
next
  case (Cons row rows)
  have row: "length row = h" "\<forall>x \<in> set row. plain '','' x" using Cons.prems(1) by auto
  let ?lay = "map (\<lambda>j. max (lay ! j) (length ((content @ row) ! (h * (i - 1) + j)))) [0..<h]"
  have split: "split_by (join_with CHR '','' row) '','' content = (int h, content @ row)"
    using split_by_plain [OF row(2), of content] row(1) by simp
  have e: "(content @ row) ! (h * (i - 1) + j) = row ! j" if "j < h" for j
    using Cons.prems(3) that by (simp add: nth_append)
  have "length (content @ row) = h * (i + 1 - 1)"
    using Cons.prems(2,3) row(1) by (cases i) auto
  from Cons.IH [of "i + 1" "content @ row" ?lay] this Cons.prems(1) obtain lay' where
    lay': "layout_rows h (i + 1) (map (join_with CHR '','') rows) ?lay (content @ row) = Some (lay', (content @ row) @ concat rows)"
      "length lay' = h" "\<forall>j < h. ?lay ! j \<le> lay' ! j \<and> (\<forall>r \<in> set rows. length (r ! j) \<le> lay' ! j)" by auto
  have "lay ! j \<le> lay' ! j \<and> length (row ! j) \<le> lay' ! j" if "j < h" for j
    using lay'(3) that e [OF that] by auto
  with lay' split show ?case by auto
qed

lemma length_table_cell: "length s \<le> w \<Longrightarrow> length (table_cell w s) = w + 1"
  by (simp add: table_cell_def)

lemma length_table_line:
  assumes "length row = length widths" "\<forall>j < length row. length (row ! j) \<le> widths ! j"
  shows "length (table_line widths row) = sum_list widths + length widths + 2"
proof -
  have "map (\<lambda>j. length (table_cell (widths ! j) (row ! j))) [0..<length row] = map (\<lambda>w. w + 1) widths"
    using assms by (intro nth_equalityI) (auto simp: length_table_cell)
  then show ?thesis by (simp add: table_line_def length_concat comp_def endl_def sum_list_Suc)
qed

text \<open>The text of a list message, from the body that \<open>pickle_list\<close> makes.\<close>

lemma format_list_rows:
  assumes "header \<noteq> []" "\<forall>r \<in> set (header # rows). length r = length header \<and> (\<forall>x \<in> set r. plain '',;'' x)"
  shows "\<exists>widths. length widths = length header \<and>
    (\<forall>j < length header. \<forall>r \<in> set (header # rows). length (r ! j) + 2 \<le> widths ! j) \<and>
    format_list (terminate_with CHR '';'' (map (join_with CHR '','') (header # rows))) =
      Value (concat (map (table_line widths) (header # rows)), True)"
proof -
  let ?h = "length header" and ?es = "map (join_with CHR '','') (header # rows)"
  have p: "\<forall>r \<in> set (header # rows). length r = ?h \<and> (\<forall>x \<in> set r. plain '','' x)"
    using assms(2) plain_subset by fastforce
  have "\<forall>x \<in> set ?es. plain '';'' x"
  proof
    fix x
    assume "x \<in> set ?es"
    then obtain r where r: "r \<in> set (header # rows)" "x = join_with CHR '','' r" by auto
    moreover have "r \<noteq> []" "\<forall>x \<in> set r. plain '',;'' x" using assms r(1) by fastforce+
    ultimately show "plain '';'' x" using join_with_plain [of r "CHR '',''" "CHR '';''"] by simp
  qed
  then have es: "snd (split_by (terminate_with CHR '';'' ?es) '';'' []) = ?es"
    using tokens_terminate [of ?es "CHR '';''"] by (simp add: split_by_tokens)
  have "\<forall>x \<in> set header. plain '','' x" using p by (meson list.set_intros(1))
  then have hd: "snd (split_by (join_with CHR '','' header) '','' []) = header"
    using split_by_plain [of header "CHR '',''" "[]"] by simp
  have pr: "\<forall>r \<in> set rows. length r = ?h \<and> (\<forall>x \<in> set r. plain '','' x)" using p by (meson list.set_intros(2))
  obtain lay where lay: "layout_rows ?h 1 (map (join_with CHR '','') rows) (map length header) [] = Some (lay, concat rows)"
    "length lay = ?h" "\<forall>j < ?h. length (header ! j) \<le> lay ! j \<and> (\<forall>r \<in> set rows. length (r ! j) \<le> lay ! j)"
    using layout_rows_spec [OF pr, of 1 "[]" "map length header"] by auto
  let ?w = "map (\<lambda>w. w + 2) lay"
  have rows: "print_rows ?h ?w (concat rows) 0 = concat (map (table_line ?w) rows)"
    using print_rows_concat [of rows ?h "[]" ?w] pr assms(1) by simp
  have "format_list (terminate_with CHR '';'' ?es) = Value (concat (map (table_line ?w) (header # rows)), True)"
  proof -
    have e: "?es ! 0 = join_with CHR '','' header" "drop 1 ?es = map (join_with CHR '','') rows" "?es \<noteq> []" by simp_all
    show ?thesis unfolding format_list_def Let_def es e hd lay(1) option.case prod.case rows
      using e(3) assms(1) by (simp add: table_line_def)
  qed
  then show ?thesis using lay(2,3) by (intro exI [of _ ?w]) auto
qed

lemma pickle_list_body:
  assumes "header \<noteq> []" "\<forall>r \<in> set rows. length r = length header"
  shows "pickle_list type header (concat rows) = le32 app_head @
    frame_body type CHR ''l'' (terminate_with CHR '';'' (map (join_with CHR '','') (header # rows))) @ le32 app_terminator"
  using pickle_rows_concat [of rows "length header" "[]"] assms join_with_eq [OF assms(1), of "CHR '',''"]
  by (simp add: pickle_list_def pickle_message_layout terminate_with_def append_single)

section \<open>Direct messages\<close>

lemma take_append_le: "n \<le> length xs \<Longrightarrow> take n (xs @ ys) = take n xs"
  by simp

lemma find_str_first:
  assumes "substr s k (length n) = n" "a \<le> k" "k + length n \<le> length s" "\<forall>i. a \<le> i \<and> i < k \<longrightarrow> substr s i (length n) \<noteq> n"
  shows "find_str s n a = Some k"
  unfolding find_str_def find_Some_iff
  using assms by (intro exI [of _ "k - a"]) auto

lemma format_direct_body:
  assumes "\<forall>i < length addr. substr (addr @ ''::'') i 2 \<noteq> ''::''"
  shows "format_direct (frame_body type CHR ''d'' (''::'' @ addr @ ''::'' @ request)) =
    ''sender: '' @ addr @ endl @ ''message: '' @ c_string request 0 @ endl"
proof -
  define pre where "pre = [type_code type] @ le32 (length (''::'' @ addr @ ''::'' @ request) + 6) @ [CHR ''d''] @ ''::''"
  have len: "length pre = 8" by (simp add: pre_def)
  have s: "frame_body type CHR ''d'' (''::'' @ addr @ ''::'' @ request) = pre @ addr @ ''::'' @ request"
    by (simp add: frame_body_def pre_def)
  let ?s = "pre @ addr @ ''::'' @ request" and ?k = "8 + length addr"
  have "find_str ?s ''::'' 8 = Some ?k"
  proof (rule find_str_first)
    show "\<forall>i. 8 \<le> i \<and> i < ?k \<longrightarrow> substr ?s i (length ''::'') \<noteq> ''::''"
    proof (intro allI impI)
      fix i
      assume i: "8 \<le> i \<and> i < ?k"
      have "substr ?s i 2 = take 2 (drop (i - 8) (addr @ ''::'') @ request)" using i len by (simp add: substr_def)
      also have "\<dots> = substr (addr @ ''::'') (i - 8) 2"
        unfolding substr_def by (rule take_append_le) (use i in simp)
      finally have "substr ?s i 2 = substr (addr @ ''::'') (i - 8) 2" .
      moreover have "i - 8 < length addr" using i by linarith
      ultimately have "substr ?s i 2 \<noteq> ''::''" using assms by simp
      then show "substr ?s i (length ''::'') \<noteq> ''::''" by (simp add: numeral_2_eq_2)
    qed
  qed (use len in \<open>simp_all add: substr_def\<close>)
  with len show ?thesis unfolding s
    by (simp add: format_direct_def minimum_len_def substr_def c_string_def)
qed

section \<open>Properties\<close>

text \<open>
  Layout of every frame: the magic head, the type, the length field, the raw type, the
  content and the terminator; the length field reads back as the size of what is between head and
  terminator, and the whole is 14 bytes longer than the content.
\<close>

lemma pickle_layout:
  assumes "length request + 6 < 2 ^ 31"
  shows "pickle_message type request raw =
      le32 app_head @ [type_code type] @ le32 (length request + 6) @ [raw] @ request @ le32 app_terminator \<and>
    length (pickle_message type request raw) = length request + 14 \<and>
    read_int (drop 5 (pickle_message type request raw)) = int (length (pickle_message type request raw) - minimum_frame)"
proof -
  have l: "pickle_message type request raw =
      (le32 app_head @ [type_code type]) @ le32 (length request + 6) @ [raw] @ request @ le32 app_terminator"
    by (simp add: pickle_message_layout frame_body_def)
  have "drop 5 (pickle_message type request raw) = le32 (length request + 6) @ [raw] @ request @ le32 app_terminator"
    unfolding l by simp
  with l read_int_le32 [OF assms] show ?thesis by (simp add: minimum_frame_def)
qed

text \<open>
  C18 (roundtrip). What \<open>format_message\<close> gives back of a text message, from the bytes between head and
  terminator: the content, the name of the type, or the length in decimal, according to the request.
\<close>

theorem format_text_roundtrip:
  assumes "length request + 6 < 2 ^ 31" "raw \<noteq> CHR ''l''" "raw \<noteq> CHR ''d''"
    and "pickle_message type request raw = le32 app_head @ body @ le32 app_terminator"
  shows "\<exists>os. format_message body kGetContent = Value (os, request) \<and>
    format_message body kGetType = Value (os, type_name (type_code type)) \<and>
    format_message body kGetLength = Value (os, show_int (int (length request + 6))) \<and>
    os = ''type: '' @ type_name (type_code type) @ endl @ ''length: '' @ show_int (int (length request + 6)) @ endl @
      ''message: '' @ c_string request 0 @ endl"
proof -
  have body: "body = frame_body type raw request" using assms(4) by (simp add: pickle_message_layout)
  note parts = frame_body_parts [of type raw request]
  show ?thesis unfolding body
    using parts read_int_le32 [OF assms(1), of "[raw] @ request"] assms(2,3)
    by (simp add: format_message_def minimum_len_def Let_def c_string_def add.commute)
qed

theorem format_text_roundtrip_witness:
  "\<exists>body os. pickle_message kResponse ''myServer'' CHR ''t'' = le32 app_head @ body @ le32 app_terminator \<and>
     format_message body kGetContent = Value (os, ''myServer'')"
proof -
  have "pickle_message kResponse ''myServer'' CHR ''t'' =
    le32 app_head @ frame_body kResponse CHR ''t'' ''myServer'' @ le32 app_terminator" by (rule pickle_message_layout)
  from format_text_roundtrip [OF _ _ _ this] this show ?thesis by auto
qed

text \<open>Numbers print as decimal digits.\<close>

lemma show_nat_digits: "set (show_nat n) \<subseteq> set ''0123456789'' \<and> show_nat n \<noteq> []"
proof (induction n rule: show_nat.induct)
  case (1 n)
  have digit: "char_of (48 + d) \<in> set ''0123456789''" if "d < (10 :: nat)" for d
  proof -
    have "d \<in> {0, 1, 2, 3, 4, 5, 6, 7, 8, 9}" using that by auto
    then show ?thesis by (elim insertE emptyE) (simp_all add: char_of_def bit_simps)
  qed
  show ?case
  proof (cases "n < 10")
    case True
    then show ?thesis using digit [of n] by (subst (1 2) show_nat.simps) simp
  next
    case False
    then show ?thesis using 1 [OF False] digit [of "n mod 10"] by (subst (1 2) show_nat.simps) auto
  qed
qed

text \<open>The printed form of a list frame.\<close>

lemma format_list_table:
  assumes "header \<noteq> []" "\<forall>r \<in> set (header # rows). length r = length header \<and> (\<forall>x \<in> set r. plain '',;'' x)"
    and "pickle_list type header (concat rows) = le32 app_head @ body @ le32 app_terminator"
  shows "\<exists>os widths. format_message body kGetNothing = Value (os @ ''list: '' @ endl @ concat (map (table_line widths) (header # rows)), []) \<and>
    length widths = length header \<and> (\<forall>j < length header. \<forall>r \<in> set (header # rows). length (r ! j) + 2 \<le> widths ! j) \<and>
    (\<forall>r \<in> set (header # rows). length (table_line widths r) = sum_list widths + length widths + 2)"
proof -
  let ?c = "terminate_with CHR '';'' (map (join_with CHR '','') (header # rows))"
  have "\<forall>r \<in> set rows. length r = length header" using assms(2) by (meson list.set_intros(2))
  from pickle_list_body [OF assms(1) this, of type] assms(3) have body: "body = frame_body type CHR ''l'' ?c" by simp
  from format_list_rows [OF assms(1,2)] obtain widths where
    w: "length widths = length header" "\<forall>j < length header. \<forall>r \<in> set (header # rows). length (r ! j) + 2 \<le> widths ! j"
      "format_list ?c = Value (concat (map (table_line widths) (header # rows)), True)" by blast
  have lines: "\<forall>r \<in> set (header # rows). length (table_line widths r) = sum_list widths + length widths + 2"
    using w(1,2) assms(2) by (intro ballI length_table_line) fastforce+
  from format_message_list [OF w(3), of type] w(1,2) lines show ?thesis unfolding body by blast
qed

text \<open>
  C17 (roundtrip). A list message: from cells that are non-empty and free of the two separators, the frame
  prints as a table that holds the header and every row in order; every column is at least two wider than
  its widest cell, and all lines have the same length.
\<close>

theorem format_list_roundtrip:
  assumes "header \<noteq> []" "\<forall>r \<in> set (header # rows). length r = length header \<and> (\<forall>x \<in> set r. plain '',;'' x)"
    and "pickle_list type header (concat rows) = le32 app_head @ body @ le32 app_terminator"
  shows "\<exists>os widths. format_message body kGetNothing = Value (os @ ''list: '' @ endl @ concat (map (table_line widths) (header # rows)), []) \<and>
    length widths = length header \<and> (\<forall>j < length header. \<forall>r \<in> set (header # rows). length (r ! j) + 2 \<le> widths ! j) \<and>
    (\<forall>r \<in> set (header # rows). length (table_line widths r) = sum_list widths + length widths + 2)"
  using assms by (rule format_list_table)

theorem format_list_roundtrip_witness:
  "\<exists>body os widths. pickle_list kResponse [''id'', ''address''] (concat [[''0'', ''1.2.3.4:80'']]) = le32 app_head @ body @ le32 app_terminator \<and>
     format_message body kGetNothing =
       Value (os @ ''list: '' @ endl @ concat (map (table_line widths) [[''id'', ''address''], [''0'', ''1.2.3.4:80'']]), [])"
proof -
  have h: "[''id'', ''address''] \<noteq> []"
    "\<forall>r \<in> set [[''id'', ''address''], [''0'', ''1.2.3.4:80'']]. length r = length [''id'', ''address''] \<and> (\<forall>x \<in> set r. plain '',;'' x)"
    by (auto simp: plain_def)
  have "\<exists>body. pickle_list kResponse [''id'', ''address''] (concat [[''0'', ''1.2.3.4:80'']]) = le32 app_head @ body @ le32 app_terminator"
    using pickle_list_body [OF h(1), of "[[''0'', ''1.2.3.4:80'']]" kResponse] by auto
  then obtain body where
    b: "pickle_list kResponse [''id'', ''address''] (concat [[''0'', ''1.2.3.4:80'']]) = le32 app_head @ body @ le32 app_terminator" ..
  from format_list_roundtrip [OF h b] b show ?thesis by blast
qed

text \<open>
  A direct message prints its sender's address and its text, for an address in which the
  closing separator does not occur early.
\<close>

lemma format_direct_roundtrip:
  assumes "\<forall>i < length addr. substr (addr @ ''::'') i 2 \<noteq> ''::''"
    and "pickle_direct type addr request = le32 app_head @ body @ le32 app_terminator"
  shows "\<exists>os. format_message body kGetNothing =
    Value (os @ ''sender: '' @ addr @ endl @ ''message: '' @ c_string request 0 @ endl, [])"
proof -
  let ?c = "''::'' @ addr @ ''::'' @ request"
  have body: "body = frame_body type CHR ''d'' ?c"
    using assms(2) by (simp add: pickle_direct_def pickle_message_layout)
  show ?thesis unfolding body format_message_direct format_direct_body [OF assms(1)] by blast
qed

text \<open>
  \<open>format_message\<close> reports a package that is too short and then reads it all the same: every
  package shorter than \<open>minimum_len\<close> is read past its end. A list message without a header indexes an empty
  vector.
\<close>

lemma format_short_undefined:
  assumes "length s < minimum_len"
  shows "format_message s get = Undefined \<and> format_message (frame_body type CHR ''l'' '';'') get = Undefined"
proof -
  have "tokens (\<lambda>x. x \<in> set '';'') '';'' = []" by (simp add: tokens_sep tokens.simps [of _ "[]"])
  then have "format_list '';'' = Undefined" by (simp add: format_list_def split_by_tokens)
  then show ?thesis using assms frame_body_parts [of type "CHR ''l''" "'';''"]
    by (simp add: format_message_def minimum_len_def Let_def)
qed

end
