(* ===== verification/Socket.thy ===== *)
theory Socket
  imports Protocol
begin

text \<open>
  \<open>Client\<close> and \<open>Server\<close> of \<open>socket.h\<close>. The functions of the operating system are a record of functions on the
  state \<open>'w\<close> of the network, an argument of every definition that calls them; what the properties rely on
  of them are the named hypotheses \<open>tracks_handles\<close>, \<open>binds_quietly\<close> and \<open>keeps_rows\<close>. Messages written to the log are left
  out. The state of a server is shared by its accepting threads and one thread per connection, and is
  changed one step of one thread at a time.
\<close>

section \<open>The functions of the operating system\<close>

type_synonym SOCKET = int

definition INVALID_SOCKET :: SOCKET where "INVALID_SOCKET = -1"

definition SOCKET_ERROR :: int where "SOCKET_ERROR = -1"

text \<open>
  \<open>getaddrinfo\<close> gives its result and the list of addresses, \<open>recv\<close> its result and the bytes it put into the
  buffer (it is told whether it got one and the length), \<open>getpeername\<close> and \<open>getsockname\<close> their result with the printed address and the port.
  \<open>recv\<close> and \<open>accept\<close> are \<open>None\<close> in a state of the network in which they block.
\<close>

record 'w winsock =
  ws_startup :: "nat \<Rightarrow> 'w \<Rightarrow> int \<times> 'w"
  ws_cleanup :: "'w \<Rightarrow> 'w"
  ws_getaddrinfo :: "string \<Rightarrow> string \<Rightarrow> 'w \<Rightarrow> (int \<times> nat list) \<times> 'w"
  ws_socket :: "nat \<Rightarrow> 'w \<Rightarrow> SOCKET \<times> 'w"
  ws_connect :: "SOCKET \<Rightarrow> nat \<Rightarrow> 'w \<Rightarrow> int \<times> 'w"
  ws_bind :: "SOCKET \<Rightarrow> nat \<Rightarrow> 'w \<Rightarrow> int \<times> 'w"
  ws_listen :: "SOCKET \<Rightarrow> 'w \<Rightarrow> int \<times> 'w"
  ws_accept :: "SOCKET \<Rightarrow> 'w \<Rightarrow> (SOCKET \<times> 'w) option"
  ws_shutdown :: "SOCKET \<Rightarrow> 'w \<Rightarrow> int \<times> 'w"
  ws_closesocket :: "SOCKET \<Rightarrow> 'w \<Rightarrow> 'w"
  ws_send :: "SOCKET \<Rightarrow> string \<Rightarrow> 'w \<Rightarrow> int \<times> 'w"
  ws_recv :: "SOCKET \<Rightarrow> bool \<Rightarrow> nat \<Rightarrow> 'w \<Rightarrow> ((int \<times> string) \<times> 'w) option"
  ws_getpeername :: "SOCKET \<Rightarrow> 'w \<Rightarrow> (int \<times> string \<times> nat) \<times> 'w"
  ws_getsockname :: "SOCKET \<Rightarrow> 'w \<Rightarrow> (int \<times> string \<times> nat) \<times> 'w"

section \<open>Start-up\<close>

text \<open>
  \<open>WSAProof\<close>. Its only object has static storage: before its constructor has run, its bytes are zero (\<open>wsa_static\<close>).
\<close>

record wsa_proof =
  startup_result :: int

definition wsa_static :: wsa_proof where "wsa_static = \<lparr>startup_result = 0\<rparr>"

definition MAKEWORD :: "nat \<Rightarrow> nat \<Rightarrow> nat" where
  "MAKEWORD lo hi = lo mod 2 ^ 8 + 2 ^ 8 * (hi mod 2 ^ 8)"

definition WSAProof_new :: "'w winsock \<Rightarrow> 'w \<Rightarrow> wsa_proof \<times> 'w" where
  "WSAProof_new net w = (case ws_startup net (MAKEWORD 2 2) w of (r, w) \<Rightarrow> (\<lparr>startup_result = r\<rparr>, w))"

definition WSAProof_destroy :: "'w winsock \<Rightarrow> 'w \<Rightarrow> 'w" where
  "WSAProof_destroy net w = ws_cleanup net w"

definition wsa_Ok :: "wsa_proof \<Rightarrow> bool" where
  "wsa_Ok wsa \<longleftrightarrow> startup_result wsa = 0"

section \<open>Client\<close>

text \<open>\<open>cl_buffer\<close> is whether the object still owns its receive buffer.\<close>

record client =
  cl_close :: bool
  cl_socket :: SOCKET
  cl_buffer :: bool
  cl_buffer_len :: nat

definition cl_new :: "nat \<Rightarrow> client" where
  "cl_new bufflen = \<lparr>cl_close = False, cl_socket = INVALID_SOCKET, cl_buffer = True, cl_buffer_len = bufflen\<rparr>"

text \<open>The move constructor gives the new object and what is left of the old one.\<close>

definition cl_move :: "client \<Rightarrow> client \<times> client" where
  "cl_move rhs = (rhs, rhs\<lparr>cl_buffer := False\<rparr>)"

definition cl_copy :: "client \<Rightarrow> client" where
  "cl_copy rhs = rhs\<lparr>cl_buffer := True\<rparr>"

definition cl_is_closed :: "client \<Rightarrow> bool" where
  "cl_is_closed c \<longleftrightarrow> cl_close c \<and> cl_socket c = INVALID_SOCKET"

primrec connect_loop :: "'w winsock \<Rightarrow> nat list \<Rightarrow> SOCKET \<Rightarrow> 'w \<Rightarrow> SOCKET \<times> 'w" where
  "connect_loop net [] sock w = (sock, w)"
| "connect_loop net (ptr # rest) sock w =
     (let (sock, w) = ws_socket net ptr w; (iResult, w) = ws_connect net sock ptr w
      in if iResult = SOCKET_ERROR then connect_loop net rest INVALID_SOCKET (ws_closesocket net sock w)
         else (sock, w))"

definition cl_Connect :: "'w winsock \<Rightarrow> string \<Rightarrow> string \<Rightarrow> client \<times> 'w \<Rightarrow> bool \<times> client \<times> 'w" where
  "cl_Connect net ip port s = (case s of (c, w) \<Rightarrow>
     if cl_socket c \<noteq> INVALID_SOCKET then (False, c, w)
     else
       let ((iResult, addrs), w) = ws_getaddrinfo net ip port w
       in if iResult \<noteq> 0 then (False, c, w)
          else if addrs = [] then (False, c, w)
          else
            let (sock, w) = connect_loop net addrs (cl_socket c) w
            in (sock \<noteq> INVALID_SOCKET, c\<lparr>cl_socket := sock\<rparr>, w))"

definition cl_Close :: "'w winsock \<Rightarrow> client \<times> 'w \<Rightarrow> client \<times> 'w" where
  "cl_Close net s = (case s of (c, w) \<Rightarrow>
     if cl_socket c = INVALID_SOCKET then (c, w)
     else
       let (iResult, w) = ws_shutdown net (cl_socket c) w;
           w = (if iResult = SOCKET_ERROR then ws_closesocket net (cl_socket c) w else w)
       in (c\<lparr>cl_socket := INVALID_SOCKET\<rparr>, w))"

definition cl_Send :: "'w winsock \<Rightarrow> string \<Rightarrow> client \<times> 'w \<Rightarrow> bool \<times> client \<times> 'w" where
  "cl_Send net message s = (case s of (c, w) \<Rightarrow>
     if cl_socket c = INVALID_SOCKET then (False, c, w)
     else let (iResult, w) = ws_send net (cl_socket c) message w in (iResult \<noteq> SOCKET_ERROR, c, w))"

text \<open>\<open>None\<close> while the call blocks.\<close>

definition cl_Receive :: "'w winsock \<Rightarrow> client \<times> 'w \<Rightarrow> (string \<times> client \<times> 'w) option" where
  "cl_Receive net s = (case s of (c, w) \<Rightarrow>
     if cl_socket c = INVALID_SOCKET then Some ([], c, w)
     else case ws_recv net (cl_socket c) (cl_buffer c) (cl_buffer_len c) w of
         None \<Rightarrow> None
       | Some ((iResult, bytes), w) \<Rightarrow> Some
           (if iResult = 0 then ([], c\<lparr>cl_socket := INVALID_SOCKET\<rparr>, w)
            else if iResult < 0 then ([], c\<lparr>cl_socket := INVALID_SOCKET\<rparr>, w)
            else (take (nat iResult) bytes, c, w)))"

section \<open>Server\<close>

record client_info =
  ci_handle :: SOCKET
  ci_addr :: string
  ci_status :: bool

definition ci_toString :: "int \<Rightarrow> client_info \<Rightarrow> string" where
  "ci_toString cid ci = ''{'' @ ''id:'' @ show_int cid @ '', address:'' @ ci_addr ci @
     '', status:'' @ (if ci_status ci then ''on'' else ''off'') @ ''}''"

record server =
  sv_database :: "client_info list"
  sv_name :: string
  sv_close :: bool
  sv_delegated :: "SOCKET list"

definition sv_new :: "string \<Rightarrow> server" where
  "sv_new n = \<lparr>sv_database = [], sv_name = n, sv_close = False, sv_delegated = []\<rparr>"

primrec output_rows :: "nat \<Rightarrow> client_info list \<Rightarrow> string list" where
  "output_rows cid [] = []"
| "output_rows cid (c # cs) =
     [show_int (int cid), ci_addr c, if ci_status c then ''on'' else ''off''] @ output_rows (Suc cid) cs"

definition sv_OutputDatabase :: "string list \<Rightarrow> string list \<Rightarrow> server \<Rightarrow> string list \<times> string list" where
  "sv_OutputDatabase header entries sv =
     (header @ [''id'', ''address'', ''status''], entries @ output_rows 0 (sv_database sv))"

definition sv_Close :: "'w winsock \<Rightarrow> server \<times> 'w \<Rightarrow> server \<times> 'w" where
  "sv_Close net s = (case s of (sv, w) \<Rightarrow> (sv\<lparr>sv_close := True\<rparr>, fold (ws_closesocket net) (sv_delegated sv) w))"

definition sv_GetClient :: "int \<Rightarrow> server \<Rightarrow> SOCKET" where
  "sv_GetClient cid sv = (if cid < 0 \<or> cid \<ge> int (length (sv_database sv)) then INVALID_SOCKET
     else ci_handle (sv_database sv ! nat cid))"

definition sv_GetAddr :: "int \<Rightarrow> server \<Rightarrow> string" where
  "sv_GetAddr cid sv = (if cid < 0 \<or> cid \<ge> int (length (sv_database sv)) then []
     else ci_addr (sv_database sv ! nat cid))"

definition sv_CloseClient :: "'w winsock \<Rightarrow> int \<Rightarrow> server \<times> 'w \<Rightarrow> server \<times> 'w" where
  "sv_CloseClient net cid s = (case s of (sv, w) \<Rightarrow>
     if cid < 0 \<or> cid \<ge> int (length (sv_database sv)) then (sv, w)
     else (sv\<lparr>sv_database := (sv_database sv)[nat cid := (sv_database sv ! nat cid)\<lparr>ci_status := False\<rparr>]\<rparr>,
           ws_closesocket net (ci_handle (sv_database sv ! nat cid)) w))"

definition sv_Send :: "'w winsock \<Rightarrow> SOCKET \<Rightarrow> string \<Rightarrow> 'w \<Rightarrow> bool \<times> 'w" where
  "sv_Send net target message w = (if message = [] then (True, w)
     else let (iSendResult, w) = ws_send net target message w in (iSendResult \<noteq> SOCKET_ERROR, w))"

definition sv_GetPeerAddr :: "'w winsock \<Rightarrow> SOCKET \<Rightarrow> 'w \<Rightarrow> string \<times> 'w" where
  "sv_GetPeerAddr net sock w = (let ((ret, ip, port), w) = ws_getpeername net sock w
     in (if ret \<noteq> 0 then [] else ip @ '':'' @ show_int (int port), w))"

definition sv_GetSocketAddr :: "'w winsock \<Rightarrow> SOCKET \<Rightarrow> 'w \<Rightarrow> string \<times> 'w" where
  "sv_GetSocketAddr net sock w = (let ((ret, ip, port), w) = ws_getsockname net sock w
     in (if ret \<noteq> 0 then [] else ip @ '':'' @ show_int (int port), w))"

text \<open>\<open>NewSocket\<close>; a successful look-up with an empty list is dereferenced.\<close>

definition sv_NewSocket :: "'w winsock \<Rightarrow> wsa_proof \<Rightarrow> string \<Rightarrow> string \<Rightarrow> 'w \<Rightarrow> (SOCKET \<times> 'w) outcome" where
  "sv_NewSocket net wsa addr port w =
     (if \<not> wsa_Ok wsa then Value (INVALID_SOCKET, w)
      else
        let ((iResult, addrs), w) = ws_getaddrinfo net addr port w
        in if iResult \<noteq> 0 then Value (INVALID_SOCKET, w)
           else obind (vec_get addrs 0) (\<lambda>a.
             let (ret, w) = ws_socket net a w; (iResult, w) = ws_bind net ret a w
             in Value (if iResult = SOCKET_ERROR then INVALID_SOCKET else ret, w)))"

text \<open>The overload with the default port. \<open>kDefaultPort\<close> is declared but defined nowhere, so it is an argument.\<close>

definition sv_NewSocket_at :: "string \<Rightarrow> 'w winsock \<Rightarrow> wsa_proof \<Rightarrow> string \<Rightarrow> 'w \<Rightarrow> (SOCKET \<times> 'w) outcome" where
  "sv_NewSocket_at kDefaultPort net wsa addr w = sv_NewSocket net wsa addr kDefaultPort w"

section \<open>The thread of one connection\<close>

text \<open>
  Where the thread stands: it waits for a message, answers it, sends the answers one by one, tests whether to go on, and in the end closes the
  client and returns. \<open>response\<close> and \<open>should_close\<close> are arguments of \<open>Serve\<close>; both may look at the server, and a call of either is one step.
\<close>

type_synonym 'w response = "SOCKET \<Rightarrow> string \<Rightarrow> server \<times> 'w \<Rightarrow> string list \<times> server \<times> 'w"

definition kDefaultBufferLen :: nat where "kDefaultBufferLen = 512"

datatype conn_pc = Cn_recv | Cn_response string | Cn_send "string list" | Cn_test | Cn_close bool | Cn_done bool

text \<open>One step of the thread, \<open>None\<close> while it is blocked in \<open>recv\<close> and after its end.\<close>

fun conn_next :: "'w winsock \<Rightarrow> 'w response \<Rightarrow> (server \<times> 'w \<Rightarrow> bool) \<Rightarrow> SOCKET \<Rightarrow> int \<Rightarrow> conn_pc \<Rightarrow>
    server \<times> 'w \<Rightarrow> (conn_pc \<times> server \<times> 'w) option" where
  "conn_next net response should_close c cid Cn_recv (sv, w) = (case ws_recv net c True kDefaultBufferLen w of
       None \<Rightarrow> None
     | Some ((iResult, bytes), w) \<Rightarrow>
         Some (if iResult > 0 then Cn_response (take (nat iResult) bytes) else if iResult = 0 then Cn_close True else Cn_close False, sv, w))"
| "conn_next net response should_close c cid (Cn_response x) (sv, w) = (case response c x (sv, w) of (resps, s) \<Rightarrow> Some (Cn_send resps, s))"
| "conn_next net response should_close c cid (Cn_send []) (sv, w) = Some (Cn_test, sv, w)"
| "conn_next net response should_close c cid (Cn_send (r # rs)) (sv, w) = (case sv_Send net c r w of
     (ok, w) \<Rightarrow> Some (if ok then Cn_send rs else Cn_close False, sv, w))"
| "conn_next net response should_close c cid Cn_test (sv, w) = Some (if should_close (sv, w) then Cn_close True else Cn_recv, sv, w)"
| "conn_next net response should_close c cid (Cn_close r) (sv, w) = Some (Cn_done r, sv_CloseClient net cid (sv, w))"
| "conn_next net response should_close c cid (Cn_done r) (sv, w) = None"

section \<open>Serve: accepting threads and connections\<close>

text \<open>
  Where a call of \<open>Serve\<close> stands: the client is accepted, entered into the database under the lock, and the
  size of the database is read after the lock was released.
\<close>

datatype serve_pc = Sv_listen | Sv_accept | Sv_push SOCKET | Sv_size SOCKET | Sv_test | Sv_join | Sv_done bool

record connection =
  cn_socket :: SOCKET
  cn_id :: int
  cn_owner :: nat
  cn_pc :: conn_pc

definition cn_result :: "connection \<Rightarrow> bool option" where
  "cn_result cn = (case cn_pc cn of Cn_done r \<Rightarrow> Some r | _ \<Rightarrow> None)"

record 'w serving =
  sg_server :: server
  sg_world :: 'w
  sg_calls :: "(SOCKET \<times> serve_pc) list"
  sg_conns :: "connection list"

text \<open>\<open>Serve(server, response)\<close> enters the socket into the list that \<open>Close\<close> closes; its test is the flag.\<close>

definition sv_Serve :: "SOCKET \<Rightarrow> 'w serving \<Rightarrow> 'w serving" where
  "sv_Serve sock g = g\<lparr>sg_server := (sg_server g)\<lparr>sv_delegated := sv_delegated (sg_server g) @ [sock]\<rparr>,
     sg_calls := sg_calls g @ [(sock, Sv_listen)]\<rparr>"

definition close_flag :: "server \<times> 'w \<Rightarrow> bool" where
  "close_flag s = sv_close (fst s)"

definition serve_next :: "'w winsock \<Rightarrow> (server \<times> 'w \<Rightarrow> bool) \<Rightarrow> nat \<Rightarrow> SOCKET \<Rightarrow> serve_pc \<Rightarrow> 'w serving \<Rightarrow>
    (serve_pc \<times> 'w serving) option" where
  "serve_next net should_close i sock pc g = (case pc of
     Sv_listen \<Rightarrow> (let (r, w) = ws_listen net sock (sg_world g) in
       if r = SOCKET_ERROR then Some (Sv_done False, g\<lparr>sg_world := ws_closesocket net sock w\<rparr>)
       else Some (Sv_accept, g\<lparr>sg_world := w\<rparr>))
   | Sv_accept \<Rightarrow> (case ws_accept net sock (sg_world g) of
       None \<Rightarrow> None
     | Some (c, w) \<Rightarrow> Some (if c = INVALID_SOCKET then Sv_join else Sv_push c, g\<lparr>sg_world := w\<rparr>))
   | Sv_push c \<Rightarrow> (let (addr, w) = sv_GetPeerAddr net c (sg_world g); sv = sg_server g in
       Some (Sv_size c, g\<lparr>sg_world := w,
         sg_server := sv\<lparr>sv_database := sv_database sv @ [\<lparr>ci_handle = c, ci_addr = addr, ci_status = True\<rparr>]\<rparr>\<rparr>))
   | Sv_size c \<Rightarrow> Some (Sv_test, g\<lparr>sg_conns := sg_conns g @
       [\<lparr>cn_socket = c, cn_id = int (length (sv_database (sg_server g))) - 1, cn_owner = i, cn_pc = Cn_recv\<rparr>]\<rparr>)
   | Sv_test \<Rightarrow> Some (if should_close (sg_server g, sg_world g) then Sv_join else Sv_accept, g)
   | Sv_join \<Rightarrow> if \<forall>cn \<in> set (sg_conns g). cn_owner cn = i \<longrightarrow> cn_result cn \<noteq> None
       then Some (Sv_done True, g\<lparr>sg_world := ws_closesocket net sock (sg_world g)\<rparr>) else None
   | Sv_done _ \<Rightarrow> None)"

datatype serve_event = Ev_call nat | Ev_conn nat | Ev_close_server

definition serve_step :: "'w winsock \<Rightarrow> 'w response \<Rightarrow> (server \<times> 'w \<Rightarrow> bool) \<Rightarrow> serve_event \<Rightarrow> 'w serving \<Rightarrow> 'w serving option" where
  "serve_step net response should_close ev g = (case ev of
     Ev_call i \<Rightarrow> if i < length (sg_calls g) then
         (case sg_calls g ! i of (sock, pc) \<Rightarrow>
            map_option (\<lambda>(pc, g). g\<lparr>sg_calls := (sg_calls g)[i := (sock, pc)]\<rparr>) (serve_next net should_close i sock pc g))
       else None
   | Ev_conn j \<Rightarrow> if j < length (sg_conns g) then
         (case conn_next net response should_close (cn_socket (sg_conns g ! j)) (cn_id (sg_conns g ! j)) (cn_pc (sg_conns g ! j))
             (sg_server g, sg_world g) of
            None \<Rightarrow> None
          | Some (pc, sv, w) \<Rightarrow> Some (g\<lparr>sg_server := sv, sg_world := w, sg_conns := (sg_conns g)[j := (sg_conns g ! j)\<lparr>cn_pc := pc\<rparr>]\<rparr>))
       else None
   | Ev_close_server \<Rightarrow> (case sv_Close net (sg_server g, sg_world g) of
       (sv, w) \<Rightarrow> Some (g\<lparr>sg_server := sv, sg_world := w\<rparr>)))"

fun serve_exec :: "'w winsock \<Rightarrow> 'w response \<Rightarrow> (server \<times> 'w \<Rightarrow> bool) \<Rightarrow> serve_event list \<Rightarrow> 'w serving \<Rightarrow> 'w serving option" where
  "serve_exec net response should_close [] g = Some g"
| "serve_exec net response should_close (ev # evs) g = (case serve_step net response should_close ev g of
     None \<Rightarrow> None | Some g \<Rightarrow> serve_exec net response should_close evs g)"

end
