(* ===== verification/Socket_Props.thy ===== *)
theory Socket_Props
  imports Socket
begin

text \<open>
  Lemmas and properties of the sockets: which handles a client leaves open, the rows of the database under
  any interleaving of the server's threads, the end of a connection, and the list that a server sends.
\<close>

section \<open>What is assumed of the operating system and of the response function\<close>

text \<open>The set of open handles: \<open>socket\<close> gives a fresh one or fails, \<open>closesocket\<close> removes one.\<close>

definition tracks_handles :: "'w winsock \<Rightarrow> ('w \<Rightarrow> SOCKET set) \<Rightarrow> bool" where
  "tracks_handles net opens \<longleftrightarrow>
     (\<forall>a w. case ws_socket net a w of (s, w') \<Rightarrow>
        if s = INVALID_SOCKET then opens w' = opens w else s \<notin> opens w \<and> opens w' = insert s (opens w)) \<and>
     (\<forall>s w. opens (ws_closesocket net s w) = opens w - {s}) \<and>
     (\<forall>ip port w. opens (snd (ws_getaddrinfo net ip port w)) = opens w) \<and>
     (\<forall>s a w. opens (snd (ws_connect net s a w)) = opens w) \<and>
     (\<forall>a w. fst (ws_connect net INVALID_SOCKET a w) = SOCKET_ERROR) \<and>
     (\<forall>s w. opens (snd (ws_shutdown net s w)) = opens w) \<and>
     (\<forall>s m w. opens (snd (ws_send net s m w)) = opens w) \<and>
     (\<forall>s b n w x w'. ws_recv net s b n w = Some (x, w') \<longrightarrow> opens w' = opens w) \<and>
     (\<forall>w. INVALID_SOCKET \<notin> opens w)"


text \<open>The response function does not change the database, like the one of the demo server.\<close>

definition keeps_rows :: "'w response \<Rightarrow> bool" where
  "keeps_rows response \<longleftrightarrow> (\<forall>c x s. sv_database (fst (snd (response c x s))) = sv_database (fst s))"

section \<open>Client\<close>

lemma tracks_socket:
  assumes "tracks_handles net opens" "ws_socket net a w = (s, w')"
  shows "if s = INVALID_SOCKET then opens w' = opens w else s \<notin> opens w \<and> opens w' = insert s (opens w)"
  using spec [OF spec [OF conjunct1 [OF assms(1) [unfolded tracks_handles_def]]], of w a] assms(2) by simp

lemma tracks_snd:
  assumes "tracks_handles net opens"
  shows "opens (ws_closesocket net s w) = opens w - {s}" "INVALID_SOCKET \<notin> opens w"
    "opens (snd (ws_getaddrinfo net ip port w)) = opens w" "opens (snd (ws_connect net s a w)) = opens w"
    "fst (ws_connect net INVALID_SOCKET a w) = SOCKET_ERROR" "opens (snd (ws_shutdown net s w)) = opens w"
    "opens (snd (ws_send net s m w)) = opens w" "ws_recv net s b n w = Some (x, w') \<Longrightarrow> opens w' = opens w"
  using conjunct2 [OF assms [unfolded tracks_handles_def]] by (simp_all, cases x, blast)

lemma tracks_others:
  assumes "tracks_handles net opens"
  shows "opens (ws_closesocket net s w) = opens w - {s}" "INVALID_SOCKET \<notin> opens w"
    "ws_getaddrinfo net ip port w = (x1, w') \<Longrightarrow> opens w' = opens w" "ws_connect net s a w = (x2, w') \<Longrightarrow> opens w' = opens w"
    "ws_connect net INVALID_SOCKET a w = (x2, w') \<Longrightarrow> x2 = SOCKET_ERROR" "ws_shutdown net s w = (x3, w') \<Longrightarrow> opens w' = opens w"
    "ws_send net s m w = (x4, w') \<Longrightarrow> opens w' = opens w" "ws_recv net s b n w = Some (x5, w') \<Longrightarrow> opens w' = opens w"
  using tracks_snd(1,2) [OF assms] tracks_snd(3) [OF assms, of ip port w] tracks_snd(4) [OF assms, of s a w]
    tracks_snd(5) [OF assms, of a w] tracks_snd(6) [OF assms, of s w] tracks_snd(7) [OF assms, of s m w]
    tracks_snd(8) [OF assms, of s b n w x5 w'] by auto

lemma connect_loop_handles:
  assumes "tracks_handles net opens" "connect_loop net addrs INVALID_SOCKET w = (s, w')"
  shows "if s = INVALID_SOCKET then opens w' = opens w else s \<notin> opens w \<and> opens w' = insert s (opens w)"
  using assms(2)
proof (induction addrs arbitrary: w)
  case (Cons a as)
  obtain s1 w1 where s1: "ws_socket net a w = (s1, w1)" by fastforce
  obtain r w2 where w2: "ws_connect net s1 a w1 = (r, w2)" by fastforce
  note o = tracks_socket [OF assms(1) s1] tracks_others(4,5) [OF assms(1)] tracks_others(1,2) [OF assms(1)]
  have o5: "r = SOCKET_ERROR" if "s1 = INVALID_SOCKET" using o(3) w2 that by blast
  have o2: "opens w2 = opens w1" using o(2) w2 by blast
  show ?case
  proof (cases "r = SOCKET_ERROR")
    case True
    have "opens (ws_closesocket net s1 w2) = opens w" using o(1,4,5) o2 by (auto split: if_splits)
    moreover have "connect_loop net as INVALID_SOCKET (ws_closesocket net s1 w2) = (s, w')" using Cons.prems True s1 w2 by simp
    ultimately show ?thesis using Cons.IH [of "ws_closesocket net s1 w2"] by (simp split: if_splits)
  next
    case False
    with Cons.prems s1 w2 have "s = s1" "w' = w2" by auto
    with False o(1) o2 o5 show ?thesis by auto
  qed
qed simp

lemma connect_handles:
  assumes "tracks_handles net opens" "cl_socket c = INVALID_SOCKET" "cl_Connect net ip port (c, w) = (ok, c', w')"
  shows "(if ok then cl_socket c' \<notin> opens w \<and> cl_socket c' \<noteq> INVALID_SOCKET \<and> opens w' = insert (cl_socket c') (opens w)
    else cl_socket c' = INVALID_SOCKET \<and> opens w' = opens w) \<and> cl_close c' = cl_close c"
proof -
  obtain r addrs w1 where w1: "ws_getaddrinfo net ip port w = ((r, addrs), w1)" by (metis surj_pair)
  have o1: "opens w1 = opens w" using tracks_others(3) [OF assms(1) w1] .
  obtain s w2 where s: "connect_loop net addrs INVALID_SOCKET w1 = (s, w2)" by fastforce
  from connect_loop_handles [OF assms(1) s] o1 w1 s assms(2,3) show ?thesis
    by (auto simp: cl_Connect_def split: if_splits)
qed

datatype client_op = Op_Connect string string | Op_Close | Op_Send string | Op_Receive

text \<open>A run of calls on one client, with the number of successful connections; a call that blocks ends it.\<close>

fun cl_exec :: "'w winsock \<Rightarrow> client_op list \<Rightarrow> client \<times> 'w \<Rightarrow> nat \<times> client \<times> 'w" where
  "cl_exec net [] s = (0, s)"
| "cl_exec net (op # ops) s = (case op of
     Op_Connect ip port \<Rightarrow> (case cl_Connect net ip port s of (ok, s) \<Rightarrow>
       (case cl_exec net ops s of (n, s) \<Rightarrow> (if ok then Suc n else n, s)))
   | Op_Close \<Rightarrow> cl_exec net ops (cl_Close net s)
   | Op_Send m \<Rightarrow> cl_exec net ops (snd (cl_Send net m s))
   | Op_Receive \<Rightarrow> (case cl_Receive net s of None \<Rightarrow> (0, s) | Some (_, s) \<Rightarrow> cl_exec net ops s))"

lemma Receive_result:
  assumes "cl_Receive net s = Some (x, s')"
  shows "cl_close (fst s') = cl_close (fst s) \<and> (snd s' = snd s \<or> (\<exists>k b n y. ws_recv net k b n (snd s) = Some (y, snd s')))"
proof (cases "cl_socket (fst s) = INVALID_SOCKET")
  case False
  obtain c w where s: "s = (c, w)" by fastforce
  with assms False obtain r bytes w' where r: "ws_recv net (cl_socket c) (cl_buffer c) (cl_buffer_len c) w = Some ((r, bytes), w')"
    by (auto simp: cl_Receive_def split: option.split_asm)
  with assms s False show ?thesis by (auto simp: cl_Receive_def split: if_split_asm)
qed (use assms in \<open>auto simp: cl_Receive_def split: prod.splits\<close>)

lemma quiet_ops_handles:
  assumes "tracks_handles net opens" "\<forall>s w. fst (ws_shutdown net s w) \<noteq> SOCKET_ERROR"
  shows "opens (snd (cl_Close net s)) = opens (snd s)" "opens (snd (snd (cl_Send net m s))) = opens (snd s)"
  using assms(2) tracks_others(6,7) [OF assms(1)]
  by (auto simp: cl_Close_def cl_Send_def split: prod.splits if_splits) (metis fst_conv)+

lemma Receive_handles:
  assumes "tracks_handles net opens" "cl_Receive net s = Some (x, s')" shows "opens (snd s') = opens (snd s)"
  using Receive_result [OF assms(2)] tracks_others(8) [OF assms(1)] by metis

lemma quiet_ops_close:
  "cl_close (fst (cl_Close net s)) = cl_close (fst s)" "cl_close (fst (snd (cl_Send net m s))) = cl_close (fst s)"
  "cl_close (fst (snd (cl_Connect net ip port s))) = cl_close (fst s)"
  by (auto simp: cl_Close_def cl_Send_def cl_Connect_def split: prod.splits)

lemma connect_refused: "cl_socket (fst s) \<noteq> INVALID_SOCKET \<Longrightarrow> cl_Connect net ip port s = (False, s)"
  by (auto simp: cl_Connect_def split: prod.splits)

lemma cl_exec_handles:
  assumes "tracks_handles net opens" "\<forall>s w. fst (ws_shutdown net s w) \<noteq> SOCKET_ERROR" "finite (opens (snd s))"
  shows "case cl_exec net ops s of (n, c', w') \<Rightarrow> opens (snd s) \<subseteq> opens w' \<and> finite (opens w') \<and>
    card (opens w') = card (opens (snd s)) + n \<and> cl_close c' = cl_close (fst s)"
  using assms(3)
proof (induction ops arbitrary: s)
  case (Cons op ops)
  note q = quiet_ops_handles [OF assms(1,2)] quiet_ops_close
  show ?case
  proof (cases op)
    case (Op_Connect ip port)
    obtain ok c1 w1 where c1: "cl_Connect net ip port s = (ok, c1, w1)" by (metis surj_pair)
    have h: "if ok then opens w1 = insert (cl_socket c1) (opens (snd s)) \<and> cl_socket c1 \<notin> opens (snd s) else opens w1 = opens (snd s)"
      using connect_handles [OF assms(1), of "fst s" ip port "snd s" ok c1 w1] connect_refused [of s net ip port] c1
      by (cases "cl_socket (fst s) = INVALID_SOCKET") (auto split: if_splits)
    have "cl_close c1 = cl_close (fst s)" using q(5) [of net ip port s] c1 by simp
    moreover have "finite (opens w1)" using h Cons.prems by (auto split: if_splits)
    ultimately show ?thesis using Cons.IH [of "(c1, w1)"] h Op_Connect c1 Cons.prems
      by (auto split: prod.splits if_splits)
  next
    case Op_Close
    then show ?thesis using Cons.IH [of "cl_Close net s"] Cons.prems by (simp add: q)
  next
    case (Op_Send m)
    then show ?thesis using Cons.IH [of "snd (cl_Send net m s)"] Cons.prems by (simp add: q)
  next
    case Op_Receive
    show ?thesis
    proof (cases "cl_Receive net s")
      case (Some xs)
      then obtain x s' where s': "cl_Receive net s = Some (x, s')" by (cases xs) auto
      then show ?thesis using Cons.IH [of s'] Cons.prems Op_Receive by (simp add: Receive_handles [OF assms(1) s'] conjunct1 [OF Receive_result [OF s']])
    qed (use Op_Receive Cons.prems in \<open>auto split: prod.splits\<close>)
  qed
qed (auto split: prod.splits)

section \<open>The database under the threads of the server\<close>

text \<open>A closed row, and what a turn of a connection does to the database.\<close>

definition row_off :: "client_info \<Rightarrow> client_info" where
  "row_off ci = ci\<lparr>ci_status := False\<rparr>"

lemma row_off_simps [simp]: "ci_handle (row_off ci) = ci_handle ci" "ci_addr (row_off ci) = ci_addr ci" "\<not> ci_status (row_off ci)"
  by (simp_all add: row_off_def)

lemma row_off_twice: "row_off (row_off ci) = row_off ci"
  by (simp add: row_off_def)

lemma CloseClient_rows: "sv_database (fst (sv_CloseClient net cid s)) =
    (if 0 \<le> cid \<and> cid < int (length (sv_database (fst s)))
     then (sv_database (fst s))[nat cid := row_off (sv_database (fst s) ! nat cid)] else sv_database (fst s))"
  by (auto simp: sv_CloseClient_def row_off_def split: prod.splits)

lemma conn_next_rows:
  assumes "keeps_rows response" "conn_next net response should_close c cid pc s = Some (pc', s')"
  shows "sv_database (fst s') = (case pc of Cn_close r \<Rightarrow> sv_database (fst (sv_CloseClient net cid s)) | _ \<Rightarrow> sv_database (fst s)) \<and>
    (case pc of Cn_close r \<Rightarrow> pc' = Cn_done r | _ \<Rightarrow> \<forall>r. pc \<noteq> Cn_done r \<and> pc' \<noteq> Cn_done r)"
proof (cases "(net, response, should_close, c, cid, pc, s)" rule: conn_next.cases)
  case (2 net' response' should_close' c' cid' x sv w)
  obtain resps sv2 w2 where w2: "response c x (sv, w) = (resps, sv2, w2)" by (metis surj_pair)
  have "sv_database sv2 = sv_database sv" using assms(1) w2 unfolding keeps_rows_def by (metis fst_conv snd_conv)
  with assms(2) 2 w2 show ?thesis by auto
qed (use assms(2) in \<open>auto split: option.splits prod.splits if_splits\<close>)

text \<open>Rows are appended and switched off, never changed otherwise.\<close>

definition rows_grow :: "client_info list \<Rightarrow> client_info list \<Rightarrow> bool" where
  "rows_grow db db' \<longleftrightarrow> length db \<le> length db' \<and> (\<forall>i < length db. db' ! i = db ! i \<or> db' ! i = row_off (db ! i))"

lemma rows_grow_refl [simp]: "rows_grow db db"
  by (simp add: rows_grow_def)

lemma rows_grow_trans: "rows_grow a b \<Longrightarrow> rows_grow b c \<Longrightarrow> rows_grow a c"
  unfolding rows_grow_def by (metis order.trans order.strict_trans2 row_off_twice)

lemma rows_grow_off: "rows_grow db (db[i := row_off (db ! i)])"
  by (auto simp: rows_grow_def) (metis nth_list_update_eq nth_list_update_neq)

lemma rows_grow_append: "rows_grow db (db @ rows)"
  by (simp add: rows_grow_def nth_append)

lemma serve_step_rows:
  assumes "keeps_rows response" "serve_step net response should_close ev g = Some g'"
  shows "rows_grow (sv_database (sg_server g)) (sv_database (sg_server g'))"
proof (cases ev)
  case (Ev_call i)
  with assms(2) show ?thesis
    by (auto simp: serve_step_def serve_next_def Let_def rows_grow_append split: if_splits prod.splits option.splits serve_pc.splits)
next
  case (Ev_conn j)
  let ?cn = "sg_conns g ! j"
  obtain pc sv w where t: "conn_next net response should_close (cn_socket ?cn) (cn_id ?cn) (cn_pc ?cn) (sg_server g, sg_world g) = Some (pc, sv, w)"
    "sg_server g' = sv" using assms(2) Ev_conn by (auto simp: serve_step_def split: if_splits option.splits)
  with conn_next_rows [OF assms(1) t(1)] show ?thesis by (auto simp: CloseClient_rows rows_grow_off split: conn_pc.splits)
next
  case Ev_close_server
  with assms(2) show ?thesis by (auto simp: serve_step_def sv_Close_def)
qed

lemma serve_exec_rows:
  assumes "keeps_rows response" "serve_exec net response should_close evs g = Some g'"
  shows "rows_grow (sv_database (sg_server g)) (sv_database (sg_server g'))"
  using assms(2)
proof (induction evs arbitrary: g)
  case (Cons ev evs)
  then obtain g1 where g1: "serve_step net response should_close ev g = Some g1"
    "serve_exec net response should_close evs g1 = Some g'" by (auto split: option.splits)
  from rows_grow_trans [OF serve_step_rows [OF assms(1) g1(1)] Cons.IH [OF g1(2)]] show ?case .
qed simp

section \<open>One call of Serve\<close>

text \<open>Connection \<open>j\<close> owns row \<open>j\<close>, which is on exactly as long as its thread runs.\<close>

definition owns_row :: "client_info list \<Rightarrow> nat \<Rightarrow> connection \<Rightarrow> bool" where
  "owns_row db j cn \<longleftrightarrow> cn_id cn = int j \<and> cn_owner cn = 0 \<and> ci_handle (db ! j) = cn_socket cn \<and>
     (cn_result cn = None \<longleftrightarrow> ci_status (db ! j))"

definition serve_ok :: "serve_pc \<Rightarrow> client_info list \<Rightarrow> connection list \<Rightarrow> bool" where
  "serve_ok pc db conns \<longleftrightarrow> (\<forall>j < length conns. owns_row db j (conns ! j)) \<and>
     (case pc of
        Sv_size c \<Rightarrow> length db = Suc (length conns) \<and> ci_handle (last db) = c \<and> ci_status (last db)
      | _ \<Rightarrow> length db = length conns) \<and>
     (pc = Sv_listen \<longrightarrow> conns = []) \<and> (\<forall>b. pc = Sv_done b \<longrightarrow> (\<forall>cn \<in> set conns. cn_result cn \<noteq> None))"

lemma owns_row_append: "j < length db \<Longrightarrow> owns_row (db @ rows) j cn = owns_row db j cn"
  by (simp add: owns_row_def nth_append)

lemma serve_ok_push:
  assumes "serve_ok (Sv_push c) db conns"
  shows "serve_ok (Sv_size c) (db @ [\<lparr>ci_handle = c, ci_addr = addr, ci_status = True\<rparr>]) conns"
  using assms by (auto simp: serve_ok_def owns_row_append)

lemma serve_ok_spawn:
  assumes "serve_ok (Sv_size c) db conns"
  shows "serve_ok Sv_test db (conns @ [\<lparr>cn_socket = c, cn_id = int (length db) - 1, cn_owner = 0, cn_pc = Cn_recv\<rparr>])"
proof -
  have db: "length db = Suc (length conns)" "ci_handle (last db) = c" "ci_status (last db)"
    "\<forall>j < length conns. owns_row db j (conns ! j)" using assms by (auto simp: serve_ok_def)
  moreover have "last db = db ! length conns" using db(1) by (metis last_conv_nth diff_Suc_1 list.size(3) nat.distinct(1))
  ultimately show ?thesis by (auto simp: serve_ok_def owns_row_def cn_result_def nth_append less_Suc_eq)
qed

lemma serve_ok_conn:
  assumes "serve_ok pc db conns" "j < length conns" "cn_result (conns ! j) = None"
  shows "cn_result cn = Some r \<Longrightarrow> serve_ok pc (db[j := row_off (db ! j)]) (conns[j := (conns ! j)\<lparr>cn_pc := cn_pc cn\<rparr>])"
    "cn_result cn = None \<Longrightarrow> serve_ok pc db (conns[j := (conns ! j)\<lparr>cn_pc := cn_pc cn\<rparr>])" "cn_id (conns ! j) = int j" "j < length db"
proof -
  let ?conns = "conns[j := (conns ! j)\<lparr>cn_pc := cn_pc cn\<rparr>]"
  have own: "\<forall>i < length conns. owns_row db i (conns ! i)" using assms(1) by (simp add: serve_ok_def)
  show "cn_id (conns ! j) = int j" using own assms(2) by (simp add: owns_row_def)
  show len: "j < length db" using assms(1,2) by (auto simp: serve_ok_def split: serve_pc.splits)
  have res: "cn_result ((conns ! j)\<lparr>cn_pc := cn_pc cn\<rparr>) = cn_result cn" by (simp add: cn_result_def)
  have "conns ! j \<in> set conns" using assms(2) by simp
  then have nd: "pc \<noteq> Sv_done b" for b using assms(1,3) unfolding serve_ok_def by metis
  {
    assume "cn_result cn = None"
    then have "\<forall>i < length conns. owns_row db i (?conns ! i)" using own assms(2,3) res by (auto simp: owns_row_def nth_list_update)
    then show "serve_ok pc db ?conns" using assms(1,2) nd by (auto simp: serve_ok_def split: serve_pc.splits)
  next
    assume "cn_result cn = Some r"
    then have "\<forall>i < length conns. owns_row (db[j := row_off (db ! j)]) i (?conns ! i)"
      using own len assms(2) res by (auto simp: owns_row_def nth_list_update)
    moreover have "last (db[j := row_off (db ! j)]) = last db" if "length db = Suc (length conns)"
      using that assms(2) by (cases "db = []") (auto simp: last_list_update)
    ultimately show "serve_ok pc (db[j := row_off (db ! j)]) ?conns"
      using assms(1,2) nd by (auto simp: serve_ok_def split: serve_pc.splits)
  }
qed

text \<open>The states in which one call of \<open>Serve\<close> runs.\<close>

definition one_call :: "'w serving \<Rightarrow> bool" where
  "one_call g \<longleftrightarrow> (\<exists>sock pc. sg_calls g = [(sock, pc)] \<and> serve_ok pc (sv_database (sg_server g)) (sg_conns g))"

lemma serve_next_ok:
  assumes "serve_ok pc (sv_database (sg_server g)) (sg_conns g)" "serve_next net should_close 0 sock pc g = Some (pc', g')"
  shows "serve_ok pc' (sv_database (sg_server g')) (sg_conns g') \<and> sg_calls g' = sg_calls g"
proof (cases pc)
  case (Sv_push c)
  with assms show ?thesis by (auto simp: serve_next_def Let_def serve_ok_push split: prod.splits)
next
  case (Sv_size c)
  with assms show ?thesis by (auto simp: serve_next_def serve_ok_spawn)
next
  case Sv_join
  have "cn_owner cn = 0" if "cn \<in> set (sg_conns g)" for cn
    using that assms(1) by (auto simp: serve_ok_def owns_row_def in_set_conv_nth)
  with assms Sv_join show ?thesis by (auto simp: serve_next_def serve_ok_def split: if_splits)
qed (use assms in \<open>auto simp: serve_next_def serve_ok_def split: prod.splits option.splits if_splits\<close>)

lemma one_call_step:
  assumes "keeps_rows response" "one_call g" "serve_step net response should_close ev g = Some g'"
  shows "one_call g'"
proof -
  obtain sock pc where c: "sg_calls g = [(sock, pc)]" "serve_ok pc (sv_database (sg_server g)) (sg_conns g)"
    using assms(2) unfolding one_call_def by blast
  show ?thesis
  proof (cases ev)
    case (Ev_call i)
    with assms(3) c(1) obtain pc' g1 where "serve_next net should_close 0 sock pc g = Some (pc', g1)"
      "g' = g1\<lparr>sg_calls := (sg_calls g1)[0 := (sock, pc')]\<rparr>" by (auto simp: serve_step_def split: if_splits)
    with serve_next_ok [OF c(2)] c(1) show ?thesis by (fastforce simp: one_call_def)
  next
    case (Ev_conn j)
    let ?cn = "sg_conns g ! j"
    obtain pc1 sv w where t: "conn_next net response should_close (cn_socket ?cn) (cn_id ?cn) (cn_pc ?cn) (sg_server g, sg_world g) = Some (pc1, sv, w)"
      and j: "j < length (sg_conns g)"
      and g': "g' = g\<lparr>sg_server := sv, sg_world := w, sg_conns := (sg_conns g)[j := ?cn\<lparr>cn_pc := pc1\<rparr>]\<rparr>"
      using assms(3) Ev_conn by (auto simp: serve_step_def split: if_splits option.splits)
    note rows = conn_next_rows [OF assms(1) t]
    have none: "cn_result ?cn = None" using rows by (auto simp: cn_result_def split: conn_pc.splits)
    note ok = serve_ok_conn(1,2) [OF c(2) j none, of "?cn\<lparr>cn_pc := pc1\<rparr>"] serve_ok_conn(3,4) [OF c(2) j none]
    show ?thesis
    proof (cases "cn_result (?cn\<lparr>cn_pc := pc1\<rparr>)")
      case None
      then have "sv_database sv = sv_database (sg_server g)" using rows by (auto simp: cn_result_def split: conn_pc.splits)
      with ok(2) [OF None] c(1) show ?thesis unfolding one_call_def g' by simp
    next
      case (Some r)
      then have "sv_database sv = (sv_database (sg_server g))[j := row_off (sv_database (sg_server g) ! j)]"
        using rows ok(3,4) by (auto simp: cn_result_def CloseClient_rows split: conn_pc.splits)
      with ok(1) [OF Some] c(1) show ?thesis unfolding one_call_def g' by simp
    qed
  next
    case Ev_close_server
    with assms(3) c show ?thesis by (auto simp: serve_step_def sv_Close_def one_call_def)
  qed
qed

lemma one_call_exec:
  assumes "keeps_rows response"
  shows "one_call g \<Longrightarrow> serve_exec net response should_close evs g = Some g' \<Longrightarrow> one_call g'"
proof (induction evs arbitrary: g)
  case (Cons ev evs)
  then obtain g1 where g1: "serve_step net response should_close ev g = Some g1"
    "serve_exec net response should_close evs g1 = Some g'" by (auto split: option.splits)
  from Cons.IH [OF one_call_step [OF assms Cons.prems(1) g1(1)] g1(2)] show ?case .
qed simp

section \<open>The end of a server\<close>

text \<open>How far a call of \<open>Serve\<close> and a connection are from their end once the server is closed.\<close>

primrec call_rank :: "serve_pc \<Rightarrow> nat" where
  "call_rank Sv_listen = 6" | "call_rank Sv_accept = 5" | "call_rank (Sv_push c) = 4" | "call_rank (Sv_size c) = 3"
| "call_rank Sv_test = 2" | "call_rank Sv_join = 1" | "call_rank (Sv_done b) = 0"

primrec conn_rank :: "conn_pc \<Rightarrow> nat" where
  "conn_rank Cn_recv = 5" | "conn_rank (Cn_response x) = 4" | "conn_rank (Cn_send rs) = 3" | "conn_rank Cn_test = 2"
| "conn_rank (Cn_close r) = 1" | "conn_rank (Cn_done r) = 0"

primrec to_send :: "conn_pc \<Rightarrow> nat" where
  "to_send Cn_recv = 0" | "to_send (Cn_response x) = 0" | "to_send (Cn_send rs) = length rs" | "to_send Cn_test = 0"
| "to_send (Cn_close r) = 0" | "to_send (Cn_done r) = 0"

definition wind_down :: "('w serving \<times> 'w serving) set" where
  "wind_down = measures [\<lambda>g. sum_list (map (call_rank \<circ> snd) (sg_calls g)), \<lambda>g. sum_list (map (conn_rank \<circ> cn_pc) (sg_conns g)),
     \<lambda>g. sum_list (map (to_send \<circ> cn_pc) (sg_conns g))]"

lemma sum_list_update_less:
  fixes f :: "'a \<Rightarrow> nat"
  assumes "i < length xs"
  shows "f y < f (xs ! i) \<Longrightarrow> sum_list (map f (xs[i := y])) < sum_list (map f xs)"
    and "f y = f (xs ! i) \<Longrightarrow> sum_list (map f (xs[i := y])) = sum_list (map f xs)"
proof -
  have "sum_list (map f (xs[i := y])) + f (xs ! i) = sum_list (map f xs) + f y"
    using assms by (subst (3) id_take_nth_drop [OF assms]) (simp add: upd_conv_take_nth_drop)
  then show "f y < f (xs ! i) \<Longrightarrow> sum_list (map f (xs[i := y])) < sum_list (map f xs)"
    "f y = f (xs ! i) \<Longrightarrow> sum_list (map f (xs[i := y])) = sum_list (map f xs)" by linarith+
qed

lemma serve_next_rank:
  assumes "serve_next net close_flag i sock pc g = Some (pc', g')" "sv_close (sg_server g)"
  shows "call_rank pc' < call_rank pc \<and> sg_calls g' = sg_calls g"
  using assms by (cases pc) (auto simp: serve_next_def close_flag_def Let_def split: prod.splits option.splits if_splits)

lemma conn_next_rank:
  assumes "conn_next net response close_flag c cid pc (sv, w) = Some (pc', s')" "sv_close sv"
  shows "conn_rank pc' < conn_rank pc \<or> conn_rank pc' = conn_rank pc \<and> to_send pc' < to_send pc"
proof (cases pc)
  case (Cn_send rs)
  with assms show ?thesis by (cases rs) (auto split: prod.splits if_splits)
qed (use assms in \<open>auto simp: close_flag_def split: prod.splits option.splits if_splits\<close>)

lemma serve_step_wind_down:
  assumes "serve_step net response close_flag ev g = Some g'" "sv_close (sg_server g)" "ev \<noteq> Ev_close_server"
  shows "(g', g) \<in> wind_down"
proof (cases ev)
  case (Ev_call i)
  then obtain sock pc pc' g1 where i: "i < length (sg_calls g)" "sg_calls g ! i = (sock, pc)"
    "serve_next net close_flag i sock pc g = Some (pc', g1)" "g' = g1\<lparr>sg_calls := (sg_calls g1)[i := (sock, pc')]\<rparr>"
    using assms(1) by (auto simp: serve_step_def split: if_splits prod.splits)
  from serve_next_rank [OF i(3) assms(2)] i have "sum_list (map (call_rank \<circ> snd) (sg_calls g')) < sum_list (map (call_rank \<circ> snd) (sg_calls g))"
    using sum_list_update_less(1) [OF i(1), of "call_rank \<circ> snd" "(sock, pc')"] by simp
  then show ?thesis by (simp add: wind_down_def)
next
  case (Ev_conn j)
  let ?cn = "sg_conns g ! j"
  obtain pc sv w where t: "conn_next net response close_flag (cn_socket ?cn) (cn_id ?cn) (cn_pc ?cn) (sg_server g, sg_world g) = Some (pc, sv, w)"
    and j: "j < length (sg_conns g)" and g': "g' = g\<lparr>sg_server := sv, sg_world := w, sg_conns := (sg_conns g)[j := ?cn\<lparr>cn_pc := pc\<rparr>]\<rparr>"
    using assms(1) Ev_conn by (auto simp: serve_step_def split: if_splits option.splits)
  note less = sum_list_update_less [OF j, of _ "?cn\<lparr>cn_pc := pc\<rparr>"]
  from conn_next_rank [OF t assms(2)] show ?thesis
    using less [of "conn_rank \<circ> cn_pc"] less(1) [of "to_send \<circ> cn_pc"] unfolding g' wind_down_def by auto
qed (use assms(3) in simp)






section \<open>A small network\<close>

text \<open>
  A network in which every call succeeds; handles are numbered, and the peers have the messages \<open>dw_input\<close> left
  to send before they close, or before they fall silent if \<open>dw_idle\<close>.
\<close>

record demo_world =
  dw_next :: nat
  dw_open :: "int list"
  dw_input :: "string list"
  dw_idle :: bool

definition demo_new :: "nat \<Rightarrow> demo_world \<Rightarrow> SOCKET \<times> demo_world" where
  "demo_new a w = (int (dw_next w), w\<lparr>dw_next := dw_next w + 1, dw_open := int (dw_next w) # dw_open w\<rparr>)"

definition demo_recv :: "SOCKET \<Rightarrow> bool \<Rightarrow> nat \<Rightarrow> demo_world \<Rightarrow> ((int \<times> string) \<times> demo_world) option" where
  "demo_recv s b n w = (case dw_input w of
     [] \<Rightarrow> if dw_idle w then None else Some ((0, []), w)
   | x # xs \<Rightarrow> Some ((1, take 1 x), w\<lparr>dw_input := xs\<rparr>))"

definition demo_net :: "demo_world winsock" where
  "demo_net = \<lparr>ws_startup = \<lambda>_ w. (0, w), ws_cleanup = \<lambda>w. w, ws_getaddrinfo = \<lambda>_ _ w. ((0, [0]), w), ws_socket = demo_new,
     ws_connect = \<lambda>s _ w. (if s = -1 then -1 else 0, w), ws_bind = \<lambda>s _ w. (if s = -1 then -1 else 0, w), ws_listen = \<lambda>_ w. (0, w),
     ws_accept = \<lambda>_ w. Some (demo_new 0 w), ws_shutdown = \<lambda>_ w. (0, w), ws_closesocket = \<lambda>s w. w\<lparr>dw_open := removeAll s (dw_open w)\<rparr>,
     ws_send = \<lambda>_ m w. (int (length m), w), ws_recv = demo_recv, ws_getpeername = \<lambda>s w. ((0, ''10.0.0.1'', nat s), w),
     ws_getsockname = \<lambda>s w. ((0, ''127.0.0.1'', nat s), w)\<rparr>"

definition demo_start :: demo_world where
  "demo_start = \<lparr>dw_next = 10, dw_open = [], dw_input = [], dw_idle = False\<rparr>"

definition demo_response :: "demo_world response" where
  "demo_response c x s = ([x], s)"

lemma demo_keeps_rows: "keeps_rows demo_response"
  by (simp add: keeps_rows_def demo_response_def)

text \<open>The handles of this network that are open, leaving aside numbers that were not given out.\<close>

definition demo_opens :: "demo_world \<Rightarrow> SOCKET set" where
  "demo_opens w = {s \<in> set (dw_open w). 0 \<le> s \<and> s < int (dw_next w)}"

definition demo_serving :: "SOCKET list \<Rightarrow> demo_world serving" where
  "demo_serving socks = fold sv_Serve socks \<lparr>sg_server = sv_new ''myServer'', sg_world = demo_start, sg_calls = [], sg_conns = []\<rparr>"

lemma demo_tracks: "tracks_handles demo_net demo_opens"
  by (auto simp: tracks_handles_def demo_net_def demo_opens_def demo_new_def demo_recv_def INVALID_SOCKET_def SOCKET_ERROR_def
      split: list.splits)

section \<open>Properties\<close>

text \<open>
  C25 (functional). \<open>Connect\<close> on an unconnected client, for any list of addresses: on success the client holds one
  fresh handle and nothing else was opened; on failure every socket that was tried is closed again and the
  client stays unconnected.
\<close>

theorem client_connect_spec:
  assumes "tracks_handles net opens" "cl_socket c = INVALID_SOCKET" "cl_Connect net ip port (c, w) = (ok, c', w')"
  shows "if ok then cl_socket c' \<notin> opens w \<and> cl_socket c' \<noteq> INVALID_SOCKET \<and> opens w' = insert (cl_socket c') (opens w)
    else cl_socket c' = INVALID_SOCKET \<and> opens w' = opens w"
  using connect_handles [OF assms] ..

theorem client_connect_spec_witness:
  "demo_opens (snd (snd (cl_Connect demo_net ''h'' ''80'' (cl_new 512, demo_start)))) = {10} \<and>
   cl_socket (fst (snd (cl_Connect demo_net ''h'' ''80'' (cl_new 512, demo_start)))) = 10"
proof -
  let ?r = "cl_Connect demo_net ''h'' ''80'' (cl_new 512, demo_start)"
  have c: "cl_socket (cl_new 512) = INVALID_SOCKET" by (simp add: cl_new_def)
  have r: "fst ?r" "cl_socket (fst (snd ?r)) = 10" "demo_opens demo_start = {}"
    by (simp_all add: cl_Connect_def cl_new_def demo_net_def demo_new_def demo_start_def SOCKET_ERROR_def INVALID_SOCKET_def demo_opens_def)
  obtain ok c' w' where e: "?r = (ok, c', w')" by (metis surj_pair)
  from client_connect_spec [OF demo_tracks c e] r show ?thesis unfolding e by simp
qed

text \<open>
  A client never releases a handle as long as \<open>shutdown\<close> succeeds: over any sequence of calls every
  successful connection leaves one more handle open, and \<open>is_closed\<close>, on which the threads of the demo
  client wait, never becomes true.
\<close>

lemma client_leaks_handles:
  assumes "tracks_handles net opens" "\<forall>s w. fst (ws_shutdown net s w) \<noteq> SOCKET_ERROR" "finite (opens w)"
    and "cl_exec net ops (cl_new bufflen, w) = (n, c', w')"
  shows "opens w \<subseteq> opens w' \<and> card (opens w') = card (opens w) + n \<and> \<not> cl_is_closed c'"
  using cl_exec_handles [OF assms(1,2), of "(cl_new bufflen, w)" ops] assms(3,4) by (simp add: cl_is_closed_def cl_new_def)

definition demo_ops :: "client_op list" where
  "demo_ops = [Op_Connect ''h'' ''80'', Op_Close, Op_Connect ''h'' ''80'', Op_Close]"

text \<open>
  C22 (invariant). Any interleaving of one call of \<open>Serve\<close>, the threads of its connections and \<open>Close\<close>: the thread of the
  \<open>j\<close>-th connection works on row \<open>j\<close>, which holds its socket and is on exactly as long as the thread runs. When
  \<open>Serve\<close> returns, all its threads have ended and every row is off.
\<close>

theorem serve_owns_rows:
  assumes "keeps_rows response"
    and "serve_exec net response should_close evs (sv_Serve sock
      \<lparr>sg_server = sv_new name, sg_world = w, sg_calls = [], sg_conns = []\<rparr>) = Some g"
  shows "(\<forall>j < length (sg_conns g). cn_id (sg_conns g ! j) = int j \<and> j < length (sv_database (sg_server g)) \<and>
      ci_handle (sv_database (sg_server g) ! j) = cn_socket (sg_conns g ! j) \<and>
      (ci_status (sv_database (sg_server g) ! j) \<longleftrightarrow> cn_result (sg_conns g ! j) = None)) \<and>
    (\<forall>b. snd (sg_calls g ! 0) = Sv_done b \<longrightarrow> length (sg_conns g) = length (sv_database (sg_server g)) \<and>
      (\<forall>ci \<in> set (sv_database (sg_server g)). \<not> ci_status ci))"
proof -
  have "one_call (sv_Serve sock \<lparr>sg_server = sv_new name, sg_world = w, sg_calls = [], sg_conns = []\<rparr>)"
    by (simp add: one_call_def sv_Serve_def sv_new_def serve_ok_def)
  from one_call_exec [OF assms(1) this assms(2)] obtain s0 pc where
    c: "sg_calls g = [(s0, pc)]" "serve_ok pc (sv_database (sg_server g)) (sg_conns g)" unfolding one_call_def by blast
  moreover have "cn_result (sg_conns g ! j) \<noteq> None" if "pc = Sv_done b" "j < length (sg_conns g)" for b j
    using c(2) that by (simp add: serve_ok_def)
  ultimately show ?thesis
    by (auto simp: serve_ok_def owns_row_def in_set_conv_nth split: serve_pc.splits)
qed

definition demo_run :: "serve_event list" where
  "demo_run = [Ev_call 0, Ev_call 0, Ev_call 0, Ev_call 0, Ev_conn 0, Ev_conn 0]"

lemma demo_run_result:
  "\<exists>g. serve_exec demo_net demo_response close_flag demo_run (demo_serving [1]) = Some g \<and> length (sg_conns g) = 1 \<and>
     cn_result (sg_conns g ! 0) = Some True"
proof -
  have "case serve_exec demo_net demo_response close_flag demo_run (demo_serving [1]) of None \<Rightarrow> False
    | Some g \<Rightarrow> length (sg_conns g) = 1 \<and> cn_result (sg_conns g ! 0) = Some True" by code_simp
  then show ?thesis by (auto split: option.splits)
qed

theorem serve_owns_rows_witness:
  "\<exists>g. serve_exec demo_net demo_response close_flag demo_run (demo_serving [1]) = Some g \<and> \<not> ci_status (sv_database (sg_server g) ! 0)"
proof -
  obtain g where g: "serve_exec demo_net demo_response close_flag demo_run (demo_serving [1]) = Some g"
    "length (sg_conns g) = 1" "cn_result (sg_conns g ! 0) = Some True" using demo_run_result by blast
  have "demo_serving [1] = sv_Serve 1 \<lparr>sg_server = sv_new ''myServer'', sg_world = demo_start, sg_calls = [], sg_conns = []\<rparr>"
    by (simp add: demo_serving_def)
  with serve_owns_rows [OF demo_keeps_rows, of demo_net close_flag demo_run 1 "''myServer''" demo_start g] g show ?thesis by auto
qed

text \<open>
  C23 (termination). Once a server is closed, its threads come to rest: there is no infinite sequence of steps of any number of calls of \<open>Serve\<close>
  and of their connections, however many answers a connection has to send.
\<close>

theorem serve_winds_down:
  "wf {(g', g). sv_close (sg_server g) \<and> (\<exists>ev. ev \<noteq> Ev_close_server \<and> serve_step net response close_flag ev g = Some g')}"
proof (rule wf_subset)
  show "wf wind_down" by (simp add: wind_down_def)
qed (use serve_step_wind_down in blast)






text \<open>
  C27 (invariant). Ids stay valid: whatever threads of any number of calls of \<open>Serve\<close> do, \<open>GetClient\<close> and \<open>GetAddr\<close> keep
  answering as before for every id of the database, and a row that is off stays off.
\<close>

theorem serve_ids_stable:
  assumes "keeps_rows response" "serve_exec net response should_close evs g = Some g'"
    and "0 \<le> cid" "cid < int (length (sv_database (sg_server g)))"
  shows "sv_GetClient cid (sg_server g') = sv_GetClient cid (sg_server g) \<and>
    sv_GetAddr cid (sg_server g') = sv_GetAddr cid (sg_server g) \<and>
    (ci_status (sv_database (sg_server g') ! nat cid) \<longrightarrow> ci_status (sv_database (sg_server g) ! nat cid))"
proof -
  let ?db = "sv_database (sg_server g)" and ?db' = "sv_database (sg_server g')"
  have grow: "length ?db \<le> length ?db'" "nat cid < length ?db \<longrightarrow> ?db' ! nat cid = ?db ! nat cid \<or> ?db' ! nat cid = row_off (?db ! nat cid)"
    using serve_exec_rows [OF assms(1,2)] unfolding rows_grow_def by auto
  moreover have "nat cid < length ?db" using assms(3,4) by linarith
  ultimately have "?db' ! nat cid = ?db ! nat cid \<or> ?db' ! nat cid = row_off (?db ! nat cid)" by blast
  then show ?thesis using assms(3,4) grow(1) by (auto simp: sv_GetClient_def sv_GetAddr_def)
qed

theorem serve_ids_stable_witness:
  "\<exists>g g'. serve_exec demo_net demo_response close_flag demo_run (demo_serving [1]) = Some g \<and>
     serve_exec demo_net demo_response close_flag [Ev_call 0, Ev_call 0, Ev_call 0] g = Some g' \<and>
     sv_GetClient 0 (sg_server g') = sv_GetClient 0 (sg_server g)"
proof -
  have "case serve_exec demo_net demo_response close_flag demo_run (demo_serving [1]) of None \<Rightarrow> False
    | Some g \<Rightarrow> length (sv_database (sg_server g)) = 1 \<and>
       serve_exec demo_net demo_response close_flag [Ev_call 0, Ev_call 0, Ev_call 0] g \<noteq> None" by code_simp
  then obtain g g' where g: "serve_exec demo_net demo_response close_flag demo_run (demo_serving [1]) = Some g"
    "length (sv_database (sg_server g)) = 1" "serve_exec demo_net demo_response close_flag [Ev_call 0, Ev_call 0, Ev_call 0] g = Some g'"
    by (auto split: option.splits)
  from serve_ids_stable [OF demo_keeps_rows g(3), of 0] g show ?thesis by auto
qed

text \<open>
  Two calls of \<open>Serve\<close> on one server race for the id of a new client, which is read after the lock was
  released: both connections get the id of the second client. When the peer of the first one closes, the
  socket of the second is closed, and the row and the socket of the first stay open for ever.
\<close>

lemma serve_id_race:
  "\<exists>g. serve_exec demo_net demo_response close_flag
      [Ev_call 0, Ev_call 1, Ev_call 0, Ev_call 1, Ev_call 0, Ev_call 1, Ev_call 0, Ev_call 1, Ev_conn 0, Ev_conn 0] (demo_serving [1, 2]) = Some g \<and>
    map cn_socket (sg_conns g) = [10, 11] \<and> map cn_id (sg_conns g) = [1, 1] \<and> cn_result (sg_conns g ! 0) = Some True \<and>
    map ci_status (sv_database (sg_server g)) = [True, False] \<and> dw_open (sg_world g) = [10]"
proof -
  have "case serve_exec demo_net demo_response close_flag
      [Ev_call 0, Ev_call 1, Ev_call 0, Ev_call 1, Ev_call 0, Ev_call 1, Ev_call 0, Ev_call 1, Ev_conn 0, Ev_conn 0] (demo_serving [1, 2]) of
    None \<Rightarrow> False | Some g \<Rightarrow>
    map cn_socket (sg_conns g) = [10, 11] \<and> map cn_id (sg_conns g) = [1, 1] \<and> cn_result (sg_conns g ! 0) = Some True \<and>
    map ci_status (sv_database (sg_server g)) = [True, False] \<and> dw_open (sg_world g) = [10]" by code_simp
  then show ?thesis by (auto split: option.splits)
qed

lemma show_int_plain: "plain '',;'' (show_int (int n))"
  using show_nat_digits [of n] by (auto simp: plain_def show_int_def)

definition list_rows :: "nat \<Rightarrow> client_info list \<Rightarrow> string list list" where
  "list_rows k cs = map (\<lambda>i. [show_int (int (k + i)), ci_addr (cs ! i), if ci_status (cs ! i) then ''on'' else ''off'']) [0..<length cs]"

lemma list_rows_Cons:
  "list_rows k (c # cs) = [show_int (int k), ci_addr c, if ci_status c then ''on'' else ''off''] # list_rows (Suc k) cs"
  unfolding list_rows_def by (rule nth_equalityI) (auto simp: nth_Cons' nth_append less_Suc_eq_0_disj)

lemma output_rows_list: "output_rows k cs = concat (list_rows k cs)"
  by (induction cs arbitrary: k) (simp_all add: list_rows_Cons, simp add: list_rows_def)

text \<open>
  C26 (functional). The answer to a request for the list of clients: as long as the addresses are non-empty and
  free of the separators, the frame built from \<open>OutputDatabase\<close> prints as a table with one row per client
  in the order of the ids, its id, its address and whether it is on.
\<close>

theorem server_list_prints:
  assumes "\<forall>ci \<in> set (sv_database sv). plain '',;'' (ci_addr ci)"
    and "sv_OutputDatabase [] [] sv = (header, entries)"
    and "pickle_list kResponse header entries = le32 app_head @ body @ le32 app_terminator"
  shows "\<exists>os widths. format_message body kGetNothing = Value (os @ ''list: '' @ endl @ concat (map (table_line widths)
     ([''id'', ''address'', ''status''] # map (\<lambda>i. [show_int (int i), ci_addr (sv_database sv ! i),
        if ci_status (sv_database sv ! i) then ''on'' else ''off'']) [0..<length (sv_database sv)])), [])"
proof -
  let ?rows = "list_rows 0 (sv_database sv)"
  have h: "header = [''id'', ''address'', ''status'']" "entries = concat ?rows"
    using assms(2) by (auto simp: sv_OutputDatabase_def output_rows_list)
  have "\<forall>r \<in> set (header # ?rows). length r = length header \<and> (\<forall>x \<in> set r. plain '',;'' x)"
    using assms(1) by (auto simp: h list_rows_def show_int_plain plain_def [of _ "''on''"] plain_def [of _ "''off''"]
      plain_def [of _ "''id''"] plain_def [of _ "''address''"] plain_def [of _ "''status''"])
  from format_list_table [OF _ this assms(3) [unfolded h(2)]] show ?thesis unfolding h(1) list_rows_def by auto
qed

definition demo_server :: "string \<Rightarrow> server" where
  "demo_server addr = (sv_new ''s'')\<lparr>sv_database := [\<lparr>ci_handle = 10, ci_addr = addr, ci_status = True\<rparr>]\<rparr>"

theorem server_list_prints_witness:
  "\<exists>body os widths. pickle_list kResponse (fst (sv_OutputDatabase [] [] (demo_server ''1.2.3.4:80''))) (snd (sv_OutputDatabase [] [] (demo_server ''1.2.3.4:80''))) =
       le32 app_head @ body @ le32 app_terminator \<and>
     format_message body kGetNothing = Value (os @ ''list: '' @ endl @ concat (map (table_line widths)
       [[''id'', ''address'', ''status''], [''0'', ''1.2.3.4:80'', ''on'']]), [])"
proof -
  let ?sv = "demo_server ''1.2.3.4:80''"
  have e: "sv_OutputDatabase [] [] ?sv = ([''id'', ''address'', ''status''], [''0'', ''1.2.3.4:80'', ''on''])" by code_simp
  have "\<exists>body. pickle_list kResponse [''id'', ''address'', ''status''] (concat [[''0'', ''1.2.3.4:80'', ''on'']]) = le32 app_head @ body @ le32 app_terminator"
    using pickle_list_body [of "[''id'', ''address'', ''status'']" "[[''0'', ''1.2.3.4:80'', ''on'']]" kResponse] by auto
  then obtain body where b: "pickle_list kResponse [''id'', ''address'', ''status''] [''0'', ''1.2.3.4:80'', ''on''] = le32 app_head @ body @ le32 app_terminator"
    by auto
  have db: "sv_database ?sv = [\<lparr>ci_handle = 10, ci_addr = ''1.2.3.4:80'', ci_status = True\<rparr>]" by (simp add: demo_server_def)
  have z: "show_int 0 = ''0''" by code_simp
  have "\<forall>ci \<in> set (sv_database ?sv). plain '',;'' (ci_addr ci)" by (simp add: db plain_def)
  from server_list_prints [OF this e b] have "\<exists>os widths. format_message body kGetNothing =
      Value (os @ ''list: '' @ endl @ concat (map (table_line widths) [[''id'', ''address'', ''status''], [''0'', ''1.2.3.4:80'', ''on'']]), [])"
    by (simp add: db z)
  with b show ?thesis unfolding e by auto
qed

text \<open>
  A client whose address could not be found has the empty address in the database; it makes the list
  unreadable for every client.
\<close>

lemma server_list_broken:
  "\<exists>body. pickle_list kResponse (fst (sv_OutputDatabase [] [] (demo_server []))) (snd (sv_OutputDatabase [] [] (demo_server []))) =
     le32 app_head @ frame_body kResponse CHR ''l'' body @ le32 app_terminator \<and> format_list body = Value (''[broken]'' @ endl, False)"
proof -
  let ?rows = "[[''0'', [], ''on'']]" and ?h = "[''id'', ''address'', ''status'']"
  have e: "sv_OutputDatabase [] [] (demo_server []) = (?h, concat ?rows)" by code_simp
  have "format_list (terminate_with CHR '';'' (map (join_with CHR '','') (?h # ?rows))) = Value (''[broken]'' @ endl, False)" by code_simp
  moreover have "pickle_list kResponse ?h (concat ?rows) = le32 app_head @
      frame_body kResponse CHR ''l'' (terminate_with CHR '';'' (map (join_with CHR '','') (?h # ?rows))) @ le32 app_terminator"
    by (rule pickle_list_body) simp_all
  ultimately show ?thesis unfolding e fst_conv snd_conv by blast
qed

section \<open>Listening sockets\<close>




text \<open>
  Before its constructor has run, the static object claims that the start-up has succeeded, so another static object whose constructor runs earlier
  gets past the check; afterwards the answer is that of the system.
\<close>

lemma Ok_before_startup: "wsa_Ok wsa_static" "wsa_Ok (fst (WSAProof_new net w)) \<longleftrightarrow> fst (ws_startup net 514 w) = 0"
  by (simp_all add: wsa_Ok_def wsa_static_def WSAProof_new_def MAKEWORD_def split: prod.split)

end
