(* ===== verification/Colog.thy ===== *)
theory Colog
  imports Protocol "HOL-Library.Sublist"
begin

text \<open>
  \<open>Colog\<close> and \<open>ThreadInfo\<close> of \<open>colog.h\<close>: every thread that logs has a number of its own, and every call writes one
  line under the lock, the coloured ones between two changes of the console's colour. \<open>std::cout\<close> is buffered, and the colour of the console is not:
  what is still in the buffer gets the colour that is set when it is written out.
\<close>

section \<open>Console and stream\<close>

text \<open>
  The console is the sequence of what it has been sent. \<open>cg_buf\<close> is the buffer of \<open>std::cout\<close>, \<open>cg_ids\<close> the thread-local numbers, \<open>cg_lk\<close> the thread that
  holds the lock.
\<close>

datatype console_event = Attribute nat | Put string

record colog =
  cg_lk :: "nat option"
  cg_next :: int
  cg_ids :: "nat \<Rightarrow> int option"
  cg_buf :: string
  cg_out :: "console_event list"

definition cg_new :: colog where
  "cg_new = \<lparr>cg_lk = None, cg_next = 0, cg_ids = (\<lambda>_. None), cg_buf = [], cg_out = []\<rparr>"

definition thread_id :: "nat \<Rightarrow> colog \<Rightarrow> int \<times> colog" where
  "thread_id t s = (case cg_ids s t of Some i \<Rightarrow> (i, s)
     | None \<Rightarrow> (cg_next s, s\<lparr>cg_next := cg_next s + 1, cg_ids := (cg_ids s)(t \<mapsto> cg_next s)\<rparr>))"

definition thread_string :: "nat \<Rightarrow> colog \<Rightarrow> string \<times> colog" where
  "thread_string t s = (case thread_id t s of (i, s) \<Rightarrow> (''[thread '' @ show_int i @ '']'', s))"

text \<open>The attributes of the Windows console: blue, green, red and intensity, the background in the higher bits.\<close>

definition ConsoleColor :: "nat \<Rightarrow> nat option" where
  "ConsoleColor code =
     (let blue = 1; green = 2; red = 4; intensity = 8; back = (\<lambda>c. c * 16); white = red + green + blue; black = 0
      in if code = 0 then Some (white + back black)
         else if code = 1 then Some (intensity + white + back black)
         else if code = 2 then Some (black + back (intensity + red + green))
         else if code = 3 then Some (black + back (intensity + red))
         else if code = 4 then Some (intensity + red + back black)
         else if code = 5 then Some (intensity + green + back black)
         else if code = 6 then Some (intensity + blue + back black)
         else if code = 7 then Some (intensity + green + blue + back black)
         else if code = 8 then Some (intensity + red + blue + back black)
         else if code = 9 then Some (intensity + red + green + back black)
         else None)"

definition set_color :: "nat \<Rightarrow> colog \<Rightarrow> colog" where
  "set_color code s = (case ConsoleColor code of None \<Rightarrow> s | Some attr \<Rightarrow> s\<lparr>cg_out := cg_out s @ [Attribute attr]\<rparr>)"

definition put :: "string \<Rightarrow> colog \<Rightarrow> colog" where
  "put x s = s\<lparr>cg_buf := cg_buf s @ x\<rparr>"

text \<open>The first \<open>k\<close> characters of the buffer are written out: all of them by a flush, some of them whenever the library decides.\<close>

definition drain :: "nat \<Rightarrow> colog \<Rightarrow> colog" where
  "drain k s = s\<lparr>cg_out := cg_out s @ [Put (take k (cg_buf s))], cg_buf := drop k (cg_buf s)\<rparr>"

definition put_endl :: "colog \<Rightarrow> colog" where
  "put_endl s = (let s = put endl s in drain (length (cg_buf s)) s)"

section \<open>Logging\<close>

text \<open>The functions under the lock as the sequence of what they do to the stream and to the console.\<close>

datatype cg_op = Set_color nat | Put_thread | Put_text string | Put_endl

primrec cg_do :: "nat \<Rightarrow> cg_op \<Rightarrow> colog \<Rightarrow> colog" where
  "cg_do t (Set_color code) s = set_color code s"
| "cg_do t Put_thread s = (case thread_string t s of (p, s) \<Rightarrow> put p s)"
| "cg_do t (Put_text x) s = put x s"
| "cg_do t Put_endl s = put_endl s"

definition cg_shift :: "string \<Rightarrow> cg_op list" where
  "cg_shift x = [Put_thread, Put_text x, Put_endl]"

definition put_batch :: "string list \<Rightarrow> cg_op list" where
  "put_batch xs = [Put_thread] @ concat (map (\<lambda>x. [Put_text x, Put_text '' '']) xs) @ [Put_endl]"

definition cg_highlight :: "string list \<Rightarrow> cg_op list" where
  "cg_highlight xs = [Set_color 1] @ [Put_thread] @ concat (map (\<lambda>x. [Put_text x, Put_text '' '']) xs) @ [Put_endl] @ [Set_color 0]"

definition cg_warning :: "string list \<Rightarrow> cg_op list" where
  "cg_warning xs = [Set_color 2] @ [Put_thread] @ concat (map (\<lambda>x. [Put_text x, Put_text '' '']) xs) @ [Put_endl] @ [Set_color 0]"

definition cg_error :: "string list \<Rightarrow> cg_op list" where
  "cg_error xs = [Set_color 3] @ [Put_thread] @ concat (map (\<lambda>x. [Put_text x, Put_text '' '']) xs) @ [Put_endl] @ [Set_color 0]"

definition cg_red :: "string list \<Rightarrow> cg_op list" where
  "cg_red xs = [Set_color 4] @ [Put_thread] @ concat (map (\<lambda>x. [Put_text x, Put_text '' '']) xs) @ [Put_endl] @ [Set_color 0]"

definition cg_green :: "string list \<Rightarrow> cg_op list" where
  "cg_green xs = [Set_color 5] @ [Put_thread] @ concat (map (\<lambda>x. [Put_text x, Put_text '' '']) xs) @ [Put_endl] @ [Set_color 0]"

definition cg_blue :: "string list \<Rightarrow> cg_op list" where
  "cg_blue xs = [Set_color 6] @ [Put_thread] @ concat (map (\<lambda>x. [Put_text x, Put_text '' '']) xs) @ [Put_endl] @ [Set_color 0]"

definition cg_cyan :: "string list \<Rightarrow> cg_op list" where
  "cg_cyan xs = [Set_color 7] @ [Put_thread] @ concat (map (\<lambda>x. [Put_text x, Put_text '' '']) xs) @ [Put_endl] @ [Set_color 0]"

definition cg_purple :: "string list \<Rightarrow> cg_op list" where
  "cg_purple xs = [Set_color 8] @ [Put_thread] @ concat (map (\<lambda>x. [Put_text x, Put_text '' '']) xs) @ [Put_endl] @ [Set_color 0]"

definition cg_yellow :: "string list \<Rightarrow> cg_op list" where
  "cg_yellow xs = [Set_color 9] @ [Put_thread] @ concat (map (\<lambda>x. [Put_text x, Put_text '' '']) xs) @ [Put_endl] @ [Set_color 0]"

section \<open>Threads that log\<close>

datatype log_call = Shift string | Batch "string list" | Highlight "string list" | Warning "string list" | Error "string list" | Red "string list"
  | Green "string list" | Blue "string list" | Cyan "string list" | Purple "string list" | Yellow "string list"

primrec cg_ops :: "log_call \<Rightarrow> cg_op list" where
  "cg_ops (Shift x) = cg_shift x"
| "cg_ops (Batch xs) = put_batch xs"
| "cg_ops (Highlight xs) = cg_highlight xs"
| "cg_ops (Warning xs) = cg_warning xs"
| "cg_ops (Error xs) = cg_error xs"
| "cg_ops (Red xs) = cg_red xs"
| "cg_ops (Green xs) = cg_green xs"
| "cg_ops (Blue xs) = cg_blue xs"
| "cg_ops (Cyan xs) = cg_cyan xs"
| "cg_ops (Purple xs) = cg_purple xs"
| "cg_ops (Yellow xs) = cg_yellow xs"

text \<open>A thread is inside a call with the rest of it to do, or outside; it has further calls to make.\<close>

record cg_sys =
  cs_log :: colog
  cs_threads :: "(cg_op list option \<times> log_call list) list"

datatype cg_event = Runs nat | Drains nat

text \<open>One step: a thread acquires the lock, if it is free, or does the next thing of its call, or releases the lock; or the buffer is written out in part.\<close>

primrec cg_step :: "cg_event \<Rightarrow> cg_sys \<Rightarrow> cg_sys" where
  "cg_step (Runs t) s =
     (if t < length (cs_threads s) then
        case cs_threads s ! t of
          (None, []) \<Rightarrow> s
        | (None, c # cs) \<Rightarrow>
            (case cg_lk (cs_log s) of
               None \<Rightarrow> s\<lparr>cs_log := (cs_log s)\<lparr>cg_lk := Some t\<rparr>, cs_threads := (cs_threads s)[t := (Some (cg_ops c), cs)]\<rparr>
             | Some _ \<Rightarrow> s)
        | (Some [], cs) \<Rightarrow> s\<lparr>cs_log := (cs_log s)\<lparr>cg_lk := None\<rparr>, cs_threads := (cs_threads s)[t := (None, cs)]\<rparr>
        | (Some (op # ops), cs) \<Rightarrow> s\<lparr>cs_log := cg_do t op (cs_log s), cs_threads := (cs_threads s)[t := (Some ops, cs)]\<rparr>
      else s)"
| "cg_step (Drains k) s = s\<lparr>cs_log := drain k (cs_log s)\<rparr>"

definition cg_start :: "log_call list list \<Rightarrow> cg_sys" where
  "cg_start scripts = \<lparr>cs_log = cg_new, cs_threads = map (Pair None) scripts\<rparr>"

section \<open>What the console is to show\<close>

text \<open>The text on the console with the colour of each character, when the console starts with attribute \<open>attr\<close>.\<close>

fun shown :: "nat \<Rightarrow> console_event list \<Rightarrow> (char \<times> nat) list" where
  "shown attr [] = []"
| "shown attr (Attribute a # es) = shown a es"
| "shown attr (Put x # es) = map (\<lambda>c. (c, attr)) x @ shown attr es"

fun colour_after :: "nat \<Rightarrow> console_event list \<Rightarrow> nat" where
  "colour_after attr [] = attr"
| "colour_after attr (Attribute a # es) = colour_after a es"
| "colour_after attr (Put x # es) = colour_after attr es"

text \<open>
  The colour of a call as the number of the attribute: bright white on black for a highlight, black on bright yellow for a warning and on bright red for an error,
  the others in their bright colour on black.
\<close>

primrec call_attr :: "log_call \<Rightarrow> nat option" where
  "call_attr (Shift x) = None" | "call_attr (Batch xs) = None" | "call_attr (Highlight xs) = Some 15"
| "call_attr (Warning xs) = Some 224" | "call_attr (Error xs) = Some 192" | "call_attr (Red xs) = Some 12"
| "call_attr (Green xs) = Some 10" | "call_attr (Blue xs) = Some 9" | "call_attr (Cyan xs) = Some 11"
| "call_attr (Purple xs) = Some 13" | "call_attr (Yellow xs) = Some 14"

definition words_text :: "string list \<Rightarrow> string" where
  "words_text xs = concat (map (\<lambda>x. x @ '' '') xs)"

primrec call_text :: "log_call \<Rightarrow> string" where
  "call_text (Shift x) = x" | "call_text (Batch xs) = words_text xs" | "call_text (Highlight xs) = words_text xs"
| "call_text (Warning xs) = words_text xs" | "call_text (Error xs) = words_text xs" | "call_text (Red xs) = words_text xs"
| "call_text (Green xs) = words_text xs" | "call_text (Blue xs) = words_text xs" | "call_text (Cyan xs) = words_text xs"
| "call_text (Purple xs) = words_text xs" | "call_text (Yellow xs) = words_text xs"

text \<open>The lines of calls in their order: a plain one keeps the colour of the console, and a coloured one leaves it white on black (7).\<close>

fun log_lines :: "nat \<Rightarrow> (nat \<Rightarrow> int option) \<Rightarrow> (nat \<times> log_call) list \<Rightarrow> (char \<times> nat) list" where
  "log_lines attr ids [] = []"
| "log_lines attr ids ((t, c) # es) =
     map (\<lambda>x. (x, case call_attr c of None \<Rightarrow> attr | Some a \<Rightarrow> a)) (''[thread '' @ show_int (the (ids t)) @ '']'' @ call_text c @ endl) @
     log_lines (case call_attr c of None \<Rightarrow> attr | Some _ \<Rightarrow> 7) ids es"

definition colour_left :: "nat \<Rightarrow> (nat \<times> log_call) list \<Rightarrow> nat" where
  "colour_left attr es = (if \<forall>e \<in> set es. call_attr (snd e) = None then attr else 7)"

section \<open>Calls\<close>

lemma shown_append: "shown attr (xs @ ys) = shown attr xs @ shown (colour_after attr xs) ys"
  by (induction attr xs rule: shown.induct) auto

lemma colour_after_append: "colour_after attr (xs @ ys) = colour_after (colour_after attr xs) ys"
  by (induction attr xs rule: shown.induct) auto

lemma log_lines_append: "log_lines attr ids (es @ [(t, c)]) = log_lines attr ids es @ log_lines (colour_left attr es) ids [(t, c)]"
  by (induction attr ids es rule: log_lines.induct) (auto simp: colour_left_def split: option.splits)

lemma log_lines_cong: "(\<And>t. t \<in> fst ` set es \<Longrightarrow> ids t = ids' t) \<Longrightarrow> log_lines attr ids es = log_lines attr ids' es"
  by (induction attr ids es rule: log_lines.induct) auto

lemma colour_left_append: "colour_left attr (es @ [(t, c)]) = (case call_attr c of None \<Rightarrow> colour_left attr es | Some _ \<Rightarrow> 7)"
  by (auto simp: colour_left_def split: option.splits)

text \<open>What is shown together with what is in the buffer; it does not depend on how much of the buffer has been written out.\<close>

definition view :: "nat \<Rightarrow> colog \<Rightarrow> (char \<times> nat) list" where
  "view attr s = shown attr (cg_out s) @ map (\<lambda>c. (c, colour_after attr (cg_out s))) (cg_buf s)"

definition same_view :: "nat \<Rightarrow> colog \<Rightarrow> colog \<Rightarrow> bool" where
  "same_view attr s s' \<longleftrightarrow> view attr s = view attr s' \<and> colour_after attr (cg_out s) = colour_after attr (cg_out s') \<and>
     cg_ids s = cg_ids s' \<and> cg_next s = cg_next s'"

text \<open>The colour is changed only while the buffer is empty, and the buffer is empty in the end.\<close>

fun colours_safe :: "bool \<Rightarrow> cg_op list \<Rightarrow> bool" where
  "colours_safe b [] \<longleftrightarrow> b"
| "colours_safe b (Set_color code # ops) \<longleftrightarrow> b \<and> colours_safe True ops"
| "colours_safe b (Put_thread # ops) \<longleftrightarrow> colours_safe False ops"
| "colours_safe b (Put_text x # ops) \<longleftrightarrow> colours_safe False ops"
| "colours_safe b (Put_endl # ops) \<longleftrightarrow> colours_safe True ops"

lemmas cg_op_defs = set_color_def put_def put_endl_def drain_def thread_string_def thread_id_def

lemma colours_safe_mono: "colours_safe False ops \<Longrightarrow> colours_safe b ops"
  by (cases "(b, ops)" rule: colours_safe.cases) auto

lemma colours_safe_do: "colours_safe (cg_buf s = []) (op # ops) \<Longrightarrow> colours_safe (cg_buf (cg_do t op s) = []) ops"
  by (cases op) (auto simp: cg_op_defs Let_def intro: colours_safe_mono split: option.splits)

lemma colours_safe_drain: "colours_safe (cg_buf s = []) ops \<Longrightarrow> colours_safe (cg_buf (drain k s) = []) ops"
  using colours_safe_mono by (cases "cg_buf s = []") (auto simp: drain_def)

lemma drain_same_view: "same_view attr s (drain k s)"
  by (simp add: same_view_def view_def drain_def shown_append colour_after_append flip: map_append)

lemma view_do:
  assumes "colours_safe (cg_buf s = []) (op # ops)"
  shows "view attr (cg_do t op s) = view attr s @
    (case op of Set_color code \<Rightarrow> [] | Put_thread \<Rightarrow> map (\<lambda>x. (x, colour_after attr (cg_out s))) (fst (thread_string t s))
      | Put_text x \<Rightarrow> map (\<lambda>x. (x, colour_after attr (cg_out s))) x | Put_endl \<Rightarrow> map (\<lambda>x. (x, colour_after attr (cg_out s))) endl)"
  using assms by (cases op) (auto simp: cg_op_defs view_def shown_append Let_def split: option.splits)

lemma colour_do: "colour_after attr (cg_out (cg_do t op s)) =
    (case op of Set_color code \<Rightarrow> (case ConsoleColor code of None \<Rightarrow> colour_after attr (cg_out s) | Some a \<Rightarrow> a) | _ \<Rightarrow> colour_after attr (cg_out s))"
  by (cases op) (auto simp: cg_op_defs colour_after_append Let_def split: option.splits)

lemma ids_do: "cg_ids (cg_do t op s) = (case op of Put_thread \<Rightarrow> cg_ids (snd (thread_id t s)) | _ \<Rightarrow> cg_ids s)"
  "cg_next (cg_do t op s) = (case op of Put_thread \<Rightarrow> cg_next (snd (thread_id t s)) | _ \<Rightarrow> cg_next s)"
  by (cases op; auto simp: cg_op_defs Let_def split: option.splits)+

lemma same_view_do:
  assumes "same_view attr s s'" "colours_safe (cg_buf s = []) (op # ops)" "colours_safe (cg_buf s' = []) (op # ops)"
  shows "same_view attr (cg_do t op s) (cg_do t op s')"
  using assms(1) view_do [OF assms(2)] view_do [OF assms(3)]
  by (auto simp: same_view_def colour_do ids_do thread_string_def thread_id_def split: cg_op.splits option.splits)

lemma same_view_fold:
  assumes "same_view attr s s'" "colours_safe (cg_buf s = []) ops" "colours_safe (cg_buf s' = []) ops"
  shows "same_view attr (fold (cg_do t) ops s) (fold (cg_do t) ops s')"
  using assms by (induction ops arbitrary: s s') (simp, metis fold_simps(2) same_view_do colours_safe_do)

lemma fold_view_prefix: "colours_safe (cg_buf s = []) ops \<Longrightarrow> prefix (view attr s) (view attr (fold (cg_do t) ops s))"
proof (induction ops arbitrary: s)
  case (Cons op ops)
  from Cons.IH [OF colours_safe_do [OF Cons.prems], of t] view_do [OF Cons.prems, of attr t] show ?case
    by (metis fold_simps(2) prefix_order.trans prefixI)
qed simp

lemma fold_buf: "colours_safe (cg_buf s = []) ops \<Longrightarrow> cg_buf (fold (cg_do t) ops s) = []"
  by (induction ops arbitrary: s) (simp, metis fold_simps(2) colours_safe_do)

text \<open>The texts of a line, and a whole line, wherever the buffer stands.\<close>

lemma fold_texts: "fold (cg_do t) (concat (map (\<lambda>x. [Put_text x, Put_text '' '']) xs)) s = s\<lparr>cg_buf := cg_buf s @ words_text xs\<rparr>"
  by (induction xs arbitrary: s) (auto simp: put_def words_text_def)

definition took_id :: "nat \<Rightarrow> colog \<Rightarrow> colog \<Rightarrow> bool" where
  "took_id t s s' \<longleftrightarrow> cg_ids s' = cg_ids (snd (thread_id t s)) \<and> cg_next s' = cg_next (snd (thread_id t s))"

lemma took_id_the: "took_id t s s' \<Longrightarrow> the (cg_ids s' t) = fst (thread_id t s) \<and> t \<in> dom (cg_ids s')"
  by (auto simp: took_id_def thread_id_def split: option.splits)

definition body_text :: "nat \<Rightarrow> colog \<Rightarrow> string \<Rightarrow> string" where
  "body_text t s x = ''[thread '' @ show_int (fst (thread_id t s)) @ '']'' @ x @ endl"

lemma put_shift:
  "let s' = cg_do t Put_endl (cg_do t (Put_text x) (cg_do t Put_thread s)) in
     view attr s' = view attr s @ map (\<lambda>x. (x, colour_after attr (cg_out s))) (body_text t s x) \<and>
     colour_after attr (cg_out s') = colour_after attr (cg_out s) \<and> cg_buf s' = [] \<and> took_id t s s'"
  by (auto simp: view_def cg_op_defs Let_def shown_append colour_after_append body_text_def took_id_def split: option.splits)

lemma put_line:
  "let s' = cg_do t Put_endl (fold (cg_do t) (concat (map (\<lambda>x. [Put_text x, Put_text '' '']) xs)) (cg_do t Put_thread s)) in
     view attr s' = view attr s @ map (\<lambda>x. (x, colour_after attr (cg_out s))) (body_text t s (words_text xs)) \<and>
     colour_after attr (cg_out s') = colour_after attr (cg_out s) \<and> cg_buf s' = [] \<and> took_id t s s'"
  using put_shift [of t "words_text xs" s attr] unfolding fold_texts by (simp add: put_def)

lemma colour_line:
  assumes "cg_buf s = []" "ConsoleColor code = Some a"
  shows "let s' = fold (cg_do t) ([Set_color code] @ [Put_thread] @ concat (map (\<lambda>x. [Put_text x, Put_text '' '']) xs) @ [Put_endl] @ [Set_color 0]) s in
     view attr s' = view attr s @ map (\<lambda>x. (x, a)) (body_text t s (words_text xs)) \<and> colour_after attr (cg_out s') = 7 \<and> took_id t s s'"
proof -
  have s: "view attr (set_color code s) = view attr s" "colour_after attr (cg_out (set_color code s)) = a"
    "fst (thread_id t (set_color code s)) = fst (thread_id t s)" "\<And>u. took_id t (set_color code s) u = took_id t s u"
    using assms by (auto simp: set_color_def view_def shown_append colour_after_append took_id_def thread_id_def split: option.splits)
  have e: "view attr (set_color 0 u) = view attr u \<and> colour_after attr (cg_out (set_color 0 u)) = 7 \<and> took_id t s (set_color 0 u) = took_id t s u"
    if "cg_buf u = []" for u
    using that by (auto simp: set_color_def ConsoleColor_def view_def shown_append colour_after_append took_id_def)
  from put_line [of t xs "set_color code s" attr] e s show ?thesis by (simp add: Let_def body_text_def)
qed

lemma texts_safe: "colours_safe b (concat (map (\<lambda>x. [Put_text x, Put_text '' '']) xs) @ Put_endl # ops) \<longleftrightarrow> colours_safe True ops"
  by (induction xs arbitrary: b) auto

lemmas cg_call_defs = cg_highlight_def cg_warning_def cg_error_def cg_red_def cg_green_def cg_blue_def cg_cyan_def cg_purple_def cg_yellow_def

lemma cg_ops_safe: "colours_safe True (cg_ops c)"
  by (cases c) (simp_all add: cg_shift_def put_batch_def cg_call_defs texts_safe)

text \<open>One call: the line in its colour, the colour after it, and the number of the thread.\<close>

lemma call_body:
  assumes "cg_buf s = []"
  shows "let s' = fold (cg_do t) (cg_ops c) s in
    view attr s' = view attr s @ map (\<lambda>x. (x, case call_attr c of None \<Rightarrow> colour_after attr (cg_out s) | Some a \<Rightarrow> a)) (body_text t s (call_text c)) \<and>
    colour_after attr (cg_out s') = (case call_attr c of None \<Rightarrow> colour_after attr (cg_out s) | Some _ \<Rightarrow> 7) \<and> took_id t s s'"
proof (cases "call_attr c")
  case None
  then show ?thesis
    using put_shift [of t _ s attr] put_line [of t _ s attr] by (cases c) (auto simp: Let_def cg_shift_def put_batch_def simp del: cg_do.simps)
next
  case (Some a)
  obtain code xs where c: "cg_ops c = [Set_color code] @ [Put_thread] @ concat (map (\<lambda>x. [Put_text x, Put_text '' '']) xs) @ [Put_endl] @ [Set_color 0]"
    "ConsoleColor code = Some a" "call_text c = words_text xs"
    using Some by (cases c) (auto simp: cg_call_defs ConsoleColor_def)
  show ?thesis using colour_line [OF assms c(2), of t xs attr] unfolding c(1,3) Some by simp
qed

lemma call_result:
  assumes "cg_buf s = []"
  shows "let s' = fold (cg_do t) (cg_ops c) s in
    view attr s' = view attr s @ log_lines (colour_after attr (cg_out s)) (cg_ids s') [(t, c)] \<and>
    colour_after attr (cg_out s') = (case call_attr c of None \<Rightarrow> colour_after attr (cg_out s) | Some _ \<Rightarrow> 7) \<and> took_id t s s'"
  using call_body [OF assms, of t c attr] took_id_the [of t s "fold (cg_do t) (cg_ops c) s"] by (simp add: Let_def body_text_def)

section \<open>Every interleaving\<close>

definition ids_ok :: "colog \<Rightarrow> bool" where
  "ids_ok s \<longleftrightarrow> (\<forall>t i. cg_ids s t = Some i \<longrightarrow> i < cg_next s) \<and> inj_on (cg_ids s) (dom (cg_ids s))"

lemma ids_ok_took: "ids_ok s \<Longrightarrow> took_id t s s' \<Longrightarrow> ids_ok s' \<and> cg_ids s \<subseteq>\<^sub>m cg_ids s'"
proof (cases "cg_ids s t")
  case None
  assume ok: "ids_ok s" and "took_id t s s'"
  then have n: "cg_ids s' = (cg_ids s)(t \<mapsto> cg_next s)" "cg_next s' = cg_next s + 1" using None by (auto simp: took_id_def thread_id_def)
  have "Some (cg_next s) \<notin> cg_ids s ` dom (cg_ids s)" using ok by (force simp: ids_ok_def)
  with ok have "inj_on (cg_ids s') (dom (cg_ids s'))" unfolding n(1) ids_ok_def inj_on_def by (auto simp: image_iff)
  moreover have "\<forall>u j. cg_ids s' u = Some j \<longrightarrow> j < cg_next s'" using ok unfolding n ids_ok_def by (auto intro: less_imp_le)
  ultimately show ?thesis using None unfolding ids_ok_def n(1) by (auto simp: map_le_def)
qed (auto simp: took_id_def thread_id_def ids_ok_def)

text \<open>The lines of the calls in \<open>order\<close> are complete.\<close>

definition settled :: "nat \<Rightarrow> (nat \<times> log_call) list \<Rightarrow> colog \<Rightarrow> bool" where
  "settled attr order s \<longleftrightarrow> ids_ok s \<and> fst ` set order \<subseteq> dom (cg_ids s) \<and> view attr s = log_lines attr (cg_ids s) order \<and>
     colour_after attr (cg_out s) = colour_left attr order"

lemma settled_same_view: "settled attr order s \<Longrightarrow> same_view attr s s' \<Longrightarrow> settled attr order s'"
  unfolding settled_def same_view_def ids_ok_def by metis

lemma settled_call:
  assumes "settled attr order s" "cg_buf s = []"
  shows "settled attr (order @ [(t, c)]) (fold (cg_do t) (cg_ops c) s)"
proof -
  let ?s = "fold (cg_do t) (cg_ops c) s"
  have r: "view attr ?s = view attr s @ log_lines (colour_left attr order) (cg_ids ?s) [(t, c)]"
    "colour_after attr (cg_out ?s) = (case call_attr c of None \<Rightarrow> colour_left attr order | Some _ \<Rightarrow> 7)" "took_id t s ?s"
    using call_result [OF assms(2), of t c attr] assms(1) unfolding settled_def Let_def by (auto split: option.splits)
  have ids: "ids_ok ?s" "cg_ids s \<subseteq>\<^sub>m cg_ids ?s" using ids_ok_took [OF _ r(3)] assms(1) by (auto simp: settled_def)
  have "log_lines attr (cg_ids s) order = log_lines attr (cg_ids ?s) order"
    using ids(2) assms(1) by (intro log_lines_cong) (metis settled_def map_le_def subsetD)
  moreover have "fst ` set (order @ [(t, c)]) \<subseteq> dom (cg_ids ?s)"
    using assms(1) took_id_the [OF r(3)] map_le_implies_dom_le [OF ids(2)] unfolding settled_def by simp blast
  ultimately show ?thesis using assms(1) r(1,2) ids(1)
    unfolding settled_def log_lines_append colour_left_append by simp
qed

definition calls_of :: "nat \<Rightarrow> (nat \<times> log_call) list \<Rightarrow> log_call list" where
  "calls_of t order = map snd (filter (\<lambda>e. fst e = t) order)"

definition cg_inv :: "nat \<Rightarrow> log_call list list \<Rightarrow> (nat \<times> log_call) list \<Rightarrow> cg_sys \<Rightarrow> bool" where
  "cg_inv attr scripts order s \<longleftrightarrow> length (cs_threads s) = length scripts \<and>
     (\<forall>t < length scripts. calls_of t order @ snd (cs_threads s ! t) = scripts ! t) \<and>
     (\<forall>t < length scripts. Some t \<noteq> cg_lk (cs_log s) \<longrightarrow> fst (cs_threads s ! t) = None) \<and>
     (case cg_lk (cs_log s) of
        None \<Rightarrow> cg_buf (cs_log s) = [] \<and> settled attr order (cs_log s)
      | Some t \<Rightarrow> t < length scripts \<and> (\<exists>ops. fst (cs_threads s ! t) = Some ops \<and> colours_safe (cg_buf (cs_log s) = []) ops \<and>
          settled attr order (fold (cg_do t) ops (cs_log s))))"

lemma lock_do [simp]: "cg_lk (cg_do t op s) = cg_lk s" "cg_lk (drain k s) = cg_lk s"
  by (cases op; auto simp: cg_op_defs Let_def split: option.splits)+

lemma settled_lock [simp]: "settled attr order (s\<lparr>cg_lk := l\<rparr>) = settled attr order s"
  by (simp add: settled_def view_def ids_ok_def)

lemma cg_drain_inv: "cg_inv attr scripts order s \<Longrightarrow> cg_inv attr scripts order (cg_step (Drains k) s)"
  using settled_same_view [OF _ drain_same_view] settled_same_view [OF _ same_view_fold [OF drain_same_view _ colours_safe_drain]] colours_safe_drain
  by (fastforce simp: cg_inv_def drain_def split: option.splits)

lemma cg_run_inv:
  assumes "cg_inv attr scripts order s"
  shows "\<exists>order'. cg_inv attr scripts order' (cg_step (Runs t) s)"
proof (cases "t < length scripts \<and> (fst (cs_threads s ! t) \<noteq> None \<or> snd (cs_threads s ! t) \<noteq> [] \<and> cg_lk (cs_log s) = None)")
  case False
  then have "cg_step (Runs t) s = s" using assms
    by (cases "cs_threads s ! t") (auto simp: cg_inv_def split: option.splits list.splits)
  with assms show ?thesis by metis
next
  case True
  then have t: "t < length scripts" "length (cs_threads s) = length scripts" using assms by (auto simp: cg_inv_def)
  show ?thesis
  proof (cases "fst (cs_threads s ! t)")
    case None
    then obtain c cs where c: "cs_threads s ! t = (None, c # cs)" "cg_lk (cs_log s) = None" using True by (cases "cs_threads s ! t") (auto simp: neq_Nil_conv)
    let ?s = "s\<lparr>cs_log := (cs_log s)\<lparr>cg_lk := Some t\<rparr>, cs_threads := (cs_threads s)[t := (Some (cg_ops c), cs)]\<rparr>"
    have step: "cg_step (Runs t) s = ?s" using c t by simp
    have log: "settled attr (order @ [(t, c)]) (fold (cg_do t) (cg_ops c) ((cs_log s)\<lparr>cg_lk := Some t\<rparr>))"
      by (rule settled_call) (use assms c(2) in \<open>auto simp: cg_inv_def\<close>)
    moreover have "calls_of u (order @ [(t, c)]) @ snd (cs_threads ?s ! u) = scripts ! u" if "u < length scripts" for u
      using assms c(1) t that by (cases "u = t") (force simp: cg_inv_def calls_of_def)+
    ultimately have "cg_inv attr scripts (order @ [(t, c)]) ?s"
      using assms c(2) t cg_ops_safe [of c] unfolding cg_inv_def by (auto simp: nth_list_update)
    with step show ?thesis by metis
  next
    case (Some ops)
    then have lk: "cg_lk (cs_log s) = Some t" "colours_safe (cg_buf (cs_log s) = []) ops" "settled attr order (fold (cg_do t) ops (cs_log s))"
      using assms t by (auto simp: cg_inv_def split: option.splits)
    have "cg_inv attr scripts order (cg_step (Runs t) s)"
    proof (cases ops)
      case Nil
      then have "cg_step (Runs t) s = s\<lparr>cs_log := (cs_log s)\<lparr>cg_lk := None\<rparr>, cs_threads := (cs_threads s)[t := (None, snd (cs_threads s ! t))]\<rparr>"
        using Some t by (cases "cs_threads s ! t") simp
      then show ?thesis using assms lk t Nil unfolding cg_inv_def by (auto simp: nth_list_update)
    next
      case (Cons op rest)
      then have "cg_step (Runs t) s = s\<lparr>cs_log := cg_do t op (cs_log s), cs_threads := (cs_threads s)[t := (Some rest, snd (cs_threads s ! t))]\<rparr>"
        using Some t by (cases "cs_threads s ! t") simp
      then show ?thesis using assms lk t Cons colours_safe_do [of "cs_log s" op rest t] unfolding cg_inv_def by (auto simp: nth_list_update)
    qed
    then show ?thesis by blast
  qed
qed

lemma cg_runs_inv: "cg_inv attr scripts order s \<Longrightarrow> \<exists>order'. cg_inv attr scripts order' (fold cg_step evs s)"
proof (induction evs arbitrary: s order)
  case (Cons e evs)
  then have "\<exists>order'. cg_inv attr scripts order' (cg_step e s)" using cg_run_inv cg_drain_inv by (cases e) blast+
  with Cons.IH show ?case by auto
qed auto

lemma settled_shown:
  assumes "settled attr order s" shows "inj_on (cg_ids s) (fst ` set order)" "fst ` set order \<subseteq> dom (cg_ids s)"
  using assms by (auto simp: settled_def ids_ok_def intro: inj_on_subset)

text \<open>
  C40 (functional). Threads that log, in every interleaving of their steps around the lock and whenever the stream's buffer is written out, on a console of any
  colour: there is an order of the calls that keeps the order of each thread, such that what the console shows is a beginning of their lines in that order,
  and exactly these lines when no thread is inside a call. A line has the number of its thread, different ones for different
  threads, and the colour of its call: bright white (15), black on yellow (224) and on red (192) for highlights, warnings and errors, and the bright
  colours named by the others. After a coloured call the console is white on black.
\<close>

theorem colog_lines:
  "let s = fold cg_step evs (cg_start scripts); out = cg_out (cs_log s) in
     \<exists>order ids. (\<forall>t < length scripts. calls_of t order @ snd (cs_threads s ! t) = scripts ! t) \<and>
       inj_on ids (fst ` set order) \<and> fst ` set order \<subseteq> dom ids \<and> prefix (shown attr out) (log_lines attr ids order) \<and>
       (cg_lk (cs_log s) = None \<longrightarrow> shown attr out = log_lines attr ids order \<and> colour_after attr out = colour_left attr order)"
proof -
  let ?s = "fold cg_step evs (cg_start scripts)"
  have "cg_inv attr scripts [] (cg_start scripts)"
    by (simp add: cg_inv_def cg_start_def cg_new_def settled_def view_def ids_ok_def calls_of_def colour_left_def)
  then obtain order where inv: "cg_inv attr scripts order ?s" using cg_runs_inv by blast
  have calls: "\<forall>t < length scripts. calls_of t order @ snd (cs_threads ?s ! t) = scripts ! t" using inv by (simp add: cg_inv_def)
  show ?thesis
  proof (cases "cg_lk (cs_log ?s)")
    case None
    then have "cg_buf (cs_log ?s) = []" and s: "settled attr order (cs_log ?s)" using inv by (auto simp: cg_inv_def)
    then show ?thesis using calls settled_shown [OF s] unfolding Let_def
      by (intro exI [of _ order] exI [of _ "cg_ids (cs_log ?s)"]) (auto simp: settled_def view_def)
  next
    case (Some t)
    then obtain ops where ops: "colours_safe (cg_buf (cs_log ?s) = []) ops" "settled attr order (fold (cg_do t) ops (cs_log ?s))"
      using inv by (auto simp: cg_inv_def)
    have "prefix (shown attr (cg_out (cs_log ?s))) (view attr (cs_log ?s))" by (simp add: view_def)
    then have "prefix (shown attr (cg_out (cs_log ?s))) (view attr (fold (cg_do t) ops (cs_log ?s)))"
      using fold_view_prefix [OF ops(1)] prefix_order.trans by blast
    then show ?thesis using calls settled_shown [OF ops(2)] ops(2) Some unfolding Let_def settled_def
      by (intro exI [of _ order] exI [of _ "cg_ids (fold (cg_do t) ops (cs_log ?s))"]) auto
  qed
qed

text \<open>Two threads, the second one kept out by the lock until the first one is through; part of the first line is written out early.\<close>

definition demo_log :: "cg_event list" where
  "demo_log = map Runs [0, 0, 1, 0, 0, 1] @ [Drains 4] @ map Runs [0, 0, 0, 0, 1, 1, 1, 1, 1]"

theorem colog_lines_witness:
  "let s = fold cg_step demo_log (cg_start [[Warning [''low'']], [Shift ''ok'']]); out = cg_out (cs_log s) in
     cg_lk (cs_log s) = None \<and> map fst (shown 7 out) = ''[thread 0]low '' @ endl @ ''[thread 1]ok'' @ endl \<and>
     (\<exists>order ids. calls_of 0 order = [Warning [''low'']] \<and> calls_of 1 order = [Shift ''ok''] \<and> shown 7 out = log_lines 7 ids order)"
proof -
  let ?s = "fold cg_step demo_log (cg_start [[Warning [''low'']], [Shift ''ok'']])"
  have c: "cg_lk (cs_log ?s) = None" "map fst (shown 7 (cg_out (cs_log ?s))) = ''[thread 0]low '' @ endl @ ''[thread 1]ok'' @ endl"
    "snd (cs_threads ?s ! 0) = []" "snd (cs_threads ?s ! 1) = []" by code_simp+
  from colog_lines [of demo_log "[[Warning [''low'']], [Shift ''ok'']]" 7] obtain order ids where
    "\<forall>t < Suc (Suc 0). calls_of t order @ snd (cs_threads ?s ! t) = [[Warning [''low'']], [Shift ''ok'']] ! t"
    "shown 7 (cg_out (cs_log ?s)) = log_lines 7 ids order" using c(1) unfolding Let_def by auto
  moreover from this(1) have "calls_of 0 order = [Warning [''low'']]" "calls_of 1 order = [Shift ''ok'']"
    using c(3,4) by (auto dest: spec [of _ 0] spec [of _ 1])
  ultimately show ?thesis using c(1,2) unfolding Let_def by blast
qed

end
