(* ===== verification/Corand.thy ===== *)
theory Corand
  imports Complex_Main Protocol Fast_Queue_Props
begin

text \<open>
  \<open>Corand\<close> of \<open>corand.h\<close>. The generator and its seed are arguments: \<open>draw\<close> is \<open>double_dist_(gen_)\<close>, \<open>reseed\<close> is \<open>gen_.seed\<close>. Floating-point
  arithmetic is real arithmetic with a rounding after every operation, \<open>rnd\<close> for \<open>double\<close> and \<open>rndf\<close> for \<open>float\<close>; what
  the theorems need of them are the hypotheses \<open>rounds_ok\<close> and \<open>draws_ok\<close> below.
\<close>

section \<open>Operations\<close>

text \<open>Conversions truncate; out of range they are undefined.\<close>

definition truncate :: "real \<Rightarrow> int" where
  "truncate x = (if 0 \<le> x then \<lfloor>x\<rfloor> else \<lceil>x\<rceil>)"

definition to_unsigned :: "real \<Rightarrow> nat outcome" where
  "to_unsigned x = (let i = truncate x in if 0 \<le> i \<and> i < 2 ^ 32 then Value (nat i) else Undefined)"

definition to_int :: "real \<Rightarrow> int outcome" where
  "to_int x = (let i = truncate x in if - (2 ^ 31) \<le> i \<and> i < 2 ^ 31 then Value i else Undefined)"

definition cr_SetSeed :: "('s \<Rightarrow> 'g) \<Rightarrow> 's \<Rightarrow> 'g" where
  "cr_SetSeed reseed seed = reseed seed"

definition cr_Shuffle :: "('s \<Rightarrow> 'g) \<Rightarrow> ('w \<Rightarrow> 's \<times> 'w) \<Rightarrow> 'w \<Rightarrow> 'g \<times> 'w" where
  "cr_Shuffle reseed random_device w = (case random_device w of (s, w) \<Rightarrow> (reseed s, w))"

text \<open>An \<open>unsigned int\<close> is a natural number below \<open>2 ^ 32\<close>.\<close>

definition cr_UInt :: "('g \<Rightarrow> real \<times> 'g) \<Rightarrow> (real \<Rightarrow> real) \<Rightarrow> nat \<Rightarrow> 'g \<Rightarrow> nat outcome \<times> 'g" where
  "cr_UInt draw rnd mx g = (case draw g of (d, g) \<Rightarrow> (to_unsigned (rnd (d * real mx)), g))"

definition cr_Int :: "('g \<Rightarrow> real \<times> 'g) \<Rightarrow> (real \<Rightarrow> real) \<Rightarrow> int \<Rightarrow> 'g \<Rightarrow> int outcome \<times> 'g" where
  "cr_Int draw rnd mx g = (case draw g of (d, g) \<Rightarrow> (to_int (rnd (rnd (rnd (d * 2) - 1) * of_int mx)), g))"

definition cr_UFloat :: "('g \<Rightarrow> real \<times> 'g) \<Rightarrow> (real \<Rightarrow> real) \<Rightarrow> 'g \<Rightarrow> real \<times> 'g" where
  "cr_UFloat draw rndf g = (case draw g of (d, g) \<Rightarrow> (rndf d, g))"

definition cr_Float :: "('g \<Rightarrow> real \<times> 'g) \<Rightarrow> (real \<Rightarrow> real) \<Rightarrow> (real \<Rightarrow> real) \<Rightarrow> 'g \<Rightarrow> real \<times> 'g" where
  "cr_Float draw rnd rndf g = (case draw g of (d, g) \<Rightarrow> (rndf (rnd (rnd (d * 2) - 1)), g))"

definition cr_Bool :: "('g \<Rightarrow> real \<times> 'g) \<Rightarrow> 'g \<Rightarrow> bool \<times> 'g" where
  "cr_Bool draw g = (case draw g of (d, g) \<Rightarrow> (1 / 2 < d, g))"

text \<open>The number that \<open>NumericString\<close> appends, computed in \<open>float\<close>.\<close>

definition cr_number :: "('g \<Rightarrow> real \<times> 'g) \<Rightarrow> (real \<Rightarrow> real) \<Rightarrow> 'g \<Rightarrow> nat outcome \<times> 'g" where
  "cr_number draw rndf g = (case cr_UFloat draw rndf g of (u, g) \<Rightarrow> (to_unsigned (rndf (rndf (rndf (u * 9) + 1) * 10000)), g))"

text \<open>\<open>NumericString\<close>, over the numbers drawn. The size is compared as a \<open>size_t\<close>.\<close>

function numeric_loop :: "('g \<Rightarrow> nat outcome \<times> 'g) \<Rightarrow> nat \<Rightarrow> string \<Rightarrow> 'g \<Rightarrow> (string \<times> 'g) outcome" where
  "numeric_loop number digit ret g =
     (if length ret < digit then
        (case number g of (r, g) \<Rightarrow> (case r of Undefined \<Rightarrow> Undefined | Value x \<Rightarrow> numeric_loop number digit (ret @ show_nat x) g))
      else Value (ret, g))"
  by pat_completeness auto
termination
  by (relation "measure (\<lambda>(number, digit, ret, g). digit - length ret)") (auto intro: diff_less_mono2 simp: show_nat_digits)

declare numeric_loop.simps [simp del]

definition NumericString :: "('g \<Rightarrow> real \<times> 'g) \<Rightarrow> (real \<Rightarrow> real) \<Rightarrow> int \<Rightarrow> 'g \<Rightarrow> (string \<times> 'g) outcome" where
  "NumericString draw rndf digit g = obind (numeric_loop (cr_number draw rndf) (size_t_of_int digit) [] g) (\<lambda>(ret, g).
     Value (take (size_t_of_int digit) ret, g))"

section \<open>What is relied on\<close>

text \<open>
  A rounding with unit \<open>u\<close>: it is monotone, exact on the integers up to \<open>1 / u\<close>, keeps what is already representable when it is doubled, and its relative error is at most
  \<open>u\<close> away from the very small numbers, which do not occur here. \<open>1 / 2 ^ 53\<close> for \<open>double\<close> and \<open>1 / 2 ^ 24\<close> for \<open>float\<close>, in every rounding to nearest.
\<close>

definition rounds_ok :: "real \<Rightarrow> (real \<Rightarrow> real) \<Rightarrow> bool" where
  "rounds_ok u rnd \<longleftrightarrow> mono rnd \<and> (\<forall>i :: int. \<bar>of_int i\<bar> \<le> 1 / u \<longrightarrow> rnd (of_int i) = of_int i) \<and>
     (\<forall>x. rnd x = x \<and> \<bar>x\<bar> \<le> 1 \<longrightarrow> rnd (2 * x) = 2 * x) \<and>
     (\<forall>x. 1 / 2 ^ 100 \<le> \<bar>x\<bar> \<and> \<bar>x\<bar> \<le> 2 ^ 100 \<longrightarrow> \<bar>rnd x - x\<bar> \<le> u * \<bar>x\<bar>)"

text \<open>The distribution gives a \<open>double\<close> below 1, and 0 is the only one that is very small.\<close>

definition draws_ok :: "('g \<Rightarrow> real \<times> 'g) \<Rightarrow> (real \<Rightarrow> real) \<Rightarrow> bool" where
  "draws_ok draw rnd \<longleftrightarrow> (\<forall>g d g'. draw g = (d, g') \<longrightarrow> rnd d = d \<and> 0 \<le> d \<and> d \<le> 1 - 1 / 2 ^ 53 \<and> (d = 0 \<or> 1 / 2 ^ 64 \<le> d))"

abbreviation eps :: real where "eps \<equiv> 1 / 2 ^ 53"

lemma rounds_okD:
  assumes "rounds_ok u rnd"
  shows "x \<le> y \<Longrightarrow> rnd x \<le> rnd y" "\<bar>of_int i\<bar> \<le> 1 / u \<Longrightarrow> rnd (of_int i) = of_int i"
    "rnd x = x \<Longrightarrow> \<bar>x\<bar> \<le> 1 \<Longrightarrow> rnd (2 * x) = 2 * x"
    "1 / 2 ^ 100 \<le> \<bar>x\<bar> \<Longrightarrow> \<bar>x\<bar> \<le> 2 ^ 100 \<Longrightarrow> \<bar>rnd x - x\<bar> \<le> u * \<bar>x\<bar>"
  using assms by (auto simp: rounds_ok_def mono_def)

text \<open>A product of a number below 1 stays below the other factor.\<close>

lemma round_below:
  assumes "rounds_ok eps rnd" "x \<le> (1 - eps) * m" "0 < m" "1 / 2 ^ 100 \<le> x" "x \<le> 2 ^ 100"
  shows "rnd x < m"
proof -
  have pos: "0 < x" using assms(4) by (simp add: less_le_trans [OF _ assms(4)])
  then have "\<bar>rnd x - x\<bar> \<le> eps * x" using rounds_okD(4) [OF assms(1), of x] assms(4,5) by simp
  then have "rnd x \<le> x + eps * x" by linarith
  also have "\<dots> = (1 + eps) * x" by (simp add: algebra_simps)
  also have "\<dots> \<le> (1 + eps) * ((1 - eps) * m)" using assms(2) by (intro mult_left_mono) auto
  also have "\<dots> < m" using assms(3) by (simp add: algebra_simps)
  finally show ?thesis .
qed

lemma round_nonneg: "rounds_ok u rnd \<Longrightarrow> 0 < u \<Longrightarrow> 0 \<le> x \<Longrightarrow> 0 \<le> rnd x"
  using rounds_okD(1) [of u rnd 0 x] rounds_okD(2) [of u rnd 0] by simp

lemma round_le: "rounds_ok u rnd \<Longrightarrow> x \<le> of_int i \<Longrightarrow> \<bar>of_int i\<bar> \<le> 1 / u \<Longrightarrow> rnd x \<le> of_int i"
  using rounds_okD(1) [of u rnd x "of_int i"] rounds_okD(2) [of u rnd i] by simp

lemma round_ge: "rounds_ok u rnd \<Longrightarrow> of_int i \<le> x \<Longrightarrow> \<bar>of_int i\<bar> \<le> 1 / u \<Longrightarrow> of_int i \<le> rnd x"
  using rounds_okD(1) [of u rnd "of_int i" x] rounds_okD(2) [of u rnd i] by simp

lemma draws_okD:
  assumes "draws_ok draw rnd" "draw g = (d, g')"
  shows "rnd d = d" "0 \<le> d" "d \<le> 1 - eps" "d \<noteq> 0 \<Longrightarrow> 1 / 2 ^ 64 \<le> d"
  using assms by (auto simp: draws_ok_def)

section \<open>The ranges\<close>

lemma UInt_range:
  assumes "rounds_ok eps rnd" "draws_ok draw rnd" "mx < 2 ^ 32"
  shows "\<exists>v. fst (cr_UInt draw rnd mx g) = Value v \<and> (if mx = 0 then v = 0 else v < mx)"
proof -
  obtain d g' where d: "draw g = (d, g')" by fastforce
  note dd = draws_okD [OF assms(2) d]
  let ?m = "real mx" and ?x = "rnd (d * real mx)"
  have nn: "0 \<le> ?x" using round_nonneg [OF assms(1), of "d * ?m"] dd(2) by simp
  have r0: "rnd 0 = 0" using rounds_okD(2) [OF assms(1), of 0] by simp
  show ?thesis
  proof (cases "mx = 0 \<or> d = 0")
    case True
    then have "fst (cr_UInt draw rnd mx g) = Value 0" using d r0 by (auto simp: cr_UInt_def to_unsigned_def truncate_def)
    then show ?thesis by simp
  next
    case False
    then have m: "1 \<le> ?m" "?m < 2 ^ 32" using of_nat_less_iff [of mx "2 ^ 32", where 'a = real] assms(3) by simp_all
    have "?x < ?m"
    proof (rule round_below [OF assms(1)])
      show "d * ?m \<le> (1 - eps) * ?m" using dd(3) by (intro mult_right_mono) auto
      have "1 / 2 ^ 64 * 1 \<le> d * ?m" using dd(4) False m by (intro mult_mono) auto
      then show "1 / 2 ^ 100 \<le> d * ?m" by simp
      have "d * ?m \<le> 1 * 2 ^ 32" using dd(2,3) m by (intro mult_mono) auto
      then show "d * ?m \<le> 2 ^ 100" by simp
    qed (use m in simp)
    then have fl: "\<lfloor>?x\<rfloor> < int mx" by (simp add: floor_less_iff)
    moreover have "int mx < 2 ^ 32" using of_nat_less_iff [of mx "2 ^ 32", where 'a = int] assms(3) by simp
    ultimately have "nat \<lfloor>?x\<rfloor> < mx" "\<lfloor>?x\<rfloor> < 2 ^ 32" using False by linarith+
    then have "to_unsigned ?x = Value (nat \<lfloor>?x\<rfloor>) \<and> nat \<lfloor>?x\<rfloor> < mx"
      using nn by (simp only: to_unsigned_def truncate_def Let_def if_True zero_le_floor simp_thms)
    then show ?thesis using d False by (auto simp: cr_UInt_def)
  qed
qed

lemma Int_range:
  assumes "rounds_ok eps rnd" "draws_ok draw rnd" "0 < mx" "mx < 2 ^ 31"
  shows "\<exists>v. fst (cr_Int draw rnd mx g) = Value v \<and> - mx \<le> v \<and> v < mx"
proof -
  obtain d g' where d: "draw g = (d, g')" by fastforce
  note dd = draws_okD [OF assms(2) d]
  let ?m = "of_int mx :: real" and ?y = "rnd (rnd (d * 2) - 1)"
  let ?x = "rnd (?y * ?m)"
  have m: "1 \<le> ?m" "?m < 2 ^ 31" using assms(3,4) of_int_less_iff [of mx "2 ^ 31", where 'a = real] by simp_all
  have two: "rnd (d * 2) = 2 * d" using rounds_okD(3) [OF assms(1) dd(1)] dd(2,3) by (simp add: mult.commute)
  have lo: "- 1 \<le> ?y" using round_ge [OF assms(1), of "- 1" "rnd (d * 2) - 1"] dd(2) two by simp
  have low: "- ?m \<le> ?x"
  proof -
    have "- 1 * ?m \<le> ?y * ?m" using lo m by (intro mult_right_mono) auto
    then show ?thesis using round_ge [OF assms(1), of "- mx" "?y * ?m"] m by simp
  qed
  have half: "\<bar>rnd (1 / 2) - 1 / 2\<bar> \<le> eps * (1 / 2)" using rounds_okD(4) [OF assms(1), of "1 / 2"] by simp
  have hi: "?x < ?m"
  proof (cases "?y \<le> 0")
    case True
    then have "?y * ?m \<le> 0" using m by (simp add: mult_nonpos_nonneg)
    then show ?thesis using round_le [OF assms(1), of "?y * ?m" 0] m by simp
  next
    case False
    have "?y \<le> 1 - eps"
    proof (cases "1 / 2 ^ 100 \<le> 2 * d - 1")
      case True
      then have "\<bar>?y - (2 * d - 1)\<bar> \<le> eps * (2 * d - 1)" using rounds_okD(4) [OF assms(1), of "2 * d - 1"] dd(3) two by simp
      then have "?y \<le> (2 * d - 1) + eps * (2 * d - 1)" by linarith
      then have "?y \<le> (1 + eps) * (2 * d - 1)" by (simp only: distrib_right [of 1] mult_1)
      also have "\<dots> \<le> (1 + eps) * (1 - 2 * eps)" using dd(3) by (intro mult_left_mono) auto
      finally show ?thesis by simp
    next
      case False
      then have "?y \<le> rnd (1 / 2)" using two by (intro rounds_okD(1) [OF assms(1)]) simp
      also have "\<dots> \<le> 1 / 2 + eps * (1 / 2)" using half by linarith
      finally show ?thesis by simp
    qed
    show ?thesis
    proof (cases "1 / 2 ^ 100 \<le> ?y * ?m")
      case True
      have "?y * ?m \<le> 1 * 2 ^ 31" using \<open>?y \<le> 1 - eps\<close> m by (intro mult_mono) auto
      then show ?thesis using \<open>?y \<le> 1 - eps\<close> m True by (intro round_below [OF assms(1)] mult_right_mono) auto
    next
      case False
      then have "?x \<le> rnd (1 / 2)" by (intro rounds_okD(1) [OF assms(1)]) simp
      also have "\<dots> \<le> 1 / 2 + eps * (1 / 2)" using half by linarith
      also have "\<dots> < 1" by simp
      finally show ?thesis using m by simp
    qed
  qed
  have "- mx \<le> truncate ?x \<and> truncate ?x < mx"
  proof (cases "0 \<le> ?x")
    case True
    then have "truncate ?x = \<lfloor>?x\<rfloor>" "0 \<le> \<lfloor>?x\<rfloor>" "\<lfloor>?x\<rfloor> < mx" using hi by (simp_all add: truncate_def floor_less_iff)
    then show ?thesis using assms(3) by linarith
  next
    case False
    then have "truncate ?x = \<lceil>?x\<rceil>" "\<lceil>?x\<rceil> \<le> 0" "- mx \<le> \<lceil>?x\<rceil>" using low by (simp_all add: truncate_def ceiling_le_iff) (simp add: le_ceiling_iff)
    then show ?thesis using assms(3) by linarith
  qed
  then have "to_int ?x = Value (truncate ?x)" using assms(4) by (simp add: to_int_def Let_def)
  then show ?thesis using d \<open>- mx \<le> truncate ?x \<and> truncate ?x < mx\<close> by (simp add: cr_Int_def)
qed

lemma UFloat_range:
  assumes "rounds_ok (1 / 2 ^ 24) rndf" "draws_ok draw rnd"
  shows "0 \<le> fst (cr_UFloat draw rndf g) \<and> fst (cr_UFloat draw rndf g) \<le> 1"
proof -
  obtain d g' where d: "draw g = (d, g')" by fastforce
  note dd = draws_okD [OF assms(2) d]
  show ?thesis using round_ge [OF assms(1), of 0 d] round_le [OF assms(1), of d 1] dd(2,3) d by (simp add: cr_UFloat_def)
qed

lemma Float_range:
  assumes "rounds_ok eps rnd" "rounds_ok (1 / 2 ^ 24) rndf" "draws_ok draw rnd"
  shows "- 1 \<le> fst (cr_Float draw rnd rndf g) \<and> fst (cr_Float draw rnd rndf g) \<le> 1"
proof -
  obtain d g' where d: "draw g = (d, g')" by fastforce
  note dd = draws_okD [OF assms(3) d]
  let ?t = "rnd (d * 2)"
  have t: "0 \<le> ?t" "?t \<le> 2" using round_ge [OF assms(1), of 0 "d * 2"] round_le [OF assms(1), of "d * 2" 2] dd(2,3) by simp_all
  have y: "- 1 \<le> rnd (?t - 1)" "rnd (?t - 1) \<le> 1"
    using round_ge [OF assms(1), of "- 1" "?t - 1"] round_le [OF assms(1), of "?t - 1" 1] t by simp_all
  show ?thesis
    using round_ge [OF assms(2), of "- 1" "rnd (?t - 1)"] round_le [OF assms(2), of "rnd (?t - 1)" 1] y d by (simp add: cr_Float_def)
qed

text \<open>The numbers \<open>NumericString\<close> appends have five digits, or are 100000.\<close>

lemma number_range:
  assumes "rounds_ok (1 / 2 ^ 24) rndf" "draws_ok draw rnd"
  shows "\<exists>v g'. cr_number draw rndf g = (Value v, g') \<and> 10000 \<le> v \<and> v \<le> 100000"
proof -
  obtain u g' where u: "cr_UFloat draw rndf g = (u, g')" by fastforce
  then have r: "0 \<le> u" "u \<le> 1" using UFloat_range [OF assms, of g] by simp_all
  let ?a = "rndf (u * 9)"
  let ?b = "rndf (?a + 1)"
  let ?x = "rndf (?b * 10000)"
  have "0 \<le> ?a" "?a \<le> 9" using round_ge [OF assms(1), of 0 "u * 9"] round_le [OF assms(1), of "u * 9" 9] r by simp_all
  then have "1 \<le> ?b" "?b \<le> 10" using round_ge [OF assms(1), of 1 "?a + 1"] round_le [OF assms(1), of "?a + 1" 10] by simp_all
  then have x: "10000 \<le> ?x" "?x \<le> 100000"
    using round_ge [OF assms(1), of 10000 "?b * 10000"] round_le [OF assms(1), of "?b * 10000" 100000] by simp_all
  then have f: "10000 \<le> \<lfloor>?x\<rfloor>" "\<lfloor>?x\<rfloor> \<le> 100000" by (simp_all add: le_floor_iff floor_le_iff)
  then have "to_unsigned ?x = Value (nat \<lfloor>?x\<rfloor>)" using x by (simp add: to_unsigned_def truncate_def Let_def)
  moreover have "10000 \<le> nat \<lfloor>?x\<rfloor> \<and> nat \<lfloor>?x\<rfloor> \<le> 100000" using f by linarith
  ultimately show ?thesis using u by (simp add: cr_number_def)
qed

lemma numeric_loop_digits:
  assumes num: "\<And>g. \<exists>v g'. number g = (Value v, g')"
  shows "set ret \<subseteq> set ''0123456789'' \<Longrightarrow>
    \<exists>out g'. numeric_loop number digit ret g = Value (out, g') \<and> digit \<le> length out \<and> set out \<subseteq> set ''0123456789''"
proof (induction "digit - length ret" arbitrary: ret g rule: less_induct)
  case less
  obtain v g' where v: "number g = (Value v, g')" using num by blast
  show ?case
  proof (cases "length ret < digit")
    case True
    then have eq: "numeric_loop number digit ret g = numeric_loop number digit (ret @ show_nat v) g'"
      using v by (subst numeric_loop.simps) simp
    have "digit - length (ret @ show_nat v) < digit - length ret" using True show_nat_digits [of v] by (auto intro: diff_less_mono2)
    then show ?thesis unfolding eq using less.prems show_nat_digits [of v] by (intro less.hyps) auto
  next
    case False
    then have "numeric_loop number digit ret g = Value (ret, g)" by (subst numeric_loop.simps) simp
    then show ?thesis using False less.prems by simp
  qed
qed

lemma NumericString_digits:
  assumes "rounds_ok (1 / 2 ^ 24) rndf" "draws_ok draw rnd" "0 \<le> digit" "digit < 2 ^ 31"
  shows "\<exists>out g'. NumericString draw rndf digit g = Value (out, g') \<and> length out = nat digit \<and> set out \<subseteq> set ''0123456789''"
proof -
  have "\<exists>v g'. cr_number draw rndf g = (Value v, g')" for g using number_range [OF assms(1,2)] by blast
  from numeric_loop_digits [of "cr_number draw rndf", OF this, where ret = "[]" and digit = "nat digit" and g = g] obtain out g'
    where o: "numeric_loop (cr_number draw rndf) (nat digit) [] g = Value (out, g')" "nat digit \<le> length out" "set out \<subseteq> set ''0123456789''"
    by auto
  then have "NumericString draw rndf digit g = Value (take (nat digit) out, g')" using assms(3,4) by (simp add: NumericString_def)
  then show ?thesis using o(2,3) set_take_subset [of "nat digit" out] by auto
qed

text \<open>
  A negative \<open>digit\<close> is compared with the size after its conversion to \<open>size_t\<close>: what the loop asks for is at least \<open>2 ^ 63\<close> characters, not none.
\<close>

lemma negative_digits: "- (2 ^ 31) \<le> digit \<Longrightarrow> digit < 0 \<Longrightarrow> 2 ^ 63 \<le> size_t_of_int digit"
proof -
  assume d: "- (2 ^ 31) \<le> digit" "digit < 0"
  have "digit mod 2 ^ 64 = (digit + 2 ^ 64) mod 2 ^ 64" by simp
  also have "\<dots> = digit + 2 ^ 64" using d by (intro mod_pos_pos_trivial) auto
  finally show ?thesis using d by (simp add: size_t_of_int_def)
qed

text \<open>
  The largest value the distribution gives is below 1, and the \<open>float\<close> next to it is 1: then \<open>UFloat\<close> returns 1 and six digits are appended, where the
  comment says five.
\<close>

lemma number_six_digits:
  assumes "rounds_ok (1 / 2 ^ 24) rndf" "draw g = (1 - eps, g')" "rndf (1 - eps) = 1"
  shows "cr_number draw rndf g = (Value 100000, g')" "length (show_nat 100000) = 6"
proof -
  have r: "rndf 9 = 9" "rndf 10 = 10" "rndf 100000 = 100000"
    using rounds_okD(2) [OF assms(1), of 9] rounds_okD(2) [OF assms(1), of 10] rounds_okD(2) [OF assms(1), of 100000] by simp_all
  have "cr_UFloat draw rndf g = (1, g')" using assms(2,3) by (simp only: cr_UFloat_def prod.case)
  then show "cr_number draw rndf g = (Value 100000, g')" using r by (simp add: cr_number_def to_unsigned_def truncate_def)
  show "length (show_nat 100000) = 6" by (simp add: show_nat.simps)
qed

section \<open>The start of a scan\<close>

text \<open>\<open>pop_hard\<close> of \<open>fast_queue.h\<close> with the draw of its start index; the number of queues becomes an \<open>unsigned int\<close>.\<close>

definition fq_pop_hard_drawn ::
  "('g \<Rightarrow> real \<times> 'g) \<Rightarrow> (real \<Rightarrow> real) \<Rightarrow> 'a fast_queue \<Rightarrow> 'g \<Rightarrow> ('a option \<times> 'a fast_queue \<times> 'g) outcome" where
  "fq_pop_hard_drawn draw rnd q g =
     (case cr_UInt draw rnd (nat (ps_size (fq_QueueList q) mod 2 ^ 32)) g of (middle, g) \<Rightarrow>
        obind middle (\<lambda>middle. obind (fq_pop_hard q middle) (\<lambda>(r, q). Value (r, q, g))))"

text \<open>The drawn index is one that the scan covers completely, so the specification of \<open>pop_hard\<close> holds with no condition on the index.\<close>

lemma fq_pop_hard_drawn_spec:
  assumes "rounds_ok eps rnd" "draws_ok draw rnd" "fq_wf q" "length (fq_heap q) \<le> kQueueMaxCount"
  shows "\<exists>r q' g'. fq_pop_hard_drawn draw rnd q g = Value (r, q', g') \<and> fq_wf q' \<and> fq_frame q q' \<and>
    scan_result {..<length (fq_heap q)} (fq_view q) r (fq_view q')"
proof -
  let ?n = "length (fq_heap q)"
  have n: "nat (ps_size (fq_QueueList q) mod 2 ^ 32) = ?n" "?n < 2 ^ 32"
    using assms(3,4) by (simp_all add: fq_size kQueueMaxCount_def)
  obtain v where v: "fst (cr_UInt draw rnd ?n g) = Value v" "v < max 1 ?n"
    using UInt_range [OF assms(1,2) n(2), of g] by (auto split: if_split_asm)
  from fq_pop_hard_result [OF assms(3,4) v(2)] v(1) show ?thesis
    unfolding fq_pop_hard_drawn_def n(1) by (cases "cr_UInt draw rnd ?n g") auto
qed

section \<open>The property\<close>

text \<open>
  C31 (bounds). With a generator that draws doubles of \<open>[0, 1)\<close> and arithmetic that rounds to nearest, every operation of \<open>Corand\<close> is defined and in its range, whatever the
  state of the generator: \<open>UInt(max)\<close> is below a positive \<open>max\<close> (the rounding of the product never reaches it), \<open>Int(max)\<close> is at least \<open>-max\<close> and below \<open>max\<close>,
  \<open>UFloat\<close> and \<open>Float\<close> are within 0 and 1 and within -1 and 1, and \<open>NumericString(n)\<close> is \<open>n\<close> decimal digits.
\<close>

theorem corand_ranges:
  assumes "rounds_ok eps rnd" "rounds_ok (1 / 2 ^ 24) rndf" "draws_ok draw rnd"
  shows "(0 < mx \<and> mx < 2 ^ 32 \<longrightarrow> (\<exists>v. fst (cr_UInt draw rnd mx g) = Value v \<and> v < mx)) \<and>
    (0 < m \<and> m < 2 ^ 31 \<longrightarrow> (\<exists>v. fst (cr_Int draw rnd m g) = Value v \<and> - m \<le> v \<and> v < m)) \<and>
    0 \<le> fst (cr_UFloat draw rndf g) \<and> fst (cr_UFloat draw rndf g) \<le> 1 \<and>
    - 1 \<le> fst (cr_Float draw rnd rndf g) \<and> fst (cr_Float draw rnd rndf g) \<le> 1 \<and>
    (0 \<le> digit \<and> digit < 2 ^ 31 \<longrightarrow>
       (\<exists>out g'. NumericString draw rndf digit g = Value (out, g') \<and> length out = nat digit \<and> set out \<subseteq> set ''0123456789''))"
  using UInt_range [OF assms(1,3), of mx g] Int_range [OF assms(1,3), of m g] UFloat_range [OF assms(2,3), of g]
    Float_range [OF assms, of g] NumericString_digits [OF assms(2,3), of digit g]
  by auto

text \<open>An exact arithmetic and the generator that always draws 3/4.\<close>

theorem corand_ranges_witness:
  "(\<exists>v. fst (cr_UInt (Pair (3 / 4)) (\<lambda>x. x) 6 ()) = Value v \<and> v < 6) \<and>
    (\<exists>v. fst (cr_Int (Pair (3 / 4)) (\<lambda>x. x) 6 ()) = Value v \<and> - 6 \<le> v \<and> v < 6) \<and>
    (\<exists>out g'. NumericString (Pair (3 / 4)) (\<lambda>x. x) 7 () = Value (out, g') \<and> length out = 7 \<and> set out \<subseteq> set ''0123456789'')"
proof -
  have r: "rounds_ok u (\<lambda>x. x)" if "0 < u" for u using that by (simp add: rounds_ok_def mono_def)
  have d: "draws_ok (Pair (3 / 4)) (\<lambda>x. x)" by (simp add: draws_ok_def)
  show ?thesis using corand_ranges [OF r r d, where mx = 6 and m = 6 and g = "()" and digit = 7] by simp
qed

end
