(* ===== verification/Cotimer.thy ===== *)
theory Cotimer
  imports Protocol
begin

text \<open>
  \<open>cotimer.h\<close>: a stop-watch whose two time points are thread-local variables of a function, initialised when a thread
  first gets there, and the date as text. The clock is the sequence of the values it shows, \<open>clock k\<close> at the \<open>k\<close>-th reading by whatever thread;
  \<open>localtime_s\<close> is an argument, with \<open>None\<close> for its failure. A time that has passed is a number of ticks of the clock; its conversion to seconds in a \<open>double\<close> is left out.
\<close>

section \<open>The stop-watch\<close>

record cotimer =
  ct_readings :: nat
  ct_points :: "nat \<Rightarrow> (int \<times> int) option"

definition ct_now :: "(nat \<Rightarrow> int) \<Rightarrow> cotimer \<Rightarrow> int \<times> cotimer" where
  "ct_now clock c = (clock (ct_readings c), c\<lparr>ct_readings := Suc (ct_readings c)\<rparr>)"

definition ct_variables :: "(nat \<Rightarrow> int) \<Rightarrow> nat \<Rightarrow> cotimer \<Rightarrow> (int \<times> int) \<times> cotimer" where
  "ct_variables clock th c = (case ct_points c th of
     Some v \<Rightarrow> (v, c)
   | None \<Rightarrow> (case ct_now clock c of (start_, c) \<Rightarrow> case ct_now clock c of (end_, c) \<Rightarrow>
       ((start_, end_), c\<lparr>ct_points := (ct_points c)(th \<mapsto> (start_, end_))\<rparr>)))"

definition ct_start :: "(nat \<Rightarrow> int) \<Rightarrow> nat \<Rightarrow> cotimer \<Rightarrow> cotimer" where
  "ct_start clock th c = (case ct_now clock c of (t, c) \<Rightarrow> case ct_variables clock th c of ((_, b), c) \<Rightarrow>
     c\<lparr>ct_points := (ct_points c)(th \<mapsto> (t, b))\<rparr>)"

definition ct_end :: "(nat \<Rightarrow> int) \<Rightarrow> nat \<Rightarrow> cotimer \<Rightarrow> int \<times> cotimer" where
  "ct_end clock th c = (case ct_variables clock th c of ((a, _), c) \<Rightarrow> case ct_now clock c of (b, c) \<Rightarrow>
     (b - a, c\<lparr>ct_points := (ct_points c)(th \<mapsto> (a, b))\<rparr>))"

definition ct_new :: cotimer where
  "ct_new = \<lparr>ct_readings = 0, ct_points = (\<lambda>_. None)\<rparr>"

text \<open>Calls of several threads, in the order in which they happen.\<close>

datatype ct_op = Ct_start nat | Ct_end nat

fun ct_run :: "(nat \<Rightarrow> int) \<Rightarrow> ct_op list \<Rightarrow> cotimer \<Rightarrow> int list \<times> cotimer" where
  "ct_run clock [] c = ([], c)"
| "ct_run clock (Ct_start th # ops) c = ct_run clock ops (ct_start clock th c)"
| "ct_run clock (Ct_end th # ops) c = (case ct_end clock th c of (e, c) \<Rightarrow> case ct_run clock ops c of (es, c) \<Rightarrow> (e # es, c))"

lemma ct_variables_other: "th' \<noteq> th \<Longrightarrow> ct_points (snd (ct_variables clock th c)) th' = ct_points c th'"
  by (auto simp: ct_variables_def ct_now_def split: option.splits)

lemma ct_variables_readings: "ct_readings c \<le> ct_readings (snd (ct_variables clock th c))"
  by (auto simp: ct_variables_def ct_now_def split: option.splits)

lemma ct_start_points: "map_option fst (ct_points (ct_start clock th c) th') =
    (if th' = th then Some (clock (ct_readings c)) else map_option fst (ct_points c th'))"
  using ct_variables_other [of th' th clock "snd (ct_now clock c)"] by (auto simp: ct_start_def ct_now_def split: prod.splits)

lemma ct_start_readings: "ct_readings c < ct_readings (ct_start clock th c)"
  using ct_variables_readings [of "snd (ct_now clock c)" clock th] by (auto simp: ct_start_def ct_now_def split: prod.splits)

text \<open>Once a thread has a starting point, only its own \<open>start\<close> moves it.\<close>

lemma ct_end_spec:
  assumes "map_option fst (ct_points c th) = Some a"
  shows "fst (ct_end clock th c) = clock (ct_readings c) - a" "map_option fst (ct_points (snd (ct_end clock th c)) th) = Some a"
    "ct_readings (snd (ct_end clock th c)) = Suc (ct_readings c)"
  using assms by (auto simp: ct_end_def ct_variables_def ct_now_def)

lemma ct_end_other:
  "th' \<noteq> th \<Longrightarrow> map_option fst (ct_points (snd (ct_end clock th c)) th') = map_option fst (ct_points c th')"
  "ct_readings c < ct_readings (snd (ct_end clock th c))"
  using ct_variables_other [of th' th clock c] ct_variables_readings [of c clock th] by (auto simp: ct_end_def ct_now_def split: prod.splits)

lemma ct_run_keeps:
  assumes "Ct_start th \<notin> set ops" "map_option fst (ct_points c th) = Some a"
  shows "map_option fst (ct_points (snd (ct_run clock ops c)) th) = Some a \<and> ct_readings c \<le> ct_readings (snd (ct_run clock ops c))"
  using assms
proof (induction clock ops c rule: ct_run.induct)
  case (2 clock th' ops c)
  then show ?case using ct_start_points [of clock th' c th] ct_start_readings [of c clock th'] by force
next
  case (3 clock th' ops c)
  obtain e c1 where e: "ct_end clock th' c = (e, c1)" by (cases "ct_end clock th' c")
  have "map_option fst (ct_points c1 th) = Some a" "ct_readings c < ct_readings c1"
    using e 3(3) ct_end_other(1) [of th th' clock c] ct_end_other(2) [of c clock th'] ct_end_spec(2) [of c th a clock] by (cases "th' = th"; force)+
  with 3(1,2) e show ?case by (fastforce split: prod.splits)
qed simp

text \<open>
  C39 (functional). \<open>end\<close> gives the time from the last \<open>start\<close> of the same thread to now, whatever the other threads do with the timer
  meanwhile and however often the thread itself has called \<open>end\<close>; it is not negative if the clock never goes back.
\<close>

theorem cotimer_elapsed:
  assumes "Ct_start th \<notin> set ops" "c' = snd (ct_run clock ops (ct_start clock th c))"
  shows "fst (ct_end clock th c') = clock (ct_readings c') - clock (ct_readings c) \<and> (mono clock \<longrightarrow> 0 \<le> fst (ct_end clock th c'))"
proof -
  have a: "map_option fst (ct_points (ct_start clock th c) th) = Some (clock (ct_readings c))" by (simp add: ct_start_points)
  note r = ct_run_keeps [OF assms(1) a, of clock, folded assms(2)]
  have "ct_readings c \<le> ct_readings c'" using r ct_start_readings [of c clock th] by simp
  then show ?thesis using ct_end_spec(1) [of c' th _ clock] r by (auto simp: mono_def)
qed

theorem cotimer_elapsed_witness:
  "fst (ct_end (\<lambda>k. 10 * int k) 1 (snd (ct_run (\<lambda>k. 10 * int k) [Ct_start 2, Ct_end 1, Ct_end 2] (ct_start (\<lambda>k. 10 * int k) 1 ct_new)))) = 80"
proof -
  let ?c = "\<lambda>k. 10 * int k"
  have "Ct_start 1 \<notin> set [Ct_start 2, Ct_end 1, Ct_end 2]" by simp
  from cotimer_elapsed [OF this refl, of ?c ct_new]
  have "fst (ct_end ?c 1 (snd (ct_run ?c [Ct_start 2, Ct_end 1, Ct_end 2] (ct_start ?c 1 ct_new)))) =
    ?c (ct_readings (snd (ct_run ?c [Ct_start 2, Ct_end 1, Ct_end 2] (ct_start ?c 1 ct_new)))) - ?c (ct_readings ct_new)" by blast
  moreover have "ct_readings (snd (ct_run ?c [Ct_start 2, Ct_end 1, Ct_end 2] (ct_start ?c 1 ct_new))) = 8" by code_simp
  ultimately show ?thesis by (simp add: ct_new_def)
qed

text \<open>Without \<open>start\<close> the time counts from the first use of the timer by the thread, so the first \<open>end\<close> gives only the time between two readings.\<close>

lemma first_end: "ct_points c th = None \<Longrightarrow> fst (ct_end clock th c) = clock (ct_readings c + 2) - clock (ct_readings c)"
  by (simp add: ct_end_def ct_variables_def ct_now_def)

section \<open>The date\<close>

record tm =
  tm_sec :: int
  tm_min :: int
  tm_hour :: int
  tm_mday :: int
  tm_mon :: int
  tm_year :: int

text \<open>The result of \<open>localtime_s\<close> is not looked at: after a failure the fields are read uninitialised.\<close>

definition ct_describe :: "('t \<Rightarrow> tm option) \<Rightarrow> 't \<Rightarrow> string outcome" where
  "ct_describe localtime_s t = (case localtime_s t of None \<Rightarrow> Undefined
     | Some info \<Rightarrow> Value (show_int (tm_year info + 1900) @ ''-'' @ show_int (tm_mon info + 1) @ ''-'' @ show_int (tm_mday info) @ '' '' @
         show_int (tm_hour info) @ '':'' @ show_int (tm_min info) @ '':'' @ show_int (tm_sec info)))"

text \<open>Reading the numbers of a text back.\<close>

definition is_digit :: "char \<Rightarrow> bool" where
  "is_digit c \<longleftrightarrow> c \<in> set ''0123456789''"

definition read_nat :: "string \<Rightarrow> nat" where
  "read_nat s = foldl (\<lambda>n c. 10 * n + (of_char c - 48)) 0 s"

function read_numbers :: "string \<Rightarrow> nat list" where
  "read_numbers s = (if s = [] then [] else read_nat (takeWhile is_digit s) # read_numbers (drop 1 (dropWhile is_digit s)))"
  by auto
termination
proof (relation "measure length")
  fix s :: string
  assume "s \<noteq> []"
  then show "(drop 1 (dropWhile is_digit s), s) \<in> measure length" using length_dropWhile_le [of is_digit s] by (cases s) auto
qed simp

declare read_numbers.simps [simp del]

lemma show_nat_is_digit: "c \<in> set (show_nat n) \<Longrightarrow> is_digit c"
  using show_nat_digits [of n] unfolding is_digit_def by blast

lemma read_show_nat: "read_nat (show_nat n) = n"
proof (induction n rule: show_nat.induct)
  case (1 n)
  have digit: "of_char (char_of (48 + d) :: char) = 48 + d" if "d < (10 :: nat)" for d using that by simp
  show ?case
  proof (cases "n < 10")
    case True
    then show ?thesis using digit [of n] by (subst show_nat.simps) (simp add: read_nat_def)
  next
    case False
    then show ?thesis using 1 [OF False] digit [of "n mod 10"] by (subst show_nat.simps) (simp add: read_nat_def)
  qed
qed

lemma read_numbers_field:
  "\<not> is_digit c \<Longrightarrow> read_numbers (show_nat n @ c # s) = n # read_numbers s"
  "read_numbers (show_nat n) = [n]"
proof -
  have ne: "show_nat n \<noteq> []" using show_nat_digits [of n] by simp
  have all: "\<forall>c \<in> set (show_nat n). is_digit c" using show_nat_is_digit by blast
  then have w: "takeWhile is_digit (show_nat n) = show_nat n" "dropWhile is_digit (show_nat n) = []" by (simp_all add: takeWhile_eq_all_conv dropWhile_eq_Nil_conv)
  have "read_numbers (show_nat n) = read_nat (takeWhile is_digit (show_nat n)) # read_numbers (drop 1 (dropWhile is_digit (show_nat n)))"
    using ne by (subst read_numbers.simps) simp
  then show "read_numbers (show_nat n) = [n]" unfolding w by (simp add: read_show_nat read_numbers.simps [of "[]"])
  show "read_numbers (show_nat n @ c # s) = n # read_numbers s" if "\<not> is_digit c"
  proof -
    have "takeWhile is_digit (show_nat n @ c # s) = show_nat n" "dropWhile is_digit (show_nat n @ c # s) = c # s"
      using all that by (simp_all add: takeWhile_append2 dropWhile_append2)
    then show ?thesis by (subst read_numbers.simps) (simp add: read_show_nat)
  qed
qed

text \<open>
  The text of a date has the year, the month counted from 1, the day, the hour, the minute and the second, in this order: for every date that
  is not before the year 0 the six numbers can be read back, so that different times give different texts.
\<close>

lemma describe_roundtrip:
  assumes "localtime_s t = Some info" "- 1900 \<le> tm_year info" "0 \<le> tm_mon info" "0 \<le> tm_mday info" "0 \<le> tm_hour info" "0 \<le> tm_min info" "0 \<le> tm_sec info"
  shows "\<exists>s. ct_describe localtime_s t = Value s \<and> read_numbers s =
    map nat [tm_year info + 1900, tm_mon info + 1, tm_mday info, tm_hour info, tm_min info, tm_sec info]"
proof -
  have sep: "\<not> is_digit CHR ''-''" "\<not> is_digit CHR '' ''" "\<not> is_digit CHR '':''" by (simp_all add: is_digit_def)
  show ?thesis using assms sep by (simp add: ct_describe_def show_int_def read_numbers_field)
qed

text \<open>The numbers are not padded: ten o'clock comes before nine o'clock in the order of texts.\<close>

lemma describe_not_sorted:
  "ct_describe (\<lambda>h. Some \<lparr>tm_sec = 0, tm_min = 0, tm_hour = h, tm_mday = 1, tm_mon = 0, tm_year = 119\<rparr>) 9 = Value ''2019-1-1 9:0:0''"
  "ct_describe (\<lambda>h. Some \<lparr>tm_sec = 0, tm_min = 0, tm_hour = h, tm_mday = 1, tm_mon = 0, tm_year = 119\<rparr>) 10 = Value ''2019-1-1 10:0:0''"
  by code_simp+

end
