(* ===== verification/String_Hash.thy ===== *)
theory String_Hash
  imports Coplus_Prelude
begin

text \<open>
  The hash function for strings of \<open>level_hash.h\<close>: 32-bit arithmetic, \<open>char\<close> signed, up to the first null byte
  (\<open>c_str()\<close> has one behind the end). \<open>LeveledHashMap\<close> itself has no operations.
\<close>

definition signed_char :: "char \<Rightarrow> int" where
  "signed_char c = (if of_char c < (128 :: int) then of_char c else of_char c - 256)"

text \<open>\<open>ptr[cur]\<close>\<close>

definition char_at :: "string \<Rightarrow> nat \<Rightarrow> char" where
  "char_at str cur = (if cur < length str then str ! cur else CHR 0x00)"

function hash_loop :: "string \<Rightarrow> nat \<Rightarrow> u32 \<Rightarrow> u32" where
  "hash_loop str cur hash =
     (if char_at str cur \<noteq> CHR 0x00 then hash_loop str (cur + 1) (hash * 131 + word_of_int (signed_char (char_at str cur)))
      else hash)"
  by pat_completeness auto
termination
  by (relation "measure (\<lambda>(str, cur, hash). length str - cur)") (auto simp: char_at_def split: if_splits)

declare hash_loop.simps [simp del]

definition string_hash :: "string \<Rightarrow> nat" where
  "string_hash str = unat (hash_loop str 0 0)"

section \<open>The polynomial\<close>

text \<open>The value at 131 of the polynomial whose coefficients are the characters.\<close>

definition poly_hash :: "string \<Rightarrow> int" where
  "poly_hash s = (\<Sum>i < length s. signed_char (s ! i) * 131 ^ (length s - 1 - i))"

definition until_null :: "string \<Rightarrow> string" where
  "until_null s = takeWhile (\<lambda>c. c \<noteq> CHR 0x00) s"

lemma poly_hash_snoc: "poly_hash (s @ [c]) = poly_hash s * 131 + signed_char c"
proof -
  have "signed_char ((s @ [c]) ! i) * 131 ^ (length (s @ [c]) - 1 - i) = signed_char (s ! i) * 131 ^ (length s - 1 - i) * 131" if "i < length s" for i
  proof -
    have "length (s @ [c]) - 1 - i = Suc (length s - 1 - i)" using that by simp
    then show ?thesis using that by (simp add: nth_append)
  qed
  then have "(\<Sum>i < length s. signed_char ((s @ [c]) ! i) * 131 ^ (length (s @ [c]) - 1 - i)) = poly_hash s * 131"
    unfolding poly_hash_def sum_distrib_right by (intro sum.cong) auto
  then show ?thesis by (simp add: poly_hash_def)
qed

lemma hash_loop_poly:
  "hash_loop str cur (word_of_int (poly_hash (take cur str))) =
     word_of_int (poly_hash (take cur str @ until_null (drop cur str)))"
proof (induction str cur "word_of_int (poly_hash (take cur str)) :: u32" rule: hash_loop.induct)
  case (1 str cur)
  show ?case
  proof (cases "char_at str cur = CHR 0x00")
    case True
    then have "until_null (drop cur str) = []"
      by (cases "cur < length str") (auto simp: until_null_def char_at_def Cons_nth_drop_Suc [symmetric])
    then show ?thesis using True by (subst hash_loop.simps) simp
  next
    case False
    then have cur: "cur < length str" "char_at str cur = str ! cur" by (auto simp: char_at_def split: if_splits)
    have t: "take (Suc cur) str = take cur str @ [str ! cur]" using cur(1) by (simp add: take_Suc_conv_app_nth)
    have step: "word_of_int (poly_hash (take cur str)) * 131 + word_of_int (signed_char (char_at str cur)) =
        (word_of_int (poly_hash (take (cur + 1) str)) :: u32)" using cur by (simp add: t poly_hash_snoc)
    have u: "until_null (drop cur str) = str ! cur # until_null (drop (Suc cur) str)"
      using cur False by (simp add: until_null_def Cons_nth_drop_Suc [symmetric])
    have "hash_loop str cur (word_of_int (poly_hash (take cur str))) = hash_loop str (cur + 1) (word_of_int (poly_hash (take (cur + 1) str)))"
      using False by (subst hash_loop.simps) (simp add: step)
    with "1.hyps" [OF False step] show ?thesis by (simp add: u t)
  qed
qed

text \<open>
  The hash of a string is the value of its polynomial in base 131 modulo \<open>2 ^ 32\<close>, up to its first
  null byte; strings that differ only behind a null byte collide.
\<close>

lemma string_hash_poly:
  "string_hash s = nat (poly_hash (until_null s) mod 2 ^ 32) \<and> string_hash (s @ [CHR 0x00] @ t) = string_hash s"
proof -
  have h: "string_hash s = nat (poly_hash (until_null s) mod 2 ^ 32)" for s
    using hash_loop_poly [of s 0]
    by (simp add: string_hash_def poly_hash_def [of "[]"] unsigned_of_int nat_mod_distrib take_bit_eq_mod)
  have "until_null (s @ [CHR 0x00] @ t) = until_null s"
    unfolding until_null_def by (induction s) auto
  with h show ?thesis by simp
qed

end
