(* ===== verification/Arena_Layout.thy ===== *)
theory Arena_Layout
  imports Coplus_Prelude
begin

text \<open>
  The constants, sz classes and address arithmetic of \<open>include/coplus/arena/arena.h\<close>. All quantities are
  \<open>int32_t\<close> in the code and stay far below \<open>2^31\<close> (the whole heap has fewer than \<open>2^30\<close> bytes), so they are
  \<open>int\<close> here; shifts to the right are divisions. Addresses are relative to \<open>kMemoryAllocStart\<close>.
\<close>

definition kPageTotalSize :: int where "kPageTotalSize = 1024 * 16 * 11"
definition kSpanSlotSize :: int where "kSpanSlotSize = 60"
definition kPageHandleSize :: int where "kPageHandleSize = 2 + 2"
definition kSpanHeaderSize :: int where "kSpanHeaderSize = 6 + 4 + 2"
definition kPageHeaderSize :: int where "kPageHeaderSize = 10 + 4 + 2"
definition kPageLen :: int where "kPageLen = 4 * 1024"
definition kPageLenWid :: nat where "kPageLenWid = 12"
definition kMemoryCapacity :: int where "kMemoryCapacity = kPageLen * kPageTotalSize"
definition kBinSlotSize :: int where "kBinSlotSize = 39"
definition kMaxObjectAvailable :: int where "kMaxObjectAvailable = 4080"

definition kBinSlotTemplate :: "int list" where
  "kBinSlotTemplate =
     [0, 4, 8, 16, 32, 48, 56, 64, 72, 80, 88, 96, 112, 128, 144, 160, 176, 192,
      208, 224, 240, 256, 272, 288, 320, 352, 384, 448, 512, 576, 672, 800,
      1024, 1088, 1344, 1632, 2016, 2720, 3040, 4080]"

definition kSelfReservedPage :: int where
  "kSelfReservedPage =
     ((kPageTotalSize + 1) div 8 + kPageHandleSize * (kBinSlotSize + kSpanSlotSize + 2)) div kPageLen + 1"

lemmas arena_constants = kPageTotalSize_def kSpanSlotSize_def kPageHandleSize_def kSpanHeaderSize_def
  kPageHeaderSize_def kPageLen_def kPageLenWid_def kMemoryCapacity_def kBinSlotSize_def kMaxObjectAvailable_def
  kSelfReservedPage_def

section \<open>Addresses and handles\<close>

definition PtrOf :: "int \<Rightarrow> int" where
  "PtrOf hPage = push_bit kPageLenWid (hPage + kSelfReservedPage - 1)"

definition PageHandleOf :: "int \<Rightarrow> int" where
  "PageHandleOf ptr = drop_bit kPageLenWid ptr - kSelfReservedPage + 1"

definition SpanSlotOf :: "int \<Rightarrow> int" where
  "SpanSlotOf nSize = drop_bit kPageLenWid (nSize + kSpanHeaderSize - 1) + 1"

text \<open>The two \<open>SpanHandleOf\<close> functions search down for the first page of the span.\<close>

function SpanHandleOf :: "(int \<Rightarrow> bool) \<Rightarrow> int \<Rightarrow> int" where
  "SpanHandleOf is_head cur = (if cur > 0 \<and> \<not> is_head cur then SpanHandleOf is_head (cur - 1) else cur)"
  by pat_completeness auto
termination
  by (relation "measure (\<lambda>(is_head, cur). nat cur)") auto

declare SpanHandleOf.simps [simp del]

section \<open>Size classes\<close>

definition BinSpanSize :: "int \<Rightarrow> int" where
  "BinSpanSize BinSlot = (if BinSlot > 37 then 6 else if BinSlot \<ge> 32 then 4 else 2)"

function bin_search :: "int \<Rightarrow> int \<Rightarrow> int \<Rightarrow> int" where
  "bin_search sz lo hi =
     (if hi > lo + 1 then
        let mid = lo + drop_bit 1 (hi - lo); bin = kBinSlotTemplate ! nat mid
        in if bin = sz then mid
           else if bin < sz then bin_search sz mid hi
           else bin_search sz lo mid
      else hi)"
  by pat_completeness auto
termination
  by (relation "measure (\<lambda>(sz, lo, hi). nat (hi - lo))") (auto simp: drop_bit_eq_div)

declare bin_search.simps [simp del]

definition BinSlot :: "int \<Rightarrow> int" where
  "BinSlot sz =
     (if sz \<le> 48 then
        if sz \<le> 4 then 1
        else if sz \<le> 8 then 2
        else if sz \<le> 16 then 3
        else if sz \<le> 32 then 4
        else 5
      else if sz \<le> 96 then drop_bit 3 (sz - 1)
      else if sz \<le> 288 then drop_bit 4 (sz - 1) + 6
      else bin_search sz 24 kBinSlotSize)"

section \<open>Lemmas\<close>

lemma reserved_pages: "kSelfReservedPage = 6"
  by (simp add: arena_constants)

lemma template_length: "length kBinSlotTemplate = 40"
  by (simp add: kBinSlotTemplate_def)

lemma template_sorted: "0 \<le> i \<Longrightarrow> i < j \<Longrightarrow> j \<le> 39 \<Longrightarrow> kBinSlotTemplate ! nat i < kBinSlotTemplate ! nat j"
proof -
  assume ij: "0 \<le> i" "i < j" "j \<le> 39"
  have "sorted_wrt (<) kBinSlotTemplate" by code_simp
  moreover have "nat i < nat j" "nat j < length kBinSlotTemplate" using ij by (simp_all add: template_length)
  ultimately show ?thesis by (simp add: sorted_wrt_iff_nth_less)
qed

lemma bin_search_spec:
  assumes "24 \<le> lo" "lo < hi" "hi \<le> 39" "sz \<le> kBinSlotTemplate ! nat hi" "lo = 24 \<or> kBinSlotTemplate ! nat lo < sz"
  shows "lo < bin_search sz lo hi \<and> bin_search sz lo hi \<le> hi \<and>
    sz \<le> kBinSlotTemplate ! nat (bin_search sz lo hi) \<and>
    (bin_search sz lo hi = 25 \<or> kBinSlotTemplate ! nat (bin_search sz lo hi - 1) < sz)"
  using assms
proof (induction sz lo hi rule: bin_search.induct)
  case (1 sz lo hi)
  let ?mid = "lo + drop_bit 1 (hi - lo)"
  show ?case
  proof (cases "hi > lo + 1")
    case False
    then have "hi = lo + 1" using 1 by linarith
    moreover have "bin_search sz lo hi = hi" using False by (subst bin_search.simps) simp
    ultimately show ?thesis using 1 by auto
  next
    case True
    then have mid: "lo < ?mid" "?mid < hi" by (auto simp: drop_bit_eq_div)
    consider "kBinSlotTemplate ! nat ?mid = sz" | "kBinSlotTemplate ! nat ?mid < sz" | "sz < kBinSlotTemplate ! nat ?mid"
      by linarith
    then show ?thesis
    proof cases
      assume m: "kBinSlotTemplate ! nat ?mid = sz"
      then have "bin_search sz lo hi = ?mid" using True by (subst bin_search.simps) (simp add: Let_def)
      moreover have "kBinSlotTemplate ! nat (?mid - 1) < sz"
        using template_sorted [of "?mid - 1" ?mid] m mid 1 by simp
      ultimately show ?thesis using m mid by simp
    next
      assume m: "kBinSlotTemplate ! nat ?mid < sz"
      then have "bin_search sz lo hi = bin_search sz ?mid hi"
        using True by (subst bin_search.simps) (simp add: Let_def)
      moreover have "24 \<le> ?mid" "?mid = 24 \<or> kBinSlotTemplate ! nat ?mid < sz" using m mid "1.prems"(1) by linarith+
      ultimately show ?thesis using "1.IH"(1) [OF True refl refl] m mid "1.prems"(3,4) by fastforce
    next
      assume m: "sz < kBinSlotTemplate ! nat ?mid"
      then have "bin_search sz lo hi = bin_search sz lo ?mid"
        using True by (subst bin_search.simps) (simp add: Let_def)
      moreover have "?mid \<le> 39" "sz \<le> kBinSlotTemplate ! nat ?mid" using m mid "1.prems"(3) by linarith+
      ultimately show ?thesis using "1.IH"(2) [OF True refl refl] m mid "1.prems"(1,5) by fastforce
    qed
  qed
qed

lemma bin_slot_small:
  assumes "0 < sz" "sz \<le> 288"
  shows "1 \<le> BinSlot sz \<and> BinSlot sz \<le> 23 \<and> sz \<le> kBinSlotTemplate ! nat (BinSlot sz) \<and>
    kBinSlotTemplate ! nat (BinSlot sz - 1) < sz"
proof -
  have "list_all (\<lambda>n. 1 \<le> BinSlot n \<and> BinSlot n \<le> 23 \<and> n \<le> kBinSlotTemplate ! nat (BinSlot n) \<and>
    kBinSlotTemplate ! nat (BinSlot n - 1) < n) [1..288]" by code_simp
  with assms show ?thesis by (simp add: list_all_iff)
qed

lemma bin_slot_large:
  assumes "288 < sz" "sz \<le> kMaxObjectAvailable"
  shows "24 < BinSlot sz \<and> BinSlot sz \<le> 39 \<and> sz \<le> kBinSlotTemplate ! nat (BinSlot sz) \<and>
    (BinSlot sz = 25 \<or> kBinSlotTemplate ! nat (BinSlot sz - 1) < sz)"
proof -
  have "kBinSlotTemplate ! nat 39 = 4080" by (simp add: kBinSlotTemplate_def)
  moreover have "BinSlot sz = bin_search sz 24 39" using assms(1) by (simp add: BinSlot_def kBinSlotSize_def)
  ultimately show ?thesis using bin_search_spec [of 24 39 sz] assms(2) by (simp add: kMaxObjectAvailable_def)
qed

lemma bin_slot_range:
  assumes "0 < sz" "sz \<le> kMaxObjectAvailable"
  shows "1 \<le> BinSlot sz" "BinSlot sz \<le> kBinSlotSize" "sz \<le> kBinSlotTemplate ! nat (BinSlot sz)"
  using bin_slot_small [OF assms(1)] bin_slot_large [OF _ assms(2)] by (cases "sz \<le> 288"; simp add: kBinSlotSize_def)+

section \<open>Properties\<close>

text \<open>
  C20 (functional). For every small sz \<open>BinSlot\<close> gives a bin whose objects are large enough, and the bin
  below is too small; except for the sizes 289 to 320, which get the bin of 352 bytes although the bin of
  320 bytes would do (that bin is never used).
\<close>

theorem bin_slot_fits:
  assumes "0 < sz" "sz \<le> kMaxObjectAvailable"
  shows "1 \<le> BinSlot sz \<and> BinSlot sz \<le> kBinSlotSize \<and> sz \<le> kBinSlotTemplate ! nat (BinSlot sz) \<and>
    (if 288 < sz \<and> sz \<le> 320 then BinSlot sz = 25
     else kBinSlotTemplate ! nat (BinSlot sz - 1) < sz \<and> BinSlot sz \<noteq> 24)"
proof (cases "sz \<le> 288")
  case True
  with bin_slot_small [OF assms(1)] show ?thesis by (auto simp: arena_constants)
next
  case False
  have t: "kBinSlotTemplate ! 24 = 320" by (simp add: kBinSlotTemplate_def)
  let ?b = "BinSlot sz"
  have b: "24 < ?b" "?b \<le> 39" "sz \<le> kBinSlotTemplate ! nat ?b" "?b = 25 \<or> kBinSlotTemplate ! nat (?b - 1) < sz"
    using bin_slot_large [OF _ assms(2)] False by auto
  have low: "?b = 25" if "sz \<le> 320"
  proof (rule ccontr)
    assume "?b \<noteq> 25"
    then have "kBinSlotTemplate ! nat (?b - 1) < sz" "25 \<le> ?b - 1" using b by auto
    moreover have "kBinSlotTemplate ! nat 24 < kBinSlotTemplate ! nat (?b - 1)"
      using \<open>25 \<le> ?b - 1\<close> b(2) by (intro template_sorted) auto
    ultimately show False using that t by simp
  qed
  have "kBinSlotTemplate ! nat (?b - 1) < sz" if "320 < sz"
    using b(4) that t by auto
  with b low False show ?thesis by (auto simp: kBinSlotSize_def)
qed

theorem bin_slot_fits_witness: "BinSlot 300 = 25 \<and> kBinSlotTemplate ! 24 = 320"
  using bin_slot_fits [of 300] by (simp add: kMaxObjectAvailable_def kBinSlotTemplate_def)

text \<open>
  The page of every bin has room for at least one object behind its header, and no offset in
  it overflows the 16-bit field that holds offsets.
\<close>

lemma bin_span_fits:
  assumes "1 \<le> slot" "slot \<le> kBinSlotSize"
  shows "kPageHeaderSize + kBinSlotTemplate ! nat slot \<le> push_bit kPageLenWid (BinSpanSize slot) \<and>
    push_bit kPageLenWid (BinSpanSize slot) < 2 ^ 15"
proof -
  have "list_all (\<lambda>s. kPageHeaderSize + kBinSlotTemplate ! nat s \<le> push_bit kPageLenWid (BinSpanSize s) \<and>
    push_bit kPageLenWid (BinSpanSize s) < 2 ^ 15) [1..39]" by code_simp
  with assms show ?thesis by (simp add: list_all_iff kBinSlotSize_def)
qed

text \<open>
  \<open>SpanSlotOf\<close> is the least number of pages that holds the object and its header. It exceeds the
  last index of \<open>span_list_\<close>, which \<open>Malloc\<close> does not check before it reads the list, exactly from 245749
  bytes on.
\<close>

lemma span_slot_fits:
  assumes "0 < sz"
  shows "sz + kSpanHeaderSize \<le> SpanSlotOf sz * kPageLen \<and>
    (SpanSlotOf sz - 1) * kPageLen < sz + kSpanHeaderSize \<and>
    (kSpanSlotSize < SpanSlotOf sz \<longleftrightarrow> 245748 < sz)"
  using assms by (simp add: SpanSlotOf_def arena_constants drop_bit_eq_div) linarith

text \<open>
  The address of a page and of everything in it leads back to its handle; the first handle
  is the page behind the reserved ones; and from any page of a span \<open>SpanHandleOf\<close> finds the first, if that
  is the only one marked.
\<close>

lemma handle_roundtrip:
  assumes "0 \<le> off" "off < kPageLen" "0 < h" "0 \<le> k" "is_head h" "\<forall>j. h < j \<and> j \<le> h + k \<longrightarrow> \<not> is_head j"
  shows "PageHandleOf (PtrOf h + off) = h \<and> PtrOf 1 = kSelfReservedPage * kPageLen \<and>
    SpanHandleOf is_head (PageHandleOf (PtrOf (h + k) + off)) = h"
proof -
  have p: "PageHandleOf (PtrOf i + off) = i" for i
    using assms(1,2) by (simp add: PageHandleOf_def PtrOf_def drop_bit_eq_div push_bit_eq_mult kPageLenWid_def kPageLen_def)
  have "SpanHandleOf is_head (h + int n) = h" if "int n \<le> k" for n
    using that
  proof (induction n)
    case 0
    then show ?case using assms(5) by (subst SpanHandleOf.simps) simp
  next
    case (Suc n)
    then have "\<not> is_head (h + int (Suc n))" using assms(6) by simp
    with Suc assms(3) show ?case by (subst SpanHandleOf.simps) simp
  qed
  from this [of "nat k"] assms(4) have "SpanHandleOf is_head (h + k) = h" by simp
  moreover have "PtrOf 1 = kSelfReservedPage * kPageLen" by (simp add: PtrOf_def push_bit_eq_mult kPageLenWid_def kPageLen_def)
  ultimately show ?thesis by (simp add: p)
qed

end
