(* ===== verification/Arena.thy ===== *)
theory Arena
  imports Arena_Layout
begin

text \<open>
  The state and the operations of \<open>Arena\<close> in \<open>include/coplus/arena/arena.h\<close>. The memory is kept as what the
  code reads and writes of it: the header at the start of every page (a span and a bin page share the
  first three fields), the 16-bit link in the first bytes of a free object, and the tables of the reserved
  pages. Which pieces of memory the operating system commits is a parameter, \<open>ar_commits\<close>; reserving the address space is assumed to have succeeded
  (see \<open>Arena_Port\<close>). \<open>std::bad_alloc\<close> is \<open>Bad_alloc\<close>; an
  access to a page that is not committed, a table index out of range and a signed overflow are \<open>Crash\<close>, and
  so is reading a page header at handle 0, where the bytes of \<open>is_head_\<close> are.
\<close>

datatype 'a fallible = Returns 'a | Bad_alloc | Crash

fun fbind :: "'a fallible \<Rightarrow> ('a \<Rightarrow> 'b fallible) \<Rightarrow> 'b fallible" where
  "fbind (Returns x) f = f x"
| "fbind Bad_alloc f = Bad_alloc"
| "fbind Crash f = Crash"

record page_header =
  pg_Flag :: int
  pg_hPri :: int
  pg_hNext :: int
  pg_oFree :: int
  pg_nUsed :: int

record arena =
  ar_is_head :: "int \<Rightarrow> bool"
  ar_bin :: "int list"
  ar_span_list :: "int list"
  ar_page :: "int \<Rightarrow> page_header"
  ar_link :: "int \<Rightarrow> int"
  ar_heap_page :: int
  ar_reserved :: int
  ar_commits :: "int \<Rightarrow> int \<Rightarrow> bool"

section \<open>Access\<close>

definition committed :: "arena \<Rightarrow> int \<Rightarrow> bool" where
  "committed a h \<longleftrightarrow> 0 \<le> h + kSelfReservedPage - 1 \<and> h + kSelfReservedPage - 1 < ar_heap_page a"

definition span_get :: "arena \<Rightarrow> int \<Rightarrow> int fallible" where
  "span_get a k = (if 0 \<le> k \<and> k \<le> kSpanSlotSize then Returns (ar_span_list a ! nat k) else Crash)"

definition span_set :: "arena \<Rightarrow> int \<Rightarrow> int \<Rightarrow> arena fallible" where
  "span_set a k h = (if 0 \<le> k \<and> k \<le> kSpanSlotSize then Returns (a\<lparr>ar_span_list := (ar_span_list a)[nat k := h]\<rparr>) else Crash)"

text \<open>
  Access to the header of a page. Handle 0 is the last reserved page, which holds part of \<open>is_head_\<close>: its
  field \<open>hPri\<close> is the marks of the 32 handles from \<open>160640\<close> on.
\<close>

definition page_get :: "arena \<Rightarrow> int \<Rightarrow> page_header fallible" where
  "page_get a h = (if committed a h \<and> 0 < h then Returns (ar_page a h) else Crash)"

definition page_upd :: "arena \<Rightarrow> int \<Rightarrow> (page_header \<Rightarrow> page_header) \<Rightarrow> arena fallible" where
  "page_upd a h f = (if committed a h \<and> 0 < h then Returns (a\<lparr>ar_page := (ar_page a)(h := f (ar_page a h))\<rparr>) else Crash)"

definition clear_reserved :: "arena \<Rightarrow> arena" where
  "clear_reserved a = a\<lparr>ar_is_head := (\<lambda>i. if 160640 \<le> i \<and> i < 160672 then False else ar_is_head a i)\<rparr>"

text \<open>\<open>(next > 0) && (PtrOf(next)->hPri = pri)\<close> and \<open>LinkedNodeMerge\<close>.\<close>

definition set_pri :: "arena \<Rightarrow> int \<Rightarrow> int \<Rightarrow> arena fallible" where
  "set_pri a next pri = (if next > 0 then page_upd a next (\<lambda>p. p\<lparr>pg_hPri := pri\<rparr>) else Returns a)"

definition LinkedNodeMerge :: "arena \<Rightarrow> int \<Rightarrow> int \<Rightarrow> arena fallible" where
  "LinkedNodeMerge a pri next =
     fbind (if pri > 0 then page_upd a pri (\<lambda>p. p\<lparr>pg_hNext := next\<rparr>) else Returns a) (\<lambda>a. set_pri a next pri)"

section \<open>Growing the heap\<close>

text \<open>
  \<open>Commit\<close> is what \<open>VirtualAlloc\<close> answers in the port for Windows, and always \<open>true\<close> in the one for Linux. The end of the committed memory only grows, so
  that a run asks for each piece once, until a refusal ends it with \<open>std::bad_alloc\<close>. \<open>Decommit\<close> returns \<open>true\<close> at once in both ports.
\<close>

definition Commit :: "arena \<Rightarrow> int \<Rightarrow> int \<Rightarrow> bool" where
  "Commit a ptr sz = ar_commits a ptr sz"

definition Decommit :: "int \<Rightarrow> int \<Rightarrow> bool" where
  "Decommit ptr sz = True"

declare Decommit_def [simp]

definition AllocMemFromHeap :: "int \<Rightarrow> arena \<Rightarrow> (int \<times> arena) fallible" where
  "AllocMemFromHeap sz a =
     (if ar_heap_page a + drop_bit kPageLenWid sz > kPageTotalSize \<or> ar_reserved a + sz > kMemoryCapacity then Bad_alloc
      else if \<not> Commit a (ar_reserved a) sz then Bad_alloc
      else Returns (ar_reserved a, a\<lparr>ar_heap_page := ar_heap_page a + drop_bit kPageLenWid sz, ar_reserved := ar_reserved a + sz\<rparr>))"

definition DeallocMemToHeap :: "int \<Rightarrow> arena \<Rightarrow> bool \<times> arena" where
  "DeallocMemToHeap sz a =
     (if ar_reserved a - sz < 0 then (False, a)
      else let ret = Decommit (ar_reserved a - sz) sz
           in (ret, if ret then a\<lparr>ar_reserved := ar_reserved a - sz\<rparr> else a))"

definition Vaccum :: "arena \<Rightarrow> arena" where
  "Vaccum a = a"

text \<open>Putting a span at the front of the list of its size, with a fresh header.\<close>

definition push_span :: "int \<Rightarrow> int \<Rightarrow> arena \<Rightarrow> arena fallible" where
  "push_span k h a = fbind (span_get a k) (\<lambda>next.
     fbind (page_upd a h (\<lambda>p. p\<lparr>pg_Flag := k, pg_hPri := 0, pg_hNext := next\<rparr>)) (\<lambda>a.
     fbind (set_pri a next h) (\<lambda>a. span_set a k h)))"

definition set_head :: "int \<Rightarrow> bool \<Rightarrow> arena \<Rightarrow> arena" where
  "set_head h b a = a\<lparr>ar_is_head := (ar_is_head a)(h := b)\<rparr>"

definition AllocArbitaryChunkFromHeap :: "int \<Rightarrow> arena \<Rightarrow> arena fallible" where
  "AllocArbitaryChunkFromHeap page a =
     fbind (AllocMemFromHeap (push_bit kPageLenWid page) a) (\<lambda>(newSpan, a).
       let hNewSpan = PageHandleOf newSpan in push_span page hNewSpan (set_head hNewSpan True a))"

definition AllocMaxChunkFromHeap :: "arena \<Rightarrow> arena fallible" where
  "AllocMaxChunkFromHeap a =
     fbind (AllocMemFromHeap (push_bit kPageLenWid kSpanSlotSize) a) (\<lambda>(newSpan, a).
       let hNewSpan = PageHandleOf newSpan in push_span kSpanSlotSize hNewSpan (set_head hNewSpan True a))"

primrec repeat :: "nat \<Rightarrow> (arena \<Rightarrow> arena fallible) \<Rightarrow> arena \<Rightarrow> arena fallible" where
  "repeat 0 f a = Returns a"
| "repeat (Suc n) f a = fbind (f a) (repeat n f)"

definition arena_blank :: "(int \<Rightarrow> int \<Rightarrow> bool) \<Rightarrow> arena" where
  "arena_blank commits = \<lparr>ar_is_head = (\<lambda>_. False), ar_bin = replicate 40 0, ar_span_list = replicate 61 0,
     ar_page = (\<lambda>_. \<lparr>pg_Flag = 0, pg_hPri = 0, pg_hNext = 0, pg_oFree = 0, pg_nUsed = 0\<rparr>), ar_link = (\<lambda>_. 0),
     ar_heap_page = 0, ar_reserved = 0, ar_commits = commits\<rparr>"

text \<open>\<open>Init\<close>, with the numbers of initial chunks of two pages and of the largest size.\<close>

definition arena_Init_with :: "(int \<Rightarrow> int \<Rightarrow> bool) \<Rightarrow> nat \<Rightarrow> nat \<Rightarrow> arena fallible" where
  "arena_Init_with commits two largest = fbind (AllocMemFromHeap (kPageLen * kSelfReservedPage) (arena_blank commits)) (\<lambda>(_, a).
     fbind (repeat two (AllocArbitaryChunkFromHeap 2) a) (repeat largest AllocMaxChunkFromHeap))"

definition arena_Init :: "(int \<Rightarrow> int \<Rightarrow> bool) \<Rightarrow> arena fallible" where
  "arena_Init commits = arena_Init_with commits 128 1024"

section \<open>Malloc\<close>

text \<open>
  The search for a bigger span. The code reads the entry before it tests the index, at the end one
  beyond the table; what it reads there does not matter, since the test of the index ends the loop.
\<close>

function bigger_span :: "arena \<Rightarrow> int \<Rightarrow> int" where
  "bigger_span a b = (if b \<le> kSpanSlotSize \<and> ar_span_list a ! nat b \<le> 0 then bigger_span a (b + 1) else b)"
  by pat_completeness auto
termination
  by (relation "measure (\<lambda>(a, b). nat (kSpanSlotSize + 1 - b))") auto

declare bigger_span.simps [simp del]

text \<open>Taking the first span off the list of its size.\<close>

definition pop_span :: "int \<Rightarrow> int \<Rightarrow> arena \<Rightarrow> arena fallible" where
  "pop_span k h a = fbind (page_get a h) (\<lambda>p. fbind (span_set a k (pg_hNext p)) (\<lambda>a. set_pri a (pg_hNext p) 0))"

text \<open>
  A span of more than \<open>k\<close> pages, from a list or from the heap, cut in two: the first part is returned, the
  rest goes to the list of its size.
\<close>

definition split_span :: "int \<Rightarrow> arena \<Rightarrow> (int option \<times> arena) fallible" where
  "split_span k a =
     (let b = bigger_span a (k + 1) in
      fbind (if b > kSpanSlotSize then fbind (AllocMaxChunkFromHeap a) (\<lambda>a. Returns (b - 1, a)) else Returns (b, a)) (\<lambda>(b, a).
      fbind (span_get a b) (\<lambda>hPage.
        if hPage \<le> 0 then Returns (None, a)
        else fbind (pop_span b hPage a) (\<lambda>a.
          fbind (push_span (b - k) (hPage + k) (set_head (hPage + k) True a)) (\<lambda>a. Returns (Some hPage, a))))))"

text \<open>
  The slot of a large object is a \<open>SpanClass\<close> of 16 bits; the addition in \<open>SpanSlotOf\<close> overflows for the last
  sizes below \<open>2^31\<close>.
\<close>

definition malloc_big :: "int \<Rightarrow> arena \<Rightarrow> (int option \<times> arena) fallible" where
  "malloc_big sz a =
     (if sz + kSpanHeaderSize \<ge> 2 ^ 31 then Crash else
      let spanSlot = to_int16 (SpanSlotOf sz) in
      fbind (span_get a spanSlot) (\<lambda>hPage.
        if hPage > 0 then
          fbind (pop_span spanSlot hPage a) (\<lambda>a.
          fbind (page_upd a hPage (\<lambda>p. p\<lparr>pg_hNext := -1\<rparr>)) (\<lambda>a.
            Returns (Some (PtrOf hPage + kSpanHeaderSize), a)))
        else fbind (split_span spanSlot a) (\<lambda>(r, a). case r of
            None \<Rightarrow> Returns (None, a)
          | Some hPage \<Rightarrow> fbind (page_upd a hPage (\<lambda>p. p\<lparr>pg_Flag := spanSlot, pg_hNext := -1\<rparr>)) (\<lambda>a.
              Returns (Some (PtrOf hPage + kSpanHeaderSize), a)))))"

text \<open>A fresh bin page at the front of its bin, with its first object handed out.\<close>

definition new_bin_page :: "int \<Rightarrow> int \<Rightarrow> arena \<Rightarrow> (int option \<times> arena) fallible" where
  "new_bin_page binSlot hPage a =
     (let next = ar_bin a ! nat binSlot; len = kBinSlotTemplate ! nat binSlot in
      fbind (page_upd a hPage (\<lambda>p. p\<lparr>pg_Flag := - binSlot, pg_nUsed := 1, pg_hPri := 0, pg_hNext := next,
          pg_oFree := kPageHeaderSize + len\<rparr>)) (\<lambda>a.
      fbind (set_pri (a\<lparr>ar_bin := (ar_bin a)[nat binSlot := hPage]\<rparr>) next hPage) (\<lambda>a.
        Returns (Some (PtrOf hPage + kPageHeaderSize),
          a\<lparr>ar_link := (ar_link a)(PtrOf hPage + kPageHeaderSize + len := 0)\<rparr>))))"

text \<open>The page that \<open>Malloc\<close> looks at: the first of the bin or, if that is full, the second.\<close>

definition bin_candidate :: "int \<Rightarrow> arena \<Rightarrow> int fallible" where
  "bin_candidate binSlot a =
     (let hPage = ar_bin a ! nat binSlot in
      if hPage > 0 then fbind (page_get a hPage) (\<lambda>p. Returns (if pg_oFree p \<le> 1 then pg_hNext p else hPage))
      else Returns hPage)"

definition take_object :: "int \<Rightarrow> int \<Rightarrow> page_header \<Rightarrow> arena \<Rightarrow> (int option \<times> arena) fallible" where
  "take_object binSlot hPage p a =
     (let freeObject = PtrOf hPage + pg_oFree p; len = kBinSlotTemplate ! nat binSlot;
          fresh = (ar_link a freeObject = 0 \<and>
            freeObject + push_bit 1 len \<le> PtrOf hPage + push_bit kPageLenWid (BinSpanSize binSlot));
          oFree = (if fresh then pg_oFree p + len else ar_link a freeObject)
      in fbind (page_upd a hPage (\<lambda>p. p\<lparr>pg_nUsed := pg_nUsed p + 1, pg_oFree := oFree\<rparr>)) (\<lambda>a.
           Returns (Some freeObject,
             if fresh then a\<lparr>ar_link := (ar_link a)(freeObject + len := 0)\<rparr> else a)))"

definition malloc_small :: "int \<Rightarrow> arena \<Rightarrow> (int option \<times> arena) fallible" where
  "malloc_small sz a =
     (let binSlot = BinSlot sz; usedSpanSize = BinSpanSize binSlot;
          new_page = fbind (span_get a usedSpanSize) (\<lambda>hPage.
            if hPage > 0 then fbind (pop_span usedSpanSize hPage a) (new_bin_page binSlot hPage)
            else fbind (split_span usedSpanSize a) (\<lambda>(r, a). case r of
                None \<Rightarrow> Returns (None, a) | Some hPage \<Rightarrow> new_bin_page binSlot hPage a))
      in fbind (bin_candidate binSlot a) (\<lambda>hPage.
        if hPage > 0 then fbind (page_get a hPage) (\<lambda>p.
          if pg_oFree p > 1 then take_object binSlot hPage p a else new_page)
        else new_page))"

definition arena_Malloc :: "int \<Rightarrow> arena \<Rightarrow> (int option \<times> arena) fallible" where
  "arena_Malloc sz a =
     (if sz \<le> 0 then Returns (None, a)
      else if sz > kMaxObjectAvailable then malloc_big sz a
      else malloc_small sz a)"

section \<open>Free\<close>

text \<open>Taking a span out of the middle or the front of the list of its size.\<close>

definition unlink_span :: "page_header \<Rightarrow> arena \<Rightarrow> arena fallible" where
  "unlink_span p a =
     (if pg_hPri p = 0 then fbind (span_set a (pg_Flag p) (pg_hNext p)) (\<lambda>a. set_pri a (pg_hNext p) 0)
      else LinkedNodeMerge a (pg_hPri p) (pg_hNext p))"

definition mergeable :: "page_header \<Rightarrow> int \<Rightarrow> bool" where
  "mergeable p maxToMerge \<longleftrightarrow> pg_hNext p \<ge> 0 \<and> pg_Flag p > 0 \<and> pg_Flag p \<le> maxToMerge"

text \<open>The second half of \<open>Free\<close>: the span \<open>hPage\<close>, whose header holds its size, goes back to the lists.\<close>

definition free_span :: "int \<Rightarrow> arena \<Rightarrow> arena fallible" where
  "free_span hPage a = fbind (page_get a hPage) (\<lambda>p. fbind (span_get a (pg_Flag p)) (\<lambda>first.
     if first \<le> 0 \<or> pg_Flag p \<ge> 12 then push_span (pg_Flag p) hPage a
     else
       let len = pg_Flag p; a = set_head hPage False a; hNeighbor = hPage + len;
           maxToMerge = kSpanSlotSize - len
       in fbind (if hNeighbor \<le> ar_heap_page a - kSelfReservedPage then
             fbind (page_get a hNeighbor) (\<lambda>n.
               if mergeable n maxToMerge then
                 fbind (unlink_span n a) (\<lambda>a.
                 fbind (page_upd (set_head hNeighbor False a) hPage (\<lambda>p. p\<lparr>pg_Flag := len + pg_Flag n\<rparr>)) (\<lambda>a.
                   Returns (len + pg_Flag n, maxToMerge - pg_Flag n, a)))
               else Returns (len, maxToMerge, a))
           else Returns (len, maxToMerge, a)) (\<lambda>(len, maxToMerge, a).
         let hNeighbor = SpanHandleOf (ar_is_head a) (hPage - 1) in
         fbind (span_get a len) (\<lambda>first.
         fbind (if hNeighbor > 0 \<and> first > 0 \<and> len < 12 then
             fbind (page_get a hNeighbor) (\<lambda>n.
               if mergeable n maxToMerge then
                 fbind (unlink_span n a) (\<lambda>a.
                 fbind (page_upd (set_head hNeighbor False a) hNeighbor (\<lambda>p. p\<lparr>pg_Flag := pg_Flag p + len\<rparr>)) (\<lambda>a.
                   Returns (hNeighbor, pg_Flag n + len, a)))
               else Returns (hPage, len, a))
           else Returns (hPage, len, a)) (\<lambda>(hPage, len, a).
         push_span len hPage (set_head hPage True a))))))"

text \<open>
  Giving an object back to its page. The page moves to the front of its bin if the first page has more
  objects in use; the code writes through \<open>PtrOf(hNext)\<close> without a test there.
\<close>

definition move_to_front :: "int \<Rightarrow> int \<Rightarrow> arena \<Rightarrow> arena fallible" where
  "move_to_front binSlot hPage a =
     (let first = ar_bin a ! nat binSlot in
      fbind (page_get a first) (\<lambda>f. fbind (page_get a hPage) (\<lambda>p.
        if pg_nUsed f > pg_nUsed p then
          fbind (page_upd a first (\<lambda>f. f\<lparr>pg_hPri := hPage, pg_hNext := pg_hNext p\<rparr>)) (\<lambda>a.
          fbind (if pg_hNext p = 0 then Returns (clear_reserved a)
                 else page_upd a (pg_hNext p) (\<lambda>n. n\<lparr>pg_hPri := pg_hNext p\<rparr>)) (\<lambda>a.
          fbind (page_upd a hPage (\<lambda>p. p\<lparr>pg_hNext := first, pg_hPri := 0\<rparr>)) (\<lambda>a.
            Returns (a\<lparr>ar_bin := (ar_bin a)[nat binSlot := hPage]\<rparr>))))
        else Returns a)))"

definition arena_Free :: "int \<Rightarrow> arena \<Rightarrow> arena fallible" where
  "arena_Free ptr a =
     (let hPage = SpanHandleOf (ar_is_head a) (PageHandleOf ptr); pagePtr = PtrOf hPage in
      fbind (page_get a hPage) (\<lambda>p.
        if pg_Flag p \<le> 0 then
          let binSlot = - pg_Flag p; nUsed = pg_nUsed p - 1 in
          fbind (page_upd a hPage (\<lambda>p. p\<lparr>pg_nUsed := nUsed\<rparr>)) (\<lambda>a.
            if nUsed > 0 \<or> pg_oFree p < push_bit (kPageLenWid - 3) (BinSpanSize binSlot) \<or> ar_bin a ! nat binSlot = hPage then
              fbind (page_upd (a\<lparr>ar_link := (ar_link a)(ptr := pg_oFree p)\<rparr>) hPage (\<lambda>p. p\<lparr>pg_oFree := ptr - pagePtr\<rparr>))
                (move_to_front binSlot hPage)
            else
              fbind (if pg_hPri p = 0 then set_pri (a\<lparr>ar_bin := (ar_bin a)[nat binSlot := pg_hNext p]\<rparr>) (pg_hNext p) 0
                     else LinkedNodeMerge a (pg_hPri p) (pg_hNext p)) (\<lambda>a.
              fbind (page_upd a hPage (\<lambda>p. p\<lparr>pg_Flag := BinSpanSize binSlot\<rparr>)) (free_span hPage)))
        else free_span hPage a))"

end
