(* ===== verification/Arena_Props.thy ===== *)
theory Arena_Props
  imports Arena
begin

text \<open>
  Properties of the arena: its initial state, the round trip of \<open>Malloc\<close> and \<open>Free\<close> for large objects,
  and the states in which it hands out memory that is in use or writes behind the heap.
\<close>

section \<open>Growing the heap\<close>

text \<open>What every growth keeps: the tables have their sizes and the two counters agree.\<close>

definition arena_ok :: "arena \<Rightarrow> bool" where
  "arena_ok a \<longleftrightarrow> length (ar_bin a) = 40 \<and> length (ar_span_list a) = 61 \<and>
     ar_reserved a = ar_heap_page a * kPageLen \<and> kSelfReservedPage \<le> ar_heap_page a \<and>
     (\<forall>h \<in> set (ar_span_list a). 0 \<le> h \<and> h \<le> ar_heap_page a - kSelfReservedPage)"

lemma committed_iff: "committed a h \<longleftrightarrow> - 5 \<le> h \<and> h \<le> ar_heap_page a - 6"
  by (auto simp: committed_def reserved_pages)

text \<open>Another chunk of \<open>n\<close> pages fits into the address space and is committed.\<close>

definition can_grow :: "int \<Rightarrow> arena \<Rightarrow> bool" where
  "can_grow n a \<longleftrightarrow> ar_heap_page a + n \<le> kPageTotalSize \<and> Commit a (ar_reserved a) (n * kPageLen)"

lemma push_span_ok:
  assumes "arena_ok a" "0 \<le> k" "k \<le> kSpanSlotSize" "0 < h" "h \<le> ar_heap_page a - kSelfReservedPage"
  shows "\<exists>a'. push_span k h a = Returns a' \<and> arena_ok a' \<and> ar_heap_page a' = ar_heap_page a \<and>
    ar_span_list a' = (ar_span_list a)[nat k := h] \<and> ar_bin a' = ar_bin a \<and> ar_is_head a' = ar_is_head a \<and> ar_commits a' = ar_commits a \<and>
    ar_page a' h = (ar_page a h)\<lparr>pg_Flag := k, pg_hPri := (if ar_span_list a ! nat k = h then h else 0),
      pg_hNext := ar_span_list a ! nat k\<rparr>"
proof -
  let ?next = "ar_span_list a ! nat k"
  have k: "nat k < length (ar_span_list a)" using assms(1-3) by (simp add: arena_ok_def kSpanSlotSize_def)
  then have next_in: "0 \<le> ?next" "?next \<le> ar_heap_page a - kSelfReservedPage" using assms(1) by (auto simp: arena_ok_def)
  have "set ((ar_span_list a)[nat k := h]) \<subseteq> insert h (set (ar_span_list a))" by (rule set_update_subset_insert)
  then have ok: "\<forall>x \<in> set ((ar_span_list a)[nat k := h]). 0 \<le> x \<and> x \<le> ar_heap_page a - kSelfReservedPage"
    using assms(1,4,5) by (auto simp: arena_ok_def)
  show ?thesis
    using assms next_in ok
    by (auto simp: push_span_def span_get_def span_set_def page_upd_def set_pri_def committed_iff reserved_pages arena_ok_def)
qed

lemma alloc_chunk_ok:
  assumes "arena_ok a" "0 < n" "n \<le> kSpanSlotSize" "can_grow n a"
  shows "\<exists>a'. AllocArbitaryChunkFromHeap n a = Returns a' \<and> arena_ok a' \<and> ar_heap_page a' = ar_heap_page a + n \<and>
    ar_span_list a' = (ar_span_list a)[nat n := ar_heap_page a - kSelfReservedPage + 1] \<and> ar_bin a' = ar_bin a \<and> ar_commits a' = ar_commits a \<and>
    pg_hNext (ar_page a' (ar_heap_page a - kSelfReservedPage + 1)) = ar_span_list a ! nat n"
proof -
  let ?h = "ar_heap_page a - kSelfReservedPage + 1"
  let ?a = "a\<lparr>ar_heap_page := ar_heap_page a + n, ar_reserved := ar_reserved a + n * kPageLen\<rparr>"
  have m: "push_bit kPageLenWid n = n * kPageLen" "drop_bit kPageLenWid (n * kPageLen) = n"
    by (simp_all add: push_bit_eq_mult drop_bit_eq_div kPageLenWid_def kPageLen_def)
  have res: "ar_reserved a = ar_heap_page a * kPageLen" using assms(1) by (simp add: arena_ok_def)
  have "ar_reserved a + n * kPageLen \<le> kMemoryCapacity"
    using assms(4) unfolding res can_grow_def kMemoryCapacity_def kPageLen_def by linarith
  then have alloc: "AllocMemFromHeap (push_bit kPageLenWid n) a = Returns (ar_reserved a, ?a)"
    using assms(4) by (simp add: AllocMemFromHeap_def can_grow_def m)
  have h: "PageHandleOf (ar_reserved a) = ?h"
    by (simp add: PageHandleOf_def res drop_bit_eq_div kPageLenWid_def kPageLen_def)
  have "arena_ok (set_head ?h True ?a)"
    using assms(1,2) by (auto simp: arena_ok_def set_head_def algebra_simps)
  moreover have "0 < ?h" "?h \<le> ar_heap_page (set_head ?h True ?a) - kSelfReservedPage"
    using assms(1,2) by (auto simp: arena_ok_def set_head_def)
  ultimately obtain a' where
    "push_span n ?h (set_head ?h True ?a) = Returns a'" "arena_ok a'" "ar_heap_page a' = ar_heap_page a + n"
      "ar_span_list a' = (ar_span_list a)[nat n := ?h]" "ar_bin a' = ar_bin a" "ar_commits a' = ar_commits a"
      "pg_hNext (ar_page a' ?h) = ar_span_list a ! nat n"
    using push_span_ok [of "set_head ?h True ?a" n ?h] assms(2,3) by (auto simp: set_head_def)
  then show ?thesis using alloc h by (simp add: AllocArbitaryChunkFromHeap_def Let_def)
qed

lemma alloc_max_arbitrary: "AllocMaxChunkFromHeap a = AllocArbitaryChunkFromHeap kSpanSlotSize a"
  by (simp add: AllocMaxChunkFromHeap_def AllocArbitaryChunkFromHeap_def)

lemma repeat_alloc:
  assumes "arena_ok a" "0 < n" "n \<le> kSpanSlotSize" "ar_heap_page a + int m * n \<le> kPageTotalSize" "\<And>ptr sz. ar_commits a ptr sz"
  shows "\<exists>a'. repeat m (AllocArbitaryChunkFromHeap n) a = Returns a' \<and> arena_ok a' \<and>
    ar_heap_page a' = ar_heap_page a + int m * n \<and> ar_bin a' = ar_bin a \<and> ar_commits a' = ar_commits a"
  using assms
proof (induction m arbitrary: a)
  case (Suc m)
  have "0 \<le> int m * n" using Suc.prems(2) by simp
  then have "can_grow n a" using Suc.prems(4,5) by (simp add: can_grow_def Commit_def algebra_simps)
  from alloc_chunk_ok [OF Suc.prems(1-3) this] obtain a1 where
    a1: "AllocArbitaryChunkFromHeap n a = Returns a1" "arena_ok a1" "ar_heap_page a1 = ar_heap_page a + n" "ar_bin a1 = ar_bin a" "ar_commits a1 = ar_commits a"
    by blast
  with Suc.IH [of a1] Suc.prems(2-5) show ?case by (auto simp: algebra_simps)
qed simp

lemma slot_small:
  assumes "0 < sz" "SpanSlotOf sz \<le> kSpanSlotSize"
  shows "\<not> 2 ^ 31 \<le> sz + kSpanHeaderSize" "to_int16 (SpanSlotOf sz) = SpanSlotOf sz" "0 < SpanSlotOf sz"
proof -
  show "\<not> 2 ^ 31 \<le> sz + kSpanHeaderSize" "0 < SpanSlotOf sz"
    using assms by (simp_all add: SpanSlotOf_def arena_constants drop_bit_eq_div)
  then show "to_int16 (SpanSlotOf sz) = SpanSlotOf sz" using assms(2) by (intro to_int16_id) (simp_all add: kSpanSlotSize_def)
qed

text \<open>
  \<open>Init\<close> succeeds if the system commits what it is asked for: it takes the reserved pages, 128 chunks of two pages and 1024 of the
  largest size, 61702 pages of the 180224, with empty bins and every list entry a page of the heap.
\<close>

lemma Init_result:
  assumes "\<And>ptr sz. commits ptr sz"
  shows "\<exists>a. arena_Init commits = Returns a \<and> arena_ok a \<and> ar_heap_page a = 61702 \<and> ar_bin a = replicate 40 0 \<and> ar_commits a = commits"
proof -
  let ?a = "arena_blank commits\<lparr>ar_heap_page := 6, ar_reserved := 24576\<rparr>"
  have res: "AllocMemFromHeap (kPageLen * kSelfReservedPage) (arena_blank commits) = Returns (0, ?a)"
    using assms by (simp add: AllocMemFromHeap_def Commit_def arena_blank_def arena_constants drop_bit_eq_div)
  have ok: "arena_ok ?a" by (simp add: arena_ok_def arena_blank_def arena_constants)
  have hp: "ar_heap_page ?a = 6" "ar_bin ?a = replicate 40 0" "ar_commits ?a = commits" by (simp_all add: arena_blank_def)
  from repeat_alloc [OF ok, of 2 128] hp assms obtain a1 where
    a1: "repeat 128 (AllocArbitaryChunkFromHeap 2) ?a = Returns a1" "arena_ok a1" "ar_heap_page a1 = 262" "ar_bin a1 = replicate 40 0" "ar_commits a1 = commits"
    by (auto simp: kSpanSlotSize_def kPageTotalSize_def)
  from repeat_alloc [OF a1(2), of kSpanSlotSize 1024] a1(3-5) assms obtain a2 where
    a2: "repeat 1024 (AllocArbitaryChunkFromHeap kSpanSlotSize) a1 = Returns a2" "arena_ok a2" "ar_heap_page a2 = 61702" "ar_bin a2 = replicate 40 0" "ar_commits a2 = commits"
    by (auto simp: kSpanSlotSize_def kPageTotalSize_def)
  have "AllocMaxChunkFromHeap = AllocArbitaryChunkFromHeap kSpanSlotSize" by (rule ext) (rule alloc_max_arbitrary)
  with res a1(1) a2 show ?thesis by (simp add: arena_Init_def arena_Init_with_def)
qed

text \<open>
  Giving memory back does not take its pages off the page count, so the two counters no longer agree.
\<close>

lemma Dealloc_breaks_count:
  assumes "arena_ok a" "0 < sz" "sz \<le> ar_reserved a"
  shows "fst (DeallocMemToHeap sz a)" "\<not> arena_ok (snd (DeallocMemToHeap sz a))"
  using assms by (simp_all add: DeallocMemToHeap_def arena_ok_def)

section \<open>Properties\<close>

text \<open>
  A large object that fits a free span of its size: \<open>Malloc\<close> returns its address, the object
  lies within the span, and \<open>Free\<close> of that address restores the arena as it was.
\<close>

lemma malloc_free_big:
  assumes "arena_ok a" "kMaxObjectAvailable < sz" "k = SpanSlotOf sz" "k \<le> kSpanSlotSize"
    and "h = ar_span_list a ! nat k" "0 < h" "p = ar_page a h" "pg_Flag p = k" "pg_hPri p = 0" "ar_is_head a h"
    and "pg_hNext p = next" "0 \<le> next" "next \<le> ar_heap_page a - kSelfReservedPage" "next \<noteq> h"
    and "0 < next \<longrightarrow> pg_hPri (ar_page a next) = h" "12 \<le> k \<or> next = 0"
  shows "\<exists>a1. arena_Malloc sz a = Returns (Some (PtrOf h + kSpanHeaderSize), a1) \<and>
    arena_Free (PtrOf h + kSpanHeaderSize) a1 = Returns a \<and> PtrOf h + kSpanHeaderSize + sz \<le> PtrOf (h + k)"
proof -
  have k: "0 < k" "nat k < length (ar_span_list a)"
    using assms(1-4) by (auto simp: SpanSlotOf_def arena_constants drop_bit_eq_div arena_ok_def)
  have pos: "0 < sz" using assms(2) by (simp add: kMaxObjectAvailable_def)
  note slot = slot_small [OF pos assms(4) [unfolded assms(3)]]
  from k have "h \<in> set (ar_span_list a)" using assms(5) by simp
  then have com: "committed a h" using assms(1,6) by (auto simp: committed_iff arena_ok_def reserved_pages)
  have comn: "0 < next \<longrightarrow> committed a next" using assms(13) by (simp add: committed_iff reserved_pages)
  let ?pages = "(if 0 < next then (ar_page a)(next := (ar_page a next)\<lparr>pg_hPri := 0\<rparr>) else ar_page a)(h := p\<lparr>pg_hNext := - 1\<rparr>)"
  let ?a = "a\<lparr>ar_span_list := (ar_span_list a)[nat k := next], ar_page := ?pages\<rparr>"
  have "arena_Malloc sz a = Returns (Some (PtrOf h + kSpanHeaderSize), ?a)"
    using assms k com comn slot
    by (simp add: arena_Malloc_def malloc_big_def Let_def span_get_def pop_span_def page_get_def span_set_def set_pri_def
        page_upd_def committed_iff kMaxObjectAvailable_def)
  moreover have "arena_Free (PtrOf h + kSpanHeaderSize) ?a = Returns a"
  proof -
    have "PageHandleOf (PtrOf h + kSpanHeaderSize) = h"
      by (simp add: PageHandleOf_def PtrOf_def drop_bit_eq_div push_bit_eq_mult arena_constants)
    then have hp: "SpanHandleOf (ar_is_head ?a) (PageHandleOf (PtrOf h + kSpanHeaderSize)) = h"
      using assms(10) by (subst SpanHandleOf.simps) simp
    have ph: "ar_page ?a h = p\<lparr>pg_hNext := - 1\<rparr>" by simp
    have "free_span h ?a = push_span k h ?a"
      using assms(4,6,8,12,16) k com by (auto simp: free_span_def page_get_def committed_iff span_get_def)
    moreover have "push_span k h ?a = Returns a"
    proof -
      have "(ar_span_list a)[nat k := h] = ar_span_list a" using assms(5) by simp
      moreover have "p\<lparr>pg_Flag := k, pg_hPri := 0, pg_hNext := next\<rparr> = p" using assms(8,9,11) by (cases p) simp
      moreover have "0 < next \<Longrightarrow> (ar_page a next)\<lparr>pg_hPri := h\<rparr> = ar_page a next"
        using assms(15) by (cases "ar_page a next") simp
      moreover have "(ar_page a)(h := p) = ar_page a" using assms(7) by simp
      ultimately show ?thesis
        using assms(4,6,14) k com comn
        by (auto simp: push_span_def span_get_def span_set_def page_upd_def set_pri_def committed_iff fun_upd_twist)
    qed
    ultimately show ?thesis
      using hp ph assms(6,8) k com by (simp add: arena_Free_def Let_def page_get_def committed_iff)
  qed
  moreover have "PtrOf h + kSpanHeaderSize + sz \<le> PtrOf (h + k)"
    using assms(2,3) by (simp add: PtrOf_def push_bit_eq_mult SpanSlotOf_def arena_constants drop_bit_eq_div)
  ultimately show ?thesis by blast
qed

text \<open>
  C33 (safety). A bin page that is full has \<open>oFree = 0\<close>, and \<open>Free\<close> stores that 0 as the link of the first
  object given back, which \<open>Malloc\<close> takes for the mark of an object that was never used: after one \<open>Free\<close>
  two calls of \<open>Malloc\<close> return the freed object and then its neighbour, which is still in use.
\<close>

theorem malloc_double_allocation:
  assumes "arena_ok a" "0 < sz" "sz \<le> kMaxObjectAvailable" "slot = BinSlot sz" "len = kBinSlotTemplate ! nat slot"
    and "h = ar_bin a ! nat slot" "0 < h" "committed a h" "p = ar_page a h" "pg_Flag p = - slot" "pg_oFree p = 0"
    and "ptr = PtrOf h + off" "kPageHeaderSize \<le> off" "off + 2 * len \<le> push_bit kPageLenWid (BinSpanSize slot)"
    and "SpanHandleOf (ar_is_head a) (PageHandleOf ptr) = h" "0 < slot" "0 < len"
  shows "\<exists>a1 a2 a3. arena_Free ptr a = Returns a1 \<and> arena_Malloc sz a1 = Returns (Some ptr, a2) \<and>
    arena_Malloc sz a2 = Returns (Some (ptr + len), a3)"
proof -
  have off: "1 < off" using assms(13) by (simp add: kPageHeaderSize_def)
  have m: "arena_Malloc sz b = malloc_small sz b" for b
    using assms(2,3) by (simp add: arena_Malloc_def)
  have take: "\<exists>c. malloc_small sz b = Returns (Some (PtrOf h + pg_oFree (ar_page b h)), c)"
    if "ar_bin b ! nat slot = h" "committed b h" "1 < pg_oFree (ar_page b h)" for b
    using that assms(4,7)
    by (simp add: malloc_small_def Let_def bin_candidate_def page_get_def take_object_def page_upd_def)
  let ?a1 = "a\<lparr>ar_page := (ar_page a)(h := p\<lparr>pg_nUsed := pg_nUsed p - 1, pg_oFree := off\<rparr>), ar_link := (ar_link a)(ptr := 0)\<rparr>"
  have free: "arena_Free ptr a = Returns ?a1"
    using assms(6-12,15,16)
    by (simp add: arena_Free_def Let_def page_get_def page_upd_def committed_iff move_to_front_def)
  let ?a2 = "?a1\<lparr>ar_page := (ar_page ?a1)(h := (ar_page ?a1 h)\<lparr>pg_nUsed := pg_nUsed (ar_page ?a1 h) + 1, pg_oFree := off + len\<rparr>),
    ar_link := (ar_link ?a1)(ptr + len := 0)\<rparr>"
  have "malloc_small sz ?a1 = Returns (Some ptr, ?a2)"
    using assms(4-8,12,14) off
    by (simp add: malloc_small_def Let_def bin_candidate_def page_get_def take_object_def page_upd_def committed_iff push_bit_eq_mult)
  moreover have "\<exists>c. malloc_small sz ?a2 = Returns (Some (PtrOf h + (off + len)), c)"
    using take [of ?a2] assms(6,8,17) off by (simp add: committed_iff)
  ultimately show ?thesis using free m assms(12) by (auto simp: add.assoc)
qed

primrec malloc_times :: "nat \<Rightarrow> int \<Rightarrow> arena \<Rightarrow> arena fallible" where
  "malloc_times 0 sz a = Returns a"
| "malloc_times (Suc n) sz a = fbind (arena_Malloc sz a) (\<lambda>(_, a). malloc_times n sz a)"

theorem malloc_double_allocation_witness:
  "\<exists>a a1 a2 a3. fbind (arena_Init_with (\<lambda>_ _. True) 0 1) (malloc_times 6 4080) = Returns a \<and>
     arena_Free (PtrOf 1 + 16) a = Returns a1 \<and> arena_Malloc 4080 a1 = Returns (Some (PtrOf 1 + 16), a2) \<and>
     arena_Malloc 4080 a2 = Returns (Some (PtrOf 1 + 16 + 4080), a3)"
proof -
  have "(case fbind (arena_Init_with (\<lambda>_ _. True) 0 1) (malloc_times 6 4080) of Returns a \<Rightarrow> arena_ok a \<and> ar_bin a ! 39 = 1 \<and>
      pg_Flag (ar_page a 1) = - 39 \<and> pg_oFree (ar_page a 1) = 0 \<and> committed a 1 \<and>
      SpanHandleOf (ar_is_head a) (PageHandleOf (PtrOf 1 + 16)) = 1 | _ \<Rightarrow> False)" by code_simp
  then obtain a where a: "fbind (arena_Init_with (\<lambda>_ _. True) 0 1) (malloc_times 6 4080) = Returns a" "arena_ok a"
    "1 = ar_bin a ! nat 39" "pg_Flag (ar_page a 1) = - 39" "pg_oFree (ar_page a 1) = 0" "committed a 1"
    "SpanHandleOf (ar_is_head a) (PageHandleOf (PtrOf 1 + 16)) = 1" by (auto split: fallible.splits)
  have b: "39 = BinSlot 4080" "4080 = kBinSlotTemplate ! nat 39" by code_simp+
  from malloc_double_allocation [OF a(2) _ _ b(1) b(2) a(3) _ a(6) refl a(4,5) refl _ _ a(7)] a(1) show ?thesis
    by (auto simp: arena_constants push_bit_eq_mult BinSpanSize_def)
qed

text \<open>
  An object that needs the largest span, when none is free: the fresh chunk is cut into
  itself and a rest of no pages, whose header is written behind the committed heap.
\<close>

lemma malloc_largest_overruns:
  assumes "arena_ok a" "SpanSlotOf sz = kSpanSlotSize" "ar_span_list a ! nat kSpanSlotSize = 0"
    and "can_grow kSpanSlotSize a"
  shows "arena_Malloc sz a = Crash"
proof -
  let ?h = "ar_heap_page a - kSelfReservedPage + 1"
  have sz: "kMaxObjectAvailable < sz" using assms(2) by (simp add: SpanSlotOf_def arena_constants drop_bit_eq_div)
  have big: "bigger_span a (kSpanSlotSize + 1) = kSpanSlotSize + 1" by (subst bigger_span.simps) simp
  from alloc_chunk_ok [OF assms(1) _ _ assms(4)] obtain a1 where
    a1: "AllocMaxChunkFromHeap a = Returns a1" "arena_ok a1" "ar_heap_page a1 = ar_heap_page a + kSpanSlotSize"
      "ar_span_list a1 ! nat kSpanSlotSize = ?h" "pg_hNext (ar_page a1 ?h) = 0"
    using assms(1,3) by (auto simp: alloc_max_arbitrary arena_ok_def kSpanSlotSize_def)
  have h: "0 < ?h" "committed a1 ?h" "\<not> committed a1 (?h + kSpanSlotSize)"
    using a1(2,3) assms(1) by (auto simp: committed_iff reserved_pages arena_ok_def kSpanSlotSize_def)
  have "split_span kSpanSlotSize a = Crash"
    using big a1 h
    by (simp add: split_span_def Let_def span_get_def pop_span_def page_get_def span_set_def set_pri_def push_span_def
        set_head_def page_upd_def committed_iff kSpanSlotSize_def)
  then show ?thesis using sz assms(2,3) slot_small(1,2) [of sz]
    by (simp add: arena_Malloc_def malloc_big_def Let_def span_get_def kSpanSlotSize_def kMaxObjectAvailable_def)
qed

text \<open>
  The number of pages is cut down to 16 bits: a request that is \<open>2 ^ 28\<close> bytes larger than another
  large one is answered exactly like it, with an object that is \<open>2 ^ 28\<close> bytes too short.
\<close>

lemma malloc_size_wraps:
  assumes "kMaxObjectAvailable < sz" "sz + 2 ^ 28 + kSpanHeaderSize < 2 ^ 31"
  shows "arena_Malloc (sz + 2 ^ 28) a = arena_Malloc sz a"
proof -
  have "SpanSlotOf (sz + 2 ^ 28) = SpanSlotOf sz + 2 ^ 16"
    by (simp add: SpanSlotOf_def arena_constants drop_bit_eq_div)
  then have "to_int16 (SpanSlotOf (sz + 2 ^ 28)) = to_int16 (SpanSlotOf sz)" by (simp only: to_int16_wraps)
  then show ?thesis using assms by (simp add: arena_Malloc_def malloc_big_def kMaxObjectAvailable_def)
qed

end
