(* ===== verification/Arena_Spans.thy ===== *)
theory Arena_Spans
  imports Arena_Props
begin

text \<open>
  The page heap of the arena as a whole: the pages behind the reserved ones are cut into spans, the free spans
  of each size are on a doubly linked list through their headers, and the marks of \<open>is_head_\<close> are the first
  pages of the spans. The operations on lists and spans are shown to keep this, piece by piece.
\<close>

section \<open>Segments of a doubly linked list\<close>

definition first :: "int list \<Rightarrow> int \<Rightarrow> int" where
  "first xs q = (case xs of [] \<Rightarrow> q | x # _ \<Rightarrow> x)"

definition final :: "int \<Rightarrow> int list \<Rightarrow> int" where
  "final p xs = (if xs = [] then p else last xs)"

lemma first_simps [simp]: "first [] q = q" "first (x # xs) q = x" "first (xs @ ys) q = first xs (first ys q)"
  by (simp_all add: first_def split: list.splits)

lemma final_simps [simp]: "final p [] = p" "final p (x # xs) = final x xs" "final p (xs @ ys) = final (final p xs) ys"
  by (simp_all add: final_def)

lemma first_in: "first xs q \<in> insert q (set xs)" and final_in: "final p xs \<in> insert p (set xs)"
  by (simp_all add: first_def final_def split: list.splits)

text \<open>\<open>xs\<close> are the headers of flag \<open>k\<close> between \<open>p\<close> and \<open>q\<close>, linked both ways.\<close>

fun seg :: "(int \<Rightarrow> page_header) \<Rightarrow> int \<Rightarrow> int \<Rightarrow> int list \<Rightarrow> int \<Rightarrow> bool" where
  "seg pg k p [] q \<longleftrightarrow> True"
| "seg pg k p (h # hs) q \<longleftrightarrow> pg_Flag (pg h) = k \<and> pg_hPri (pg h) = p \<and> pg_hNext (pg h) = first hs q \<and> seg pg k h hs q"

lemma seg_append: "seg pg k p (xs @ ys) q \<longleftrightarrow> seg pg k p xs (first ys q) \<and> seg pg k (final p xs) ys q"
  by (induction xs arbitrary: p) auto

lemma seg_frame: "(\<And>h. h \<in> set xs \<Longrightarrow> pg' h = pg h) \<Longrightarrow> seg pg' k p xs q = seg pg k p xs q"
  by (induction xs arbitrary: p) auto

lemma seg_upd [simp]: "h \<notin> set xs \<Longrightarrow> seg (pg(h := x)) k p xs q = seg pg k p xs q"
  by (rule seg_frame) auto

lemma seg_next:
  assumes "seg pg k p xs q" "distinct xs" "xs \<noteq> []"
  shows "seg (pg(last xs := (pg (last xs))\<lparr>pg_hNext := q'\<rparr>)) k p xs q'"
  using assms
proof (induction xs arbitrary: p)
  case (Cons x xs)
  show ?case
  proof (cases xs)
    case Nil
    then show ?thesis using Cons.prems by simp
  next
    case (Cons y ys)
    then have "last xs \<noteq> x" "first xs q = first xs q'" using Cons.prems(2) by (metis distinct.simps(2) last_in_set list.distinct(1), simp)
    with Cons.IH [of x] Cons.prems Cons show ?thesis by (simp split: if_splits)
  qed
qed simp

lemma seg_pri:
  assumes "seg pg k p xs q" "distinct xs" "xs \<noteq> []"
  shows "seg (pg(first xs r := (pg (first xs r))\<lparr>pg_hPri := p'\<rparr>)) k p' xs q"
proof (cases xs)
  case (Cons x ys)
  then show ?thesis using assms by auto
qed (use assms in simp)

text \<open>What \<open>LinkedNodeMerge\<close> does to the headers.\<close>

definition relink :: "int \<Rightarrow> int \<Rightarrow> (int \<Rightarrow> page_header) \<Rightarrow> int \<Rightarrow> page_header" where
  "relink pri next pg =
     (let pg = (if pri > 0 then pg(pri := (pg pri)\<lparr>pg_hNext := next\<rparr>) else pg)
      in if next > 0 then pg(next := (pg next)\<lparr>pg_hPri := pri\<rparr>) else pg)"

lemma relink_frame: "h \<noteq> pri \<Longrightarrow> h \<noteq> next \<Longrightarrow> relink pri next pg h = pg h"
  by (simp add: relink_def)

lemma relink_flags: "pg_Flag (relink pri next pg h) = pg_Flag (pg h)"
  by (simp add: relink_def Let_def)

lemma seg_unlink:
  assumes "seg pg k 0 (xs @ n # ys) 0" "distinct (xs @ n # ys)" "\<forall>h \<in> set (xs @ n # ys). 0 < h"
  shows "seg (relink (final 0 xs) (first ys 0) pg) k 0 (xs @ ys) 0"
proof -
  have s: "seg pg k 0 xs n" "seg pg k n ys 0" using assms(1) by (simp_all add: seg_append)
  let ?pg1 = "if xs = [] then pg else pg(last xs := (pg (last xs))\<lparr>pg_hNext := first ys 0\<rparr>)"
  have pri: "(0 < final 0 xs) = (xs \<noteq> [])" "xs \<noteq> [] \<Longrightarrow> final 0 xs = last xs"
    using assms(3) by (auto simp: final_def)
  have nxt: "(0 < first ys 0) = (ys \<noteq> [])" using assms(3) by (cases ys) auto
  have re: "relink (final 0 xs) (first ys 0) pg =
      (if ys = [] then ?pg1 else ?pg1(first ys 0 := (?pg1 (first ys 0))\<lparr>pg_hPri := final 0 xs\<rparr>))"
    using pri nxt by (auto simp: relink_def)
  have one: "seg ?pg1 k 0 xs (first ys 0)" using s(1) assms(2) seg_next [of pg k 0 xs n "first ys 0"] by auto
  have "xs \<noteq> [] \<Longrightarrow> last xs \<notin> set ys" using assms(2) by (auto dest: last_in_set)
  then have "seg ?pg1 k n ys 0" using s(2) by simp
  then have two: "seg (relink (final 0 xs) (first ys 0) pg) k (final 0 xs) ys 0"
    using seg_pri [of ?pg1 k n ys 0 0 "final 0 xs"] assms(2) unfolding re by (cases "ys = []") (simp_all only: seg.simps if_True if_False distinct_append distinct.simps not_False_eq_True)
  have fresh: "ys \<noteq> [] \<Longrightarrow> first ys 0 \<notin> set xs" using assms(2) by (cases ys) auto
  have "seg (relink (final 0 xs) (first ys 0) pg) k 0 xs (first ys 0)"
  proof (cases "ys = []")
    case True
    with one show ?thesis unfolding re by (simp only: if_True simp_thms)
  next
    case False
    with one seg_upd [OF fresh [OF False], of ?pg1] show ?thesis unfolding re by (simp only: if_False)
  qed
  with two show ?thesis by (simp add: seg_append)
qed

lemma seg_push:
  assumes "seg pg k 0 xs 0" "distinct xs" "\<forall>h \<in> set xs. 0 < h" "h \<notin> set xs" "0 < h"
    and "pg1 = pg(h := (pg h)\<lparr>pg_Flag := k, pg_hPri := 0, pg_hNext := first xs 0\<rparr>)"
  shows "seg (if first xs 0 > 0 then pg1(first xs 0 := (pg1 (first xs 0))\<lparr>pg_hPri := h\<rparr>) else pg1) k 0 (h # xs) 0"
proof (cases xs)
  case Nil
  then show ?thesis using assms by simp
next
  case (Cons x ys)
  have "seg pg1 k 0 xs 0" using assms(1,4,6) by (subst seg_frame [of xs _ pg]) auto
  from seg_pri [OF this assms(2), of 0 h] Cons assms show ?thesis by auto
qed

section \<open>Spans\<close>

text \<open>
  A span of pages by what it is used for: free and on its list, a large object, a page of a bin, or taken off
  the lists in the middle of an operation.
\<close>

datatype span = Free_span (span_len: int) | Big_span (span_len: int) | Bin_span (span_len: int) | Held_span (span_len: int)

type_synonym span_map = "int \<Rightarrow> span option"

text \<open>The pages 1 to \<open>N\<close> are cut into pieces without gap or overlap.\<close>

definition tiles :: "(int \<Rightarrow> int option) \<Rightarrow> int \<Rightarrow> bool" where
  "tiles t N \<longleftrightarrow> (\<forall>h l. t h = Some l \<longrightarrow> 1 \<le> h \<and> 0 < l \<and> l \<le> kSpanSlotSize \<and> h + l \<le> N + 1 \<and>
     (\<forall>h'. t h' \<noteq> None \<longrightarrow> h' \<le> h \<or> h + l \<le> h') \<and> (h + l \<le> N \<longrightarrow> t (h + l) \<noteq> None))"

definition lens :: "span_map \<Rightarrow> int \<Rightarrow> int option" where
  "lens sp h = map_option span_len (sp h)"

definition spans_ok :: "span_map \<Rightarrow> int \<Rightarrow> bool" where
  "spans_ok sp N \<longleftrightarrow> tiles (lens sp) N"

lemma lens_upd [simp]: "lens (sp(h := x)) = (lens sp)(h := map_option span_len x)"
  by (auto simp: lens_def)

lemma spans_okD:
  assumes "spans_ok sp N" "sp h = Some s"
  shows "1 \<le> h" "0 < span_len s" "span_len s \<le> kSpanSlotSize" "h + span_len s \<le> N + 1"
    "sp h' \<noteq> None \<Longrightarrow> h' \<le> h \<or> h + span_len s \<le> h'" "h + span_len s \<le> N \<Longrightarrow> sp (h + span_len s) \<noteq> None"
proof -
  have "lens sp h = Some (span_len s)" using assms(2) by (simp add: lens_def)
  with assms(1) have "1 \<le> h \<and> 0 < span_len s \<and> span_len s \<le> kSpanSlotSize \<and> h + span_len s \<le> N + 1 \<and>
    (\<forall>h'. lens sp h' \<noteq> None \<longrightarrow> h' \<le> h \<or> h + span_len s \<le> h') \<and> (h + span_len s \<le> N \<longrightarrow> lens sp (h + span_len s) \<noteq> None)"
    unfolding spans_ok_def tiles_def by blast
  then show "1 \<le> h" "0 < span_len s" "span_len s \<le> kSpanSlotSize" "h + span_len s \<le> N + 1"
    "sp h' \<noteq> None \<Longrightarrow> h' \<le> h \<or> h + span_len s \<le> h'" "h + span_len s \<le> N \<Longrightarrow> sp (h + span_len s) \<noteq> None"
    by (auto simp: lens_def)
qed

definition heads_ok :: "span_map \<Rightarrow> (int \<Rightarrow> bool) \<Rightarrow> bool" where
  "heads_ok sp is_head \<longleftrightarrow> (\<forall>h \<ge> 1. is_head h \<longleftrightarrow> sp h \<noteq> None)"

text \<open>The lists and headers: \<open>fl k\<close> is the list of the free spans of \<open>k\<close> pages.\<close>

definition lists_ok :: "span_map \<Rightarrow> (int \<Rightarrow> int list) \<Rightarrow> arena \<Rightarrow> bool" where
  "lists_ok sp fl a \<longleftrightarrow> length (ar_span_list a) = 61 \<and>
     (\<forall>k. 0 \<le> k \<and> k \<le> kSpanSlotSize \<longrightarrow> ar_span_list a ! nat k = first (fl k) 0 \<and> seg (ar_page a) k 0 (fl k) 0 \<and>
       distinct (fl k) \<and> set (fl k) = {h. sp h = Some (Free_span k)}) \<and>
     (\<forall>h l. sp h = Some (Big_span l) \<longrightarrow> pg_Flag (ar_page a h) = l \<and> pg_hNext (ar_page a h) = -1) \<and>
     (\<forall>h l. sp h = Some (Bin_span l) \<longrightarrow> pg_Flag (ar_page a h) \<le> 0)"

definition pages :: "arena \<Rightarrow> int" where
  "pages a = ar_heap_page a - kSelfReservedPage"

lemma span_committed: "spans_ok sp (pages a) \<Longrightarrow> sp h = Some s \<Longrightarrow> committed a h \<and> 0 < h"
  using spans_okD(1,2,4) [of sp "pages a" h s] by (simp add: committed_iff pages_def reserved_pages)

text \<open>What a list operation leaves alone.\<close>

definition same_rest :: "arena \<Rightarrow> arena \<Rightarrow> bool" where
  "same_rest a a' \<longleftrightarrow> (\<exists>ls pg. a' = a\<lparr>ar_span_list := ls, ar_page := pg\<rparr>)"

lemma same_rest_upd: "same_rest a (a\<lparr>ar_page := pg, ar_span_list := ls\<rparr>)"
  unfolding same_rest_def by (rule exI [of _ ls], rule exI [of _ pg]) simp

text \<open>The bins, with their pages and the links in them, are as they were.\<close>

definition bins_same :: "span_map \<Rightarrow> arena \<Rightarrow> arena \<Rightarrow> bool" where
  "bins_same sp a a' \<longleftrightarrow> (\<forall>h l. sp h = Some (Bin_span l) \<longrightarrow> ar_page a' h = ar_page a h) \<and> ar_link a' = ar_link a \<and> ar_bin a' = ar_bin a"

lemma bins_same_refl [simp]: "bins_same sp a a"
  by (simp add: bins_same_def)

lemma bins_same_trans:
  assumes "bins_same sp a b" "bins_same sp1 b c" "\<And>h l. sp h = Some (Bin_span l) \<Longrightarrow> sp1 h = Some (Bin_span l)"
  shows "bins_same sp a c"
proof -
  have "ar_page c h = ar_page a h" if "sp h = Some (Bin_span l)" for h l
    using assms(1,2) assms(3) [OF that] that unfolding bins_same_def by metis
  then show ?thesis using assms(1,2) by (simp add: bins_same_def)
qed

lemma unlink_relink:
  assumes "p = ar_page a n" "pri = pg_hPri p" "next = pg_hNext p" "pg_Flag p = k" "0 \<le> k" "k \<le> kSpanSlotSize"
    and "0 \<le> pri" "pri > 0 \<longrightarrow> committed a pri" "0 < next \<longrightarrow> committed a next"
  shows "unlink_span p a = Returns (a\<lparr>ar_page := relink pri next (ar_page a),
    ar_span_list := (if pri = 0 then (ar_span_list a)[nat k := next] else ar_span_list a)\<rparr>)"
proof (cases "pri = 0")
  case True
  with assms show ?thesis
    by (auto simp: unlink_span_def span_set_def set_pri_def page_upd_def relink_def Let_def committed_iff)
next
  case False
  with assms show ?thesis
    by (auto simp: unlink_span_def LinkedNodeMerge_def set_pri_def page_upd_def relink_def Let_def committed_iff)
qed

lemma lists_okD:
  assumes "lists_ok sp fl a" "0 \<le> k" "k \<le> kSpanSlotSize"
  shows "ar_span_list a ! nat k = first (fl k) 0" "seg (ar_page a) k 0 (fl k) 0" "distinct (fl k)"
    "set (fl k) = {h. sp h = Some (Free_span k)}" "nat k < length (ar_span_list a)"
  using assms by (auto simp: lists_ok_def kSpanSlotSize_def)

lemma lists_ok_list_length [simp]: "lists_ok sp fl a \<Longrightarrow> length (ar_span_list a) = 61"
  by (simp add: lists_ok_def)

text \<open>Changing the list of one size and headers that no other list or object uses.\<close>

lemma lists_ok_change:
  assumes "lists_ok sp fl a" "0 \<le> k" "k \<le> kSpanSlotSize"
    and "length (ar_span_list a') = 61" "ar_span_list a' ! nat k = first xs 0" "seg (ar_page a') k 0 xs 0" "distinct xs"
    and "\<And>j. 0 \<le> j \<Longrightarrow> j \<noteq> k \<Longrightarrow> ar_span_list a' ! nat j = ar_span_list a ! nat j"
    and "\<And>h j. sp h = Some (Free_span j) \<Longrightarrow> j \<noteq> k \<Longrightarrow> ar_page a' h = ar_page a h"
    and "\<And>h l. sp h = Some (Big_span l) \<or> sp h = Some (Bin_span l) \<Longrightarrow> ar_page a' h = ar_page a h"
    and "set xs = {h. sp' h = Some (Free_span k)}" "\<And>h j. j \<noteq> k \<Longrightarrow> sp' h = Some (Free_span j) \<longleftrightarrow> sp h = Some (Free_span j)"
    and "\<And>h l. sp' h = Some (Big_span l) \<longleftrightarrow> sp h = Some (Big_span l)" "\<And>h l. sp' h = Some (Bin_span l) \<longleftrightarrow> sp h = Some (Bin_span l)"
  shows "lists_ok sp' (fl(k := xs)) a'"
proof -
  have "ar_span_list a' ! nat j = first (fl j) 0 \<and> seg (ar_page a') j 0 (fl j) 0 \<and> distinct (fl j) \<and>
      set (fl j) = {h. sp' h = Some (Free_span j)}" if "0 \<le> j" "j \<le> kSpanSlotSize" "j \<noteq> k" for j
  proof -
    note l = lists_okD [OF assms(1) that(1,2)]
    have "seg (ar_page a') j 0 (fl j) 0"
      using l(2,4) assms(9) that(3) by (subst seg_frame [of _ _ "ar_page a"]) auto
    then show ?thesis using l assms(8,12) that by auto
  qed
  moreover have "pg_Flag (ar_page a' h) = l \<and> pg_hNext (ar_page a' h) = - 1" if "sp' h = Some (Big_span l)" for h l
    using that assms(1,10,13) by (auto simp: lists_ok_def)
  moreover have "pg_Flag (ar_page a' h) \<le> 0" if "sp' h = Some (Bin_span l)" for h l
    using that assms(1,10,14) by (auto simp: lists_ok_def)
  ultimately show ?thesis using assms(4-7,11) by (simp add: lists_ok_def)
qed

lemma unlink_ok:
  assumes "spans_ok sp (pages a)" "lists_ok sp fl a" "sp n = Some (Free_span k)"
  obtains a' where "unlink_span (ar_page a n) a = Returns a'" "lists_ok (sp(n \<mapsto> Held_span k)) (fl(k := remove1 n (fl k))) a'"
    "same_rest a a'" "ar_page a' n = ar_page a n" "bins_same sp a a'"
proof -
  have k: "0 \<le> k" "k \<le> kSpanSlotSize" using spans_okD(2,3) [OF assms(1,3)] by simp_all
  note l = lists_okD [OF assms(2) k]
  obtain xs ys where fl: "fl k = xs @ n # ys" using l(4) assms(3) by (metis (mono_tags, lifting) mem_Collect_eq split_list)
  have free: "sp h = Some (Free_span k) \<and> 0 < h \<and> committed a h" if "h \<in> set (xs @ n # ys)" for h
    using that l(4) fl span_committed [OF assms(1), of h] by auto
  let ?pri = "final 0 xs" and ?next = "first ys 0"
  have p: "pg_Flag (ar_page a n) = k" "pg_hPri (ar_page a n) = ?pri" "pg_hNext (ar_page a n) = ?next"
    using l(2) by (auto simp: fl seg_append)
  have pri: "?pri = 0 \<and> xs = [] \<or> ?pri \<in> set xs \<and> xs \<noteq> []" and nxt: "?next = 0 \<and> ys = [] \<or> ?next \<in> set ys"
    by (auto simp: final_def first_def split: list.splits)
  let ?a = "a\<lparr>ar_page := relink ?pri ?next (ar_page a),
    ar_span_list := (if ?pri = 0 then (ar_span_list a)[nat k := ?next] else ar_span_list a)\<rparr>"
  have "0 \<le> ?pri" "?pri > 0 \<longrightarrow> committed a ?pri" "?next > 0 \<longrightarrow> committed a ?next"
    using pri nxt free by (auto intro: less_imp_le)
  with unlink_relink [OF refl p(2,3) [symmetric] p(1) k] have u: "unlink_span (ar_page a n) a = Returns ?a" by simp
  have d: "distinct (xs @ n # ys)" "remove1 n (fl k) = xs @ ys" using l(3) by (auto simp: fl remove1_append)
  have zero: "?pri = 0 \<longleftrightarrow> xs = []" using pri free by fastforce
  have outside: "relink ?pri ?next (ar_page a) h = ar_page a h" if "h \<notin> set xs" "h \<notin> set ys" "0 < h" for h
    using that pri nxt by (intro relink_frame) auto
  have keep: "relink ?pri ?next (ar_page a) h = ar_page a h" if "sp h = Some s" "s \<noteq> Free_span k" for h s
    using that free span_committed [OF assms(1) that(1)] by (intro outside) auto
  have "lists_ok (sp(n \<mapsto> Held_span k)) (fl(k := xs @ ys)) ?a"
  proof (rule lists_ok_change [OF assms(2) k])
    show "ar_span_list ?a ! nat k = first (xs @ ys) 0"
      using l(1,5) zero by (cases xs) (auto simp: fl)
    show "seg (ar_page ?a) k 0 (xs @ ys) 0" using seg_unlink [OF _ d(1)] l(2) free by (simp add: fl)
    show "set (xs @ ys) = {h. (sp(n \<mapsto> Held_span k)) h = Some (Free_span k)}" using l(4) d(1) by (auto simp: fl)
  qed (use assms(2,3) l(5) d(1) keep k in \<open>auto simp: nth_list_update\<close>)
  moreover have "ar_page ?a n = ar_page a n" using outside [of n] d(1) free [of n] by simp
  moreover have "bins_same sp a ?a" using keep by (auto simp: bins_same_def)
  ultimately show ?thesis using u d(2) by (intro that [of ?a] same_rest_upd) simp_all
qed

lemma push_ok:
  assumes "spans_ok sp (pages a)" "lists_ok sp fl a" "sp h = Some (Held_span k)"
  obtains a' where "push_span k h a = Returns a'" "lists_ok (sp(h \<mapsto> Free_span k)) (fl(k := h # fl k)) a'" "same_rest a a'"
    "bins_same sp a a'"
proof -
  have k: "0 \<le> k" "k \<le> kSpanSlotSize" using spans_okD(2,3) [OF assms(1,3)] by simp_all
  note l = lists_okD [OF assms(2) k]
  have h: "0 < h" "committed a h" "h \<notin> set (fl k)" using span_committed [OF assms(1,3)] l(4) assms(3) by auto
  have free: "0 < x \<and> committed a x \<and> x \<noteq> h" if "x \<in> set (fl k)" for x
    using that l(4) h(3) span_committed [OF assms(1), of x] by auto
  let ?next = "first (fl k) 0"
  let ?pg1 = "(ar_page a)(h := (ar_page a h)\<lparr>pg_Flag := k, pg_hPri := 0, pg_hNext := ?next\<rparr>)"
  define pg where "pg = (if ?next > 0 then ?pg1(?next := (?pg1 ?next)\<lparr>pg_hPri := h\<rparr>) else ?pg1)"
  let ?a = "a\<lparr>ar_page := pg, ar_span_list := (ar_span_list a)[nat k := h]\<rparr>"
  have nxt: "?next = 0 \<or> ?next \<in> set (fl k)" by (auto simp: first_def split: list.splits)
  then have "0 < ?next \<longrightarrow> committed a ?next" using free by auto
  then have u: "push_span k h a = Returns ?a"
    using k h l(1) by (auto simp: push_span_def span_get_def page_upd_def set_pri_def span_set_def committed_iff pg_def)
  have keep: "pg x = ar_page a x" if "x \<noteq> h" "x \<notin> set (fl k)" "0 < x" for x
    using that nxt by (auto simp: pg_def)
  have keep': "pg x = ar_page a x" if "sp x = Some s" "s \<noteq> Free_span k" "s \<noteq> Held_span k" for x s
    using that assms(3) l(4) span_committed [OF assms(1) that(1)] by (intro keep) auto
  have "lists_ok (sp(h \<mapsto> Free_span k)) (fl(k := h # fl k)) ?a"
  proof (rule lists_ok_change [OF assms(2) k])
    show "seg (ar_page ?a) k 0 (h # fl k) 0"
      using seg_push [OF l(2,3) _ h(3,1) refl] free by (simp add: pg_def)
    show "ar_span_list ?a ! nat k = first (h # fl k) 0" using l(5) by simp
    show "set (h # fl k) = {x. (sp(h \<mapsto> Free_span k)) x = Some (Free_span k)}" using l(4) by auto
    show "ar_page ?a x = ar_page a x" if "sp x = Some (Free_span j)" "j \<noteq> k" for x j using keep' [OF that(1)] that(2) by simp
    show "ar_page ?a x = ar_page a x" if "sp x = Some (Big_span m) \<or> sp x = Some (Bin_span m)" for x m using keep' that by auto
  qed (use assms(2,3) l h k in \<open>auto simp: nth_list_update\<close>)
  moreover have "bins_same sp a ?a" using keep' by (auto simp: bins_same_def)
  ultimately show ?thesis using u by (intro that [of ?a] same_rest_upd) simp_all
qed

lemma pop_unlink: "committed a h \<Longrightarrow> 0 < h \<Longrightarrow> pg_Flag (ar_page a h) = k \<Longrightarrow> pg_hPri (ar_page a h) = 0 \<Longrightarrow>
    pop_span k h a = unlink_span (ar_page a h) a"
  by (simp add: pop_span_def unlink_span_def page_get_def)

lemma pop_ok:
  assumes "spans_ok sp (pages a)" "lists_ok sp fl a" "0 \<le> k" "k \<le> kSpanSlotSize" "fl k = h # hs"
  obtains a' where "pop_span k h a = Returns a'" "lists_ok (sp(h \<mapsto> Held_span k)) (fl(k := hs)) a'" "same_rest a a'"
    "ar_page a' h = ar_page a h" "pg_Flag (ar_page a h) = k" "sp h = Some (Free_span k)" "ar_span_list a ! nat k = h"
    "bins_same sp a a'"
proof -
  note l = lists_okD [OF assms(2-4)]
  have h: "sp h = Some (Free_span k)" "pg_Flag (ar_page a h) = k" "pg_hPri (ar_page a h) = 0" "ar_span_list a ! nat k = h"
    using l(1,2,4) assms(5) by auto
  have c: "committed a h" "0 < h" using span_committed [OF assms(1) h(1)] by auto
  from unlink_ok [OF assms(1,2) h(1)] obtain a' where "unlink_span (ar_page a h) a = Returns a'"
    "lists_ok (sp(h \<mapsto> Held_span k)) (fl(k := remove1 h (fl k))) a'" "same_rest a a'" "ar_page a' h = ar_page a h" "bins_same sp a a'" by blast
  with that [of a'] h pop_unlink [OF c h(2,3)] assms(5) show ?thesis by simp
qed

text \<open>Headers of pages that are in no list may change.\<close>

lemma lists_ok_held:
  assumes "lists_ok sp fl a" "sp h = Some (Held_span l) \<or> sp h = None"
  shows "lists_ok sp fl (a\<lparr>ar_page := (ar_page a)(h := p)\<rparr>)"
proof -
  have "seg ((ar_page a)(h := p)) k 0 (fl k) 0" if "0 \<le> k" "k \<le> kSpanSlotSize" for k
  proof -
    have "h \<notin> set (fl k)" using lists_okD(4) [OF assms(1) that] assms(2) by auto
    then show ?thesis using lists_okD(2) [OF assms(1) that] by simp
  qed
  with assms show ?thesis by (auto simp: lists_ok_def)
qed

lemma lists_ok_cong:
  "ar_span_list a' = ar_span_list a \<Longrightarrow> ar_page a' = ar_page a \<Longrightarrow> lists_ok sp fl a' = lists_ok sp fl a"
  by (simp add: lists_ok_def)

text \<open>A held span becomes an object, is cut in two, or is joined with the held span behind it.\<close>

lemma lists_ok_big:
  assumes "lists_ok sp fl a" "sp h = Some (Held_span l)" "pg_Flag (ar_page a h) = l" "pg_hNext (ar_page a h) = -1"
  shows "lists_ok (sp(h \<mapsto> Big_span l)) fl a"
  using assms by (auto simp: lists_ok_def)

lemma lists_ok_take:
  assumes "lists_ok sp fl a" "sp h = Some (Big_span l) \<or> sp h = Some (Bin_span l)"
  shows "lists_ok (sp(h \<mapsto> Held_span l)) fl a"
  using assms by (auto simp: lists_ok_def)

lemma lists_ok_split:
  assumes "lists_ok sp fl a" "sp h = Some (Held_span l)" "sp h' = None \<or> (\<exists>l. sp h' = Some (Held_span l))"
    and "\<forall>s. x = Some s \<longrightarrow> (\<exists>l. s = Held_span l)"
  shows "lists_ok (sp(h \<mapsto> Held_span l', h' := x)) fl a"
proof -
  have "(sp(h \<mapsto> Held_span l', h' := x)) g = Some s \<longleftrightarrow> sp g = Some s" if "\<And>l. s \<noteq> Held_span l" for g s
    using assms(2-4) that by (cases "g = h'"; cases "g = h"; cases x; cases s) auto
  then show ?thesis using assms(1) by (simp add: lists_ok_def)
qed

lemma spans_ok_relabel:
  assumes "spans_ok sp N" "sp h = Some s" "span_len s' = span_len s"
  shows "spans_ok (sp(h \<mapsto> s')) N"
proof -
  have "(lens sp)(h \<mapsto> span_len s') = lens sp" using assms(2,3) by (auto simp: lens_def)
  then show ?thesis using assms(1) by (simp add: spans_ok_def)
qed

lemma tilesD:
  assumes "tiles t N" "t h = Some l"
  shows "1 \<le> h" "0 < l" "l \<le> kSpanSlotSize" "h + l \<le> N + 1" "t h' \<noteq> None \<Longrightarrow> h' \<le> h \<or> h + l \<le> h'" "h + l \<le> N \<Longrightarrow> t (h + l) \<noteq> None"
  using assms unfolding tiles_def by blast+

lemma tilesI:
  assumes "\<And>h l. t h = Some l \<Longrightarrow> 1 \<le> h \<and> 0 < l \<and> l \<le> kSpanSlotSize \<and> h + l \<le> N + 1"
    and "\<And>h l h' l'. t h = Some l \<Longrightarrow> t h' = Some l' \<Longrightarrow> h' \<le> h \<or> h + l \<le> h'"
    and "\<And>h l. t h = Some l \<Longrightarrow> h + l \<le> N \<Longrightarrow> t (h + l) \<noteq> None"
  shows "tiles t N"
  unfolding tiles_def using assms by blast

lemma tiles_split:
  assumes "tiles t N" "t h = Some l" "0 < k" "k < l"
  shows "tiles (t(h \<mapsto> k, h + k \<mapsto> l - k)) N"
proof -
  note d = tilesD [OF assms(1)]
  have none: "t (h + k) = None" using d(5) [OF assms(2), of "h + k"] assms(3,4) by (cases "t (h + k)") auto
  have sep: "x \<le> h \<or> h + l \<le> x" "x < h \<Longrightarrow> x + m \<le> h" if "t x = Some m" for x m
    using d(5) [OF assms(2), of x] d(5) [OF that, of h] that assms(2) by auto
  show ?thesis
  proof (rule tilesI)
    fix x m assume x: "(t(h \<mapsto> k, h + k \<mapsto> l - k)) x = Some m"
    show "1 \<le> x \<and> 0 < m \<and> m \<le> kSpanSlotSize \<and> x + m \<le> N + 1"
      using x d(1-4) [OF assms(2)] d(1-4) [of x m] assms(3,4) by (auto split: if_splits)
    show "(t(h \<mapsto> k, h + k \<mapsto> l - k)) (x + m) \<noteq> None" if "x + m \<le> N"
      using x that d(6) [OF assms(2)] d(6) [of x m] assms(3,4) by (auto split: if_splits)
    show "y \<le> x \<or> x + m \<le> y" if "(t(h \<mapsto> k, h + k \<mapsto> l - k)) y = Some n" for y n
      using x that assms(3,4) d(5) [of x m y] sep [of x m] sep [of y n] d(2) [of y n] d(2) [of x m] none by (auto split: if_splits)
  qed
qed

lemma tiles_merge:
  assumes "tiles t N" "t h = Some l" "t (h + l) = Some m" "l + m \<le> kSpanSlotSize"
  shows "tiles (t(h \<mapsto> l + m, h + l := None)) N"
proof -
  note d = tilesD [OF assms(1)]
  have l: "0 < l" "0 < m" using d(2) [OF assms(2)] d(2) [OF assms(3)] by auto
  have sep: "x \<le> h \<or> h + l \<le> x" "x \<le> h + l \<or> h + l + m \<le> x" "x < h \<Longrightarrow> x + n \<le> h" if "t x = Some n" for x n
    using d(5) [OF assms(2), of x] d(5) [OF assms(3), of x] d(5) [OF that, of h] that assms(2) by auto
  show ?thesis
  proof (rule tilesI)
    fix x n assume x: "(t(h \<mapsto> l + m, h + l := None)) x = Some n"
    show "1 \<le> x \<and> 0 < n \<and> n \<le> kSpanSlotSize \<and> x + n \<le> N + 1"
      using x d(1-4) [OF assms(2)] d(1-4) [OF assms(3)] d(1-4) [of x n] assms(4) by (auto split: if_splits)
    show "(t(h \<mapsto> l + m, h + l := None)) (x + n) \<noteq> None" if "x + n \<le> N"
    proof (cases "x = h")
      case True
      then show ?thesis using x that d(6) [OF assms(3)] l by (auto simp: add.assoc split: if_splits)
    next
      case False
      then have t: "t x = Some n" "x \<noteq> h + l" using x by (auto split: if_splits)
      then have "x + n \<noteq> h + l" using sep [OF t(1)] False l d(2) [OF t(1)] by auto
      then show ?thesis using t d(6) [OF t(1)] that by auto
    qed
    show "y \<le> x \<or> x + n \<le> y" if "(t(h \<mapsto> l + m, h + l := None)) y = Some k" for y k
      using x that l d(5) [of x n y] sep [of x n] sep [of y k] d(2) [of y k] by (auto split: if_splits)
  qed
qed

lemma tiles_grow:
  assumes "tiles t N" "0 \<le> N" "0 < l" "l \<le> kSpanSlotSize"
  shows "tiles (t(N + 1 \<mapsto> l)) (N + l)"
proof -
  note d = tilesD [OF assms(1)]
  show ?thesis
  proof (rule tilesI)
    fix x m assume x: "(t(N + 1 \<mapsto> l)) x = Some m"
    show "1 \<le> x \<and> 0 < m \<and> m \<le> kSpanSlotSize \<and> x + m \<le> N + l + 1"
      using x d(1-4) [of x m] assms by (auto split: if_splits)
    show "(t(N + 1 \<mapsto> l)) (x + m) \<noteq> None" if "x + m \<le> N + l"
      using x that d(4) [of x m] d(6) [of x m] by (cases "x + m = N + 1") (auto split: if_splits)
    show "y \<le> x \<or> x + m \<le> y" if "(t(N + 1 \<mapsto> l)) y = Some n" for y n
      using x that d(2) [of y n] d(4) [of y n] d(4) [of x m] d(5) [of x m y] by (auto split: if_splits)
  qed
qed

section \<open>The page heap\<close>

definition counters_ok :: "arena \<Rightarrow> bool" where
  "counters_ok a \<longleftrightarrow> length (ar_bin a) = 40 \<and> ar_reserved a = ar_heap_page a * kPageLen \<and>
     kSelfReservedPage \<le> ar_heap_page a \<and> ar_heap_page a \<le> kPageTotalSize"

definition page_heap :: "span_map \<Rightarrow> (int \<Rightarrow> int list) \<Rightarrow> arena \<Rightarrow> bool" where
  "page_heap sp fl a \<longleftrightarrow> spans_ok sp (pages a) \<and> lists_ok sp fl a \<and> heads_ok sp (ar_is_head a) \<and> counters_ok a"

lemma page_heapD:
  assumes "page_heap sp fl a"
  shows "spans_ok sp (pages a)" "lists_ok sp fl a" "heads_ok sp (ar_is_head a)" "counters_ok a"
  using assms by (simp_all add: page_heap_def)

lemma same_restD:
  assumes "same_rest a a'"
  shows "pages a' = pages a" "ar_is_head a' = ar_is_head a" "counters_ok a' = counters_ok a" "ar_bin a' = ar_bin a"
    "ar_heap_page a' = ar_heap_page a" "ar_link a' = ar_link a"
  using assms by (auto simp: same_rest_def pages_def counters_ok_def)

text \<open>The spans in use, with their first page.\<close>

definition objects :: "span_map \<Rightarrow> (int \<times> span) set" where
  "objects sp = {(h, s). sp h = Some s \<and> (\<exists>l. s = Big_span l \<or> s = Bin_span l)}"

lemma AllocMem_ok:
  assumes "counters_ok a" "0 < n"
  shows "AllocMemFromHeap (push_bit kPageLenWid n) a =
    (if can_grow n a
     then Returns (ar_reserved a, a\<lparr>ar_heap_page := ar_heap_page a + n, ar_reserved := ar_reserved a + n * kPageLen\<rparr>) else Bad_alloc)"
    "PageHandleOf (ar_reserved a) = pages a + 1"
proof -
  have m: "push_bit kPageLenWid n = n * kPageLen" "drop_bit kPageLenWid (n * kPageLen) = n"
    by (simp_all add: push_bit_eq_mult drop_bit_eq_div kPageLenWid_def kPageLen_def)
  have res: "ar_reserved a = ar_heap_page a * kPageLen" using assms(1) by (simp add: counters_ok_def)
  have cap: "ar_heap_page a * kPageLen + n * kPageLen > kMemoryCapacity \<longleftrightarrow> ar_heap_page a + n > kPageTotalSize"
    unfolding kMemoryCapacity_def kPageLen_def by linarith
  show "AllocMemFromHeap (push_bit kPageLenWid n) a =
    (if can_grow n a
     then Returns (ar_reserved a, a\<lparr>ar_heap_page := ar_heap_page a + n, ar_reserved := ar_reserved a + n * kPageLen\<rparr>) else Bad_alloc)"
    using cap by (simp add: AllocMemFromHeap_def can_grow_def m res)
  show "PageHandleOf (ar_reserved a) = pages a + 1"
    by (simp add: PageHandleOf_def pages_def res drop_bit_eq_div kPageLenWid_def kPageLen_def)
qed

lemma grow_ok:
  assumes "page_heap sp fl a" "0 < n" "n \<le> kSpanSlotSize" "can_grow n a"
  obtains a' where "AllocArbitaryChunkFromHeap n a = Returns a'"
    "page_heap (sp(pages a + 1 \<mapsto> Free_span n)) (fl(n := (pages a + 1) # fl n)) a'" "pages a' = pages a + n" "bins_same sp a a'"
    "sp (pages a + 1) = None"
proof -
  note d = page_heapD [OF assms(1)]
  let ?h = "pages a + 1"
  let ?a = "set_head ?h True (a\<lparr>ar_heap_page := ar_heap_page a + n, ar_reserved := ar_reserved a + n * kPageLen\<rparr>)"
  have N: "0 \<le> pages a" "pages ?a = pages a + n" using d(4) by (simp_all add: counters_ok_def pages_def set_head_def)
  have none: "sp ?h = None" using spans_okD(2,4) [OF d(1), of ?h] by (cases "sp ?h") auto
  let ?sp = "sp(?h \<mapsto> Held_span n)"
  have s: "spans_ok ?sp (pages ?a)" using d(1) tiles_grow [of "lens sp" "pages a" n] N assms(2,3) by (simp add: spans_ok_def)
  have "lists_ok sp fl ?a" using d(2) by (simp add: lists_ok_def set_head_def)
  then have l: "lists_ok ?sp fl ?a" using none by (auto simp: lists_ok_def)
  have "?sp ?h = Some (Held_span n)" by simp
  from push_ok [OF s l this] obtain a' where
    a': "push_span n ?h ?a = Returns a'" "lists_ok (?sp(?h \<mapsto> Free_span n)) (fl(n := ?h # fl n)) a'" "same_rest ?a a'" "bins_same ?sp ?a a'" .
  note r = same_restD [OF a'(3)]
  have "heads_ok (sp(?h \<mapsto> Free_span n)) (ar_is_head a')" using d(3) r(2) by (auto simp: heads_ok_def set_head_def)
  moreover have "spans_ok (sp(?h \<mapsto> Free_span n)) (pages a')"
    using spans_ok_relabel [OF s, of ?h "Held_span n" "Free_span n"] r(1) by simp
  moreover have "counters_ok a'" using r(3) d(4) assms(2,4) by (simp add: counters_ok_def can_grow_def set_head_def algebra_simps)
  ultimately have "page_heap (sp(?h \<mapsto> Free_span n)) (fl(n := ?h # fl n)) a'" using a'(2) by (simp add: page_heap_def)
  moreover have "AllocArbitaryChunkFromHeap n a = Returns a'"
    using AllocMem_ok [OF d(4) assms(2)] assms(4) a'(1) by (simp add: AllocArbitaryChunkFromHeap_def Let_def)
  moreover have "bins_same sp a a'"
  proof -
    have "bins_same sp a ?a" by (simp add: bins_same_def set_head_def)
    from bins_same_trans [OF this a'(4)] none show ?thesis by (metis fun_upd_other option.distinct(1))
  qed
  ultimately show ?thesis using that [of a'] r(1) N none by simp
qed

lemma set_head_simps [simp]:
  "lists_ok sp fl (set_head h b a) = lists_ok sp fl a" "pages (set_head h b a) = pages a" "counters_ok (set_head h b a) = counters_ok a"
  "ar_bin (set_head h b a) = ar_bin a" "ar_page (set_head h b a) = ar_page a" "ar_span_list (set_head h b a) = ar_span_list a"
  "ar_is_head (set_head h b a) = (ar_is_head a)(h := b)" "ar_heap_page (set_head h b a) = ar_heap_page a" "ar_link (set_head h b a) = ar_link a" "ar_reserved (set_head h b a) = ar_reserved a"
  by (simp_all add: set_head_def lists_ok_def pages_def counters_ok_def)

lemma bins_same_set_head [simp]: "bins_same sp a (set_head h b a) = True" "bins_same sp (set_head h b a) a' = bins_same sp a a'"
  by (simp_all add: bins_same_def)

lemma free_header:
  assumes "spans_ok sp (pages a)" "lists_ok sp fl a" "sp y = Some (Free_span j)"
  shows "pg_Flag (ar_page a y) = j" "0 \<le> pg_hNext (ar_page a y)"
proof -
  have j: "0 \<le> j" "j \<le> kSpanSlotSize" using spans_okD(2,3) [OF assms(1,3)] by simp_all
  note l = lists_okD [OF assms(2) j]
  obtain xs ys where fl: "fl j = xs @ y # ys" using l(4) assms(3) by (metis (mono_tags, lifting) mem_Collect_eq split_list)
  then have p: "pg_Flag (ar_page a y) = j" "pg_hNext (ar_page a y) = first ys 0" using l(2) by (auto simp: seg_append)
  have "0 \<le> h" if "h \<in> set ys" for h
    using that fl l(4) spans_okD(1) [OF assms(1), of h] by fastforce
  then show "pg_Flag (ar_page a y) = j" "0 \<le> pg_hNext (ar_page a y)" using p by (cases ys; simp)+
qed

end
