(* ===== verification/Arena_Safety.thy ===== *)
theory Arena_Safety
  imports Arena_Spans
begin

text \<open>
  \<open>Malloc\<close> and \<open>Free\<close> of large objects keep the page heap: splitting and merging of spans, the invariant of the
  spans in use, and what follows for the objects of a whole run.
\<close>

section \<open>Taking a span off the heap\<close>

lemma list_head_pos:
  assumes "page_heap sp fl a" "0 \<le> k" "k \<le> kSpanSlotSize"
  shows "ar_span_list a ! nat k = first (fl k) 0" "0 < first (fl k) 0 \<longleftrightarrow> fl k \<noteq> []"
proof -
  note l = lists_okD [OF page_heapD(2) [OF assms(1)] assms(2,3)]
  show "ar_span_list a ! nat k = first (fl k) 0" by (rule l(1))
  have "0 < h" if "h \<in> set (fl k)" for h using that l(4) spans_okD(1) [OF page_heapD(1) [OF assms(1)], of h] by fastforce
  then show "0 < first (fl k) 0 \<longleftrightarrow> fl k \<noteq> []" by (cases "fl k") auto
qed

lemma bigger_span_ok:
  assumes "page_heap sp fl a" "0 \<le> b" "b \<le> kSpanSlotSize + 1" "c = bigger_span a b"
  shows "b \<le> c \<and> c \<le> kSpanSlotSize + 1 \<and> (c \<le> kSpanSlotSize \<longrightarrow> fl c \<noteq> []) \<and> (\<forall>j. b \<le> j \<and> j < c \<longrightarrow> fl j = [])"
  using assms
proof (induction a b rule: bigger_span.induct)
  case (1 a b)
  note h = list_head_pos [OF "1.prems"(1,2)]
  show ?case
  proof (cases "b \<le> kSpanSlotSize \<and> ar_span_list a ! nat b \<le> 0")
    case True
    then have "c = bigger_span a (b + 1)" using "1.prems"(4) by (subst (asm) bigger_span.simps) simp
    from "1.IH" [OF True "1.prems"(1) _ _ this] True "1.prems"(2) have
      r: "b + 1 \<le> c \<and> c \<le> kSpanSlotSize + 1 \<and> (c \<le> kSpanSlotSize \<longrightarrow> fl c \<noteq> []) \<and> (\<forall>j. b + 1 \<le> j \<and> j < c \<longrightarrow> fl j = [])" by simp
    have "fl b = []" using True h by auto
    then have "fl j = []" if "b \<le> j" "j < c" for j using r that by (cases "j = b") auto
    with r show ?thesis by auto
  next
    case False
    then have "c = b" using "1.prems"(4) by (subst (asm) bigger_span.simps) auto
    with False "1.prems"(3) h show ?thesis by fastforce
  qed
qed

text \<open>Taking the first free span of \<open>b\<close> pages and giving its rest back.\<close>

lemma cut_ok:
  assumes "page_heap sp fl a" "fl b = h # hs" "0 < k" "k < b" "b \<le> kSpanSlotSize"
  obtains a1 a' where "pop_span b h a = Returns a1" "push_span (b - k) (h + k) (set_head (h + k) True a1) = Returns a'"
    "page_heap (sp(h \<mapsto> Held_span k, h + k \<mapsto> Free_span (b - k))) (fl(b := hs, b - k := (h + k) # (fl(b := hs)) (b - k))) a'"
    "bins_same sp a a'" "pages a' = pages a" "sp h = Some (Free_span b)" "sp (h + k) = None" "ar_span_list a ! nat b = h"
proof -
  note d = page_heapD [OF assms(1)]
  have "0 \<le> b" using assms(3,4) by simp
  from pop_ok [OF d(1,2) this assms(5,2)] obtain a1 where
    a1: "pop_span b h a = Returns a1" "lists_ok (sp(h \<mapsto> Held_span b)) (fl(b := hs)) a1" "same_rest a a1"
      "sp h = Some (Free_span b)" "ar_span_list a ! nat b = h" "bins_same sp a a1" by blast
  note r1 = same_restD [OF a1(3)]
  let ?sp = "sp(h \<mapsto> Held_span k, h + k \<mapsto> Held_span (b - k))" and ?a = "set_head (h + k) True a1"
  have none: "sp (h + k) = None" using spans_okD(5) [OF d(1) a1(4), of "h + k"] assms(3,4) by (cases "sp (h + k)") auto
  have t: "lens sp h = Some b" using a1(4) by (simp add: lens_def)
  have s: "spans_ok ?sp (pages ?a)"
    using tiles_split [of "lens sp" "pages a" h b k] t assms(3,4) d(1) r1(1) by (simp add: spans_ok_def)
  have "lists_ok ((sp(h \<mapsto> Held_span b))(h \<mapsto> Held_span k, h + k := Some (Held_span (b - k)))) (fl(b := hs)) a1"
    using none assms(3) by (intro lists_ok_split [OF a1(2)]) auto
  then have l: "lists_ok ?sp (fl(b := hs)) ?a" by simp
  have "?sp (h + k) = Some (Held_span (b - k))" by simp
  from push_ok [OF s l this] obtain a' where
    a': "push_span (b - k) (h + k) ?a = Returns a'" "lists_ok (?sp(h + k \<mapsto> Free_span (b - k))) (fl(b := hs, b - k := (h + k) # (fl(b := hs)) (b - k))) a'"
      "same_rest ?a a'" "bins_same ?sp ?a a'" by blast
  note r = same_restD [OF a'(3)]
  have "spans_ok (?sp(h + k \<mapsto> Free_span (b - k))) (pages a')"
    using spans_ok_relabel [OF s, of "h + k" "Held_span (b - k)" "Free_span (b - k)"] r(1) by simp
  moreover have "heads_ok (?sp(h + k \<mapsto> Free_span (b - k))) (ar_is_head a')"
    using d(3) a1(4) r(2) r1(2) by (auto simp: heads_ok_def)
  moreover have "counters_ok a'" using d(4) r1(3) r(3) by simp
  ultimately have "page_heap (sp(h \<mapsto> Held_span k, h + k \<mapsto> Free_span (b - k))) (fl(b := hs, b - k := (h + k) # (fl(b := hs)) (b - k))) a'"
    using a'(2) by (simp add: page_heap_def)
  moreover have "bins_same sp a a'"
  proof (rule bins_same_trans [OF a1(6)])
    show "bins_same ?sp a1 a'" using a'(4) by simp
    show "?sp x = Some (Bin_span l)" if "sp x = Some (Bin_span l)" for x l using that a1(4) none by auto
  qed
  moreover have "pages a' = pages a" using r r1 by simp
  ultimately show ?thesis using that [OF a1(1) a'(1)] a1(4,5) none by blast
qed

lemma objects_cut: "sp h = Some (Free_span b) \<Longrightarrow> sp (h + k) = None \<Longrightarrow> objects (sp(h \<mapsto> Held_span k, h + k \<mapsto> Free_span j)) = objects sp"
  by (auto simp: objects_def split: if_splits)

text \<open>The end of \<open>split_span\<close>.\<close>

definition cut_span :: "int \<Rightarrow> int \<Rightarrow> arena \<Rightarrow> (int option \<times> arena) fallible" where
  "cut_span b k a = fbind (span_get a b) (\<lambda>hPage.
     if hPage \<le> 0 then Returns (None, a)
     else fbind (pop_span b hPage a) (\<lambda>a.
       fbind (push_span (b - k) (hPage + k) (set_head (hPage + k) True a)) (\<lambda>a. Returns (Some hPage, a))))"

definition takes :: "int \<Rightarrow> span_map \<Rightarrow> arena \<Rightarrow> (int option \<times> arena) fallible \<Rightarrow> bool" where
  "takes k sp a r \<longleftrightarrow> (\<exists>h a' sp' fl'. r = Returns (Some h, a') \<and> page_heap sp' fl' a' \<and> sp' h = Some (Held_span k) \<and>
     objects sp' = objects sp \<and> bins_same sp a a' \<and> (\<forall>x l. sp' x = Some (Held_span l) \<longrightarrow> x = h \<or> sp x = Some (Held_span l)))"

lemma bins_of_objects: "objects sp1 = objects sp \<Longrightarrow> sp h = Some (Bin_span l) \<longleftrightarrow> sp1 h = Some (Bin_span l)"
  by (auto simp: objects_def set_eq_iff)

lemma takes_mono:
  assumes "takes k sp1 a1 r" "objects sp1 = objects sp" "bins_same sp a a1"
    and "\<And>x l. sp1 x = Some (Held_span l) \<Longrightarrow> sp x = Some (Held_span l)"
  shows "takes k sp a r"
proof -
  obtain h a' sp' fl' where r: "r = Returns (Some h, a')" "page_heap sp' fl' a'" "sp' h = Some (Held_span k)" "objects sp' = objects sp1"
    "bins_same sp1 a1 a'" "\<forall>x l. sp' x = Some (Held_span l) \<longrightarrow> x = h \<or> sp1 x = Some (Held_span l)"
    using assms(1) unfolding takes_def by blast
  then have "\<forall>x l. sp' x = Some (Held_span l) \<longrightarrow> x = h \<or> sp x = Some (Held_span l)" using assms(4) by blast
  moreover have "bins_same sp a a'" using assms(3) r(5) by (rule bins_same_trans) (use assms(2) bins_of_objects in blast)
  ultimately show ?thesis using r assms(2) unfolding takes_def by metis
qed

lemma cut_span_ok:
  assumes "page_heap sp fl a" "0 < k" "k < b" "b \<le> kSpanSlotSize" "fl b \<noteq> []"
  shows "takes k sp a (cut_span b k a)"
proof -
  obtain h hs where h: "fl b = h # hs" using assms(5) by (cases "fl b") auto
  from cut_ok [OF assms(1) h assms(2-4)] obtain a2 a3 fl' where c: "pop_span b h a = Returns a2"
    "push_span (b - k) (h + k) (set_head (h + k) True a2) = Returns a3"
    "page_heap (sp(h \<mapsto> Held_span k, h + k \<mapsto> Free_span (b - k))) fl' a3"
    "bins_same sp a a3" "sp h = Some (Free_span b)" "sp (h + k) = None" "ar_span_list a ! nat b = h" by blast
  have g: "span_get a b = Returns h" "0 < h"
    using c(7) assms(2-4) spans_okD(1) [OF page_heapD(1) [OF assms(1)] c(5)] by (simp_all add: span_get_def)
  let ?sp = "sp(h \<mapsto> Held_span k, h + k \<mapsto> Free_span (b - k))"
  have "cut_span b k a = Returns (Some h, a3)" using c(1,2) g by (simp add: cut_span_def)
  moreover have "?sp h = Some (Held_span k)" using assms(2) by simp
  moreover have "\<forall>x l. ?sp x = Some (Held_span l) \<longrightarrow> x = h \<or> sp x = Some (Held_span l)" by simp
  ultimately show ?thesis using c(3,4) objects_cut [OF c(5,6)] unfolding takes_def by metis
qed

lemma split_span_ok:
  assumes "page_heap sp fl a" "0 < k" "k < kSpanSlotSize"
  shows "split_span k a = Bad_alloc \<and> \<not> can_grow kSpanSlotSize a \<and> (\<forall>j. k < j \<and> j \<le> kSpanSlotSize \<longrightarrow> fl j = []) \<or>
    takes k sp a (split_span k a)"
proof -
  define b where "b = bigger_span a (k + 1)"
  have b: "k + 1 \<le> b" "b \<le> kSpanSlotSize + 1" "b \<le> kSpanSlotSize \<Longrightarrow> fl b \<noteq> []" "\<forall>j. k + 1 \<le> j \<and> j < b \<longrightarrow> fl j = []"
    using bigger_span_ok [OF assms(1) _ _ b_def] assms(2,3) by auto
  have eq: "split_span k a = fbind (if b > kSpanSlotSize then fbind (AllocMaxChunkFromHeap a) (\<lambda>a. Returns (b - 1, a)) else Returns (b, a))
      (\<lambda>(b, a). cut_span b k a)"
    by (simp add: split_span_def cut_span_def b_def Let_def)
  show ?thesis
  proof (cases "b \<le> kSpanSlotSize")
    case True
    with cut_span_ok [OF assms(1,2) _ True b(3)] b(1) show ?thesis by (simp add: eq)
  next
    case False
    then have b61: "b = kSpanSlotSize + 1" using b(2) by simp
    have six: "0 < kSpanSlotSize" by (simp add: kSpanSlotSize_def)
    show ?thesis
    proof (cases "can_grow kSpanSlotSize a")
      case True
      from grow_ok [OF assms(1) six _ True] obtain a1 where g: "AllocArbitaryChunkFromHeap kSpanSlotSize a = Returns a1"
        "page_heap (sp(pages a + 1 \<mapsto> Free_span kSpanSlotSize)) (fl(kSpanSlotSize := (pages a + 1) # fl kSpanSlotSize)) a1"
        "bins_same sp a a1" "sp (pages a + 1) = None" by blast
      have "objects (sp(pages a + 1 \<mapsto> Free_span kSpanSlotSize)) = objects sp"
        using g(4) by (auto simp: objects_def split: if_splits)
      moreover have "takes k (sp(pages a + 1 \<mapsto> Free_span kSpanSlotSize)) a1 (cut_span kSpanSlotSize k a1)"
        by (rule cut_span_ok [OF g(2) assms(2,3)]) simp_all
      ultimately have "takes k sp a (cut_span kSpanSlotSize k a1)"
        using g(3) by (elim takes_mono) (auto split: if_splits)
      then show ?thesis using g(1) b61 by (simp add: eq alloc_max_arbitrary)
    next
      case False
      have "AllocMaxChunkFromHeap a = Bad_alloc"
        using AllocMem_ok(1) [OF page_heapD(4) [OF assms(1)] six] False by (simp add: AllocMaxChunkFromHeap_def)
      with b61 b(4) False show ?thesis by (auto simp: eq)
    qed
  qed
qed

text \<open>Taking the first free span of the right size.\<close>

lemma pop_first:
  assumes "page_heap sp fl a" "0 < k" "k \<le> kSpanSlotSize" "fl k = h # hs"
  obtains a1 where "pop_span k h a = Returns a1" "page_heap (sp(h \<mapsto> Held_span k)) (fl(k := hs)) a1"
    "objects (sp(h \<mapsto> Held_span k)) = objects sp" "bins_same sp a a1" "pg_Flag (ar_page a1 h) = k"
proof -
  note d = page_heapD [OF assms(1)]
  have "0 \<le> k" using assms(2) by simp
  from pop_ok [OF d(1,2) this assms(3,4)] obtain a1 where
    a1: "pop_span k h a = Returns a1" "lists_ok (sp(h \<mapsto> Held_span k)) (fl(k := hs)) a1" "same_rest a a1"
      "ar_page a1 h = ar_page a h" "pg_Flag (ar_page a h) = k" "sp h = Some (Free_span k)" "bins_same sp a a1" by blast
  note r = same_restD [OF a1(3)]
  have "page_heap (sp(h \<mapsto> Held_span k)) (fl(k := hs)) a1"
    using a1(2,6) d r spans_ok_relabel [OF d(1) a1(6), of "Held_span k"] by (auto simp: page_heap_def heads_ok_def)
  moreover have "objects (sp(h \<mapsto> Held_span k)) = objects sp" using a1(6) by (auto simp: objects_def split: if_splits)
  ultimately show ?thesis using that a1 by simp
qed

section \<open>Large objects\<close>

definition no_held :: "span_map \<Rightarrow> bool" where
  "no_held sp \<longleftrightarrow> (\<forall>h l. sp h \<noteq> Some (Held_span l))"

text \<open>A held span becomes a large object.\<close>

lemma make_big:
  assumes "page_heap sp fl a" "sp h = Some (Held_span k)" "pg_Flag p = k" "pg_hNext p = -1"
  shows "page_heap (sp(h \<mapsto> Big_span k)) fl (a\<lparr>ar_page := (ar_page a)(h := p)\<rparr>)"
    "objects (sp(h \<mapsto> Big_span k)) = insert (h, Big_span k) (objects sp)"
proof -
  note d = page_heapD [OF assms(1)]
  let ?a = "a\<lparr>ar_page := (ar_page a)(h := p)\<rparr>"
  have "lists_ok sp fl ?a" using lists_ok_held [OF d(2)] assms(2) by blast
  from lists_ok_big [OF this assms(2)] assms(3,4) have "lists_ok (sp(h \<mapsto> Big_span k)) fl ?a" by simp
  moreover have "spans_ok (sp(h \<mapsto> Big_span k)) (pages ?a)"
    using spans_ok_relabel [OF d(1) assms(2)] by (simp add: pages_def)
  moreover have "heads_ok (sp(h \<mapsto> Big_span k)) (ar_is_head ?a)" using d(3) assms(2) by (auto simp: heads_ok_def)
  ultimately show "page_heap (sp(h \<mapsto> Big_span k)) fl ?a" using d(4) by (simp add: page_heap_def counters_ok_def)
  show "objects (sp(h \<mapsto> Big_span k)) = insert (h, Big_span k) (objects sp)"
    using assms(2) by (auto simp: objects_def split: if_splits)
qed

definition allocates :: "int \<Rightarrow> span_map \<Rightarrow> arena \<Rightarrow> (int option \<times> arena) fallible \<Rightarrow> bool" where
  "allocates k sp a r \<longleftrightarrow> (\<exists>h a' sp' fl'. r = Returns (Some (PtrOf h + kSpanHeaderSize), a') \<and> page_heap sp' fl' a' \<and> no_held sp' \<and>
     objects sp' = insert (h, Big_span k) (objects sp) \<and> (\<forall>s. (h, s) \<notin> objects sp) \<and> bins_same sp a a')"

lemma allocates_held:
  assumes "page_heap sp1 fl1 a1" "sp1 h = Some (Held_span k)" "\<And>x l. sp1 x = Some (Held_span l) \<Longrightarrow> x = h"
    and "objects sp1 = objects sp" "bins_same sp a a1" "\<And>p. pg_Flag (f p) = k \<or> pg_Flag (f p) = pg_Flag p \<and> pg_Flag (ar_page a1 h) = k"
    and "\<And>p. pg_hNext (f p) = -1"
  shows "allocates k sp a (fbind (page_upd a1 h f) (\<lambda>a. Returns (Some (PtrOf h + kSpanHeaderSize), a)))"
proof -
  let ?p = "f (ar_page a1 h)" and ?sp = "sp1(h \<mapsto> Big_span k)"
  have c: "committed a1 h" "0 < h" using span_committed [OF page_heapD(1) [OF assms(1)] assms(2)] by auto
  have p: "pg_Flag ?p = k" "pg_hNext ?p = -1" using assms(6) [of "ar_page a1 h"] assms(7) by auto
  note big = make_big [OF assms(1,2) p]
  have "no_held ?sp" using assms(3) by (auto simp: no_held_def)
  moreover have "\<forall>s. (h, s) \<notin> objects sp" unfolding assms(4) [symmetric] using assms(2) by (auto simp: objects_def)
  moreover have "fbind (page_upd a1 h f) (\<lambda>a. Returns (Some (PtrOf h + kSpanHeaderSize), a)) =
      Returns (Some (PtrOf h + kSpanHeaderSize), a1\<lparr>ar_page := (ar_page a1)(h := ?p)\<rparr>)"
    using c by (simp add: page_upd_def)
  moreover have "bins_same sp a (a1\<lparr>ar_page := (ar_page a1)(h := ?p)\<rparr>)"
    using assms(2,5) bins_of_objects [OF assms(4)] by (auto simp: bins_same_def)
  ultimately show ?thesis using big assms(4) unfolding allocates_def by metis
qed

lemma malloc_big_ok:
  assumes "page_heap sp fl a" "no_held sp" "0 < sz" "k = SpanSlotOf sz" "k < kSpanSlotSize"
  shows "malloc_big sz a = Bad_alloc \<and> \<not> can_grow kSpanSlotSize a \<and> (\<forall>j. k \<le> j \<and> j \<le> kSpanSlotSize \<longrightarrow> fl j = []) \<or>
    allocates k sp a (malloc_big sz a)"
proof -
  note slot = slot_small [OF assms(3), folded assms(4)]
  have k: "0 < k" "k \<le> kSpanSlotSize" "to_int16 k = k" "\<not> 2 ^ 31 \<le> sz + kSpanHeaderSize" using slot assms(5) by auto
  note d = page_heapD [OF assms(1)]
  have hd: "span_get a k = Returns (first (fl k) 0)" "0 < first (fl k) 0 \<longleftrightarrow> fl k \<noteq> []"
    using list_head_pos [OF assms(1), of k] k by (auto simp: span_get_def)
  have eq: "malloc_big sz a = (if fl k \<noteq> [] then fbind (pop_span k (first (fl k) 0) a) (\<lambda>a.
        fbind (page_upd a (first (fl k) 0) (\<lambda>p. p\<lparr>pg_hNext := -1\<rparr>)) (\<lambda>a. Returns (Some (PtrOf (first (fl k) 0) + kSpanHeaderSize), a)))
      else fbind (split_span k a) (\<lambda>(r, a). case r of
            None \<Rightarrow> Returns (None, a)
          | Some hPage \<Rightarrow> fbind (page_upd a hPage (\<lambda>p. p\<lparr>pg_Flag := k, pg_hNext := -1\<rparr>)) (\<lambda>a.
              Returns (Some (PtrOf hPage + kSpanHeaderSize), a))))"
    using hd k by (simp add: malloc_big_def assms(4) [symmetric] Let_def)
  show ?thesis
  proof (cases "fl k")
    case (Cons h hs)
    from pop_first [OF assms(1) k(1,2) Cons] obtain a1 where
      a1: "pop_span k h a = Returns a1" "page_heap (sp(h \<mapsto> Held_span k)) (fl(k := hs)) a1" "objects (sp(h \<mapsto> Held_span k)) = objects sp"
        "bins_same sp a a1" "pg_Flag (ar_page a1 h) = k" .
    have "allocates k sp a (fbind (page_upd a1 h (\<lambda>p. p\<lparr>pg_hNext := -1\<rparr>)) (\<lambda>a. Returns (Some (PtrOf h + kSpanHeaderSize), a)))"
      using a1(3-5) assms(2) by (intro allocates_held [OF a1(2)]) (auto simp: no_held_def split: if_splits)
    then show ?thesis using a1(1) Cons by (simp add: eq)
  next
    case Nil
    consider "split_span k a = Bad_alloc" "\<not> can_grow kSpanSlotSize a" "\<forall>j. k < j \<and> j \<le> kSpanSlotSize \<longrightarrow> fl j = []"
      | "takes k sp a (split_span k a)" using split_span_ok [OF assms(1) k(1) assms(5)] by blast
    then show ?thesis
    proof cases
      case 1
      then show ?thesis using Nil by (auto simp: eq le_less)
    next
      case 2
      then obtain h a1 sp1 fl1 where s: "split_span k a = Returns (Some h, a1)" "page_heap sp1 fl1 a1" "sp1 h = Some (Held_span k)"
        "objects sp1 = objects sp" "bins_same sp a a1" "\<forall>x l. sp1 x = Some (Held_span l) \<longrightarrow> x = h \<or> sp x = Some (Held_span l)"
        unfolding takes_def by blast
      have "allocates k sp a (fbind (page_upd a1 h (\<lambda>p. p\<lparr>pg_Flag := k, pg_hNext := -1\<rparr>))
          (\<lambda>a. Returns (Some (PtrOf h + kSpanHeaderSize), a)))"
        using assms(2) s(6) by (intro allocates_held [OF s(2,3) _ s(4,5)]) (auto simp: no_held_def)
      then show ?thesis using s(1) Nil by (simp add: eq)
    qed
  qed
qed

end
