(* ===== verification/Arena_Merge.thy ===== *)
theory Arena_Merge
  imports Arena_Safety
begin

text \<open>
  \<open>Free\<close> of a span: it absorbs free neighbours on both sides and goes back to the list of its size. The page
  heap is kept, and exactly the freed span is no longer in use.
\<close>

section \<open>Absorbing a neighbour\<close>

text \<open>The state in the middle of \<open>Free\<close>: span \<open>h\<close> of \<open>len\<close> pages is on no list and not marked.\<close>

definition freeing :: "span_map \<Rightarrow> (int \<Rightarrow> int list) \<Rightarrow> int \<Rightarrow> int \<Rightarrow> arena \<Rightarrow> bool" where
  "freeing sp fl h len a \<longleftrightarrow> spans_ok sp (pages a) \<and> lists_ok sp fl a \<and> heads_ok (sp(h := None)) (ar_is_head a) \<and> counters_ok a \<and>
     sp h = Some (Held_span len) \<and> pg_Flag (ar_page a h) = len \<and> (\<forall>x l. sp x = Some (Held_span l) \<longrightarrow> x = h)"

lemma freeingD:
  assumes "freeing sp fl h len a"
  shows "spans_ok sp (pages a)" "lists_ok sp fl a" "heads_ok (sp(h := None)) (ar_is_head a)" "counters_ok a"
    "sp h = Some (Held_span len)" "pg_Flag (ar_page a h) = len" "sp x = Some (Held_span l) \<Longrightarrow> x = h"
  using assms by (simp_all add: freeing_def)

lemma tiles_absorb:
  assumes "tiles t N" "t h = Some len" "t y = Some j" "y = h + len \<or> h = y + j" "len + j \<le> kSpanSlotSize"
  shows "tiles (t(min h y \<mapsto> len + j, max h y := None)) N"
proof -
  have pos: "0 < len" "0 < j" using tilesD(2) [OF assms(1)] assms(2,3) by blast+
  from assms(4) show ?thesis
  proof
    assume y: "y = h + len"
    then have "min h y = h" "max h y = h + len" using pos by auto
    then show ?thesis using tiles_merge [OF assms(1,2) _ assms(5)] assms(3) y by simp
  next
    assume h: "h = y + j"
    then have "min h y = y" "max h y = y + j" using pos by auto
    then show ?thesis using tiles_merge [OF assms(1,3), of len] assms(2,5) h by (simp add: add.commute)
  qed
qed

lemma absorb_ok:
  assumes "freeing sp fl h len a" "sp y = Some (Free_span j)" "y = h + len \<or> h = y + j" "len + j \<le> kSpanSlotSize"
  obtains a1 where "unlink_span (ar_page a y) a = Returns a1" "same_rest a a1" "ar_page a1 y = ar_page a y" "bins_same sp a a1"
    "\<And>p. pg_Flag p = len + j \<Longrightarrow> freeing (sp(min h y \<mapsto> Held_span (len + j), max h y := None)) (fl(j := remove1 y (fl j))) (min h y) (len + j)
      ((set_head y False a1)\<lparr>ar_page := (ar_page a1)(min h y := p)\<rparr>)"
proof -
  note d = freeingD [OF assms(1)]
  from unlink_ok [OF d(1,2) assms(2)] obtain a1 where
    a1: "unlink_span (ar_page a y) a = Returns a1" "lists_ok (sp(y \<mapsto> Held_span j)) (fl(j := remove1 y (fl j))) a1"
      "same_rest a a1" "ar_page a1 y = ar_page a y" "bins_same sp a a1" by blast
  note r = same_restD [OF a1(3)]
  let ?lo = "min h y" and ?hi = "max h y"
  let ?sp = "sp(?lo \<mapsto> Held_span (len + j), ?hi := None)"
  have "h \<noteq> y" using d(5) assms(2) by auto
  then have neq: "h \<noteq> y" "?lo \<noteq> ?hi" by (auto simp: min_def max_def)
  have lo_hi: "{h, y} = {?lo, ?hi}" by auto
  have "tiles ((lens sp)(?lo \<mapsto> len + j, ?hi := None)) (pages a)"
    by (rule tiles_absorb) (use d(1,5) assms(2-4) in \<open>auto simp: spans_ok_def lens_def\<close>)
  then have s: "spans_ok ?sp (pages a)" by (simp add: spans_ok_def)
  have "lists_ok ((sp(y \<mapsto> Held_span j))(?lo \<mapsto> Held_span (len + j), ?hi := None)) (fl(j := remove1 y (fl j))) a1"
    by (rule lists_ok_split [OF a1(2), where l = "if h < y then len else j"]) (use d(5) in \<open>auto simp: min_def max_def\<close>)
  moreover have "(sp(y \<mapsto> Held_span j))(?lo \<mapsto> Held_span (len + j), ?hi := None) = ?sp"
    using lo_hi by (auto simp: fun_eq_iff min_def max_def)
  ultimately have l: "lists_ok ?sp (fl(j := remove1 y (fl j))) a1" by simp
  have hd: "heads_ok (?sp(?lo := None)) ((ar_is_head a)(y := False))"
    using d(3) lo_hi by (auto simp: heads_ok_def min_def max_def)
  have held: "x = ?lo" if "?sp x = Some (Held_span l)" for x l
    using that d(7) [of x l] lo_hi by (auto split: if_splits simp: min_def max_def)
  have "freeing ?sp (fl(j := remove1 y (fl j))) ?lo (len + j) ((set_head y False a1)\<lparr>ar_page := (ar_page a1)(?lo := p)\<rparr>)"
    if "pg_Flag p = len + j" for p
  proof -
    let ?b = "(set_head y False a1)\<lparr>ar_page := (ar_page a1)(?lo := p)\<rparr>"
    have "lists_ok ?sp (fl(j := remove1 y (fl j))) (set_head y False a1)" using l by simp
    from lists_ok_held [OF this, of ?lo "len + j" p] neq(2) have "lists_ok ?sp (fl(j := remove1 y (fl j))) ?b" by simp
    moreover have "pages ?b = pages a" "counters_ok ?b" "ar_is_head ?b = (ar_is_head a)(y := False)"
      using r d(4) by (simp_all add: pages_def counters_ok_def)
    ultimately show ?thesis using s hd held that neq(2) by (simp add: freeing_def)
  qed
  with that [of a1] a1 show ?thesis by blast
qed

text \<open>The end of \<open>Free\<close>.\<close>

lemma release_ok:
  assumes "freeing sp fl h len a"
  obtains a' where "push_span len h (set_head h True a) = Returns a'" "page_heap (sp(h \<mapsto> Free_span len)) (fl(len := h # fl len)) a'"
    "no_held (sp(h \<mapsto> Free_span len))" "objects (sp(h \<mapsto> Free_span len)) = objects sp" "bins_same sp a a'" "pages a' = pages a"
proof -
  note d = freeingD [OF assms]
  have pre: "spans_ok sp (pages (set_head h True a))" "lists_ok sp fl (set_head h True a)" using d(1,2) by simp_all
  from push_ok [OF pre d(5)] obtain a' where
    a': "push_span len h (set_head h True a) = Returns a'" "lists_ok (sp(h \<mapsto> Free_span len)) (fl(len := h # fl len)) a'"
      "same_rest (set_head h True a) a'" "bins_same sp (set_head h True a) a'" .
  note r = same_restD [OF a'(3)]
  have "heads_ok (sp(h \<mapsto> Free_span len)) (ar_is_head a')" using d(3) r(2) by (auto simp: heads_ok_def)
  moreover have "spans_ok (sp(h \<mapsto> Free_span len)) (pages a')" using spans_ok_relabel [OF d(1,5)] r(1) by simp
  ultimately have "page_heap (sp(h \<mapsto> Free_span len)) (fl(len := h # fl len)) a'" using a'(2) r(3) d(4) by (simp add: page_heap_def)
  moreover have "no_held (sp(h \<mapsto> Free_span len))" using d(7) by (auto simp: no_held_def)
  moreover have "objects (sp(h \<mapsto> Free_span len)) = objects sp" using d(5) by (auto simp: objects_def split: if_splits)
  ultimately show ?thesis using that [OF a'(1)] r(1) a'(4) by simp
qed

section \<open>The two neighbours\<close>

definition merge_next :: "int \<Rightarrow> int \<Rightarrow> arena \<Rightarrow> (int \<times> int \<times> arena) fallible" where
  "merge_next hPage len a =
     (if hPage + len \<le> ar_heap_page a - kSelfReservedPage then
        fbind (page_get a (hPage + len)) (\<lambda>n.
          if mergeable n (kSpanSlotSize - len) then
            fbind (unlink_span n a) (\<lambda>a.
            fbind (page_upd (set_head (hPage + len) False a) hPage (\<lambda>p. p\<lparr>pg_Flag := len + pg_Flag n\<rparr>)) (\<lambda>a.
              Returns (len + pg_Flag n, kSpanSlotSize - len - pg_Flag n, a)))
          else Returns (len, kSpanSlotSize - len, a))
      else Returns (len, kSpanSlotSize - len, a))"

definition merge_prev :: "int \<Rightarrow> int \<Rightarrow> int \<Rightarrow> arena \<Rightarrow> (int \<times> int \<times> arena) fallible" where
  "merge_prev hPage len maxToMerge a =
     (let hNeighbor = SpanHandleOf (ar_is_head a) (hPage - 1) in
      fbind (span_get a len) (\<lambda>first.
        if hNeighbor > 0 \<and> first > 0 \<and> len < 12 then
          fbind (page_get a hNeighbor) (\<lambda>n.
            if mergeable n maxToMerge then
              fbind (unlink_span n a) (\<lambda>a.
              fbind (page_upd (set_head hNeighbor False a) hNeighbor (\<lambda>p. p\<lparr>pg_Flag := pg_Flag p + len\<rparr>)) (\<lambda>a.
                Returns (hNeighbor, pg_Flag n + len, a)))
            else Returns (hPage, len, a))
        else Returns (hPage, len, a)))"

lemma free_span_parts:
  "free_span hPage a = fbind (page_get a hPage) (\<lambda>p. fbind (span_get a (pg_Flag p)) (\<lambda>first.
     if first \<le> 0 \<or> pg_Flag p \<ge> 12 then push_span (pg_Flag p) hPage a
     else fbind (merge_next hPage (pg_Flag p) (set_head hPage False a)) (\<lambda>(len, maxToMerge, a).
       fbind (merge_prev hPage len maxToMerge a) (\<lambda>(hPage, len, a). push_span len hPage (set_head hPage True a)))))"
proof -
  have assoc: "fbind (fbind m f) g = fbind m (\<lambda>x. fbind (f x) g)" for m :: "'x fallible" and f :: "'x \<Rightarrow> 'y fallible" and g :: "'y \<Rightarrow> 'z fallible"
    by (cases m) auto
  show ?thesis by (simp only: free_span_def merge_next_def merge_prev_def Let_def assoc)
qed

lemma neighbour_free:
  assumes "freeing sp fl h len a" "sp y = Some s" "y \<noteq> h" "mergeable (ar_page a y) m"
  shows "s = Free_span (pg_Flag (ar_page a y))" "pg_Flag (ar_page a y) \<le> m"
proof -
  note d = freeingD [OF assms(1)]
  show "pg_Flag (ar_page a y) \<le> m" using assms(4) by (simp add: mergeable_def)
  show "s = Free_span (pg_Flag (ar_page a y))"
  proof (cases s)
    case (Free_span j)
    then show ?thesis using free_header(1) [OF d(1,2)] assms(2) by simp
  next
    case (Held_span j)
    then show ?thesis using d(7) assms(2,3) by simp
  qed (use d(2) assms(2,4) in \<open>auto simp: lists_ok_def mergeable_def\<close>)
qed

lemma objects_absorb: "sp h = Some (Held_span l) \<Longrightarrow> sp y = Some (Free_span j) \<Longrightarrow>
    objects (sp(min h y \<mapsto> Held_span m, max h y := None)) = objects sp"
  by (auto simp: objects_def min_def max_def split: if_splits)

lemma merge_next_ok:
  assumes "freeing sp fl h len a"
  shows "\<exists>sp' fl' len' a'. merge_next h len a = Returns (len', kSpanSlotSize - len', a') \<and> freeing sp' fl' h len' a' \<and>
    objects sp' = objects sp \<and> bins_same sp a a'"
proof (cases "h + len \<le> pages a \<and> mergeable (ar_page a (h + len)) (kSpanSlotSize - len)")
  case False
  note d = freeingD [OF assms]
  have "committed a (h + len) \<and> 0 < h + len" if "h + len \<le> pages a"
    using that spans_okD(1,2) [OF d(1,5)] by (simp add: committed_iff pages_def reserved_pages)
  then have "merge_next h len a = Returns (len, kSpanSlotSize - len, a)"
    using False by (auto simp: merge_next_def page_get_def pages_def)
  with assms show ?thesis using bins_same_refl by blast
next
  case True
  note d = freeingD [OF assms]
  let ?y = "h + len"
  have pos: "0 < len" "0 < h" using spans_okD(1,2) [OF d(1,5)] by simp_all
  from spans_okD(6) [OF d(1,5)] True obtain s where s: "sp ?y = Some s" by auto
  let ?j = "pg_Flag (ar_page a ?y)"
  have m: "mergeable (ar_page a ?y) (kSpanSlotSize - len)" "?y \<noteq> h" using True pos by auto
  from neighbour_free [OF assms s m(2,1)] s have j: "sp ?y = Some (Free_span ?j)" "len + ?j \<le> kSpanSlotSize" by auto
  from absorb_ok [OF assms j(1) _ j(2)] obtain a1 where
    a1: "unlink_span (ar_page a ?y) a = Returns a1" "same_rest a a1" "bins_same sp a a1"
      "\<And>p. pg_Flag p = len + ?j \<Longrightarrow> freeing (sp(min h ?y \<mapsto> Held_span (len + ?j), max h ?y := None)) (fl(?j := remove1 ?y (fl ?j))) (min h ?y) (len + ?j)
        ((set_head ?y False a1)\<lparr>ar_page := (ar_page a1)(min h ?y := p)\<rparr>)" by blast
  note r = same_restD [OF a1(2)]
  let ?b = "(set_head ?y False a1)\<lparr>ar_page := (ar_page a1)(h := (ar_page a1 h)\<lparr>pg_Flag := len + ?j\<rparr>)\<rparr>"
  have c: "committed a ?y" "committed a h" using span_committed [OF d(1) s] span_committed [OF d(1,5)] by auto
  have "merge_next h len a = Returns (len + ?j, kSpanSlotSize - (len + ?j), ?b)"
    using True pos c a1(1) r(5) by (simp add: merge_next_def page_get_def page_upd_def pages_def committed_iff)
  moreover have "freeing (sp(min h ?y \<mapsto> Held_span (len + ?j), max h ?y := None)) (fl(?j := remove1 ?y (fl ?j))) h (len + ?j) ?b"
    using a1(4) [of "(ar_page a1 h)\<lparr>pg_Flag := len + ?j\<rparr>"] pos by (simp add: min_def)
  moreover have "bins_same sp a ?b" using a1(3) d(5) by (auto simp: bins_same_def)
  ultimately show ?thesis using objects_absorb [OF d(5) j(1)] by blast
qed

lemma SpanHandleOf_spec:
  "0 \<le> c \<Longrightarrow> 0 \<le> SpanHandleOf mk c \<and> SpanHandleOf mk c \<le> c \<and> (0 < SpanHandleOf mk c \<longrightarrow> mk (SpanHandleOf mk c)) \<and>
     (\<forall>i. SpanHandleOf mk c < i \<and> i \<le> c \<longrightarrow> \<not> mk i)"
proof (induction mk c rule: SpanHandleOf.induct)
  case (1 mk c)
  show ?case
  proof (cases "0 < c \<and> \<not> mk c")
    case True
    then have eq: "SpanHandleOf mk c = SpanHandleOf mk (c - 1)" by (subst SpanHandleOf.simps) simp
    have IH: "0 \<le> SpanHandleOf mk (c - 1) \<and> SpanHandleOf mk (c - 1) \<le> c - 1 \<and> (0 < SpanHandleOf mk (c - 1) \<longrightarrow> mk (SpanHandleOf mk (c - 1))) \<and>
      (\<forall>i. SpanHandleOf mk (c - 1) < i \<and> i \<le> c - 1 \<longrightarrow> \<not> mk i)" using "1.IH" True by simp
    then have "\<not> mk i" if "SpanHandleOf mk (c - 1) < i" "i \<le> c" for i using that True by (cases "i = c") auto
    with IH show ?thesis unfolding eq by auto
  next
    case False
    then have "SpanHandleOf mk c = c" by (subst SpanHandleOf.simps) auto
    with False "1.prems" show ?thesis by auto
  qed
qed

lemma prev_span:
  assumes "freeing sp fl h len a" "x = SpanHandleOf (ar_is_head a) (h - 1)" "0 < x"
  obtains s where "sp x = Some s" "x + span_len s = h" "x \<noteq> h"
proof -
  note d = freeingD [OF assms(1)]
  have h: "1 \<le> h" "h + len \<le> pages a + 1" "0 < len" using spans_okD(1,2,4) [OF d(1,5)] by auto
  have x: "x \<le> h - 1" "ar_is_head a x" "\<And>i. x < i \<Longrightarrow> i \<le> h - 1 \<Longrightarrow> \<not> ar_is_head a i"
    using SpanHandleOf_spec [of "h - 1" "ar_is_head a"] h(1) assms(2,3) by auto
  have head: "ar_is_head a i \<longleftrightarrow> sp i \<noteq> None \<and> i \<noteq> h" if "1 \<le> i" for i using d(3) that by (auto simp: heads_ok_def)
  obtain s where s: "sp x = Some s" using x(2) head [of x] assms(3) by auto
  have "x + span_len s \<le> h" using spans_okD(5) [OF d(1) s, of h] d(5) x(1) by auto
  moreover have "\<not> x + span_len s < h"
  proof
    assume lt: "x + span_len s < h"
    then have "sp (x + span_len s) \<noteq> None" using spans_okD(6) [OF d(1) s] h by simp
    then have "ar_is_head a (x + span_len s)" using head [of "x + span_len s"] lt spans_okD(1,2) [OF d(1) s] by simp
    then show False using x(3) [of "x + span_len s"] lt spans_okD(2) [OF d(1) s] by simp
  qed
  ultimately show ?thesis using that [OF s] x(1) by simp
qed

lemma merge_prev_ok:
  assumes "freeing sp fl h len a"
  shows "\<exists>sp' fl' h' len' a'. merge_prev h len (kSpanSlotSize - len) a = Returns (h', len', a') \<and> freeing sp' fl' h' len' a' \<and>
    objects sp' = objects sp \<and> bins_same sp a a'"
proof -
  note d = freeingD [OF assms]
  define x where "x = SpanHandleOf (ar_is_head a) (h - 1)"
  have len: "0 \<le> len" "len \<le> kSpanSlotSize" "0 < h" using spans_okD(1,2,3) [OF d(1,5)] by auto
  then obtain f where f: "span_get a len = Returns f" by (simp add: span_get_def)
  show ?thesis
  proof (cases "x > 0 \<and> f > 0 \<and> len < 12 \<and> mergeable (ar_page a x) (kSpanSlotSize - len)")
    case False
    have "committed a x" if x: "0 < x"
    proof -
      obtain s where "sp x = Some s" using prev_span [OF assms x_def x] by blast
      then show ?thesis using span_committed [OF d(1)] by blast
    qed
    then have "merge_prev h len (kSpanSlotSize - len) a = Returns (h, len, a)"
      using False f by (auto simp: merge_prev_def Let_def page_get_def x_def [symmetric])
    with assms show ?thesis using bins_same_refl by blast
  next
    case True
    then obtain s where s: "sp x = Some s" "x + span_len s = h" "x \<noteq> h" using prev_span [OF assms x_def] by blast
    let ?j = "pg_Flag (ar_page a x)"
    from neighbour_free [OF assms s(1,3)] True have fr: "s = Free_span ?j" "?j \<le> kSpanSlotSize - len" by blast+
    have "span_len s = ?j" using fr(1) by (metis span.sel(1))
    then have j: "sp x = Some (Free_span ?j)" "h = x + ?j" "len + ?j \<le> kSpanSlotSize" using s(1,2) fr by simp_all
    from absorb_ok [OF assms j(1) _ j(3)] j(2) obtain a1 where
      a1: "unlink_span (ar_page a x) a = Returns a1" "same_rest a a1" "ar_page a1 x = ar_page a x" "bins_same sp a a1"
        "\<And>p. pg_Flag p = len + ?j \<Longrightarrow> freeing (sp(min h x \<mapsto> Held_span (len + ?j), max h x := None)) (fl(?j := remove1 x (fl ?j))) (min h x) (len + ?j)
          ((set_head x False a1)\<lparr>ar_page := (ar_page a1)(min h x := p)\<rparr>)" by blast
    note r = same_restD [OF a1(2)]
    have pos: "0 < ?j" using spans_okD(2) [OF d(1) j(1)] by simp
    have lo: "min h x = x" using j(2) pos by (simp add: min_def)
    let ?b = "(set_head x False a1)\<lparr>ar_page := (ar_page a1)(x := (ar_page a1 x)\<lparr>pg_Flag := ?j + len\<rparr>)\<rparr>"
    have c: "committed a x" using span_committed [OF d(1) s(1)] by auto
    have "merge_prev h len (kSpanSlotSize - len) a = Returns (x, ?j + len, ?b)"
      using True c a1(1,3) r(5) f by (simp add: merge_prev_def Let_def page_get_def page_upd_def committed_iff x_def [symmetric])
    moreover have "freeing (sp(min h x \<mapsto> Held_span (len + ?j), max h x := None)) (fl(?j := remove1 x (fl ?j))) x (?j + len) ?b"
      using a1(5) [of "(ar_page a1 x)\<lparr>pg_Flag := ?j + len\<rparr>"] by (simp add: lo add.commute)
    moreover have "bins_same sp a ?b" using a1(4) j(1) by (auto simp: bins_same_def)
    ultimately show ?thesis using objects_absorb [OF d(5) j(1)] by blast
  qed
qed

section \<open>Free\<close>

lemma free_span_ok:
  assumes "page_heap sp fl a" "sp h = Some (Held_span l)" "pg_Flag (ar_page a h) = l" "\<And>x m. sp x = Some (Held_span m) \<Longrightarrow> x = h"
  shows "\<exists>a' sp' fl'. free_span h a = Returns a' \<and> page_heap sp' fl' a' \<and> no_held sp' \<and> objects sp' = objects sp \<and> bins_same sp a a'"
proof -
  note d = page_heapD [OF assms(1)]
  have l: "0 \<le> l" "l \<le> kSpanSlotSize" "0 < h" using spans_okD(1,2,3) [OF d(1) assms(2)] by auto
  have c: "page_get a h = Returns (ar_page a h)" using span_committed [OF d(1) assms(2)] by (simp add: page_get_def)
  obtain f where f: "span_get a l = Returns f" using l by (simp add: span_get_def)
  let ?b = "set_head h False a"
  have "heads_ok (sp(h := None)) (ar_is_head ?b)" "spans_ok sp (pages ?b)" "lists_ok sp fl ?b" "counters_ok ?b" "pg_Flag (ar_page ?b h) = l"
    using d assms(3) by (simp_all add: heads_ok_def)
  then have fr: "freeing sp fl h l ?b" using assms(2,4) unfolding freeing_def by blast
  have marked: "set_head h True ?b = a"
  proof -
    have "ar_is_head a h" using d(3) assms(2) l(3) by (simp add: heads_ok_def)
    then have "(ar_is_head a)(h := True) = ar_is_head a" by (simp add: fun_upd_idem)
    then show ?thesis by (simp add: set_head_def)
  qed
  show ?thesis
  proof (cases "f \<le> 0 \<or> l \<ge> 12")
    case True
    then have "free_span h a = push_span l h (set_head h True ?b)" using c f assms(3) marked by (simp add: free_span_parts)
    with release_ok [OF fr] show ?thesis by (metis bins_same_set_head(2))
  next
    case False
    from merge_next_ok [OF fr] obtain sp1 fl1 len1 a1 where
      m1: "merge_next h l ?b = Returns (len1, kSpanSlotSize - len1, a1)" "freeing sp1 fl1 h len1 a1" "objects sp1 = objects sp" "bins_same sp a a1"
      by auto
    from merge_prev_ok [OF m1(2)] obtain sp2 fl2 h2 len2 a2 where
      m2: "merge_prev h len1 (kSpanSlotSize - len1) a1 = Returns (h2, len2, a2)" "freeing sp2 fl2 h2 len2 a2" "objects sp2 = objects sp1" "bins_same sp1 a1 a2"
      by blast
    have "free_span h a = push_span len2 h2 (set_head h2 True a2)" using c f False assms(3) m1(1) m2(1) by (simp add: free_span_parts)
    moreover obtain a3 fl3 where r: "push_span len2 h2 (set_head h2 True a2) = Returns a3" "page_heap (sp2(h2 \<mapsto> Free_span len2)) fl3 a3"
      "no_held (sp2(h2 \<mapsto> Free_span len2))" "objects (sp2(h2 \<mapsto> Free_span len2)) = objects sp2" "bins_same sp2 a2 a3"
      using release_ok [OF m2(2)] by metis
    moreover have "bins_same sp a a3"
      using bins_same_trans [OF bins_same_trans [OF m1(4) m2(4)] r(5)] bins_of_objects m1(3) m2(3) by metis
    ultimately show ?thesis using m1(3) m2(3) by metis
  qed
qed

lemma Free_big_ok:
  assumes "page_heap sp fl a" "no_held sp" "sp h = Some (Big_span l)"
  shows "\<exists>a' sp' fl'. arena_Free (PtrOf h + kSpanHeaderSize) a = Returns a' \<and> page_heap sp' fl' a' \<and> no_held sp' \<and>
    objects sp' = objects sp - {(h, Big_span l)} \<and> bins_same sp a a'"
proof -
  note d = page_heapD [OF assms(1)]
  let ?sp = "sp(h \<mapsto> Held_span l)"
  have p: "pg_Flag (ar_page a h) = l" "0 < l" "0 < h" "page_get a h = Returns (ar_page a h)"
    using d(2) assms(3) spans_okD(1,2) [OF d(1) assms(3)] span_committed [OF d(1) assms(3)] by (auto simp: lists_ok_def page_get_def)
  have "PageHandleOf (PtrOf h + kSpanHeaderSize) = h"
    by (simp add: PageHandleOf_def PtrOf_def drop_bit_eq_div push_bit_eq_mult arena_constants)
  moreover have "SpanHandleOf (ar_is_head a) h = h"
    using d(3) assms(3) p(3) by (subst SpanHandleOf.simps) (simp add: heads_ok_def)
  ultimately have eq: "arena_Free (PtrOf h + kSpanHeaderSize) a = free_span h a" using p by (simp add: arena_Free_def Let_def)
  have "page_heap ?sp fl a"
    using d lists_ok_take [OF d(2)] assms(3) spans_ok_relabel [OF d(1) assms(3), of "Held_span l"] by (auto simp: page_heap_def heads_ok_def)
  moreover have "objects ?sp = objects sp - {(h, Big_span l)}" using assms(3) by (auto simp: objects_def split: if_splits)
  moreover have "x = h" if "?sp x = Some (Held_span m)" for x m using that assms(2) by (auto simp: no_held_def split: if_splits)
  ultimately obtain a' sp' fl' where "free_span h a = Returns a'" "page_heap sp' fl' a'" "no_held sp'"
    "objects sp' = objects sp - {(h, Big_span l)}" "bins_same ?sp a a'" using free_span_ok [of ?sp fl a h l] p(1) by (metis fun_upd_same)
  moreover have "bins_same sp a a'"
    using bins_same_trans [OF bins_same_refl calculation(5)] assms(3) by (metis fun_upd_other option.inject span.distinct(7))
  ultimately show ?thesis unfolding eq by blast
qed

end
