(* ===== verification/Arena_Bins.thy ===== *)
theory Arena_Bins
  imports Arena_Merge
begin

text \<open>
  The pages of the bins. The free objects of a page form a chain through their first bytes; the last of the chain
  has never been handed out, and neither has anything behind it. \<open>Malloc\<close> takes the first of the chain or opens a new
  page, \<open>Free\<close> puts an object in front.
\<close>

section \<open>Objects of a page\<close>

definition obj_len :: "int \<Rightarrow> int" where
  "obj_len s = kBinSlotTemplate ! nat s"

definition bin_bytes :: "int \<Rightarrow> int" where
  "bin_bytes s = push_bit kPageLenWid (BinSpanSize s)"

definition obj_at :: "int \<Rightarrow> int \<Rightarrow> bool" where
  "obj_at s off \<longleftrightarrow> kPageHeaderSize \<le> off \<and> obj_len s dvd off - kPageHeaderSize \<and> off + obj_len s \<le> bin_bytes s"

text \<open>The chain of the free objects of a page at \<open>b\<close>, linked by their offsets.\<close>

fun links :: "(int \<Rightarrow> int) \<Rightarrow> int \<Rightarrow> int list \<Rightarrow> bool" where
  "links lk b [] \<longleftrightarrow> True"
| "links lk b [x] \<longleftrightarrow> lk (b + x) = 0"
| "links lk b (x # y # ys) \<longleftrightarrow> lk (b + x) = y \<and> links lk b (y # ys)"

definition chain_ok :: "int \<Rightarrow> int list \<Rightarrow> bool" where
  "chain_ok s xs \<longleftrightarrow> distinct xs \<and> (\<forall>x \<in> set xs. obj_at s x \<and> x \<le> last xs)"

definition in_use :: "int \<Rightarrow> int list \<Rightarrow> int \<Rightarrow> bool" where
  "in_use s xs off \<longleftrightarrow> obj_at s off \<and> off \<notin> set xs \<and> (xs \<noteq> [] \<longrightarrow> off < last xs)"

text \<open>What is left of the chain when its first object is taken.\<close>

definition taken :: "int \<Rightarrow> int \<Rightarrow> int list \<Rightarrow> int list" where
  "taken s x xs = (if xs \<noteq> [] then xs else if x + 2 * obj_len s \<le> bin_bytes s then [x + obj_len s] else [])"

lemma slot_sizes:
  assumes "1 \<le> s" "s \<le> kBinSlotSize"
  shows "0 < obj_len s" "kPageHeaderSize + 2 * obj_len s \<le> bin_bytes s" "bin_bytes s = BinSpanSize s * kPageLen"
    "0 < BinSpanSize s" "BinSpanSize s < kSpanSlotSize" "2 \<le> obj_len s"
proof -
  have "list_all (\<lambda>s. 2 \<le> obj_len s \<and> kPageHeaderSize + 2 * obj_len s \<le> bin_bytes s) [1..39]" by code_simp
  then show l: "2 \<le> obj_len s" "kPageHeaderSize + 2 * obj_len s \<le> bin_bytes s"
    using assms by (simp_all add: list_all_iff kBinSlotSize_def)
  then show "0 < obj_len s" by simp
  show "bin_bytes s = BinSpanSize s * kPageLen" "0 < BinSpanSize s" "BinSpanSize s < kSpanSlotSize"
    by (simp_all add: bin_bytes_def push_bit_eq_mult kPageLenWid_def kPageLen_def BinSpanSize_def kSpanSlotSize_def)
qed

lemma links_frame: "(\<And>x. x \<in> set xs \<Longrightarrow> lk' (b + x) = lk (b + x)) \<Longrightarrow> links lk' b xs = links lk b xs"
  by (induction lk b xs rule: links.induct) auto

lemma obj_at_bounds:
  assumes "1 \<le> s" "s \<le> kBinSlotSize" "obj_at s x"
  shows "16 \<le> x" "x < bin_bytes s" "x + obj_len s \<le> bin_bytes s"
  using assms slot_sizes(1) [OF assms(1,2)] by (auto simp: obj_at_def kPageHeaderSize_def)

lemma obj_at_sep:
  assumes "obj_at s x" "obj_at s y" "x < y"
  shows "x + obj_len s \<le> y"
proof -
  have "obj_len s dvd (y - kPageHeaderSize) - (x - kPageHeaderSize)" using assms(1,2) unfolding obj_at_def by (meson dvd_diff)
  then have "obj_len s dvd y - x" by simp
  then show ?thesis using zdvd_imp_le [of "obj_len s" "y - x"] assms(3) by simp
qed

lemma obj_at_first:
  assumes "1 \<le> s" "s \<le> kBinSlotSize"
  shows "obj_at s kPageHeaderSize" "chain_ok s [kPageHeaderSize + obj_len s]" "in_use s [kPageHeaderSize + obj_len s] kPageHeaderSize"
  using slot_sizes [OF assms] by (auto simp: obj_at_def chain_ok_def in_use_def)

text \<open>Taking the first free object and giving one back keep the shape of the chain and the other objects in use.\<close>

lemma taken_ok:
  assumes "1 \<le> s" "s \<le> kBinSlotSize" "chain_ok s (x # xs)"
  shows "chain_ok s (taken s x xs)" "in_use s (taken s x xs) x" "in_use s (x # xs) y \<Longrightarrow> in_use s (taken s x xs) y"
proof -
  have x: "obj_at s x" "x \<le> last (x # xs)" "x \<notin> set xs" using assms(3) by (auto simp: chain_ok_def)
  have len: "0 < obj_len s" by (rule slot_sizes(1) [OF assms(1,2)])
  have step: "obj_at s (x + obj_len s)" if "x + 2 * obj_len s \<le> bin_bytes s"
  proof -
    have "obj_len s dvd (x - kPageHeaderSize) + obj_len s" using x(1) by (intro dvd_add) (auto simp: obj_at_def)
    then have "obj_len s dvd x + obj_len s - kPageHeaderSize" by (simp add: algebra_simps)
    then show ?thesis using x(1) that len by (simp add: obj_at_def)
  qed
  have lt: "x < last xs" if "xs \<noteq> []"
  proof -
    have "x \<noteq> last xs" using x(3) last_in_set [OF that] by metis
    then show ?thesis using x(2) that by simp
  qed
  show "chain_ok s (taken s x xs)"
  proof (cases "xs = []")
    case True
    have "chain_ok s [x + obj_len s]" if "x + 2 * obj_len s \<le> bin_bytes s" using step [OF that] by (simp add: chain_ok_def)
    moreover have "chain_ok s []" by (simp add: chain_ok_def)
    ultimately show ?thesis using True by (simp add: taken_def)
  next
    case False
    then show ?thesis using assms(3) by (simp add: taken_def chain_ok_def)
  qed
  consider "xs \<noteq> []" "taken s x xs = xs" | "xs = []" "taken s x xs = [x + obj_len s]" | "xs = []" "taken s x xs = []"
    by (cases "xs = []"; cases "x + 2 * obj_len s \<le> bin_bytes s") (simp_all add: taken_def)
  note cases = this
  from cases show "in_use s (taken s x xs) x" by cases (use x(1,3) lt len in \<open>simp_all add: in_use_def\<close>)
  assume y: "in_use s (x # xs) y"
  from cases show "in_use s (taken s x xs) y" by cases (use y len in \<open>simp_all add: in_use_def\<close>)
qed

lemma given_ok:
  assumes "chain_ok s xs" "xs \<noteq> []" "in_use s xs off"
  shows "chain_ok s (off # xs)" "in_use s xs y \<Longrightarrow> y \<noteq> off \<Longrightarrow> in_use s (off # xs) y"
  using assms by (auto simp: chain_ok_def in_use_def)

section \<open>The bins\<close>

definition page_slot :: "arena \<Rightarrow> int \<Rightarrow> int" where
  "page_slot a h = - pg_Flag (ar_page a h)"

text \<open>A link of a bin: nothing, or a page of the bin.\<close>

definition bin_link :: "span_map \<Rightarrow> arena \<Rightarrow> int \<Rightarrow> int \<Rightarrow> bool" where
  "bin_link sp a s h \<longleftrightarrow> h = 0 \<or> (\<exists>l. sp h = Some (Bin_span l)) \<and> page_slot a h = s"

definition bin_page :: "span_map \<Rightarrow> int list \<Rightarrow> arena \<Rightarrow> int \<Rightarrow> int \<Rightarrow> bool" where
  "bin_page sp xs a h l \<longleftrightarrow> 1 \<le> page_slot a h \<and> page_slot a h \<le> kBinSlotSize \<and> l = BinSpanSize (page_slot a h) \<and>
     bin_link sp a (page_slot a h) (pg_hNext (ar_page a h)) \<and> ar_bin a ! nat (page_slot a h) \<noteq> 0 \<and>
     pg_oFree (ar_page a h) = first xs 0 \<and> chain_ok (page_slot a h) xs \<and> links (ar_link a) (PtrOf h) xs"

definition bins_ok :: "span_map \<Rightarrow> (int \<Rightarrow> int list) \<Rightarrow> arena \<Rightarrow> bool" where
  "bins_ok sp F a \<longleftrightarrow> (\<forall>s. 1 \<le> s \<and> s \<le> kBinSlotSize \<longrightarrow> bin_link sp a s (ar_bin a ! nat s)) \<and>
     (\<forall>h l. sp h = Some (Bin_span l) \<longrightarrow> bin_page sp (F h) a h l)"

lemma bins_okD:
  assumes "bins_ok sp F a"
  shows "1 \<le> s \<Longrightarrow> s \<le> kBinSlotSize \<Longrightarrow> bin_link sp a s (ar_bin a ! nat s)"
    "sp h = Some (Bin_span l) \<Longrightarrow> bin_page sp (F h) a h l"
  using assms by (auto simp: bins_ok_def)

text \<open>Operations on spans leave the bins as they are.\<close>

lemma bins_ok_agree:
  assumes "bins_ok sp F a" "\<And>h l. sp h = Some (Bin_span l) \<Longrightarrow> ar_page a' h = ar_page a h" "ar_bin a' = ar_bin a"
    and "\<And>h l x. sp h = Some (Bin_span l) \<Longrightarrow> x \<in> set (F h) \<Longrightarrow> ar_link a' (PtrOf h + x) = ar_link a (PtrOf h + x)"
    and "\<And>h l. sp' h = Some (Bin_span l) \<longleftrightarrow> sp h = Some (Bin_span l)"
  shows "bins_ok sp' F a'"
proof -
  have slot: "page_slot a' h = page_slot a h" if "sp h = Some (Bin_span l)" for h l using assms(2) [OF that] by (simp add: page_slot_def)
  have link: "bin_link sp' a' s h" if "bin_link sp a s h" for s h using that slot assms(5) unfolding bin_link_def by metis
  have "bin_page sp' (F h) a' h l" if h: "sp h = Some (Bin_span l)" for h l
  proof -
    have "links (ar_link a') (PtrOf h) (F h) = links (ar_link a) (PtrOf h) (F h)" by (rule links_frame) (rule assms(4) [OF h])
    then show ?thesis using bins_okD(2) [OF assms(1) h] link unfolding bin_page_def slot [OF h] assms(2) [OF h] assms(3) by blast
  qed
  then show ?thesis using bins_okD(1) [OF assms(1)] link assms(3,5) unfolding bins_ok_def by simp
qed

lemma bins_ok_same:
  assumes "bins_ok sp F a" "bins_same sp a a'" "\<And>h l. sp' h = Some (Bin_span l) \<longleftrightarrow> sp h = Some (Bin_span l)"
  shows "bins_ok sp' F a'"
proof (rule bins_ok_agree [OF assms(1) _ _ _ assms(3)])
  show "ar_page a' h = ar_page a h" if "sp h = Some (Bin_span l)" for h l using assms(2) that unfolding bins_same_def by blast
qed (use assms(2) in \<open>simp_all add: bins_same_def\<close>)

text \<open>Objects of different pages have different addresses.\<close>

lemma PtrOf_add: "PtrOf (h + k) = PtrOf h + k * kPageLen"
  by (simp add: PtrOf_def push_bit_eq_mult kPageLenWid_def kPageLen_def algebra_simps)

lemma PtrOf_mono: "h \<le> h' \<Longrightarrow> PtrOf h \<le> PtrOf h'"
  by (simp add: PtrOf_def push_bit_eq_mult)

lemma bin_page_bytes: "bin_page sp xs a h l \<Longrightarrow> bin_bytes (page_slot a h) = l * kPageLen"
  by (simp add: bin_page_def slot_sizes(3))

lemma bin_apart:
  assumes "spans_ok sp N" "sp h = Some s" "sp h' = Some s'" "h \<noteq> h'" "0 \<le> x" "x < span_len s * kPageLen" "0 \<le> y" "y < span_len s' * kPageLen"
  shows "PtrOf h + x \<noteq> PtrOf h' + y"
proof -
  have "h + span_len s \<le> h' \<or> h' + span_len s' \<le> h"
    using spans_okD(5) [OF assms(1,2), of h'] spans_okD(5) [OF assms(1,3), of h] assms(2-4) by auto
  then have "PtrOf (h + span_len s) \<le> PtrOf h' \<or> PtrOf (h' + span_len s') \<le> PtrOf h" using PtrOf_mono by blast
  with assms(5-8) show ?thesis by (auto simp: PtrOf_add)
qed

lemma chain_range:
  assumes "bin_page sp xs a h l" "x \<in> set xs"
  shows "16 \<le> x" "x < l * kPageLen"
proof -
  have "obj_at (page_slot a h) x" "1 \<le> page_slot a h" "page_slot a h \<le> kBinSlotSize" using assms by (auto simp: bin_page_def chain_ok_def)
  with obj_at_bounds [of "page_slot a h" x] bin_page_bytes [OF assms(1)] show "16 \<le> x" "x < l * kPageLen" by auto
qed

text \<open>
  One page gets a new header of the same slot and a new chain, and one link in it changes; everything else of the
  bins stays.
\<close>

lemma bins_ok_page:
  assumes "bins_ok sp F a" "spans_ok sp N" "sp h = Some (Bin_span l)"
    and "a' = a\<lparr>ar_page := (ar_page a)(h := p), ar_link := lk\<rparr>"
    and "pg_Flag p = pg_Flag (ar_page a h)" "pg_hNext p = pg_hNext (ar_page a h)" "pg_oFree p = first xs 0"
    and "chain_ok (page_slot a h) xs" "links lk (PtrOf h) xs"
    and "\<And>y. lk y \<noteq> ar_link a y \<Longrightarrow> \<exists>x. y = PtrOf h + x \<and> 0 \<le> x \<and> x < l * kPageLen"
  shows "bins_ok sp (F(h := xs)) a'"
proof -
  have slot: "page_slot a' x = page_slot a x" for x using assms(4,5) by (simp add: page_slot_def)
  have link: "bin_link sp a' s x = bin_link sp a s x" for s x by (simp add: bin_link_def slot)
  have "bin_page sp ((F(h := xs)) x) a' x m" if x: "sp x = Some (Bin_span m)" for x m
  proof (cases "x = h")
    case True
    then have "bin_page sp (F h) a h m" using bins_okD(2) [OF assms(1)] x by blast
    then show ?thesis using True assms(6-9) unfolding bin_page_def slot link by (simp add: assms(4))
  next
    case False
    note b = bins_okD(2) [OF assms(1) x]
    have "lk (PtrOf x + y) = ar_link a (PtrOf x + y)" if "y \<in> set (F x)" for y
    proof (rule ccontr)
      assume "lk (PtrOf x + y) \<noteq> ar_link a (PtrOf x + y)"
      then obtain z where "PtrOf x + y = PtrOf h + z" "0 \<le> z" "z < l * kPageLen" using assms(10) by blast
      then show False using bin_apart [OF assms(2) x assms(3) False, of y z] chain_range [OF b that] by simp
    qed
    then have "links lk (PtrOf x) (F x) = links (ar_link a) (PtrOf x) (F x)" by (rule links_frame)
    then show ?thesis using b False unfolding bin_page_def slot link by (simp add: assms(4))
  qed
  then show ?thesis using bins_okD(1) [OF assms(1)] unfolding bins_ok_def link by (simp add: assms(4))
qed

lemma lists_ok_bin:
  assumes "lists_ok sp fl a" "sp h = Some (Bin_span l)" "pg_Flag p \<le> 0"
  shows "lists_ok sp fl (a\<lparr>ar_page := (ar_page a)(h := p)\<rparr>)"
proof -
  have "seg ((ar_page a)(h := p)) k 0 (fl k) 0" if "0 \<le> k" "k \<le> kSpanSlotSize" for k
  proof -
    have "h \<notin> set (fl k)" using lists_okD(4) [OF assms(1) that] assms(2) by auto
    then show ?thesis using lists_okD(2) [OF assms(1) that] by simp
  qed
  with assms show ?thesis by (auto simp: lists_ok_def)
qed

lemma page_heap_bin:
  assumes "page_heap sp fl a" "sp h = Some (Bin_span l)" "pg_Flag p \<le> 0"
  shows "page_heap sp fl (a\<lparr>ar_page := (ar_page a)(h := p), ar_link := lk\<rparr>)"
proof -
  note d = page_heapD [OF assms(1)]
  from lists_ok_bin [OF d(2) assms(2,3)] d show ?thesis by (simp add: page_heap_def lists_ok_def pages_def counters_ok_def)
qed


section \<open>Malloc of a small object\<close>

lemma take_object_ok:
  assumes "page_heap sp fl a" "bins_ok sp F a" "sp h = Some (Bin_span l)" "F h = x # xs" "s = page_slot a h"
  shows "\<exists>a'. take_object s h (ar_page a h) a = Returns (Some (PtrOf h + x), a') \<and> page_heap sp fl a' \<and>
    bins_ok sp (F(h := taken s x xs)) a' \<and> (\<forall>y. pg_Flag (ar_page a' y) = pg_Flag (ar_page a y))"
proof -
  note d = page_heapD [OF assms(1)] and b = bins_okD(2) [OF assms(2,3)]
  have s: "1 \<le> s" "s \<le> kBinSlotSize" "chain_ok s (x # xs)" "pg_oFree (ar_page a h) = x" "links (ar_link a) (PtrOf h) (x # xs)"
    using b assms(4,5) by (simp_all add: bin_page_def)
  have c: "committed a h" "0 < h" using span_committed [OF d(1) assms(3)] by auto
  have xs: "16 \<le> y" if "y \<in> set xs" for y using chain_range(1) [OF b] that assms(4) by simp
  have lk: "ar_link a (PtrOf h + x) = first xs 0" using s(5) by (cases xs) simp_all
  then have zero: "ar_link a (PtrOf h + x) = 0 \<longleftrightarrow> xs = []" using xs [of 0] by (cases xs) auto
  define fresh where "fresh \<longleftrightarrow> xs = [] \<and> x + 2 * obj_len s \<le> bin_bytes s"
  let ?lk = "if fresh then (ar_link a)(PtrOf h + x + obj_len s := 0) else ar_link a"
  let ?p = "(ar_page a h)\<lparr>pg_nUsed := pg_nUsed (ar_page a h) + 1, pg_oFree := first (taken s x xs) 0\<rparr>"
  let ?a = "a\<lparr>ar_page := (ar_page a)(h := ?p), ar_link := ?lk\<rparr>"
  have t: "first (taken s x xs) 0 = (if fresh then x + obj_len s else first xs 0)" by (auto simp: taken_def fresh_def)
  have fr: "(ar_link a (PtrOf h + x) = 0 \<and> PtrOf h + x + push_bit 1 (obj_len s) \<le> PtrOf h + bin_bytes s) = fresh"
    using zero by (auto simp: fresh_def push_bit_eq_mult)
  have take: "take_object s h (ar_page a h) a = Returns (Some (PtrOf h + x), ?a)"
    using c fr t lk by (simp add: take_object_def Let_def page_upd_def s(4) obj_len_def [symmetric] bin_bytes_def [symmetric] del: first_simps)
  have "links ?lk (PtrOf h) (taken s x xs)"
    using s(5) by (cases xs) (auto simp: taken_def fresh_def add.assoc)
  moreover have "\<exists>z. y = PtrOf h + z \<and> 0 \<le> z \<and> z < l * kPageLen" if "?lk y \<noteq> ar_link a y" for y
  proof -
    have "y = PtrOf h + (x + obj_len s)" fresh using that by (auto split: if_splits)
    moreover have "0 \<le> x" "0 < obj_len s" using chain_range(1) [OF b, of x] assms(4) slot_sizes(1) [OF s(1,2)] by simp_all
    ultimately show ?thesis using bin_page_bytes [OF b] assms(5) fresh_def by (intro exI [of _ "x + obj_len s"]) auto
  qed
  ultimately have "bins_ok sp (F(h := taken s x xs)) ?a"
    using taken_ok(1) [OF s(1-3)] assms(5) by (intro bins_ok_page [OF assms(2) d(1) assms(3) refl]) simp_all
  moreover have "page_heap sp fl ?a" using d(2) assms(3) by (intro page_heap_bin [OF assms(1,3)]) (auto simp: lists_ok_def)
  ultimately show ?thesis using take by (intro exI [of _ ?a]) simp
qed


text \<open>A held span becomes a page of a bin, at the front of it.\<close>

lemma lists_ok_make_bin:
  assumes "lists_ok sp fl a" "sp h = Some (Held_span l)" "pg_Flag (ar_page a h) \<le> 0"
  shows "lists_ok (sp(h \<mapsto> Bin_span m)) fl a"
  using assms by (auto simp: lists_ok_def)

lemma page_heap_new_bin:
  assumes "page_heap sp fl a" "sp h = Some (Held_span l)" "pg_Flag p \<le> 0"
    and "0 < nxt \<Longrightarrow> (\<exists>m. sp nxt = Some (Bin_span m)) \<and> pg_Flag (ar_page a nxt) \<le> 0"
    and "pg = (ar_page a)(h := p)" "pg' = (if nxt > 0 then pg(nxt := (pg nxt)\<lparr>pg_hPri := h\<rparr>) else pg)"
    and "length bin = length (ar_bin a)"
  shows "page_heap (sp(h \<mapsto> Bin_span l)) fl (a\<lparr>ar_page := pg', ar_bin := bin, ar_link := lk\<rparr>)"
proof -
  note d = page_heapD [OF assms(1)]
  have neq: "nxt \<noteq> h" if "0 < nxt" using that assms(2,4) by auto
  have "lists_ok sp fl (a\<lparr>ar_page := pg\<rparr>)" using lists_ok_held [OF d(2)] assms(2,5) by blast
  then have "lists_ok sp fl (a\<lparr>ar_page := pg'\<rparr>)"
    using lists_ok_bin [of sp fl "a\<lparr>ar_page := pg\<rparr>" nxt _ "(pg nxt)\<lparr>pg_hPri := h\<rparr>"] assms(4-6) neq by auto
  moreover have "pg_Flag (pg' h) \<le> 0" using assms(3,5,6) by simp
  ultimately have "lists_ok (sp(h \<mapsto> Bin_span l)) fl (a\<lparr>ar_page := pg'\<rparr>)" using assms(2) by (intro lists_ok_make_bin) simp_all
  then have "lists_ok (sp(h \<mapsto> Bin_span l)) fl (a\<lparr>ar_page := pg', ar_bin := bin, ar_link := lk\<rparr>)"
    by (rule lists_ok_cong [THEN iffD2, rotated 2]) simp_all
  moreover have "spans_ok (sp(h \<mapsto> Bin_span l)) (pages a)" using spans_ok_relabel [OF d(1) assms(2)] by simp
  moreover have "heads_ok (sp(h \<mapsto> Bin_span l)) (ar_is_head a)" using d(3) assms(2) by (auto simp: heads_ok_def)
  ultimately show ?thesis using d(4) assms(7) by (simp add: page_heap_def counters_ok_def pages_def)
qed

lemma bins_ok_new_bin:
  assumes "page_heap sp fl a" "bins_ok sp F a" "sp h = Some (Held_span (BinSpanSize s))" "1 \<le> s" "s \<le> kBinSlotSize" "off = kPageHeaderSize + obj_len s"
    and "ar_bin a' = (ar_bin a)[nat s := h]" "ar_link a' = (ar_link a)(PtrOf h + off := 0)"
    and "page_slot a' h = s" "pg_hNext (ar_page a' h) = ar_bin a ! nat s" "pg_oFree (ar_page a' h) = off"
    and "\<And>y. y \<noteq> h \<Longrightarrow> page_slot a' y = page_slot a y \<and> pg_hNext (ar_page a' y) = pg_hNext (ar_page a y) \<and> pg_oFree (ar_page a' y) = pg_oFree (ar_page a y)"
  shows "bins_ok (sp(h \<mapsto> Bin_span (BinSpanSize s))) (F(h := [off])) a'"
proof -
  note d = page_heapD [OF assms(1)]
  let ?sp = "sp(h \<mapsto> Bin_span (BinSpanSize s))"
  have h: "0 < h" using spans_okD(1) [OF d(1) assms(3)] by simp
  have len: "length (ar_bin a) = 40" "nat s < 40" using d(4) assms(4,5) by (simp_all add: counters_ok_def kBinSlotSize_def)
  have link: "bin_link ?sp a' t x" if "bin_link sp a t x" for t x
    using that assms(3) assms(12) [of x] unfolding bin_link_def by (cases "x = h") auto
  have page: "bin_page ?sp ((F(h := [off])) y) a' y l" if y: "?sp y = Some (Bin_span l)" for y l
  proof (cases "y = h")
    case True
    have "bin_link ?sp a' s (ar_bin a ! nat s)" using bins_okD(1) [OF assms(2,4,5)] link by simp
    then show ?thesis using True y assms(4-11) len h obj_at_first(2) [OF assms(4,5)] unfolding bin_page_def by simp
  next
    case False
    then have y: "sp y = Some (Bin_span l)" using that by simp
    note b = bins_okD(2) [OF assms(2) y] and same = assms(12) [OF False]
    have "PtrOf y + z \<noteq> PtrOf h + off" if "z \<in> set (F y)" for z
      using bin_apart [OF d(1) y assms(3) False, of z off] chain_range [OF b that] slot_sizes [OF assms(4,5)] kPageHeaderSize_def assms(6) by simp
    then have "links (ar_link a') (PtrOf y) (F y)"
      using b unfolding assms(8) by (subst links_frame [of _ _ _ "ar_link a"]) (auto simp: bin_page_def)
    moreover have "ar_bin a' ! nat (page_slot a y) \<noteq> 0" using b h len by (auto simp: bin_page_def nth_list_update assms(7))
    ultimately show ?thesis using b False link same unfolding bin_page_def by simp
  qed
  have "bin_link ?sp a' t (ar_bin a' ! nat t)" if "1 \<le> t" "t \<le> kBinSlotSize" for t
  proof (cases "t = s")
    case True
    then show ?thesis using assms(7,9) len by (simp add: bin_link_def)
  next
    case False
    then have "ar_bin a' ! nat t = ar_bin a ! nat t" using that assms(4,7) by simp
    then show ?thesis using link bins_okD(1) [OF assms(2) that] by simp
  qed
  with page show ?thesis unfolding bins_ok_def by blast
qed

lemma new_bin_page_ok:
  assumes "page_heap sp fl a" "bins_ok sp F a" "sp h = Some (Held_span (BinSpanSize s))" "1 \<le> s" "s \<le> kBinSlotSize"
  shows "\<exists>a'. new_bin_page s h a = Returns (Some (PtrOf h + kPageHeaderSize), a') \<and>
    page_heap (sp(h \<mapsto> Bin_span (BinSpanSize s))) fl a' \<and>
    bins_ok (sp(h \<mapsto> Bin_span (BinSpanSize s))) (F(h := [kPageHeaderSize + obj_len s])) a' \<and>
    page_slot a' h = s \<and> (\<forall>y l. sp y = Some (Bin_span l) \<longrightarrow> pg_Flag (ar_page a' y) = pg_Flag (ar_page a y))"
proof -
  note d = page_heapD [OF assms(1)]
  define nxt where "nxt = ar_bin a ! nat s"
  let ?off = "kPageHeaderSize + obj_len s"
  let ?p = "(ar_page a h)\<lparr>pg_Flag := - s, pg_nUsed := 1, pg_hPri := 0, pg_hNext := nxt, pg_oFree := ?off\<rparr>"
  let ?pg = "(ar_page a)(h := ?p)"
  let ?pg' = "if nxt > 0 then ?pg(nxt := (?pg nxt)\<lparr>pg_hPri := h\<rparr>) else ?pg"
  let ?a = "a\<lparr>ar_page := ?pg', ar_bin := (ar_bin a)[nat s := h], ar_link := (ar_link a)(PtrOf h + ?off := 0)\<rparr>"
  have c: "committed a h" "0 < h" using span_committed [OF d(1) assms(3)] by auto
  have nx: "nxt = 0 \<or> (\<exists>l. sp nxt = Some (Bin_span l)) \<and> page_slot a nxt = s"
    using bins_okD(1) [OF assms(2,4,5)] by (simp add: bin_link_def nxt_def)
  then have nc: "0 < nxt \<longrightarrow> committed a nxt" "nxt \<noteq> h" "0 \<le> nxt" using span_committed [OF d(1), of nxt] c assms(3) by auto
  have run: "new_bin_page s h a = Returns (Some (PtrOf h + kPageHeaderSize), ?a)"
    using c nc by (simp add: new_bin_page_def Let_def page_upd_def set_pri_def committed_iff nxt_def obj_len_def add.assoc)
  have ph: "?pg' h = ?p" using nc(2) by simp
  have slot: "page_slot ?a h = s" using ph by (simp add: page_slot_def)
  have "page_heap (sp(h \<mapsto> Bin_span (BinSpanSize s))) fl ?a"
    using nx assms(4) by (intro page_heap_new_bin [OF assms(1,3)]) (auto simp: page_slot_def)
  moreover have "bins_ok (sp(h \<mapsto> Bin_span (BinSpanSize s))) (F(h := [?off])) ?a"
    using ph slot by (intro bins_ok_new_bin [OF assms refl]) (simp_all add: nxt_def page_slot_def)
  moreover have "pg_Flag (ar_page ?a y) = pg_Flag (ar_page a y)" if "sp y = Some (Bin_span l)" for y l using that assms(3) by auto
  ultimately show ?thesis using run slot by blast
qed

end
