(* ===== verification/Arena_Objects.thy ===== *)
theory Arena_Objects
  imports Arena_Bins
begin

text \<open>
  The objects of the arena, large and small: what \<open>Malloc\<close> returns is a new object and leaves the others, \<open>Free\<close> takes exactly one
  away, and objects do not overlap, so that a program that writes into its objects does not disturb the arena.
\<close>

section \<open>Objects in use\<close>

definition big_size :: "int \<Rightarrow> bool" where
  "big_size sz \<longleftrightarrow> kMaxObjectAvailable < sz \<and> SpanSlotOf sz < kSpanSlotSize"

definition small_size :: "int \<Rightarrow> bool" where
  "small_size sz \<longleftrightarrow> 0 < sz \<and> sz \<le> kMaxObjectAvailable"

text \<open>There is an object of \<open>sz\<close> bytes at offset \<open>off\<close> of the span \<open>h\<close>.\<close>

definition object_ok :: "span_map \<Rightarrow> (int \<Rightarrow> int list) \<Rightarrow> arena \<Rightarrow> int \<Rightarrow> int \<Rightarrow> int \<Rightarrow> bool" where
  "object_ok sp F a h off sz \<longleftrightarrow> (case sp h of
       Some (Big_span l) \<Rightarrow> off = kSpanHeaderSize \<and> big_size sz \<and> l = SpanSlotOf sz
     | Some (Bin_span l) \<Rightarrow> small_size sz \<and> page_slot a h = BinSlot sz \<and> in_use (BinSlot sz) (F h) off
     | _ \<Rightarrow> False)"

definition arena_inv :: "span_map \<Rightarrow> (int \<Rightarrow> int list) \<Rightarrow> (int \<Rightarrow> int list) \<Rightarrow> arena \<Rightarrow> bool" where
  "arena_inv sp fl F a \<longleftrightarrow> page_heap sp fl a \<and> no_held sp \<and> bins_ok sp F a"

text \<open>A result of \<open>Malloc\<close>: a new object, and the others are still there.\<close>

definition serves :: "int \<Rightarrow> span_map \<Rightarrow> (int \<Rightarrow> int list) \<Rightarrow> arena \<Rightarrow> (int option \<times> arena) fallible \<Rightarrow> bool" where
  "serves sz sp F a r \<longleftrightarrow> (\<exists>h off a' sp' fl' F'. r = Returns (Some (PtrOf h + off), a') \<and> arena_inv sp' fl' F' a' \<and>
     object_ok sp' F' a' h off sz \<and>
     (\<forall>x y z. object_ok sp F a x y z \<longrightarrow> object_ok sp' F' a' x y z \<and> (x, y) \<noteq> (h, off)))"

lemma object_in_objects: "object_ok sp F a h off sz \<Longrightarrow> \<exists>s. (h, s) \<in> objects sp"
  by (auto simp: object_ok_def objects_def split: option.splits span.splits)

lemma object_ok_frame:
  assumes "object_ok sp F a h off sz" "\<And>s. (h, s) \<in> objects sp \<Longrightarrow> (h, s) \<in> objects sp'"
    and "\<And>l. sp h = Some (Bin_span l) \<Longrightarrow> page_slot a' h = page_slot a h \<and> F' h = F h"
  shows "object_ok sp' F' a' h off sz"
proof -
  obtain s where s: "sp h = Some s" "(h, s) \<in> objects sp" using object_in_objects [OF assms(1)] by (auto simp: objects_def)
  then have "sp' h = Some s" using assms(2) by (simp add: objects_def)
  then show ?thesis using assms(1,3) s(1) by (auto simp: object_ok_def split: span.splits)
qed

lemma bins_same_slot: "bins_same sp a a' \<Longrightarrow> sp h = Some (Bin_span l) \<Longrightarrow> page_slot a' h = page_slot a h"
  unfolding bins_same_def page_slot_def by metis

lemma malloc_big_serves:
  assumes "arena_inv sp fl F a" "big_size sz"
  shows "malloc_big sz a = Bad_alloc \<and> \<not> can_grow kSpanSlotSize a \<or> serves sz sp F a (malloc_big sz a)"
proof -
  have inv: "page_heap sp fl a" "no_held sp" "bins_ok sp F a" using assms(1) by (simp_all add: arena_inv_def)
  have sz: "0 < sz" "SpanSlotOf sz < kSpanSlotSize" using assms(2) by (simp_all add: big_size_def kMaxObjectAvailable_def)
  from malloc_big_ok [OF inv(1,2) sz(1) refl sz(2)] show ?thesis
  proof
    assume "allocates (SpanSlotOf sz) sp a (malloc_big sz a)"
    then obtain x a' sp' fl' where r: "malloc_big sz a = Returns (Some (PtrOf x + kSpanHeaderSize), a')" "page_heap sp' fl' a'" "no_held sp'"
      "objects sp' = insert (x, Big_span (SpanSlotOf sz)) (objects sp)" "\<forall>s. (x, s) \<notin> objects sp" "bins_same sp a a'" unfolding allocates_def by blast
    have sx: "sp' x = Some (Big_span (SpanSlotOf sz))" using r(4) by (auto simp: objects_def set_eq_iff)
    have bins: "sp' h = Some (Bin_span l) \<longleftrightarrow> sp h = Some (Bin_span l)" for h l
    proof -
      have "(h, Bin_span l) \<in> objects sp' \<longleftrightarrow> (h, Bin_span l) \<in> objects sp" using r(4) by simp
      then show ?thesis by (simp add: objects_def)
    qed
    have "object_ok sp' F a' h y z \<and> (h, y) \<noteq> (x, kSpanHeaderSize)" if "object_ok sp F a h y z" for h y z
      using object_ok_frame [OF that, of sp' a' F] object_in_objects [OF that] r(4,5) bins_same_slot [OF r(6)] by blast
    moreover have "object_ok sp' F a' x kSpanHeaderSize sz" using sx assms(2) by (simp add: object_ok_def)
    moreover have "arena_inv sp' fl' F a'" using r(2,3) bins_ok_same [OF inv(3) r(6) bins] by (simp add: arena_inv_def)
    ultimately have "serves sz sp F a (malloc_big sz a)" using r(1) unfolding serves_def by blast
    then show ?thesis by simp
  qed simp
qed

text \<open>The second half of \<open>Malloc\<close> for small objects: a new page.\<close>

definition new_page :: "int \<Rightarrow> arena \<Rightarrow> (int option \<times> arena) fallible" where
  "new_page s a = fbind (span_get a (BinSpanSize s)) (\<lambda>hPage.
     if hPage > 0 then fbind (pop_span (BinSpanSize s) hPage a) (new_bin_page s hPage)
     else fbind (split_span (BinSpanSize s) a) (\<lambda>(r, a). case r of
         None \<Rightarrow> Returns (None, a) | Some hPage \<Rightarrow> new_bin_page s hPage a))"

lemma held_serves:
  assumes "arena_inv sp fl F a" "small_size sz" "s = BinSlot sz"
    and "page_heap sp1 fl1 a1" "sp1 h = Some (Held_span (BinSpanSize s))" "\<And>x l. sp1 x = Some (Held_span l) \<Longrightarrow> x = h"
    and "objects sp1 = objects sp" "bins_same sp a a1"
  shows "serves sz sp F a (new_bin_page s h a1)"
proof -
  have s: "1 \<le> s" "s \<le> kBinSlotSize" using assms(2,3) bin_slot_range [of sz] by (simp_all add: small_size_def)
  have b: "bins_ok sp F a" using assms(1) by (simp add: arena_inv_def)
  have b1: "bins_ok sp1 F a1" by (rule bins_ok_same [OF b assms(8)]) (rule bins_of_objects [OF assms(7), symmetric])
  let ?sp = "sp1(h \<mapsto> Bin_span (BinSpanSize s))" and ?F = "F(h := [kPageHeaderSize + obj_len s])"
  from new_bin_page_ok [OF assms(4) b1 assms(5) s] obtain a' where
    r: "new_bin_page s h a1 = Returns (Some (PtrOf h + kPageHeaderSize), a')" "page_heap ?sp fl1 a'" "bins_ok ?sp ?F a'"
      "page_slot a' h = s" "\<forall>y l. sp1 y = Some (Bin_span l) \<longrightarrow> pg_Flag (ar_page a' y) = pg_Flag (ar_page a1 y)" by blast
  have "no_held ?sp" using assms(6) by (auto simp: no_held_def)
  then have "arena_inv ?sp fl1 ?F a'" using r(2,3) by (simp add: arena_inv_def)
  moreover have "object_ok ?sp ?F a' h kPageHeaderSize sz"
    using r(4) obj_at_first(3) [OF s] assms(2,3) by (simp add: object_ok_def)
  moreover have "object_ok ?sp ?F a' x y z \<and> (x, y) \<noteq> (h, kPageHeaderSize)" if ok: "object_ok sp F a x y z" for x y z
  proof -
    have neq: "x \<noteq> h" using object_in_objects [OF ok] assms(5) unfolding assms(7) [symmetric] by (auto simp: objects_def)
    have "page_slot a' x = page_slot a x" if x: "sp x = Some (Bin_span l)" for l
      using x r(5) bins_of_objects [OF assms(7), of x l] bins_same_slot [OF assms(8) x] by (simp add: page_slot_def)
    moreover have "(x, t) \<in> objects ?sp" if "(x, t) \<in> objects sp" for t
      using that neq unfolding assms(7) [symmetric] by (simp add: objects_def)
    ultimately show ?thesis using object_ok_frame [OF ok, of ?sp a' ?F] neq by simp
  qed
  ultimately show ?thesis using r(1) unfolding serves_def by blast
qed


lemma new_page_serves:
  assumes "arena_inv sp fl F a" "small_size sz" "s = BinSlot sz"
  shows "new_page s a = Bad_alloc \<and> \<not> can_grow kSpanSlotSize a \<or> serves sz sp F a (new_page s a)"
proof -
  have inv: "page_heap sp fl a" "no_held sp" using assms(1) by (simp_all add: arena_inv_def)
  have s: "1 \<le> s" "s \<le> kBinSlotSize" using assms(2,3) bin_slot_range [of sz] by (simp_all add: small_size_def)
  let ?k = "BinSpanSize s"
  have k: "0 < ?k" "?k < kSpanSlotSize" using slot_sizes [OF s] by simp_all
  have hd: "span_get a ?k = Returns (first (fl ?k) 0)" "0 < first (fl ?k) 0 \<longleftrightarrow> fl ?k \<noteq> []"
    using list_head_pos [OF inv(1), of ?k] k by (auto simp: span_get_def)
  show ?thesis
  proof (cases "fl ?k")
    case (Cons h hs)
    have "?k \<le> kSpanSlotSize" using k(2) by simp
    from pop_first [OF inv(1) k(1) this Cons] obtain a1 where
      a1: "pop_span ?k h a = Returns a1" "page_heap (sp(h \<mapsto> Held_span ?k)) (fl(?k := hs)) a1" "objects (sp(h \<mapsto> Held_span ?k)) = objects sp"
        "bins_same sp a a1" by blast
    have "serves sz sp F a (new_bin_page s h a1)"
      using inv(2) by (intro held_serves [OF assms a1(2) _ _ a1(3,4)]) (auto simp: no_held_def split: if_splits)
    then show ?thesis using hd Cons a1(1) by (simp add: new_page_def)
  next
    case Nil
    from split_span_ok [OF inv(1) k] consider "split_span ?k a = Bad_alloc" "\<not> can_grow kSpanSlotSize a"
      | "takes ?k sp a (split_span ?k a)" by blast
    then show ?thesis
    proof cases
      case 1
      then show ?thesis using hd Nil by (simp add: new_page_def)
    next
      case 2
      then obtain h a1 sp1 fl1 where t: "split_span ?k a = Returns (Some h, a1)" "page_heap sp1 fl1 a1" "sp1 h = Some (Held_span ?k)"
        "objects sp1 = objects sp" "bins_same sp a a1" "\<forall>x l. sp1 x = Some (Held_span l) \<longrightarrow> x = h \<or> sp x = Some (Held_span l)"
        unfolding takes_def by blast
      have "serves sz sp F a (new_bin_page s h a1)"
        using inv(2) t(6) by (intro held_serves [OF assms t(2,3) _ t(4,5)]) (auto simp: no_held_def)
      then show ?thesis using hd Nil t(1) by (simp add: new_page_def)
    qed
  qed
qed

lemma bin_candidate_ok:
  assumes "arena_inv sp fl F a" "1 \<le> s" "s \<le> kBinSlotSize"
  obtains h where "bin_candidate s a = Returns h" "bin_link sp a s h"
proof -
  have inv: "page_heap sp fl a" "bins_ok sp F a" using assms(1) by (simp_all add: arena_inv_def)
  define h where "h = ar_bin a ! nat s"
  have link: "bin_link sp a s h" using bins_okD(1) [OF inv(2) assms(2,3)] by (simp add: h_def)
  show ?thesis
  proof (cases "h = 0")
    case True
    then show ?thesis using that [of h] link by (simp add: bin_candidate_def h_def [symmetric])
  next
    case False
    then obtain l where l: "sp h = Some (Bin_span l)" "page_slot a h = s" using link by (auto simp: bin_link_def)
    have "bin_link sp a s (pg_hNext (ar_page a h))" using bins_okD(2) [OF inv(2) l(1)] l(2) by (simp add: bin_page_def)
    moreover have "committed a h" "0 < h" using span_committed [OF page_heapD(1) [OF inv(1)] l(1)] by auto
    ultimately show ?thesis using that link by (simp add: bin_candidate_def h_def [symmetric] page_get_def Let_def)
  qed
qed

lemma take_object_serves:
  assumes "arena_inv sp fl F a" "small_size sz" "sp h = Some (Bin_span l)" "page_slot a h = BinSlot sz" "F h = x # xs"
  shows "serves sz sp F a (take_object (BinSlot sz) h (ar_page a h) a)"
proof -
  let ?s = "BinSlot sz"
  have inv: "page_heap sp fl a" "no_held sp" "bins_ok sp F a" using assms(1) by (simp_all add: arena_inv_def)
  have s: "1 \<le> ?s" "?s \<le> kBinSlotSize" using assms(2) bin_slot_range [of sz] by (simp_all add: small_size_def)
  let ?F = "F(h := taken ?s x xs)"
  from take_object_ok [OF inv(1,3) assms(3,5) refl] obtain a' where
    r: "take_object ?s h (ar_page a h) a = Returns (Some (PtrOf h + x), a')" "page_heap sp fl a'" "bins_ok sp ?F a'"
      "\<forall>y. pg_Flag (ar_page a' y) = pg_Flag (ar_page a y)" unfolding assms(4) by blast
  have slot: "page_slot a' y = page_slot a y" for y using r(4) by (simp add: page_slot_def)
  have ch: "chain_ok ?s (x # xs)" using bins_okD(2) [OF inv(3) assms(3)] assms(4,5) by (simp add: bin_page_def)
  note t = taken_ok [OF s ch]
  have "object_ok sp ?F a' h x sz" using assms(2-4) t(2) slot by (simp add: object_ok_def)
  moreover have "object_ok sp ?F a' y z w \<and> (y, z) \<noteq> (h, x)" if ok: "object_ok sp F a y z w" for y z w
  proof (cases "y = h")
    case True
    then have o: "small_size w" "BinSlot w = ?s" "in_use ?s (x # xs) z" using ok assms(3-5) by (auto simp: object_ok_def)
    then have "object_ok sp ?F a' y z w" using True assms(3,4) t(3) slot by (simp add: object_ok_def)
    moreover have "z \<noteq> x" using o(3) by (auto simp: in_use_def)
    ultimately show ?thesis by simp
  next
    case False
    then show ?thesis using object_ok_frame [OF ok, of sp a' ?F] slot by simp
  qed
  moreover have "arena_inv sp fl ?F a'" using r(2,3) inv(2) by (simp add: arena_inv_def)
  ultimately show ?thesis using r(1) unfolding serves_def by blast
qed

lemma malloc_small_serves:
  assumes "arena_inv sp fl F a" "small_size sz"
  shows "malloc_small sz a = Bad_alloc \<and> \<not> can_grow kSpanSlotSize a \<or> serves sz sp F a (malloc_small sz a)"
proof -
  let ?s = "BinSlot sz"
  have inv: "page_heap sp fl a" "bins_ok sp F a" using assms(1) by (simp_all add: arena_inv_def)
  have s: "1 \<le> ?s" "?s \<le> kBinSlotSize" using assms(2) bin_slot_range [of sz] by (simp_all add: small_size_def)
  obtain h where h: "bin_candidate ?s a = Returns h" "bin_link sp a ?s h" using bin_candidate_ok [OF assms(1) s] .
  have eq: "malloc_small sz a = (if h > 0 then fbind (page_get a h) (\<lambda>p. if pg_oFree p > 1 then take_object ?s h p a else new_page ?s a)
      else new_page ?s a)"
    by (simp only: malloc_small_def h(1) new_page_def Let_def fbind.simps)
  note new = new_page_serves [OF assms refl]
  show ?thesis
  proof (cases "h = 0")
    case True
    then show ?thesis using new by (simp add: eq)
  next
    case False
    then obtain l where l: "sp h = Some (Bin_span l)" "page_slot a h = ?s" using h(2) by (auto simp: bin_link_def)
    have c: "committed a h" "0 < h" using span_committed [OF page_heapD(1) [OF inv(1)] l(1)] by auto
    note b = bins_okD(2) [OF inv(2) l(1)]
    show ?thesis
    proof (cases "pg_oFree (ar_page a h) > 1")
      case True
      then obtain x xs where "F h = x # xs" using b by (cases "F h") (auto simp: bin_page_def)
      from take_object_serves [OF assms l this] True c show ?thesis by (simp add: eq page_get_def)
    next
      case False
      then show ?thesis using c new by (simp add: eq page_get_def)
    qed
  qed
qed

lemma Malloc_serves:
  assumes "arena_inv sp fl F a" "0 < sz" "SpanSlotOf sz < kSpanSlotSize"
  shows "arena_Malloc sz a = Bad_alloc \<and> \<not> can_grow kSpanSlotSize a \<or> serves sz sp F a (arena_Malloc sz a)"
proof (cases "sz > kMaxObjectAvailable")
  case True
  then show ?thesis using malloc_big_serves [OF assms(1), of sz] assms(2,3) by (simp add: arena_Malloc_def big_size_def)
next
  case False
  then show ?thesis using malloc_small_serves [OF assms(1), of sz] assms(2) by (simp add: arena_Malloc_def small_size_def)
qed


section \<open>Free\<close>

lemma span_of_address:
  assumes "page_heap sp fl a" "sp h = Some s" "0 \<le> off" "off < span_len s * kPageLen"
  shows "SpanHandleOf (ar_is_head a) (PageHandleOf (PtrOf h + off)) = h"
proof -
  note d = page_heapD [OF assms(1)]
  let ?k = "off div kPageLen" and ?o = "off mod kPageLen"
  have h: "1 \<le> h" by (rule spans_okD(1) [OF d(1) assms(2)])
  have o: "0 \<le> ?o" "?o < kPageLen" "0 \<le> ?k" "?k < span_len s"
    using assms(3,4) by (auto simp: kPageLen_def intro: Euclidean_Rings.pos_mod_bound)
  have "\<not> ar_is_head a j" if "h < j" "j \<le> h + ?k" for j
    using spans_okD(5) [OF d(1) assms(2), of j] that o(4) h d(3) by (cases "sp j") (auto simp: heads_ok_def)
  moreover have "ar_is_head a h" using d(3) assms(2) h by (simp add: heads_ok_def)
  moreover have "PtrOf (h + ?k) + ?o = PtrOf h + off" by (simp add: PtrOf_add)
  ultimately show ?thesis using handle_roundtrip [OF o(1,2) _ o(3), of h "ar_is_head a"] h by simp
qed

text \<open>
  \<open>Free\<close> of this address is sound: a large object, or one in a page that is not full, is the first of its bin or has
  more objects in use than the first, and keeps at least one.
\<close>

definition free_safe :: "int \<Rightarrow> arena \<Rightarrow> bool" where
  "free_safe ptr a \<longleftrightarrow> (let h = SpanHandleOf (ar_is_head a) (PageHandleOf ptr); p = ar_page a h; f = ar_bin a ! nat (- pg_Flag p) in
     pg_Flag p > 0 \<or> pg_oFree p > 0 \<and> (f = h \<or> 1 < pg_nUsed p \<and> pg_nUsed (ar_page a f) < pg_nUsed p))"

lemma free_small_ok:
  assumes "arena_inv sp fl F a" "object_ok sp F a h off sz" "sp h = Some (Bin_span l)" "free_safe (PtrOf h + off) a"
  shows "\<exists>a'. arena_Free (PtrOf h + off) a = Returns a' \<and> arena_inv sp fl (F(h := off # F h)) a' \<and> (\<forall>y. page_slot a' y = page_slot a y) \<and> F h \<noteq> []"
proof -
  let ?s = "BinSlot sz" and ?p = "ar_page a h"
  have inv: "page_heap sp fl a" "no_held sp" "bins_ok sp F a" using assms(1) by (simp_all add: arena_inv_def)
  note d = page_heapD [OF inv(1)] and b = bins_okD(2) [OF inv(3) assms(3)]
  have o: "page_slot a h = ?s" "in_use ?s (F h) off" using assms(2,3) by (simp_all add: object_ok_def)
  have s: "1 \<le> ?s" "?s \<le> kBinSlotSize" using b o(1) by (simp_all add: bin_page_def)
  have off: "0 \<le> off" "off < l * kPageLen" using obj_at_bounds [OF s, of off] o bin_page_bytes [OF b] by (auto simp: in_use_def)
  have hp: "SpanHandleOf (ar_is_head a) (PageHandleOf (PtrOf h + off)) = h" using span_of_address [OF inv(1) assms(3)] off by simp
  have c: "committed a h" "0 < h" using span_committed [OF d(1) assms(3)] by auto
  define f where "f = ar_bin a ! nat ?s"
  have flag: "pg_Flag ?p = - ?s" using o(1) by (simp add: page_slot_def)
  have safe: "0 < pg_oFree ?p" "f = h \<or> 1 < pg_nUsed ?p \<and> pg_nUsed (ar_page a f) < pg_nUsed ?p"
    using assms(4) s(1) by (simp_all add: free_safe_def Let_def hp flag f_def)
  have "f \<noteq> 0" using b o(1) by (simp add: bin_page_def f_def)
  then obtain m where "sp f = Some (Bin_span m)" using bins_okD(1) [OF inv(3) s] by (auto simp: bin_link_def f_def)
  then have fc: "committed a f" "0 < f" using span_committed [OF d(1)] by auto
  have F: "F h \<noteq> []" "pg_oFree ?p = first (F h) 0" using safe(1) b by (auto simp: bin_page_def)
  let ?q = "?p\<lparr>pg_nUsed := pg_nUsed ?p - 1, pg_oFree := off\<rparr>" and ?lk = "(ar_link a)(PtrOf h + off := pg_oFree ?p)"
  let ?a = "a\<lparr>ar_page := (ar_page a)(h := ?q), ar_link := ?lk\<rparr>"
  have cond: "0 < pg_nUsed ?p - 1 \<or> f = h" using safe(2) by auto
  have "move_to_front ?s h ?a = Returns ?a"
    using safe(2) c fc by (auto simp: move_to_front_def page_get_def committed_iff f_def [symmetric])
  moreover have "?a = a\<lparr>ar_link := ?lk, ar_page := (ar_page a)(h := ?q)\<rparr>" by simp
  ultimately have stay: "move_to_front ?s h (a\<lparr>ar_link := ?lk, ar_page := (ar_page a)(h := ?q)\<rparr>) = Returns ?a" by metis
  have free: "arena_Free (PtrOf h + off) a = Returns ?a"
    using hp c s(1) cond stay by (auto simp: arena_Free_def page_get_def page_upd_def committed_iff flag f_def [symmetric])
  have g: "chain_ok ?s (off # F h)" using given_ok(1) [OF _ F(1) o(2)] b o(1) by (simp add: bin_page_def)
  have "links ?lk (PtrOf h) (F h)" using b o(2) by (subst links_frame [of _ _ _ "ar_link a"]) (auto simp: bin_page_def in_use_def)
  then have "links ?lk (PtrOf h) (off # F h)" using F by (cases "F h") simp_all
  then have "bins_ok sp (F(h := off # F h)) ?a"
    using g off o(1) by (intro bins_ok_page [OF inv(3) d(1) assms(3) refl]) (auto split: if_splits)
  moreover have "page_heap sp fl ?a" using flag s(1) by (intro page_heap_bin [OF inv(1) assms(3)]) simp
  ultimately show ?thesis using free inv(2) F(1) by (intro exI [of _ ?a]) (simp add: arena_inv_def page_slot_def)
qed

lemma Free_ok:
  assumes "arena_inv sp fl F a" "object_ok sp F a h off sz" "free_safe (PtrOf h + off) a"
  shows "\<exists>a' sp' fl' F'. arena_Free (PtrOf h + off) a = Returns a' \<and> arena_inv sp' fl' F' a' \<and>
    (\<forall>x y z. object_ok sp F a x y z \<and> (x, y) \<noteq> (h, off) \<longrightarrow> object_ok sp' F' a' x y z)"
proof -
  have inv: "page_heap sp fl a" "no_held sp" "bins_ok sp F a" using assms(1) by (simp_all add: arena_inv_def)
  from assms(2) consider l where "sp h = Some (Big_span l)" "off = kSpanHeaderSize" | l where "sp h = Some (Bin_span l)"
    by (auto simp: object_ok_def split: option.splits span.splits)
  then show ?thesis
  proof cases
    case 1
    from Free_big_ok [OF inv(1,2) 1(1)] obtain a' sp' fl' where
      r: "arena_Free (PtrOf h + kSpanHeaderSize) a = Returns a'" "page_heap sp' fl' a'" "no_held sp'"
        "objects sp' = objects sp - {(h, Big_span l)}" "bins_same sp a a'" by blast
    have bins: "sp' x = Some (Bin_span m) \<longleftrightarrow> sp x = Some (Bin_span m)" for x m
    proof -
      have "(x, Bin_span m) \<in> objects sp' \<longleftrightarrow> (x, Bin_span m) \<in> objects sp" using r(4) by simp
      then show ?thesis by (simp add: objects_def)
    qed
    have "object_ok sp' F a' x y z" if ok: "object_ok sp F a x y z" "(x, y) \<noteq> (h, off)" for x y z
    proof -
      have "x \<noteq> h" using ok 1 by (auto simp: object_ok_def)
      then show ?thesis using object_ok_frame [OF ok(1), of sp' a' F] r(4) bins_same_slot [OF r(5)] by simp
    qed
    moreover have "arena_inv sp' fl' F a'" using r(2,3) bins_ok_same [OF inv(3) r(5) bins] by (simp add: arena_inv_def)
    ultimately show ?thesis using r(1) 1(2) by blast
  next
    case 2
    from free_small_ok [OF assms(1,2) 2 assms(3)] obtain a' where
      r: "arena_Free (PtrOf h + off) a = Returns a'" "arena_inv sp fl (F(h := off # F h)) a'" "\<And>y. page_slot a' y = page_slot a y" "F h \<noteq> []" by blast
    have ch: "chain_ok (BinSlot sz) (F h)" "in_use (BinSlot sz) (F h) off"
      using bins_okD(2) [OF inv(3) 2] assms(2) 2 by (simp_all add: bin_page_def object_ok_def)
    have "object_ok sp (F(h := off # F h)) a' x y z" if ok: "object_ok sp F a x y z" "(x, y) \<noteq> (h, off)" for x y z
    proof (cases "x = h")
      case True
      then show ?thesis using ok 2 r(3) given_ok(2) [OF ch(1) r(4) ch(2), of y] assms(2) by (simp add: object_ok_def)
    next
      case False
      then show ?thesis using object_ok_frame [OF ok(1), of sp a' "F(h := off # F h)"] r(3) by simp
    qed
    then show ?thesis using r(1,2) by blast
  qed
qed

section \<open>Disjointness\<close>

definition apart :: "int \<times> int \<Rightarrow> int \<times> int \<Rightarrow> bool" where
  "apart x y \<longleftrightarrow> fst x + snd x \<le> fst y \<or> fst y + snd y \<le> fst x"

lemma object_in_span:
  assumes "arena_inv sp fl F a" "object_ok sp F a h off sz"
  obtains s where "sp h = Some s" "PtrOf h < PtrOf h + off" "PtrOf h + off + sz \<le> PtrOf (h + span_len s)"
proof -
  from assms(2) consider l where "sp h = Some (Big_span l)" "off = kSpanHeaderSize" "big_size sz" "l = SpanSlotOf sz"
    | l where "sp h = Some (Bin_span l)" "small_size sz" "page_slot a h = BinSlot sz" "in_use (BinSlot sz) (F h) off"
    by (auto simp: object_ok_def split: option.splits span.splits)
  then show ?thesis
  proof cases
    case 1
    then show ?thesis using span_slot_fits [of sz]
      by (intro that [OF 1(1)]) (auto simp: PtrOf_add big_size_def kMaxObjectAvailable_def kSpanHeaderSize_def)
  next
    case 2
    have sz: "1 \<le> BinSlot sz" "BinSlot sz \<le> kBinSlotSize" "sz \<le> obj_len (BinSlot sz)"
      using bin_slot_range [of sz, folded obj_len_def] 2(2) by (simp_all add: small_size_def)
    have "bin_bytes (BinSlot sz) = l * kPageLen"
      using bin_page_bytes bins_okD(2) [of sp F a h l] assms(1) 2(1,3) by (metis arena_inv_def)
    then show ?thesis using obj_at_bounds [OF sz(1,2), of off] 2(4) sz(3) by (intro that [OF 2(1)]) (auto simp: PtrOf_add in_use_def)
  qed
qed

lemma objects_apart:
  assumes "arena_inv sp fl F a" "object_ok sp F a h off sz" "object_ok sp F a h' off' sz'" "(h, off) \<noteq> (h', off')"
  shows "apart (PtrOf h + off, sz) (PtrOf h' + off', sz')"
proof (cases "h = h'")
  case True
  have o: "page_slot a h = BinSlot sz" "BinSlot sz' = BinSlot sz" "small_size sz" "small_size sz'"
      "obj_at (BinSlot sz) off" "obj_at (BinSlot sz) off'" "off \<noteq> off'"
    using assms(2-4) True by (auto simp: object_ok_def in_use_def split: option.splits span.splits)
  have "sz \<le> obj_len (BinSlot sz)" "sz' \<le> obj_len (BinSlot sz)"
    using bin_slot_range(3) [of sz, folded obj_len_def] bin_slot_range(3) [of sz', folded obj_len_def] o(2-4) by (simp_all add: small_size_def)
  then show ?thesis using obj_at_sep [OF o(5,6)] obj_at_sep [OF o(6,5)] o(7) True by (cases "off < off'") (simp_all add: apart_def)
next
  case False
  have s: "spans_ok sp (pages a)" using assms(1) by (simp add: arena_inv_def page_heap_def)
  obtain t where t: "sp h = Some t" "PtrOf h < PtrOf h + off" "PtrOf h + off + sz \<le> PtrOf (h + span_len t)" using object_in_span [OF assms(1,2)] .
  obtain t' where t': "sp h' = Some t'" "PtrOf h' < PtrOf h' + off'" "PtrOf h' + off' + sz' \<le> PtrOf (h' + span_len t')" using object_in_span [OF assms(1,3)] .
  have "h + span_len t \<le> h' \<or> h' + span_len t' \<le> h"
    using spans_okD(5) [OF s t(1), of h'] spans_okD(5) [OF s t'(1), of h] t(1) t'(1) False by auto
  then have "PtrOf (h + span_len t) \<le> PtrOf h' \<or> PtrOf (h' + span_len t') \<le> PtrOf h" using PtrOf_mono by blast
  then show ?thesis using t(2,3) t'(2,3) unfolding apart_def by (elim disjE) simp_all
qed


section \<open>Writing into an object\<close>

text \<open>
  The program writes into the bytes from \<open>ptr\<close> to \<open>ptr + sz\<close>. A link (two bytes) that they touch, and a header (16 bytes, the last four are \<open>oFree\<close> and \<open>nUsed\<close>)
  that they touch, read as something else afterwards: \<open>lk\<close> and \<open>pg\<close>.
\<close>

definition arena_write :: "int \<Rightarrow> int \<Rightarrow> (int \<Rightarrow> int) \<Rightarrow> (int \<Rightarrow> page_header) \<Rightarrow> arena \<Rightarrow> arena" where
  "arena_write ptr sz lk pg a = a\<lparr>
     ar_page := (\<lambda>h. if PtrOf h + kPageHeaderSize \<le> ptr \<or> ptr + sz \<le> PtrOf h then ar_page a h
       else if PtrOf h + kSpanHeaderSize \<le> ptr then (ar_page a h)\<lparr>pg_oFree := pg_oFree (pg h), pg_nUsed := pg_nUsed (pg h)\<rparr>
       else pg h),
     ar_link := (\<lambda>x. if x + 2 \<le> ptr \<or> ptr + sz \<le> x then ar_link a x else lk x)\<rparr>"

lemma spans_apart:
  assumes "spans_ok sp N" "sp h = Some s" "sp h' = Some s'" "h \<noteq> h'"
  shows "PtrOf (h + span_len s) \<le> PtrOf h' \<or> PtrOf (h' + span_len s') \<le> PtrOf h"
proof -
  have "h + span_len s \<le> h' \<or> h' + span_len s' \<le> h"
    using spans_okD(5) [OF assms(1,2), of h'] spans_okD(5) [OF assms(1,3), of h] assms(2-4) by auto
  then show ?thesis using PtrOf_mono by blast
qed

lemma write_page:
  assumes "arena_inv sp fl F a" "object_ok sp F a h off sz" "sp x = Some s" "a' = arena_write (PtrOf h + off) sz lk pg a"
  shows "x \<noteq> h \<Longrightarrow> ar_page a' x = ar_page a x" "s = Bin_span l \<Longrightarrow> ar_page a' x = ar_page a x"
    "pg_Flag (ar_page a' x) = pg_Flag (ar_page a x) \<and> pg_hNext (ar_page a' x) = pg_hNext (ar_page a x)"
proof -
  have ok: "spans_ok sp (pages a)" "bins_ok sp F a" using assms(1) by (simp_all add: arena_inv_def page_heap_def)
  obtain t where t: "sp h = Some t" "PtrOf h < PtrOf h + off" "PtrOf h + off + sz \<le> PtrOf (h + span_len t)" using object_in_span [OF assms(1,2)] .
  have len: "PtrOf x + kPageHeaderSize \<le> PtrOf (x + span_len s)"
    using spans_okD(2) [OF ok(1) assms(3)] by (simp add: PtrOf_add kPageLen_def kPageHeaderSize_def)
  show other: "ar_page a' x = ar_page a x" if "x \<noteq> h"
    using spans_apart [OF ok(1) assms(3) t(1) that] t(2,3) len by (auto simp: arena_write_def assms(4))
  have here: "kSpanHeaderSize \<le> off" "s = Bin_span l \<Longrightarrow> kPageHeaderSize \<le> off" if "x = h" for l
    using assms(2,3) that by (auto simp: object_ok_def in_use_def obj_at_def kSpanHeaderSize_def kPageHeaderSize_def split: option.splits span.splits)
  show "ar_page a' x = ar_page a x" if "s = Bin_span l"
    using other here(2) that by (cases "x = h") (auto simp: arena_write_def assms(4))
  show "pg_Flag (ar_page a' x) = pg_Flag (ar_page a x) \<and> pg_hNext (ar_page a' x) = pg_hNext (ar_page a x)"
    using other here(1) by (cases "x = h") (auto simp: arena_write_def assms(4))
qed

lemma write_link:
  assumes "arena_inv sp fl F a" "object_ok sp F a h off sz" "sp x = Some (Bin_span l)" "y \<in> set (F x)"
  shows "ar_link (arena_write (PtrOf h + off) sz lk pg a) (PtrOf x + y) = ar_link a (PtrOf x + y)"
proof -
  have ok: "spans_ok sp (pages a)" "bins_ok sp F a" using assms(1) by (simp_all add: arena_inv_def page_heap_def)
  note b = bins_okD(2) [OF ok(2) assms(3)]
  let ?s = "page_slot a x"
  have s: "1 \<le> ?s" "?s \<le> kBinSlotSize" "chain_ok ?s (F x)" using b by (simp_all add: bin_page_def)
  have y: "obj_at ?s y" "16 \<le> y" "y + obj_len ?s \<le> l * kPageLen"
    using s(3) assms(4) obj_at_bounds [OF s(1,2), of y] bin_page_bytes [OF b] by (auto simp: chain_ok_def)
  have four: "2 \<le> obj_len ?s" by (rule slot_sizes(6) [OF s(1,2)])
  have "PtrOf x + y + 2 \<le> PtrOf h + off \<or> PtrOf h + off + sz \<le> PtrOf x + y"
  proof (cases "x = h")
    case True
    then have o: "BinSlot sz = ?s" "in_use ?s (F x) off" "sz \<le> obj_len ?s"
      using assms(2,3) bin_slot_range(3) [of sz, folded obj_len_def] by (auto simp: object_ok_def small_size_def)
    then have "obj_at ?s off" "off \<noteq> y" using assms(4) by (auto simp: in_use_def)
    then have "y + obj_len ?s \<le> off \<or> off + obj_len ?s \<le> y" 
      using obj_at_sep [OF y(1), of off] obj_at_sep [of ?s off y] y(1) by (cases "off < y") auto
    then show ?thesis using True four o(3) by auto
  next
    case False
    obtain t where t: "sp h = Some t" "PtrOf h < PtrOf h + off" "PtrOf h + off + sz \<le> PtrOf (h + span_len t)" using object_in_span [OF assms(1,2)] .
    from spans_apart [OF ok(1) assms(3) t(1) False] t(2,3) y(2,3) four show ?thesis by (auto simp: PtrOf_add)
  qed
  then show ?thesis by (simp add: arena_write_def)
qed

lemma write_ok:
  assumes "arena_inv sp fl F a" "object_ok sp F a h off sz" "a' = arena_write (PtrOf h + off) sz lk pg a"
  shows "arena_inv sp fl F a'" "object_ok sp F a x y z \<Longrightarrow> object_ok sp F a' x y z"
proof -
  have inv: "page_heap sp fl a" "no_held sp" "bins_ok sp F a" using assms(1) by (simp_all add: arena_inv_def)
  note d = page_heapD [OF inv(1)] and w = write_page [OF assms(1,2) _ assms(3)]
  have rest: "ar_bin a' = ar_bin a" "ar_span_list a' = ar_span_list a" "ar_is_head a' = ar_is_head a" "pages a' = pages a" "counters_ok a' = counters_ok a"
    by (simp_all add: assms(3) arena_write_def pages_def counters_ok_def)
  have free: "ar_page a' x = ar_page a x" if "sp x = Some (Free_span k)" for x k
    using w(1) [OF that] assms(2) that by (cases "x = h") (auto simp: object_ok_def)
  have "seg (ar_page a') k 0 (fl k) 0" if "0 \<le> k" "k \<le> kSpanSlotSize" for k
    using lists_okD(2,4) [OF d(2) that] free by (subst seg_frame [of _ _ "ar_page a"]) auto
  then have "lists_ok sp fl a'" using d(2) w(3) by (simp add: lists_ok_def rest)
  then have "page_heap sp fl a'" using d by (simp add: page_heap_def rest)
  moreover have "bins_ok sp F a'"
    by (rule bins_ok_agree [OF inv(3)]) (use w(2) write_link [OF assms(1,2)] assms(3) rest in auto)
  ultimately show "arena_inv sp fl F a'" using inv(2) by (simp add: arena_inv_def)
  show "object_ok sp F a' x y z" if "object_ok sp F a x y z"
    using w(3) by (intro object_ok_frame [OF that]) (auto simp: page_slot_def)
qed

end
