(* ===== verification/Arena_Runs.thy ===== *)
theory Arena_Runs
  imports Arena_Objects
begin

text \<open>
  Whole runs of the arena: sequences of \<open>Malloc\<close> and \<open>Free\<close>, from the initial state. The live objects never overlap
  and lie in the heap.
\<close>

section \<open>The initial heap\<close>

lemma repeat_grow:
  assumes "page_heap sp fl a" "no_held sp" "0 < n" "n \<le> kSpanSlotSize"
  shows "repeat m (AllocArbitaryChunkFromHeap n) a = Bad_alloc \<or>
    (\<exists>sp' fl' a'. repeat m (AllocArbitaryChunkFromHeap n) a = Returns a' \<and> page_heap sp' fl' a' \<and> no_held sp' \<and> objects sp' = objects sp \<and>
      ar_bin a' = ar_bin a)"
  using assms
proof (induction m arbitrary: a sp fl)
  case (Suc m)
  show ?case
  proof (cases "can_grow n a")
    case True
    from grow_ok [OF Suc.prems(1,3,4) True] obtain a1 fl1 where
      a1: "AllocArbitaryChunkFromHeap n a = Returns a1" "page_heap (sp(pages a + 1 \<mapsto> Free_span n)) fl1 a1"
        "sp (pages a + 1) = None" "bins_same sp a a1" by metis
    have held: "no_held (sp(pages a + 1 \<mapsto> Free_span n))" using Suc.prems(2) by (simp add: no_held_def)
    have objs: "objects (sp(pages a + 1 \<mapsto> Free_span n)) = objects sp" using a1(3) by (auto simp: objects_def split: if_splits)
    have "ar_bin a1 = ar_bin a" using a1(4) by (simp add: bins_same_def)
    then show ?thesis using Suc.IH [OF a1(2) held Suc.prems(3,4)] by (simp only: objs a1(1) repeat.simps fbind.simps)
  next
    case False
    then have "AllocArbitaryChunkFromHeap n a = Bad_alloc"
      using AllocMem_ok(1) [OF page_heapD(4) [OF Suc.prems(1)] Suc.prems(3)] by (simp add: AllocArbitaryChunkFromHeap_def)
    then show ?thesis by simp
  qed
qed auto

text \<open>\<open>Init\<close> throws \<open>std::bad_alloc\<close> or builds a heap, whatever the system commits.\<close>

lemma Init_page_heap:
  "arena_Init_with commits m n = Bad_alloc \<or>
    (\<exists>sp fl a. arena_Init_with commits m n = Returns a \<and> page_heap sp fl a \<and> no_held sp \<and> objects sp = {} \<and> ar_bin a = replicate 40 0)"
proof (cases "commits 0 24576")
  case True
  let ?a = "arena_blank commits\<lparr>ar_heap_page := 6, ar_reserved := 24576\<rparr>"
  have res: "AllocMemFromHeap (kPageLen * kSelfReservedPage) (arena_blank commits) = Returns (0, ?a)"
    using True by (simp add: AllocMemFromHeap_def Commit_def arena_blank_def arena_constants drop_bit_eq_div)
  have ok: "page_heap (\<lambda>_. None) (\<lambda>_. []) ?a" "no_held (\<lambda>_. None)" "objects (\<lambda>_. None) = {}"
    by (auto simp: page_heap_def spans_ok_def tiles_def lens_def lists_ok_def heads_ok_def counters_ok_def arena_blank_def
        arena_constants no_held_def objects_def nth_replicate)
  have bins: "ar_bin ?a = replicate 40 0" by (simp add: arena_blank_def)
  have max: "AllocMaxChunkFromHeap = AllocArbitaryChunkFromHeap kSpanSlotSize" by (rule ext) (rule alloc_max_arbitrary)
  have two: "0 < (2::int)" "2 \<le> kSpanSlotSize" "0 < kSpanSlotSize" by (simp_all add: kSpanSlotSize_def)
  from repeat_grow [OF ok(1,2) two(1,2), of m] consider "repeat m (AllocArbitaryChunkFromHeap 2) ?a = Bad_alloc"
    | sp1 fl1 a1 where "repeat m (AllocArbitaryChunkFromHeap 2) ?a = Returns a1" "page_heap sp1 fl1 a1" "no_held sp1" "objects sp1 = {}"
        "ar_bin a1 = replicate 40 0" using ok(3) bins by auto
  then show ?thesis
  proof cases
    case 2
    from repeat_grow [OF 2(2,3) two(3), of n] 2 res show ?thesis by (simp add: arena_Init_with_def max)
  qed (use res in \<open>simp add: arena_Init_with_def\<close>)
qed (simp add: arena_Init_with_def AllocMemFromHeap_def Commit_def arena_blank_def arena_constants drop_bit_eq_div)

section \<open>Runs\<close>

text \<open>A run of a program that frees or overwrites, by its position, an object it still has. \<open>live\<close> are its objects with their sizes.\<close>

datatype arena_op = Op_malloc int | Op_free nat | Op_write nat "int \<Rightarrow> int" "int \<Rightarrow> page_header"

fun arena_run :: "arena_op list \<Rightarrow> (int \<times> int) list \<Rightarrow> arena \<Rightarrow> ((int \<times> int) list \<times> arena) fallible" where
  "arena_run [] live a = Returns (live, a)"
| "arena_run (Op_malloc sz # ops) live a = fbind (arena_Malloc sz a) (\<lambda>(r, a).
     arena_run ops (case r of None \<Rightarrow> live | Some ptr \<Rightarrow> live @ [(ptr, sz)]) a)"
| "arena_run (Op_free i # ops) live a = (if i < length live
     then fbind (arena_Free (fst (live ! i)) a) (arena_run ops (take i live @ drop (Suc i) live))
     else arena_run ops live a)"
| "arena_run (Op_write i lk pg # ops) live a =
     arena_run ops live (if i < length live then arena_write (fst (live ! i)) (snd (live ! i)) lk pg a else a)"

text \<open>
  Every request fits a span below the largest size, and every \<open>Free\<close> on the way is sound.
\<close>

fun careful :: "arena_op list \<Rightarrow> (int \<times> int) list \<Rightarrow> arena \<Rightarrow> bool" where
  "careful [] live a \<longleftrightarrow> True"
| "careful (Op_malloc sz # ops) live a \<longleftrightarrow> sz \<le> 241652 \<and> (case arena_Malloc sz a of
       Returns (r, a) \<Rightarrow> careful ops (case r of None \<Rightarrow> live | Some ptr \<Rightarrow> live @ [(ptr, sz)]) a | _ \<Rightarrow> True)"
| "careful (Op_free i # ops) live a \<longleftrightarrow> (if i < length live
     then free_safe (fst (live ! i)) a \<and> (case arena_Free (fst (live ! i)) a of
       Returns a \<Rightarrow> careful ops (take i live @ drop (Suc i) live) a | _ \<Rightarrow> True)
     else careful ops live a)"
| "careful (Op_write i lk pg # ops) live a \<longleftrightarrow>
     careful ops live (if i < length live then arena_write (fst (live ! i)) (snd (live ! i)) lk pg a else a)"

fun object_of :: "int \<times> int \<times> int \<Rightarrow> int \<times> int" where
  "object_of (h, off, sz) = (PtrOf h + off, sz)"

fun spot :: "int \<times> int \<times> int \<Rightarrow> int \<times> int" where
  "spot (h, off, sz) = (h, off)"

definition arena_holds :: "(int \<times> int) list \<Rightarrow> arena \<Rightarrow> bool" where
  "arena_holds live a \<longleftrightarrow> (\<exists>sp fl F hs. arena_inv sp fl F a \<and> live = map object_of hs \<and> distinct (map spot hs) \<and>
     (\<forall>(h, off, sz) \<in> set hs. object_ok sp F a h off sz))"

lemma size_slot: "sz \<le> 241652 \<Longrightarrow> SpanSlotOf sz < kSpanSlotSize"
  by (simp add: SpanSlotOf_def kSpanHeaderSize_def kSpanSlotSize_def kPageLenWid_def drop_bit_eq_div)

lemma malloc_holds:
  assumes "arena_holds live a" "0 < sz" "sz \<le> 241652"
  shows "arena_Malloc sz a = Bad_alloc \<and> \<not> can_grow kSpanSlotSize a \<or>
    (\<exists>ptr a'. arena_Malloc sz a = Returns (Some ptr, a') \<and> arena_holds (live @ [(ptr, sz)]) a')"
proof -
  obtain sp fl F hs where h: "arena_inv sp fl F a" "live = map object_of hs" "distinct (map spot hs)"
    "\<forall>(h, off, sz) \<in> set hs. object_ok sp F a h off sz" using assms(1) unfolding arena_holds_def by blast
  from Malloc_serves [OF h(1) assms(2) size_slot [OF assms(3)]] show ?thesis
  proof
    assume "serves sz sp F a (arena_Malloc sz a)"
    then obtain x off a' sp' fl' F' where r: "arena_Malloc sz a = Returns (Some (PtrOf x + off), a')" "arena_inv sp' fl' F' a'"
      "object_ok sp' F' a' x off sz" "\<And>y z w. object_ok sp F a y z w \<Longrightarrow> object_ok sp' F' a' y z w \<and> (y, z) \<noteq> (x, off)"
      unfolding serves_def by blast
    let ?hs = "hs @ [(x, off, sz)]"
    have "(x, off) \<notin> spot ` set hs" using h(4) r(4) by force
    then have "distinct (map spot ?hs)" using h(3) by simp
    moreover have "\<forall>(h, off, sz) \<in> set ?hs. object_ok sp' F' a' h off sz" using h(4) r(3,4) by auto
    moreover have "live @ [(PtrOf x + off, sz)] = map object_of ?hs" using h(2) by simp
    ultimately have "arena_holds (live @ [(PtrOf x + off, sz)]) a'" using r(2) unfolding arena_holds_def by blast
    with r(1) show ?thesis by blast
  qed simp
qed

lemma free_holds:
  assumes "arena_holds live a" "i < length live" "free_safe (fst (live ! i)) a"
  shows "\<exists>a'. arena_Free (fst (live ! i)) a = Returns a' \<and> arena_holds (take i live @ drop (Suc i) live) a'"
proof -
  obtain sp fl F hs where h: "arena_inv sp fl F a" "live = map object_of hs" "distinct (map spot hs)"
    "\<forall>(h, off, sz) \<in> set hs. object_ok sp F a h off sz" using assms(1) unfolding arena_holds_def by blast
  obtain x off sz where x: "hs ! i = (x, off, sz)" by (metis prod_cases3)
  have i: "i < length hs" "(x, off, sz) \<in> set hs" using assms(2) h(2) x nth_mem [of i hs] by auto
  have l: "fst (live ! i) = PtrOf x + off" using h(2) i(1) x by simp
  have "object_ok sp F a x off sz" using h(4) i(2) by blast
  from Free_ok [OF h(1) this] assms(3) obtain a' sp' fl' F' where
    f: "arena_Free (PtrOf x + off) a = Returns a'" "arena_inv sp' fl' F' a'"
      "\<And>y z w. object_ok sp F a y z w \<Longrightarrow> (y, z) \<noteq> (x, off) \<Longrightarrow> object_ok sp' F' a' y z w" unfolding l by blast
  let ?hs = "take i hs @ drop (Suc i) hs"
  have hs: "hs = take i hs @ (x, off, sz) # drop (Suc i) hs" using i(1) x id_take_nth_drop by fastforce
  have d: "distinct (map spot (take i hs @ (x, off, sz) # drop (Suc i) hs))" using h(3) hs by simp
  then have "(x, off) \<notin> spot ` set ?hs" by auto
  then have "object_ok sp' F' a' y z w" if "(y, z, w) \<in> set ?hs" for y z w
  proof -
    have "(y, z) \<in> spot ` set ?hs" using that by (metis image_eqI spot.simps)
    then have "(y, z) \<noteq> (x, off)" using \<open>(x, off) \<notin> spot ` set ?hs\<close> by metis
    moreover have "(y, z, w) \<in> set hs" using that by (auto dest: in_set_takeD in_set_dropD)
    ultimately show ?thesis using f(3) h(4) by blast
  qed
  then have "\<forall>(h, off, sz) \<in> set ?hs. object_ok sp' F' a' h off sz" by blast
  moreover have "distinct (map spot ?hs)" using d by simp
  moreover have "take i live @ drop (Suc i) live = map object_of ?hs" using h(2) by (simp add: take_map drop_map)
  ultimately have "arena_holds (take i live @ drop (Suc i) live) a'" using f(2) unfolding arena_holds_def by blast
  then show ?thesis using f(1) l by simp
qed

lemma write_holds:
  assumes "arena_holds live a"
  shows "arena_holds live (if i < length live then arena_write (fst (live ! i)) (snd (live ! i)) lk pg a else a)"
proof (cases "i < length live")
  case True
  obtain sp fl F hs where h: "arena_inv sp fl F a" "live = map object_of hs" "distinct (map spot hs)"
    "\<forall>(h, off, sz) \<in> set hs. object_ok sp F a h off sz" using assms unfolding arena_holds_def by blast
  obtain x off sz where x: "hs ! i = (x, off, sz)" by (metis prod_cases3)
  have i: "i < length hs" "(x, off, sz) \<in> set hs" using True h(2) x nth_mem [of i hs] by auto
  have l: "live ! i = (PtrOf x + off, sz)" using h(2) i(1) x by simp
  have "object_ok sp F a x off sz" using h(4) i(2) by blast
  note w = write_ok [OF h(1) this refl, where lk = lk and pg = pg]
  have "arena_holds live (arena_write (PtrOf x + off) sz lk pg a)" using w h(2-4) unfolding arena_holds_def by blast
  then show ?thesis using True l by simp
qed (use assms in simp)

lemma run_holds:
  assumes "careful ops live a" "arena_holds live a"
  shows "arena_run ops live a = Bad_alloc \<or> (\<exists>live' a'. arena_run ops live a = Returns (live', a') \<and> arena_holds live' a')"
  using assms
proof (induction ops arbitrary: live a)
  case (Cons op ops)
  show ?case
  proof (cases op)
    case (Op_malloc sz)
    have sz: "sz \<le> 241652" using Cons.prems(1) Op_malloc by simp
    show ?thesis
    proof (cases "0 < sz")
      case True
      from malloc_holds [OF Cons.prems(2) True sz] consider "arena_Malloc sz a = Bad_alloc"
        | ptr a' where "arena_Malloc sz a = Returns (Some ptr, a')" "arena_holds (live @ [(ptr, sz)]) a'" by auto
      then show ?thesis by cases (use Cons Op_malloc in simp_all)
    next
      case False
      then have "arena_Malloc sz a = Returns (None, a)" by (simp add: arena_Malloc_def)
      then show ?thesis using Cons Op_malloc by simp
    qed
  next
    case (Op_free i)
    show ?thesis
    proof (cases "i < length live")
      case True
      then have "free_safe (fst (live ! i)) a" using Cons.prems(1) Op_free by simp
      from free_holds [OF Cons.prems(2) True this] obtain a' where
        "arena_Free (fst (live ! i)) a = Returns a'" "arena_holds (take i live @ drop (Suc i) live) a'" by blast
      then show ?thesis using Cons Op_free True by simp
    next
      case False
      then show ?thesis using Cons Op_free by simp
    qed
  next
    case (Op_write i lk pg)
    show ?thesis using Cons.IH [OF _ write_holds [OF Cons.prems(2)], of i lk pg] Cons.prems(1) Op_write by simp
  qed
qed simp

lemma holds_safe:
  assumes "arena_holds live a"
  shows "\<forall>x \<in> set live. kSelfReservedPage * kPageLen < fst x \<and> fst x + snd x \<le> ar_reserved a"
    "i < j \<Longrightarrow> j < length live \<Longrightarrow> apart (live ! i) (live ! j)"
proof -
  obtain sp fl F hs where h: "arena_inv sp fl F a" "live = map object_of hs" "distinct (map spot hs)"
    "\<forall>(h, off, sz) \<in> set hs. object_ok sp F a h off sz" using assms(1) unfolding arena_holds_def by blast
  have d: "spans_ok sp (pages a)" "counters_ok a" using h(1) by (simp_all add: arena_inv_def page_heap_def)
  have res: "ar_reserved a = PtrOf (pages a + 1)"
    using d(2) by (simp add: counters_ok_def pages_def PtrOf_def push_bit_eq_mult kPageLenWid_def kPageLen_def)
  have one: "PtrOf 1 = kSelfReservedPage * kPageLen" by (simp add: PtrOf_def push_bit_eq_mult kPageLenWid_def kPageLen_def)
  show "\<forall>x \<in> set live. kSelfReservedPage * kPageLen < fst x \<and> fst x + snd x \<le> ar_reserved a"
  proof
    fix y assume "y \<in> set live"
    then obtain x off sz where y: "y = (PtrOf x + off, sz)" "object_ok sp F a x off sz" using h(2,4) by auto
    obtain s where s: "sp x = Some s" "PtrOf x < PtrOf x + off" "PtrOf x + off + sz \<le> PtrOf (x + span_len s)" using object_in_span [OF h(1) y(2)] .
    have "PtrOf 1 \<le> PtrOf x" "PtrOf (x + span_len s) \<le> PtrOf (pages a + 1)" using spans_okD(1,4) [OF d(1) s(1)] by (simp_all add: PtrOf_mono)
    then show "kSelfReservedPage * kPageLen < fst y \<and> fst y + snd y \<le> ar_reserved a" using s(2,3) y(1) one res by simp
  qed
  assume ij: "i < j" "j < length live"
  obtain x off sz y off' sz' where xy: "hs ! i = (x, off, sz)" "hs ! j = (y, off', sz')" by (metis prod_cases3)
  have m: "(x, off, sz) \<in> set hs" "(y, off', sz') \<in> set hs" using xy ij h(2) by (metis length_map nth_mem order.strict_trans)+
  have "map spot hs ! i \<noteq> map spot hs ! j" using nth_eq_iff_index_eq [OF h(3), of i j] h(2) ij by simp
  then have "(x, off) \<noteq> (y, off')" using xy ij h(2) by simp
  moreover have "object_ok sp F a x off sz" "object_ok sp F a y off' sz'" using m h(4) by blast+
  ultimately have "apart (PtrOf x + off, sz) (PtrOf y + off', sz')" using objects_apart [OF h(1)] by blast
  then show "apart (live ! i) (live ! j)" using h(2) xy ij by simp
qed

lemma Init_holds:
  assumes "arena_Init_with commits m n = Returns a"
  shows "arena_holds [] a"
proof -
  obtain sp fl where a: "page_heap sp fl a" "no_held sp" "objects sp = {}" "ar_bin a = replicate 40 0"
    using Init_page_heap [of commits m n] assms by auto
  have none: "sp h \<noteq> Some (Bin_span l)" for h l using a(3) by (auto simp: objects_def)
  have "ar_bin a ! nat s = 0" if "1 \<le> s" "s \<le> kBinSlotSize" for s using that by (simp add: a(4) kBinSlotSize_def)
  then have "bins_ok sp (\<lambda>_. []) a" using none by (simp add: bins_ok_def bin_link_def)
  with a(1,2) have "arena_inv sp fl (\<lambda>_. []) a" by (simp add: arena_inv_def)
  then show ?thesis unfolding arena_holds_def by (intro exI [of _ sp] exI [of _ fl] exI [of _ "\<lambda>_. []"] exI [of _ "[]"]) simp
qed

section \<open>Properties\<close>

text \<open>
  C5 (safety). Memory safety of the arena: a run of \<open>Malloc\<close> for sizes up to 241652 bytes, \<open>Free\<close> of live objects and arbitrary writes into live
  objects, from an initial arena of any size and whatever memory the system commits, either ends in \<open>std::bad_alloc\<close> or returns, never crashes, and then all live objects lie
  between the reserved pages and the end of the heap and no two of them overlap, whatever splitting and merging of spans and whatever
  reuse of small objects happened on the way. Every \<open>Free\<close> of a large object is allowed; that of a small object only where the code is sound (\<open>free_safe\<close>), in a page
  that is not full and that does not change its place in its bin.
\<close>

theorem arena_safe:
  assumes "arena_Init_with commits m n = Returns a" "careful ops [] a"
  shows "arena_run ops [] a = Bad_alloc \<or>
    (\<exists>live a'. arena_run ops [] a = Returns (live, a') \<and>
      (\<forall>x \<in> set live. kSelfReservedPage * kPageLen < fst x \<and> fst x + snd x \<le> ar_reserved a') \<and>
      (\<forall>i j. i < j \<and> j < length live \<longrightarrow> apart (live ! i) (live ! j)))"
proof -
  from run_holds [OF assms(2) Init_holds [OF assms(1)]] show ?thesis
  proof
    assume "\<exists>live a'. arena_run ops [] a = Returns (live, a') \<and> arena_holds live a'"
    then obtain live a' where "arena_run ops [] a = Returns (live, a')" "arena_holds live a'" by blast
    with holds_safe [OF this(2)] show ?thesis by blast
  qed simp
qed


lemma run_evaluated:
  assumes "case r of Returns a \<Rightarrow> careful ops [] a \<and> (case arena_run ops [] a of Returns (live, a') \<Rightarrow> P live a' | _ \<Rightarrow> False) | _ \<Rightarrow> False"
  obtains a live a' where "r = Returns a" "careful ops [] a" "arena_run ops [] a = Returns (live, a')" "P live a'"
  using assms by (auto split: fallible.splits prod.splits)

theorem arena_safe_witness:
  "\<exists>a live a'. arena_Init_with (\<lambda>_ _. True) 0 1 = Returns a \<and>
     arena_run [Op_malloc 100, Op_malloc 5000, Op_malloc 100, Op_free 0, Op_malloc 90, Op_write 0 (\<lambda>_. 7) (ar_page (arena_blank (\<lambda>_ _. True))), Op_free 0] [] a = Returns (live, a') \<and> length live = 2 \<and>
     (\<forall>i j. i < j \<and> j < length live \<longrightarrow> apart (live ! i) (live ! j))"
proof -
  let ?ops = "[Op_malloc 100, Op_malloc 5000, Op_malloc 100, Op_free 0, Op_malloc 90, Op_write 0 (\<lambda>_. 7) (ar_page (arena_blank (\<lambda>_ _. True))), Op_free 0]"
  have "(case arena_Init_with (\<lambda>_ _. True) 0 1 of Returns a \<Rightarrow> careful ?ops [] a \<and>
      (case arena_run ?ops [] a of Returns (live, _) \<Rightarrow> length live = 2 | _ \<Rightarrow> False) | _ \<Rightarrow> False)" by code_simp
  then obtain a live a' where a: "arena_Init_with (\<lambda>_ _. True) 0 1 = Returns a" "careful ?ops [] a" "arena_run ?ops [] a = Returns (live, a')" "length live = 2"
    by (rule run_evaluated)
  from arena_safe [OF a(1,2)] a(3) have "\<forall>i j. i < j \<and> j < length live \<longrightarrow> apart (live ! i) (live ! j)"
    by (simp only: fallible.distinct fallible.inject prod.inject simp_thms) blast
  with a(1,3,4) show ?thesis by blast
qed

text \<open>
  A run that asks for large objects only may free them in any order.
\<close>

lemma free_safe_big:
  assumes "arena_holds live a" "i < length live" "4080 < snd (live ! i)"
  shows "free_safe (fst (live ! i)) a"
proof -
  obtain sp fl F hs where h: "arena_inv sp fl F a" "live = map object_of hs" 
    "\<forall>(h, off, sz) \<in> set hs. object_ok sp F a h off sz" using assms(1) unfolding arena_holds_def by blast
  obtain x off sz where x: "hs ! i = (x, off, sz)" by (metis prod_cases3)
  have o: "object_ok sp F a x off sz" "4080 < sz" "fst (live ! i) = PtrOf x + off"
    using assms(2,3) h(2,3) x nth_mem [of i hs] by auto
  then have b: "sp x = Some (Big_span (SpanSlotOf sz))" "off = kSpanHeaderSize"
    by (auto simp: object_ok_def small_size_def kMaxObjectAvailable_def split: option.splits span.splits)
  have p: "page_heap sp fl a" using h(1) by (simp add: arena_inv_def)
  note d = page_heapD [OF p]
  have l: "0 < SpanSlotOf sz" using spans_okD(2) [OF d(1) b(1)] by simp
  then have "SpanHandleOf (ar_is_head a) (PageHandleOf (PtrOf x + off)) = x"
    by (intro span_of_address [OF p b(1)]) (simp_all add: b(2) kSpanHeaderSize_def kPageLen_def)
  moreover have "pg_Flag (ar_page a x) = SpanSlotOf sz" using d(2) b(1) by (simp add: lists_ok_def)
  ultimately show ?thesis using l o(3) by (simp add: free_safe_def Let_def)
qed

lemma careful_big:
  assumes "\<And>sz. Op_malloc sz \<in> set ops \<Longrightarrow> 4080 < sz \<and> sz \<le> 241652" "\<And>x. x \<in> set live \<Longrightarrow> 4080 < snd x" "arena_holds live a"
  shows "careful ops live a"
  using assms
proof (induction ops arbitrary: live a)
  case (Cons op ops)
  have IH: "careful ops l b" if "arena_holds l b" "\<And>x. x \<in> set l \<Longrightarrow> 4080 < snd x" for l b
    using Cons.IH [of l b] Cons.prems(1) that by simp
  show ?case
  proof (cases op)
    case (Op_malloc sz)
    then have sz: "4080 < sz" "sz \<le> 241652" using Cons.prems(1) [of sz] by simp_all
    from malloc_holds [OF Cons.prems(3) _ sz(2)] sz(1) consider "arena_Malloc sz a = Bad_alloc"
      | ptr a' where "arena_Malloc sz a = Returns (Some ptr, a')" "arena_holds (live @ [(ptr, sz)]) a'" by auto
    then show ?thesis
    proof cases
      case 2
      have "careful ops (live @ [(ptr, sz)]) a'" by (rule IH [OF 2(2)]) (use Cons.prems(2) sz(1) in auto)
      then show ?thesis using Op_malloc sz(2) 2(1) by simp
    qed (use Op_malloc sz(2) in simp)
  next
    case (Op_free i)
    show ?thesis
    proof (cases "i < length live")
      case True
      then have safe: "free_safe (fst (live ! i)) a" using free_safe_big [OF Cons.prems(3)] Cons.prems(2) nth_mem by blast
      from free_holds [OF Cons.prems(3) True this] obtain a' where
        f: "arena_Free (fst (live ! i)) a = Returns a'" "arena_holds (take i live @ drop (Suc i) live) a'" by blast
      have "careful ops (take i live @ drop (Suc i) live) a'"
        by (rule IH [OF f(2)]) (use Cons.prems(2) in \<open>auto dest: in_set_takeD in_set_dropD\<close>)
      then show ?thesis using Op_free True safe f(1) by simp
    next
      case False
      then show ?thesis using IH Cons.prems(2,3) Op_free by simp
    qed
  next
    case (Op_write i lk pg)
    show ?thesis using IH [OF write_holds [OF Cons.prems(3)] Cons.prems(2), of i lk pg] Op_write by simp
  qed
qed simp


lemma arena_big_run:
  assumes "\<And>sz. Op_malloc sz \<in> set ops \<Longrightarrow> 4080 < sz \<and> sz \<le> 241652" "arena_Init commits = Returns a"
  shows "arena_run ops [] a = Bad_alloc \<or>
    (\<exists>live a'. arena_run ops [] a = Returns (live, a') \<and> (\<forall>i j. i < j \<and> j < length live \<longrightarrow> apart (live ! i) (live ! j)))"
proof -
  have "arena_holds [] a" using assms(2) unfolding arena_Init_def by (rule Init_holds)
  with run_holds [OF careful_big [OF assms(1) _ this] this] holds_safe(2) show ?thesis by (metis empty_iff list.set(1))
qed

text \<open>
  C21 (error). After any run of this kind a request of up to 241652 bytes returns an object or throws \<open>std::bad_alloc\<close>, and it throws only when
  the heap cannot grow: another chunk of 60 pages does not fit into the address space, or the system refuses to commit it.
\<close>

theorem arena_malloc_fails_only:
  assumes "arena_Init_with commits m n = Returns a" "careful ops [] a" "arena_run ops [] a = Returns (live, a')" "0 < sz" "sz \<le> 241652"
  shows "(\<exists>ptr a''. arena_Malloc sz a' = Returns (Some ptr, a'')) \<or>
    arena_Malloc sz a' = Bad_alloc \<and>
      (ar_heap_page a' + kSpanSlotSize > kPageTotalSize \<or> \<not> Commit a' (ar_reserved a') (kSpanSlotSize * kPageLen))"
proof -
  from run_holds [OF assms(2) Init_holds [OF assms(1)]] assms(3) have "arena_holds live a'" by auto
  from malloc_holds [OF this assms(4,5)] show ?thesis by (auto simp: can_grow_def)
qed

text \<open>A system that commits the reserved pages and one chunk: after two objects of 80000 bytes there is room for a small one, and for a large one the heap has to grow.\<close>

definition one_chunk :: "int \<Rightarrow> int \<Rightarrow> bool" where
  "one_chunk ptr sz \<longleftrightarrow> ptr + sz \<le> 66 * kPageLen"

theorem arena_malloc_fails_only_witness:
  "\<exists>a live a'. arena_Init_with one_chunk 0 1 = Returns a \<and> arena_run [Op_malloc 80000, Op_malloc 80000] [] a = Returns (live, a') \<and>
     (\<exists>ptr a''. arena_Malloc 5000 a' = Returns (Some ptr, a'')) \<and> arena_Malloc 100000 a' = Bad_alloc \<and>
     \<not> Commit a' (ar_reserved a') (kSpanSlotSize * kPageLen)"
proof -
  let ?ops = "[Op_malloc 80000, Op_malloc 80000]"
  have "(case arena_Init_with one_chunk 0 1 of Returns a \<Rightarrow> careful ?ops [] a \<and>
      (case arena_run ?ops [] a of Returns (live, a') \<Rightarrow> (case arena_Malloc 5000 a' of Bad_alloc \<Rightarrow> False | _ \<Rightarrow> True) \<and>
        (case arena_Malloc 100000 a' of Bad_alloc \<Rightarrow> True | _ \<Rightarrow> False) \<and> \<not> ar_heap_page a' + kSpanSlotSize > kPageTotalSize | _ \<Rightarrow> False) | _ \<Rightarrow> False)" by code_simp
  then obtain a live a' where a: "arena_Init_with one_chunk 0 1 = Returns a" "careful ?ops [] a" "arena_run ?ops [] a = Returns (live, a')"
    "(case arena_Malloc 5000 a' of Bad_alloc \<Rightarrow> False | _ \<Rightarrow> True) \<and> (case arena_Malloc 100000 a' of Bad_alloc \<Rightarrow> True | _ \<Rightarrow> False) \<and>
      \<not> ar_heap_page a' + kSpanSlotSize > kPageTotalSize" by (rule run_evaluated)
  have "arena_Malloc 5000 a' \<noteq> Bad_alloc" "arena_Malloc 100000 a' = Bad_alloc" using a(4) by (auto split: fallible.splits)
  with arena_malloc_fails_only [OF a(1-3), of 5000] arena_malloc_fails_only [OF a(1-3), of 100000] a show ?thesis by auto
qed

end
