(* ===== verification/Allocator.thy ===== *)
theory Allocator
  imports Arena_Runs
begin

text \<open>
  \<open>allocator<T>\<close> of \<open>arena/allocator.h\<close>, with \<open>t\<close> for \<open>sizeof(T)\<close>, and the life of the one arena behind it. The product
  of \<open>allocate\<close> is a \<open>size_t\<close>, and the parameter of \<open>Malloc\<close> an \<open>int32_t\<close>.
\<close>

definition kTotalSizeByte :: int where "kTotalSizeByte = kPageTotalSize * kPageLen"

definition al_allocate :: "nat \<Rightarrow> nat \<Rightarrow> arena \<Rightarrow> (int option \<times> arena) fallible" where
  "al_allocate t n a = arena_Malloc (to_int32 (int ((n * t) mod 2 ^ 64))) a"

definition al_deallocate :: "int \<Rightarrow> nat \<Rightarrow> arena \<Rightarrow> arena fallible" where
  "al_deallocate p n a = arena_Free p a"

definition al_max_size :: "nat \<Rightarrow> nat" where
  "al_max_size t = size_t_of_int kTotalSizeByte div t"

text \<open>
  The constructor and the destructor of \<open>Arena\<close>: the heap is global, \<open>None\<close> while \<open>kMemoryAllocStart\<close> is null;
  \<open>reserved\<close> is whether the operating system gave the address space, \<open>commits\<close> what it commits of it.
\<close>

definition Arena_new :: "bool \<Rightarrow> (int \<Rightarrow> int \<Rightarrow> bool) \<Rightarrow> arena option \<Rightarrow> arena option fallible" where
  "Arena_new reserved commits heap =
     (if heap \<noteq> None then Bad_alloc
      else if \<not> reserved then Bad_alloc
      else fbind (arena_Init commits) (\<lambda>a. Returns (Some a)))"

definition Arena_destroy :: "arena option \<Rightarrow> arena option" where
  "Arena_destroy heap = None"

section \<open>Properties\<close>

lemma total_size: "size_t_of_int kTotalSizeByte = 738197504"
  by (simp add: size_t_of_int_def kTotalSizeByte_def kPageTotalSize_def kPageLen_def)

text \<open>Only one arena can live at a time, and after its end another can be made.\<close>

lemma Arena_lifetime:
  assumes "Arena_new True commits heap = Returns h"
  shows "heap = None \<and> Arena_new r c h = Bad_alloc \<and> Arena_new True commits (Arena_destroy h) = Returns h"
  using assms by (cases "arena_Init commits") (auto simp: Arena_new_def Arena_destroy_def split: if_splits)

text \<open>
  \<open>allocate\<close> asks for exactly \<open>n * sizeof(T)\<close> bytes as long as \<open>n\<close> is at most \<open>max_size()\<close>. It does not check that
  itself: from \<open>2 ^ 32\<close> bytes on only the low 32 bits of the size reach \<open>Malloc\<close>.
\<close>

lemma allocate_size:
  assumes "0 < t" "0 < m" "m < 2 ^ 31"
  shows "(n \<le> al_max_size t \<longrightarrow> al_allocate t n a = arena_Malloc (int (n * t)) a) \<and>
    (int (n * t) = 2 ^ 32 + m \<longrightarrow> al_allocate t n a = arena_Malloc m a)"
proof (intro conjI impI)
  assume "n \<le> al_max_size t"
  then have "n * t \<le> 738197504 div t * t" by (simp add: al_max_size_def total_size)
  also have "\<dots> \<le> 738197504" by (rule div_times_less_eq_dividend)
  finally have "n * t \<le> 738197504" .
  then show "al_allocate t n a = arena_Malloc (int (n * t)) a"
    by (simp add: al_allocate_def to_int32_id flip: of_nat_mult)
next
  assume n: "int (n * t) = 2 ^ 32 + m"
  have "n * t < 2 ^ 64" using n assms(3) by (simp flip: of_nat_less_iff [where 'a = int])
  then have "int ((n * t) mod 2 ^ 64) = m + 2 ^ 32" using n by simp
  then have "to_int32 (int ((n * t) mod 2 ^ 64)) = m" using assms(2,3) by (simp only: to_int32_wraps) (simp add: to_int32_id)
  then show "al_allocate t n a = arena_Malloc m a" by (simp only: al_allocate_def)
qed

end
