(* ===== verification/Arena_Port.thy ===== *)
theory Arena_Port
  imports Arena
begin

text \<open>
  \<open>arena_port.h\<close>, the two ports of the arena to the memory functions of the operating system, and the parts of \<open>Arena\<close> that reserve and give
  back the address space. The functions of the system are a record of functions on its state \<open>'w\<close>; a null pointer is 0.
\<close>

section \<open>The functions of the operating system\<close>

datatype alloc_type = MEM_RESERVE_TOP_DOWN | MEM_COMMIT

datatype free_type = MEM_DECOMMIT | MEM_RELEASE

text \<open>The flags of \<open>mmap\<close> that say who sees the mapping.\<close>

datatype map_flag = MAP_ANONYMOUS | MAP_PRIVATE | MAP_SHARED

record 'w memory_api =
  VirtualAlloc :: "int \<Rightarrow> int \<Rightarrow> alloc_type \<Rightarrow> 'w \<Rightarrow> int \<times> 'w"
  VirtualFree :: "int \<Rightarrow> int \<Rightarrow> free_type \<Rightarrow> 'w \<Rightarrow> bool \<times> 'w"
  GetLastError :: "'w \<Rightarrow> nat"
  mmap :: "int \<Rightarrow> map_flag set \<Rightarrow> 'w \<Rightarrow> int \<times> 'w"
  munmap :: "int \<Rightarrow> int \<Rightarrow> 'w \<Rightarrow> int \<times> 'w"

text \<open>\<open>(void* ) -1\<close>.\<close>

definition MAP_FAILED :: int where "MAP_FAILED = 2 ^ 64 - 1"

section \<open>The port for Windows\<close>

text \<open>The second component of the result of \<open>GetReserved\<close> is what it prints: the number of the last error.\<close>

definition win_GetReserved :: "'w memory_api \<Rightarrow> int \<Rightarrow> 'w \<Rightarrow> int \<times> nat list \<times> 'w" where
  "win_GetReserved os sz w = (case VirtualAlloc os 0 sz MEM_RESERVE_TOP_DOWN w of (ret, w) \<Rightarrow>
     if ret = 0 then (0, [GetLastError os w], w) else (ret, [], w))"

definition win_Commit :: "'w memory_api \<Rightarrow> int \<Rightarrow> int \<Rightarrow> 'w \<Rightarrow> bool \<times> 'w" where
  "win_Commit os ptr sz w = (case VirtualAlloc os ptr sz MEM_COMMIT w of (ret, w) \<Rightarrow> (ret \<noteq> 0, w))"

text \<open>The call of \<open>VirtualFree\<close> in \<open>Decommit\<close> stands behind a \<open>return\<close>.\<close>

definition win_Decommit :: "'w memory_api \<Rightarrow> int \<Rightarrow> int \<Rightarrow> 'w \<Rightarrow> bool \<times> 'w" where
  "win_Decommit os ptr sz w = (True, w)"

definition win_FreeHeap :: "'w memory_api \<Rightarrow> int \<Rightarrow> int \<Rightarrow> 'w \<Rightarrow> bool \<times> 'w" where
  "win_FreeHeap os ptr sz w = VirtualFree os ptr sz MEM_RELEASE w"

section \<open>The port for Linux\<close>

definition linux_GetReserved :: "'w memory_api \<Rightarrow> int \<Rightarrow> 'w \<Rightarrow> int \<times> nat list \<times> 'w" where
  "linux_GetReserved os sz w = (case mmap os sz {MAP_ANONYMOUS} w of (ret, w) \<Rightarrow> (ret, [], w))"

definition linux_Commit :: "'w memory_api \<Rightarrow> int \<Rightarrow> int \<Rightarrow> 'w \<Rightarrow> bool \<times> 'w" where
  "linux_Commit os ptr sz w = (True, w)"

definition linux_Decommit :: "'w memory_api \<Rightarrow> int \<Rightarrow> int \<Rightarrow> 'w \<Rightarrow> bool \<times> 'w" where
  "linux_Decommit os ptr sz w = (Decommit ptr sz, w)"

definition linux_FreeHeap :: "'w memory_api \<Rightarrow> int \<Rightarrow> int \<Rightarrow> 'w \<Rightarrow> bool \<times> 'w" where
  "linux_FreeHeap os ptr sz w = (case munmap os ptr sz w of (ret, w) \<Rightarrow> (ret = 0, w))"

section \<open>The address space of the arena\<close>

record heap_bounds =
  kMemoryAllocStart :: int
  kMemoryAllocEnd :: int
  kMemoryReservedStart :: int

definition heap_unset :: heap_bounds where
  "heap_unset = \<lparr>kMemoryAllocStart = 0, kMemoryAllocEnd = 0, kMemoryReservedStart = 0\<rparr>"

text \<open>The beginning of \<open>Init\<close>: \<open>None\<close> if the arena is initialised already. A pointer past the reservation is not formed in the model, its address may exceed a word.\<close>

definition heap_reserve ::
  "(int \<Rightarrow> 'w \<Rightarrow> int \<times> nat list \<times> 'w) \<Rightarrow> heap_bounds \<Rightarrow> 'w \<Rightarrow> heap_bounds fallible option \<times> 'w" where
  "heap_reserve GetReserved hb w =
     (if kMemoryAllocStart hb \<noteq> 0 then (None, w)
      else case GetReserved kMemoryCapacity w of (p, _, w) \<Rightarrow>
        (Some (if p = 0 then Bad_alloc
               else Returns (hb\<lparr>kMemoryAllocStart := p, kMemoryAllocEnd := p + kMemoryCapacity, kMemoryReservedStart := p\<rparr>)), w))"

text \<open>The destructor. The pointer \<open>kMemoryReservedStart\<close> keeps its value: the start is cleared twice instead.\<close>

definition heap_destroy :: "(int \<Rightarrow> int \<Rightarrow> 'w \<Rightarrow> bool \<times> 'w) \<Rightarrow> heap_bounds \<Rightarrow> 'w \<Rightarrow> heap_bounds \<times> 'w" where
  "heap_destroy FreeHeap hb w = (case FreeHeap (kMemoryAllocStart hb) (kMemoryAllocEnd hb - kMemoryAllocStart hb) w of
     (_, w) \<Rightarrow> (hb\<lparr>kMemoryAllocStart := 0, kMemoryAllocEnd := 0\<rparr>, w))"

section \<open>Reservations\<close>

text \<open>
  What the systems document. \<open>held\<close> is the number of reservations of a process. Reserving adds one or returns the null pointer; \<open>MEM_RELEASE\<close> takes away
  one if the size is 0 and fails otherwise. \<open>mmap\<close> fails unless exactly one of \<open>MAP_PRIVATE\<close> and \<open>MAP_SHARED\<close> is given.
\<close>

definition windows_documents :: "'w memory_api \<Rightarrow> ('w \<Rightarrow> nat) \<Rightarrow> bool" where
  "windows_documents os held \<longleftrightarrow>
     (\<forall>sz w. case VirtualAlloc os 0 sz MEM_RESERVE_TOP_DOWN w of (p, w') \<Rightarrow> held w' = (if p = 0 then held w else Suc (held w))) \<and>
     (\<forall>p sz w. case VirtualFree os p sz MEM_RELEASE w of (ok, w') \<Rightarrow>
        (sz \<noteq> 0 \<longrightarrow> \<not> ok) \<and> held w' = (if ok then held w - 1 else held w))"

definition linux_documents :: "'w memory_api \<Rightarrow> bool" where
  "linux_documents os \<longleftrightarrow> (\<forall>sz fs w. (MAP_PRIVATE \<in> fs \<longleftrightarrow> MAP_SHARED \<in> fs) \<longrightarrow> fst (mmap os sz fs w) = MAP_FAILED)"

text \<open>Constructing and destroying an arena a number of times; the number of constructions that succeeded is counted.\<close>

fun arena_cycles :: "'w memory_api \<Rightarrow> nat \<Rightarrow> heap_bounds \<Rightarrow> 'w \<Rightarrow> nat \<times> heap_bounds \<times> 'w" where
  "arena_cycles os 0 hb w = (0, hb, w)"
| "arena_cycles os (Suc n) hb w = (case heap_reserve (win_GetReserved os) hb w of
     (Some (Returns hb'), w) \<Rightarrow> (case heap_destroy (win_FreeHeap os) hb' w of (hb, w) \<Rightarrow>
        (case arena_cycles os n hb w of (k, r) \<Rightarrow> (Suc k, r)))
   | (_, w) \<Rightarrow> arena_cycles os n hb w)"

lemma reserve_then_destroy:
  assumes "windows_documents os held" "kMemoryAllocStart hb = 0" "heap_reserve (win_GetReserved os) hb w = (r, w1)"
  shows "(\<exists>hb'. r = Some (Returns hb') \<and> held w1 = Suc (held w) \<and>
      (case heap_destroy (win_FreeHeap os) hb' w1 of (hb2, w2) \<Rightarrow> kMemoryAllocStart hb2 = 0 \<and> held w2 = held w1)) \<or>
    r = Some Bad_alloc \<and> held w1 = held w"
proof -
  obtain p w0 where a: "VirtualAlloc os 0 kMemoryCapacity MEM_RESERVE_TOP_DOWN w = (p, w0)" by fastforce
  have h: "held w0 = (if p = 0 then held w else Suc (held w))"
    using assms(1) [unfolded windows_documents_def, THEN conjunct1, THEN spec [of _ kMemoryCapacity], THEN spec [of _ w]] a by simp
  have cap: "kMemoryCapacity \<noteq> 0" by (simp add: kMemoryCapacity_def kPageLen_def kPageTotalSize_def)
  obtain ok w2 where f: "VirtualFree os p kMemoryCapacity MEM_RELEASE w0 = (ok, w2)" by fastforce
  have "held w2 = held w0"
    using assms(1) [unfolded windows_documents_def, THEN conjunct2, THEN spec [of _ p], THEN spec [of _ kMemoryCapacity], THEN spec [of _ w0]] f cap by simp
  then show ?thesis
    using assms(2,3) a h f by (auto simp: heap_reserve_def heap_destroy_def win_GetReserved_def win_FreeHeap_def split: if_split_asm)
qed

text \<open>
  On Windows every arena that was ever constructed keeps its address space: \<open>FreeHeap\<close> passes the size to \<open>VirtualFree\<close>, which then refuses to release.
\<close>

lemma windows_never_releases:
  "windows_documents os held \<Longrightarrow> kMemoryAllocStart hb = 0 \<Longrightarrow> arena_cycles os n hb w = (k, hb', w') \<Longrightarrow> held w' = held w + k"
proof (induction n arbitrary: hb w k)
  case (Suc n)
  obtain r w1 where r: "heap_reserve (win_GetReserved os) hb w = (r, w1)" by fastforce
  from reserve_then_destroy [OF Suc.prems(1,2) r] show ?case
  proof (elim disjE exE conjE)
    fix hb1 assume 1: "r = Some (Returns hb1)" "held w1 = Suc (held w)"
      "case heap_destroy (win_FreeHeap os) hb1 w1 of (hb2, w2) \<Rightarrow> kMemoryAllocStart hb2 = 0 \<and> held w2 = held w1"
    obtain hb2 w2 where d: "heap_destroy (win_FreeHeap os) hb1 w1 = (hb2, w2)" by fastforce
    obtain k' where k: "arena_cycles os n hb2 w2 = (k', hb', w')" "k = Suc k'"
      using Suc.prems(3) r 1(1) d by (auto split: prod.split_asm)
    then show ?thesis using Suc.IH [OF Suc.prems(1) _ k(1)] 1(2,3) d by simp
  next
    assume "r = Some Bad_alloc" "held w1 = held w"
    then show ?thesis using Suc.IH [OF Suc.prems(1,2)] Suc.prems(3) r by simp
  qed
qed simp

text \<open>
  On Linux the reservation fails, the arena does not notice, and its heap begins at the last byte of the address space.
\<close>

lemma linux_reserves_nothing:
  assumes "linux_documents os"
  shows "\<exists>w'. heap_reserve (linux_GetReserved os) heap_unset w =
    (Some (Returns \<lparr>kMemoryAllocStart = MAP_FAILED, kMemoryAllocEnd = MAP_FAILED + kMemoryCapacity, kMemoryReservedStart = MAP_FAILED\<rparr>), w')"
proof -
  have "fst (mmap os kMemoryCapacity {MAP_ANONYMOUS} w) = MAP_FAILED" using assms by (simp add: linux_documents_def)
  then show ?thesis
    by (cases "mmap os kMemoryCapacity {MAP_ANONYMOUS} w") (simp add: heap_reserve_def heap_unset_def linux_GetReserved_def MAP_FAILED_def)
qed

text \<open>Both hypotheses can hold: a system with a counter.\<close>

definition counting_api :: "nat memory_api" where
  "counting_api = \<lparr>VirtualAlloc = \<lambda>p _ t w. (if p = 0 then 65536 else p, if t = MEM_RESERVE_TOP_DOWN then Suc w else w),
     VirtualFree = \<lambda>_ sz t w. if t = MEM_RELEASE \<and> sz = 0 \<and> 0 < w then (True, w - 1) else (False, w), GetLastError = \<lambda>_. 87,
     mmap = \<lambda>_ fs w. if MAP_PRIVATE \<in> fs \<longleftrightarrow> MAP_SHARED \<in> fs then (MAP_FAILED, w) else (65536, Suc w), munmap = \<lambda>_ _ w. (0, w - 1)\<rparr>"

lemma counting_api_documents: "windows_documents counting_api id" "linux_documents counting_api"
  by (simp_all add: windows_documents_def linux_documents_def counting_api_def)

lemma windows_never_releases_twice: "snd (snd (arena_cycles counting_api 2 heap_unset 0)) = 2"
  using windows_never_releases [OF counting_api_documents(1), of heap_unset 2 0]
  by (simp add: heap_unset_def heap_reserve_def win_GetReserved_def counting_api_def heap_destroy_def win_FreeHeap_def numeral_2_eq_2 split: prod.split_asm)

end
