(* ===== verification/Spec2Isabelle.thy ===== *)
theory Spec2Isabelle
  imports Fast_Queue_Conc_Props Fast_Queue_Alone Push_Stack_Conc Pool_Workers_Props Pool_Types Fiber_Port Machine_Pool Channel Socket_Props Colog Corand Cotimer String_Hash Allocator Arena_Port
begin

text \<open>
  A verification of coplus, a C++ library of coroutines (fibers) on a pool of worker threads, with the
  lock-free containers under it, a memory arena, channels, and the string and message routines of its
  chat demo. The theories import one another from the containers up to the scheduler; this one is the root.
  Header files are named relative to \<open>src/include/coplus\<close> and its directory \<open>arena\<close>, the others relative to \<open>src/src\<close>.

  \<^bold>\<open>The program and how its parts interact.\<close>
  \<open>co::await\<close>, \<open>co::yield\<close> and \<open>go\<close> (\<open>coroutine.h\<close>, \<open>async_timer.h\<close>) are what user code calls from a
  fiber. A fiber switches back to the worker that runs it with a state; the worker
  (\<open>FiberTask\<close>, \<open>ThreadPool\<close> in \<open>thread_pool.h\<close>) puts a yielding fiber back on the ready queue, a waiting one on
  the wait queue with its index registered in a trigger (\<open>fiber_task.h\<close>), and forgets an ended one. The end
  of an awaited function or a timer notifies the trigger, which puts the waiters back on the ready queue. The
  ready queue is a \<open>FastQueue\<close>: producer handles (\<open>ProducerHandle\<close>) own local rings (\<open>FastLocalQueue\<close>), the tokens of the
  unowned rings are on a free list (\<open>SlowQueue\<close>), all rings are in a list that only grows
  (\<open>PushOnlyFastStack\<close>), and consumers scan that list. The wait queue is a \<open>PushOnlyFastStack\<close> too. The worker
  threads are \<open>Machine\<close>s (\<open>machine.h\<close>); the main thread works as one of them until \<open>coplus::main\<close> has returned
  (\<open>entry.cc\<close>). Channels (\<open>channel.h\<close>), the arena (\<open>arena.h\<close>) with its allocator (\<open>allocator.h\<close>), the log (\<open>colog.h\<close>) and the
  sockets (\<open>socket.h\<close>) stand beside this; the chat demo sends the frames of \<open>protocol.h\<close> over the sockets.

  \<^bold>\<open>Theories, sources, state and results.\<close>

  \<^item> \<open>Coplus_Prelude\<close>: results of C++ code (\<open>outcome\<close> with \<open>Undefined\<close> for undefined behaviour or the end of the
    program), vectors with checked access, rings, the \<open>retry\<close> loop, runs of queue operations (\<open>run_ops\<close>), the
    interfaces \<open>bounded_bag\<close>, \<open>bounded_fifo\<close> and \<open>token_store\<close> that the containers implement, lemmas on lists, multisets and words.
  \<^item> \<open>Slow_Queue\<close>: \<open>SlowQueue\<close> of \<open>fast_queue.h\<close>; every operation holds the mutex. \<open>push\<close> and \<open>pop\<close> on every branch, the elements
    a run conserves, and the rotation by one of the order when the ring fills up from slot 0.
  \<^item> \<open>Local_Queue\<close>, \<open>Local_Queue_Conc\<close>: \<open>FastLocalQueue\<close> with 32-bit counters, first one operation at a time (a bounded
    FIFO queue for ever, across wrap-around), then one atomic access at a time, with any number of
    threads. One producer and one consumer get FIFO order in every interleaving; every operation ends after a
    bounded number of its own steps; with two consumers a concrete interleaving loses one element and returns another twice.
  \<^item> \<open>Push_Stack\<close>: \<open>PushOnlyFastStack\<close> and its specialisation to owned pointers. Tokens stay valid, each owned object is
    destroyed once, and reading at the maximal size is past the table.
  \<^item> \<open>Push_Stack_Conc\<close>: the same class in interleaving, one step for every atomic operation and every access of an element, the
    segments in a heap since the loser of a race deletes its own. No access to a freed segment, no leak, one token per push, and
    the table is the one that the sequential pushes build in the order in which the slots were claimed.
  \<^item> \<open>Fast_Queue\<close>, \<open>Fast_Queue_Props\<close>: \<open>FastQueue\<close> and \<open>ProducerHandle\<close>, with the rings as a heap addressed by index so that
    the aliasing of handles and list is explicit. Submission and \<open>pop_hard\<close> on every start index; conservation
    over runs of any length until the list is full; what happens then, and that \<open>pop\<close> may not return.
  \<^item> \<open>Fast_Queue_Conc\<close>, \<open>Fast_Queue_Conc_Props\<close>: the handles of any number of threads and \<open>pop_hard\<close> of one consumer in interleaving, one access of a ring, of the
    list or of the free list at a time. The invariant \<open>fc_inv\<close> gives every ring to one handle, to the free list or to nobody and reuses the invariant of a ring from
    \<open>Local_Queue_Conc\<close>. All steps are defined, nothing is lost or duplicated, a call of a handle is wait-free, and at rest the state is one of the sequential model. With a
    second consumer the race of \<open>Local_Queue_Conc\<close> is back; with more than \<open>kQueueMaxCount\<close> rings the double release of \<open>Fast_Queue_Props\<close> is.
  \<^item> \<open>Fast_Queue_Alone\<close>: without interference these steps are the constructor, \<open>push_hard\<close> and \<open>pop_hard\<close> of \<open>Fast_Queue\<close>.
  \<^item> \<open>Ready_Queue\<close>: the contract the scheduler relies on, as the locale \<open>handle_queue\<close>, interpreted by the model's
    own queue while at most one ring is in use: a FIFO queue.
  \<^item> \<open>Coroutine\<close>: fibers, futures, triggers, the pool and the worker's step. A user program is a script, the list of the library calls a
    fiber makes; code between the calls does not touch the pool. \<open>pool_poll\<close> takes a task
    and runs it until it leaves its stack, \<open>pool_settle\<close> is what the worker does afterwards; they are two steps since other threads can
    run in between. \<open>as_machine\<close> and \<open>entry_main\<close> are the loop of the main thread and \<open>main\<close>.
  \<^item> \<open>Wait_Graph\<close>, \<open>Coroutine_Props\<close>: the invariant that ties every waiting fiber to a task that will
    notify it, that each step keeps it and makes a weight smaller, and so that \<open>main\<close> returns; what \<open>notify\<close> does; a second
    notification, a lost wake-up and an exhausted wait queue.
  \<^item> \<open>Pool_Workers\<close>, \<open>Pool_Workers_Props\<close>: several workers on one pool in interleaving, a step for every library call and for every
    action by which a worker puts a fiber away; a timer may fire at any moment. A call of the ready queue is entered in one step and left in
    another; what two overlapping calls do is not defined here, since two consumers can lose a task (\<open>Local_Queue_Conc\<close>), and the theorems are about the schedules
    without overlap (\<open>calls_apart\<close>). The invariant \<open>fleet\<close> gives every live task to the ready queue, to one worker
    or to a wait that another live task will end. Programs of \<open>yield\<close>, \<open>go\<close> and \<open>await(func)\<close> run safely in every such schedule and end in every fair one; a
    worker alone does what \<open>pool_work\<close> does; the wake-up by a timer can be lost.
  \<^item> \<open>Pool_Types\<close>: for programs of any kind, in every schedule, the numbers of tasks and triggers in queues, workers, timers and scripts are numbers of tasks and triggers that were made; an
    invariant of the raw memory of the containers. It is about mixed-up references only: nothing is ever freed in the model.
  \<^item> \<open>Fiber_Port\<close>: \<open>ToFiber\<close> and the rest of \<open>fiber_port.cc\<close>, the thread-local \<open>FiberData\<close> and \<open>FiberTask::call\<close>, over a record of the system's fiber functions.
    As long as no ended fiber is called and every fiber can be created, every call returns to its own worker with the status that \<open>Coroutine\<close> assumes; a fiber that
    enters another one directly goes astray, and a fiber that cannot be created lets the call of one task run another one.
  \<^item> \<open>Machine_Pool\<close>: \<open>Machine\<close>, and \<open>resize\<close>, \<open>close\<close>, \<open>report\<close> and the destructor of \<open>ThreadPool\<close>. Every machine is joined before
    it is destroyed, whatever the sequence of sizes.
  \<^item> \<open>Channel\<close>: both kinds of \<open>Channel\<close> as step functions on the shared state, the program counters of the
    threads and that of the scheduler thread. The locale \<open>fifo_steps\<close> is interpreted by both: FIFO order and capacity in every
    interleaving; a receiver can be forgotten.
  \<^item> \<open>String_Util\<close>, \<open>Protocol\<close>: \<open>StringUtil\<close> (\<open>util.h\<close>) and the frames of the chat demo (\<open>protocol.h\<close>), as byte strings. The two \<open>split\<close>
    functions against a specification of the words of a string; layout of frames; round trips from the
    frame to the printed message.
  \<^item> \<open>Arena_Layout\<close>, \<open>Arena\<close>, \<open>Arena_Props\<close>: size classes, address arithmetic, the page table, \<open>Init\<close>, \<open>Malloc\<close> and \<open>Free\<close> of \<open>arena.h\<close>,
    with page headers and the links inside free objects as maps from handles and addresses. The size
    classes fit; two ways in which \<open>Malloc\<close> goes wrong.
  \<^item> \<open>Arena_Spans\<close>, \<open>Arena_Safety\<close>, \<open>Arena_Merge\<close>: the invariant \<open>page_heap\<close> of the page table. A ghost map from
    the first page of a span to what the span is (free, a large object, a bin of small ones) tiles the committed pages, and
    each free list is a doubly linked list of exactly the free spans of its length. Splitting, growing, allocating, and freeing with its merging of both neighbours
    keep it, and they leave the bins alone.
  \<^item> \<open>Arena_Bins\<close>: the invariant \<open>bins_ok\<close> of the pages of small objects: the free objects of a page form a chain whose last
    element has never been used. Taking an object, opening a page and giving an object back.
  \<^item> \<open>Arena_Objects\<close>, \<open>Arena_Runs\<close>: the objects in use. \<open>Malloc\<close> adds one and leaves the others, a sound \<open>Free\<close> (\<open>free_safe\<close>) takes exactly one away, and
    arbitrary writes of the program into its objects (\<open>arena_write\<close>) do not disturb the arena; so over every run the live objects are
    disjoint and inside the heap, and \<open>Malloc\<close> fails only when the address space is used up or the system refuses to commit memory.
  \<^item> \<open>Allocator\<close>: the STL allocator of \<open>allocator.h\<close> and the size that it asks for.
  \<^item> \<open>Arena_Port\<close>: both ports of \<open>arena_port.h\<close> over a record of the memory functions of the system, the reservation in \<open>Init\<close> and the destructor.
    On Windows no reservation is ever released, on Linux none is made.
  \<^item> \<open>Socket\<close>, \<open>Socket_Props\<close>: \<open>WSAProof\<close>, \<open>Client\<close> and \<open>Server\<close> of \<open>socket.h\<close>. The functions of the operating system are the fields of the
    record \<open>winsock\<close> over an arbitrary state of the system; \<open>accept\<close> and \<open>recv\<close> may block. Connecting on every branch and the handles it leaks; the
    threads of a closed server come to rest, and they wait for their peers only; the rows of the connection table that a serving thread owns, the numbers
    of the clients, and the race between two acceptances.
  \<^item> \<open>String_Hash\<close>: the hash of \<open>level_hash.h\<close>, as a polynomial modulo a power of two.
  \<^item> \<open>Cotimer\<close>: the stop-watch of \<open>cotimer.h\<close> with its thread-local time points, and the date as text.
  \<^item> \<open>Corand\<close>: the random numbers of \<open>corand.h\<close>, with a rounding after every floating-point operation and the generator as an argument. The ranges
    of all operations, and \<open>pop_hard\<close> with the start index that it draws.
  \<^item> \<open>Colog\<close>: \<open>colog.h\<close>, its thread numbers, lines and colours: threads around the lock, the buffer of the stream and the console that shows
    what the buffer lets out in the colour of that moment.

  \<^bold>\<open>Bounds and fuel.\<close>
  The constants are the program's: rings of 32 elements, at most \<open>kQueueMaxCount\<close> rings, ten retries of a
  handle, 1000 places in the wait queue. \<open>fq_pop\<close> and \<open>as_machine\<close> take fuel since the loops may run for
  ever; running out is the value \<open>None\<close>, apart from every result of the code. \<open>entry_main_returns\<close> shows
  that the weight of the script plus the idle limit of the loop is enough fuel, so the loop ends, and \<open>fq_pop_never_fails\<close> that no fuel
  makes \<open>pop\<close> report an empty queue. \<open>fc_wait_free\<close> bounds the steps of a call of a handle by 199. \<open>workers_finish\<close> bounds the rounds of a fair schedule by \<open>8 * effort s + 3\<close>, each with two steps of every worker, enough to enter and leave the ready queue. The thread of a
  machine reads its flag from a sequence of values, the ones that it sees.

  \<^bold>\<open>What is assumed.\<close>
  Random start indices are arguments, in the range that \<open>Corand\<close> establishes from the documented range of the generator (\<open>draws_ok\<close>) and the error of
  a rounding (\<open>rounds_ok\<close>). Memory is sequentially consistent
  where steps interleave. In the models of the scheduler a library call of a fiber is atomic and calls of \<open>FastQueue\<close> do not
  overlap (\<open>calls_apart\<close>); \<open>Fast_Queue_Conc\<close> has the calls of handles overlap with one another and with one consumer. A switch makes the given fiber the current one of the calling thread and of no other, and a
  new fiber is none of the existing ones (\<open>fiber_api_ok\<close>). Strings
  are shorter than \<open>2 ^ 31\<close> bytes and integers are little-endian. Which ranges the system commits is an argument of the arena (\<open>ar_commits\<close>), with the Linux port, which refuses none, as an instance. What the socket theorems need of the system are named hypotheses:
  \<open>tracks_handles\<close> (an open call adds the handle that it returns, a close call removes it),
  \<open>binds_quietly\<close> (\<open>bind\<close> opens nothing) and \<open>keeps_rows\<close> (user code leaves the
  connection table alone).

  \<^bold>\<open>What is not modelled.\<close>
  The memory, fiber and socket functions of the operating system, its clock and the random generator of the standard library are parameters. The values that futures carry are user data. Tasks and triggers are never freed: the lifetimes
  of shared objects, and of the plain pointer to a trigger that a timer gets, are left out. Elapsed times are in ticks of the clock. The table class of \<open>level_hash.h\<close> has
  no operations yet. Debug output of the arena and the tests are left out.

  \<^bold>\<open>What may be added.\<close>
  The release of an empty page of a bin by \<open>Free\<close>; the parsing loops of the demo's server and client.
\<close>

end
